(* ===== verification/SgxPrelude.thy ===== *)
theory SgxPrelude
  imports Main "HOL-Library.Word"
begin

unbundle bit_operations_syntax

text \<open>
  Shared vocabulary of the development: the machine integers of the C and C++ sources, the
  faults a modelled operation can raise, the state-and-fault computations the stateful
  components are written in, and the generic facts on words, lists and maps that the
  component theories use.
\<close>

section \<open>Machine integers\<close>

type_synonym u8 = "8 word"
type_synonym u16 = "16 word"
type_synonym u32 = "32 word"
type_synonym u64 = "64 word"

named_theorems word_views "reading packed words as natural numbers"

abbreviation UINT64_MAX :: u64 where
  "UINT64_MAX \<equiv> - 1"

lemma unat_UINT64_MAX [simp]: "unat UINT64_MAX = 2 ^ 64 - 1"
  by (simp add: unsigned_minus_1_eq_mask mask_eq_exp_minus_1)

lemma unat_ucast_down_u8 [word_views]:
  "unat (ucast (u :: u32) :: u8) = unat u mod 256"
  by (simp add: unsigned_ucast_eq take_bit_eq_mod)

lemma unat_ucast_u16_u8 [word_views]:
  "unat (ucast (u :: u16) :: u8) = unat u mod 256"
  by (simp add: unsigned_ucast_eq take_bit_eq_mod)

lemma unat_ucast_down_u16 [word_views]:
  "unat (ucast (u :: u32) :: u16) = unat u mod 65536"
  by (simp add: unsigned_ucast_eq take_bit_eq_mod)

lemma unat_drop_bit_div [word_views]:
  "unat (drop_bit n (u :: 'a :: len word)) = unat u div 2 ^ n"
  by (simp add: unat_drop_bit_eq del: drop_bit_eq_div) (simp add: drop_bit_eq_div)

lemma u8_bound: "unat (b :: u8) < 256"
  using unsigned_less [of b] by simp

lemma unat_ucast_up_u8 [word_views]:
  "unat (ucast (b :: u8) :: u32) = unat b"
  using u8_bound [of b] by (simp add: unsigned_ucast_eq take_bit_nat_eq_self)

lemma ucast_ucast_u8 [simp]: "(ucast (ucast (b :: u8) :: u32) :: u8) = b"
  using u8_bound [of b] by (simp add: word_unat_eq_iff word_views)

lemma of_nat_u8_eq_iff:
  assumes "a \<le> b" and "b < a + 256"
  shows "(of_nat a :: u8) = of_nat b \<longleftrightarrow> a = b"
proof
  assume "(of_nat a :: u8) = of_nat b"
  then have "b mod 256 = a mod 256"
    by (simp add: word_of_nat_eq_iff take_bit_eq_mod)
  then have "256 dvd b - a"
    using assms(1) by (simp add: mod_eq_dvd_iff_nat)
  moreover have "b - a < 256" using assms by linarith
  ultimately have "b - a = 0" using nat_dvd_not_less by blast
  with assms(1) show "a = b" by simp
qed simp

text \<open>Horner's form of a little-endian word: peeling one byte off.\<close>

lemma byte_mod: "a < 256 \<Longrightarrow> (a + 256 * (x :: nat)) mod 256 = a"
  by simp

lemma byte_div: "a < 256 \<Longrightarrow> (a + 256 * (x :: nat)) div 256 = x"
  by simp

section \<open>Bytes in memory\<close>

fun le_word :: "u8 list \<Rightarrow> u64" where
  "le_word [] = 0"
| "le_word (b # bs) = ucast b OR push_bit 8 (le_word bs)"

fun le_bytes :: "nat \<Rightarrow> u64 \<Rightarrow> u8 list" where
  "le_bytes 0 w = []"
| "le_bytes (Suc n) w = ucast w # le_bytes n (drop_bit 8 w)"

lemma length_le_bytes [simp]: "length (le_bytes n w) = n"
  by (induction n arbitrary: w) simp_all

lemma le_word_bytes: "le_word (le_bytes n w) = take_bit (8 * n) w"
proof (induction n arbitrary: w)
  case (Suc n)
  have "ucast (ucast w :: u8) OR push_bit 8 (take_bit (8 * n) (drop_bit 8 w)) = take_bit (8 + 8 * n) w"
    by (rule bit_word_eqI) (auto simp: bit_simps)
  with Suc show ?case by (simp add: algebra_simps)
qed simp

lemma le_round [simp]: "le_word (le_bytes 8 w) = w"
  using take_bit_length_eq [of w] by (simp add: le_word_bytes)

section \<open>Faults and stateful computations\<close>

text \<open>
  How an operation can stop before its end: a C++ exception, a dereferenced null pointer, an
  access outside an object or to a freed one, a division by zero, a spin lock that no other thread will release, a failed assertion,
  a recursion that does not end, or \<open>exit\<close>.
\<close>

datatype fault =
    StdException
  | NullDeref
  | OutOfRange
  | Spin
  | AssertFailed
  | Diverge
  | BadSql
  | DivZero
  | UseAfterFree
  | Exit int

type_synonym ('s, 'a) comp = "'s \<Rightarrow> (fault + 'a) \<times> 's"

definition c_ret :: "'a \<Rightarrow> ('s, 'a) comp" where
  "c_ret x s = (Inr x, s)"

definition c_fail :: "fault \<Rightarrow> ('s, 'a) comp" where
  "c_fail e s = (Inl e, s)"

definition c_bind :: "('s, 'a) comp \<Rightarrow> ('a \<Rightarrow> ('s, 'b) comp) \<Rightarrow> ('s, 'b) comp" where
  "c_bind m f s = (case m s of (Inl e, s') \<Rightarrow> (Inl e, s') | (Inr x, s') \<Rightarrow> f x s')"

definition c_then :: "('s, 'a) comp \<Rightarrow> ('s, 'b) comp \<Rightarrow> ('s, 'b) comp" where
  "c_then m k = c_bind m (\<lambda>_. k)"

definition c_get :: "('s \<Rightarrow> 'a) \<Rightarrow> ('s, 'a) comp" where
  "c_get f s = (Inr (f s), s)"

definition c_upd :: "('s \<Rightarrow> 's) \<Rightarrow> ('s, unit) comp" where
  "c_upd f s = (Inr (), f s)"

text \<open>Reading through a pointer that may be null.\<close>

definition c_some :: "'a option \<Rightarrow> ('s, 'a) comp" where
  "c_some x = (case x of None \<Rightarrow> c_fail NullDeref | Some y \<Rightarrow> c_ret y)"

fun c_each :: "('a \<Rightarrow> ('s, unit) comp) \<Rightarrow> 'a list \<Rightarrow> ('s, unit) comp" where
  "c_each f [] = c_ret ()"
| "c_each f (x # xs) = c_then (f x) (c_each f xs)"

named_theorems comp_simps "execution of stateful computations"

lemma c_bind_eq [comp_simps]:
  "m s = (Inr x, s') \<Longrightarrow> c_bind m f s = f x s'"
  "m s = (Inl e, s') \<Longrightarrow> c_bind m f s = (Inl e, s')"
  by (simp_all add: c_bind_def)

lemma c_then_eq [comp_simps]:
  "m s = (Inr x, s') \<Longrightarrow> c_then m k s = k s'"
  "m s = (Inl e, s') \<Longrightarrow> c_then m k s = (Inl e, s')"
  by (simp_all add: c_then_def c_bind_def)

lemma c_prim [simp, comp_simps]:
  "c_ret x s = (Inr x, s)" "c_fail e s = (Inl e, s)" "c_get f s = (Inr (f s), s)"
  "c_upd g s = (Inr (), g s)" "c_some (Some x) s = (Inr x, s)" "c_some None s = (Inl NullDeref, s)"
  by (simp_all add: c_ret_def c_fail_def c_get_def c_upd_def c_some_def)

lemma c_each_append:
  "c_each f (xs @ ys) s = c_then (c_each f xs) (c_each f ys) s"
  by (induction xs arbitrary: s) (auto simp: c_then_def c_bind_def split: prod.splits sum.splits)

text \<open>A computation keeps a predicate when it holds afterwards whatever the result is.\<close>

definition c_keeps :: "('s \<Rightarrow> bool) \<Rightarrow> ('s, 'a) comp \<Rightarrow> bool" where
  "c_keeps P m \<longleftrightarrow> (\<forall>s. P s \<longrightarrow> P (snd (m s)))"

named_theorems keeps "what computations keep"

lemma c_keepsI: "(\<And>s. P s \<Longrightarrow> P (snd (m s))) \<Longrightarrow> c_keeps P m"
  by (simp add: c_keeps_def)

lemma c_keeps_prim [keeps]: "c_keeps P (c_ret x)" "c_keeps P (c_fail e)" "c_keeps P (c_get f)" "c_keeps P (c_some v)"
  by (simp_all add: c_keeps_def c_some_def split: option.split)

lemma c_keeps_upd: "(\<And>s. P s \<Longrightarrow> P (f s)) \<Longrightarrow> c_keeps P (c_upd f)"
  by (simp add: c_keeps_def)

lemma c_keeps_bind [keeps]: "c_keeps P m \<Longrightarrow> (\<And>x. c_keeps P (f x)) \<Longrightarrow> c_keeps P (c_bind m f)"
  unfolding c_keeps_def c_bind_def by (auto split: prod.splits sum.splits)

lemma c_keeps_then [keeps]: "c_keeps P m \<Longrightarrow> c_keeps P k \<Longrightarrow> c_keeps P (c_then m k)"
  unfolding c_then_def by (rule c_keeps_bind)

lemma c_keeps_each [keeps]: "(\<And>x. x \<in> set xs \<Longrightarrow> c_keeps P (f x)) \<Longrightarrow> c_keeps P (c_each f xs)"
  by (induction xs) (auto intro: keeps)

lemma c_keeps_if [keeps]: "c_keeps P m \<Longrightarrow> c_keeps P k \<Longrightarrow> c_keeps P (if b then m else k)"
  by simp

lemma c_keeps_option [keeps]:
  "c_keeps P m \<Longrightarrow> (\<And>x. c_keeps P (k x)) \<Longrightarrow> c_keeps P (case v of None \<Rightarrow> m | Some x \<Rightarrow> k x)"
  by (cases v) simp_all

lemma c_keeps_prod [keeps]: "(\<And>x y. c_keeps P (k x y)) \<Longrightarrow> c_keeps P (case v of (x, y) \<Rightarrow> k x y)"
  by (cases v) simp

end
