(* ===== verification/UrtsAep.thy ===== *)
theory UrtsAep
  imports SgxPrelude
begin

text \<open>
  The entry point for asynchronous exits, the assembly of \<open>__new_aep_prologue\<close> in \<^verbatim>\<open>src/logger/src/urts_calls.cpp\<close>: it saves the registers the resume instruction
  needs, calls the handler and resumes the enclave. What the handler does to the machine is an argument.
\<close>

section \<open>The machine\<close>

datatype areg = RAX | RBX | RCX

datatype ainstr =
    Push areg
  | Pop areg
  | CmpRax u64
  | Je nat
  | LeaRax int
  | Ret
  | CallHandler
  | Enclu
  | Ud2

record acpu =
  a_regs :: "areg \<Rightarrow> u64"
  a_stack :: "u64 list"
  a_zf :: bool

text \<open>The bytes of an instruction.\<close>

fun isize :: "ainstr \<Rightarrow> nat" where
  "isize (Push r) = 1"
| "isize (Pop r) = 1"
| "isize (CmpRax v) = 4"
| "isize (Je n) = 2"
| "isize (LeaRax d) = 7"
| "isize Ret = 1"
| "isize CallHandler = 5"
| "isize Enclu = 3"
| "isize Ud2 = 2"

text \<open>The code; the jump goes to an index of the list.\<close>

definition new_aep :: "ainstr list" where
  "new_aep = [Push RAX, Push RBX, Push RCX, CmpRax 3, Je 7, LeaRax (-0x0d), Ret, CallHandler, Pop RCX, Pop RBX, Pop RAX, Enclu, Ud2]"

definition addr_after :: "u64 \<Rightarrow> nat \<Rightarrow> u64" where
  "addr_after base k = base + of_nat (sum_list (map isize (take (Suc k) new_aep)))"

text \<open>How the code is left: by an enclave instruction, or by a return to an address.\<close>

datatype aep_exit = Enclu_with acpu | Returned u64 acpu

fun pop_stack :: "acpu \<Rightarrow> (u64 \<times> acpu) option" where
  "pop_stack c = (case a_stack c of [] \<Rightarrow> None | v # vs \<Rightarrow> Some (v, c\<lparr>a_stack := vs\<rparr>))"

fun aep_run :: "nat \<Rightarrow> (acpu \<Rightarrow> acpu) \<Rightarrow> u64 \<Rightarrow> nat \<Rightarrow> acpu \<Rightarrow> aep_exit option" where
  "aep_run 0 h base k c = None"
| "aep_run (Suc n) h base k c =
     (if length new_aep \<le> k then None
      else case new_aep ! k of
        Push r \<Rightarrow> aep_run n h base (k + 1) (c\<lparr>a_stack := a_regs c r # a_stack c\<rparr>)
      | Pop r \<Rightarrow> (case pop_stack c of None \<Rightarrow> None | Some (v, c') \<Rightarrow> aep_run n h base (k + 1) (c'\<lparr>a_regs := (a_regs c')(r := v)\<rparr>))
      | CmpRax v \<Rightarrow> aep_run n h base (k + 1) (c\<lparr>a_zf := (a_regs c RAX = v)\<rparr>)
      | Je t \<Rightarrow> aep_run n h base (if a_zf c then t else k + 1) c
      | LeaRax d \<Rightarrow> aep_run n h base (k + 1) (c\<lparr>a_regs := (a_regs c)(RAX := addr_after base k + of_int d)\<rparr>)
      | Ret \<Rightarrow> map_option (\<lambda>(v, c'). Returned v c') (pop_stack c)
      | CallHandler \<Rightarrow> aep_run n h base (k + 1) (h c)
      | Enclu \<Rightarrow> Some (Enclu_with c)
      | Ud2 \<Rightarrow> None)"

text \<open>Fifteen steps are more than the code has.\<close>

definition new_aep_run :: "(acpu \<Rightarrow> acpu) \<Rightarrow> u64 \<Rightarrow> acpu \<Rightarrow> aep_exit option" where
  "new_aep_run h base c = aep_run 15 h base 0 c"

section \<open>Exits are transparent\<close>

lemmas aep_steps = new_aep_run_def new_aep_def eval_nat_numeral

text \<open>An exit, which arrives with 3 in the first register, runs the handler once and resumes the enclave with the three registers and the stack as they were, whatever
  the handler does to the registers.\<close>

lemma aex_resumes:
  assumes "a_regs c RAX = 3" "\<And>c. a_stack (h c) = a_stack c"
  shows "\<exists>c'. new_aep_run h base c = Some (Enclu_with c') \<and> a_stack c' = a_stack c \<and> a_regs c' = a_regs c"
  using assms(1) by (simp add: aep_steps assms(2)) (rule ext, rename_tac r, case_tac r; simp)

text \<open>Otherwise the code means to return its own address, but it returns to what is in the third register, with the address of its fourth instruction.\<close>

lemma get_aep_returns_to_rcx:
  assumes "a_regs c RAX \<noteq> 3"
  shows "\<exists>c'. new_aep_run h base c = Some (Returned (a_regs c RCX) c') \<and> a_regs c' RAX = base + 3 \<and> a_stack c' = a_regs c RBX # a_regs c RAX # a_stack c"
  using assms by (simp add: aep_steps addr_after_def)

end
