(* ===== verification/Rwlock.thy ===== *)
theory Rwlock
  imports SgxPrelude
begin

unbundle bit_operations_syntax

text \<open>
  The ticket reader-writer spin lock of \<^verbatim>\<open>src/common/rwlock.h\<close> and
  \<^verbatim>\<open>src/common/rwlock.cpp\<close>, which guards every shared structure of the logger and of the
  working set analyser.
\<close>

section \<open>The lock word\<close>

record rwlock_t =
  rw_write :: u8
  rw_read :: u8
  rw_users :: u8
  rw_pad :: u8

definition rw_u :: "rwlock_t \<Rightarrow> u32" where
  "rw_u l = ucast (rw_write l) + 2 ^ 8 * ucast (rw_read l) + 2 ^ 16 * ucast (rw_users l)
     + 2 ^ 24 * ucast (rw_pad l)"

definition rw_of_u :: "u32 \<Rightarrow> rwlock_t" where
  "rw_of_u u = \<lparr>rw_write = ucast u, rw_read = ucast (drop_bit 8 u),
     rw_users = ucast (drop_bit 16 u), rw_pad = ucast (drop_bit 24 u)\<rparr>"

definition rw_us :: "rwlock_t \<Rightarrow> u16" where
  "rw_us l = ucast (rw_write l) + 2 ^ 8 * ucast (rw_read l)"

definition rw_set_us :: "u16 \<Rightarrow> rwlock_t \<Rightarrow> rwlock_t" where
  "rw_set_us v l = l\<lparr>rw_write := ucast v, rw_read := ucast (drop_bit 8 v)\<rparr>"

definition rw_zero :: rwlock_t where
  "rw_zero = \<lparr>rw_write = 0, rw_read = 0, rw_users = 0, rw_pad = 0\<rparr>"

definition atomic_xadd :: "rwlock_t \<Rightarrow> u32 \<Rightarrow> u32 \<times> rwlock_t" where
  "atomic_xadd l v = (rw_u l, rw_of_u (rw_u l + v))"

definition cmpxchg :: "rwlock_t \<Rightarrow> u32 \<Rightarrow> u32 \<Rightarrow> u32 \<times> rwlock_t" where
  "cmpxchg l cmp new = (rw_u l, if rw_u l = cmp then rw_of_u new else l)"

definition EBUSY :: int where
  "EBUSY = 16"

section \<open>The operations, one thread at a time\<close>

text \<open>
  The first two statements of \<open>write_lock\<close> and of \<open>read_lock\<close> are the same: draw a ticket.
\<close>

definition take_ticket :: "rwlock_t \<Rightarrow> u8 \<times> rwlock_t" where
  "take_ticket l =
     (let (me, l') = atomic_xadd l (push_bit 16 1) in (ucast (drop_bit 16 me), l'))"

definition write_lock :: "rwlock_t \<Rightarrow> rwlock_t option" where
  "write_lock l = (let (val, l') = take_ticket l in if val = rw_write l' then Some l' else None)"

definition write_incr :: "rwlock_t \<Rightarrow> rwlock_t" where
  "write_incr t = t\<lparr>rw_write := rw_write t + 1, rw_read := rw_read t + 1\<rparr>"

definition write_unlock :: "rwlock_t \<Rightarrow> rwlock_t" where
  "write_unlock l = (let t = l in rw_set_us (rw_us (write_incr t)) l)"

definition write_trylock_cas :: "u32 \<Rightarrow> u32 \<Rightarrow> rwlock_t \<Rightarrow> int \<times> rwlock_t" where
  "write_trylock_cas me rd l =
     (let menew = (ucast me + 1 :: u8);
          cmp = push_bit 16 me + rd + me;
          cmpnew = push_bit 16 (ucast menew) + rd + me;
          (old, l') = cmpxchg l cmp cmpnew
      in if old = cmp then (0, l') else (EBUSY, l'))"

definition write_trylock :: "rwlock_t \<Rightarrow> int \<times> rwlock_t" where
  "write_trylock l = write_trylock_cas (ucast (rw_users l)) (push_bit 8 (ucast (rw_read l))) l"

definition read_lock :: "rwlock_t \<Rightarrow> rwlock_t option" where
  "read_lock l = (let (val, l') = take_ticket l in
     if val = rw_read l' then Some (l'\<lparr>rw_read := rw_read l' + 1\<rparr>) else None)"

definition read_unlock :: "rwlock_t \<Rightarrow> rwlock_t" where
  "read_unlock l = l\<lparr>rw_write := rw_write l + 1\<rparr>"

definition read_trylock_cas :: "u32 \<Rightarrow> u32 \<Rightarrow> rwlock_t \<Rightarrow> int \<times> rwlock_t" where
  "read_trylock_cas me wr l =
     (let menew = (ucast me + 1 :: u8);
          cmp = push_bit 16 me + push_bit 8 me + wr;
          cmpnew = push_bit 16 (ucast menew) + push_bit 8 (ucast menew) + wr;
          (old, l') = cmpxchg l cmp cmpnew
      in if old = cmp then (0, l') else (EBUSY, l'))"

definition read_trylock :: "rwlock_t \<Rightarrow> int \<times> rwlock_t" where
  "read_trylock l = read_trylock_cas (ucast (rw_users l)) (ucast (rw_write l)) l"

section \<open>The lock word as bytes\<close>

abbreviation horner4 :: "nat \<Rightarrow> nat \<Rightarrow> nat \<Rightarrow> nat \<Rightarrow> nat" where
  "horner4 a b c d \<equiv> a + 256 * (b + 256 * (c + 256 * d))"

lemma horner4_bytes:
  assumes "a < 256" "b < 256" "c < 256"
  shows "horner4 a b c d mod 256 = a" "horner4 a b c d div 2 ^ 8 mod 256 = b"
    "horner4 a b c d div 2 ^ 16 mod 256 = c" "horner4 a b c d div 2 ^ 24 = d"
proof -
  have *: "x div 2 ^ 8 = x div 256" "x div 2 ^ 16 = x div 256 div 256"
    "x div 2 ^ 24 = x div 256 div 256 div 256" for x :: nat
    by (simp_all flip: div_mult2_eq)
  show "horner4 a b c d mod 256 = a" "horner4 a b c d div 2 ^ 8 mod 256 = b"
    "horner4 a b c d div 2 ^ 16 mod 256 = c" "horner4 a b c d div 2 ^ 24 = d"
    unfolding * using assms by (simp_all only: byte_mod byte_div)
qed

definition horner_of :: "rwlock_t \<Rightarrow> nat" where
  "horner_of l =
     horner4 (unat (rw_write l)) (unat (rw_read l)) (unat (rw_users l)) (unat (rw_pad l))"

lemma rw_u_of_nat: "rw_u l = of_nat (horner_of l)"
  by (simp add: rw_u_def horner_of_def algebra_simps)

lemma horner_of_bound: "horner_of l \<le> 4294967295"
proof -
  have "horner_of l \<le> horner4 255 255 255 255"
    using u8_bound [of "rw_write l"] u8_bound [of "rw_read l"] u8_bound [of "rw_users l"]
      u8_bound [of "rw_pad l"]
    unfolding horner_of_def by (intro add_mono mult_le_mono) simp_all
  then show ?thesis by simp
qed

lemma unat_rw_u: "unat (rw_u l) = horner_of l"
  using horner_of_bound [of l] by (simp add: rw_u_of_nat unat_of_nat)

lemma rwlock_eqI:
  "\<lbrakk>unat (rw_write a) = unat (rw_write b); unat (rw_read a) = unat (rw_read b);
    unat (rw_users a) = unat (rw_users b); unat (rw_pad a) = unat (rw_pad b)\<rbrakk>
   \<Longrightarrow> a = (b :: rwlock_t)"
  by (cases a; cases b) (simp add: word_unat_eq_iff)

lemma rw_of_u_u [simp]: "rw_of_u (rw_u l) = l"
  by (intro rwlock_eqI)
    (simp_all only: rw_of_u_def rwlock_t.simps word_views unat_rw_u horner_of_def horner4_bytes
       u8_bound mod_less)

lemma rw_u_inject [simp]: "rw_u a = rw_u b \<longleftrightarrow> a = b"
  by (metis rw_of_u_u)

lemma rw_u_simps:
  "rw_u \<lparr>rw_write = a, rw_read = b, rw_users = c, rw_pad = d\<rparr> =
     ucast a + 2 ^ 8 * ucast b + 2 ^ 16 * ucast c + 2 ^ 24 * ucast d"
  by (simp add: rw_u_def)

lemma ucast_u8_plus1: "(ucast (b + 1 :: u8) :: u32) = (if b = 255 then 0 else ucast b + 1)"
proof -
  have "unat (ucast (b + 1 :: u8) :: u32) = unat (if b = 255 then 0 else ucast b + 1 :: u32)"
    using u8_bound [of b]
    by (auto simp: word_views unat_word_ariths word_unat_eq_iff)
  then show ?thesis by (simp only: word_unat_eq_iff)
qed

lemma shifted_u8_plus1: "2 ^ 24 * (ucast (b + 1 :: u8) :: u32) = 2 ^ 24 * ucast b + 2 ^ 24"
  by (simp add: ucast_u8_plus1 distrib_left)

lemma take_ticket_eq:
  "take_ticket l = (rw_users l,
     l\<lparr>rw_users := rw_users l + 1,
       rw_pad := rw_pad l + (if rw_users l = 255 then 1 else 0)\<rparr>)"
proof -
  let ?l = "l\<lparr>rw_users := rw_users l + 1,
       rw_pad := rw_pad l + (if rw_users l = 255 then 1 else 0)\<rparr>"
  have "rw_u l + push_bit 16 1 = rw_u ?l"
    by (cases "rw_users l = 255")
      (simp_all add: rw_u_def ucast_u8_plus1 shifted_u8_plus1 push_bit_eq_mult distrib_left)
  moreover have "ucast (drop_bit 16 (rw_u l)) = rw_users l"
    by (rule word_unat_eq_iff [THEN iffD2])
      (simp only: word_views unat_rw_u horner_of_def horner4_bytes u8_bound)
  ultimately show ?thesis
    by (simp add: take_ticket_def atomic_xadd_def)
qed

lemma unat_rw_us: "unat (rw_us l) = unat (rw_write l) + 256 * unat (rw_read l)"
proof -
  have "unat (rw_write l) + 256 * unat (rw_read l) \<le> 255 + 256 * 255"
    using u8_bound [of "rw_write l"] u8_bound [of "rw_read l"]
    by (intro add_mono mult_le_mono) simp_all
  moreover have "rw_us l = of_nat (unat (rw_write l) + 256 * unat (rw_read l))"
    by (simp add: rw_us_def)
  ultimately show ?thesis
    by (simp add: unat_of_nat del: of_nat_add of_nat_mult)
qed

lemma rw_set_us_us [simp]:
  "rw_set_us (rw_us t) l = l\<lparr>rw_write := rw_write t, rw_read := rw_read t\<rparr>"
  using u8_bound [of "rw_write t"] u8_bound [of "rw_read t"]
  by (intro rwlock_eqI) (simp_all add: rw_set_us_def word_views unat_rw_us)

lemma write_unlock_eq: "write_unlock l = write_incr l"
  by (simp add: write_unlock_def write_incr_def)

lemma write_trylock_cas_eq:
  "write_trylock_cas (ucast me) (push_bit 8 (ucast rd)) l =
     (if rw_write l = me \<and> rw_read l = rd \<and> rw_users l = me \<and> rw_pad l = 0
      then (0, l\<lparr>rw_users := me + 1\<rparr>) else (EBUSY, l))"
proof -
  have cmp: "push_bit 16 (ucast me) + push_bit 8 (ucast rd) + ucast me =
      rw_u \<lparr>rw_write = me, rw_read = rd, rw_users = me, rw_pad = 0\<rparr>" 
    and cmpnew: "push_bit 16 (ucast (me + 1)) + push_bit 8 (ucast rd) + ucast me =
      rw_u \<lparr>rw_write = me, rw_read = rd, rw_users = me + 1, rw_pad = 0\<rparr>" for me rd :: u8
    by (simp_all add: rw_u_def push_bit_eq_mult)
  show ?thesis
    unfolding write_trylock_cas_def Let_def ucast_ucast_u8 cmp cmpnew cmpxchg_def
    by (cases l) auto
qed

lemma read_trylock_cas_eq:
  "read_trylock_cas (ucast me) (ucast wr) l =
     (if rw_write l = wr \<and> rw_read l = me \<and> rw_users l = me \<and> rw_pad l = 0
      then (0, l\<lparr>rw_users := me + 1, rw_read := me + 1\<rparr>) else (EBUSY, l))"
proof -
  have cmp: "push_bit 16 (ucast me) + push_bit 8 (ucast me) + ucast wr =
      rw_u \<lparr>rw_write = wr, rw_read = me, rw_users = me, rw_pad = 0\<rparr>" for me wr :: u8
    by (simp_all add: rw_u_def push_bit_eq_mult)
  show ?thesis
    unfolding read_trylock_cas_def Let_def ucast_ucast_u8 cmp cmpxchg_def
    by (cases l) auto
qed

section \<open>Uncontended use\<close>

definition rw_free :: "rwlock_t \<Rightarrow> bool" where
  "rw_free l \<longleftrightarrow> rw_users l = rw_write l \<and> rw_read l = rw_write l"

lemmas rw_seq_defs = write_lock_def read_lock_def take_ticket_eq write_unlock_eq write_incr_def
  read_unlock_def

lemma write_cycle: "rw_free l \<Longrightarrow> \<exists>l'. write_lock l = Some l' \<and> rw_free (write_unlock l')"
  by (simp add: rw_free_def rw_seq_defs)

lemma read_cycle: "rw_free l \<Longrightarrow> \<exists>l'. read_lock l = Some l' \<and> rw_free (read_unlock l')"
  by (simp add: rw_free_def rw_seq_defs)

text \<open>A thread that asks again for a lock it already holds for writing waits for itself.\<close>

lemma relock_hangs:
  assumes "rw_free l" "write_lock l = Some l'"
  shows "read_lock l' = None" "write_lock l' = None"
  using assms by (auto simp: rw_free_def rw_seq_defs)

text \<open>Nested read acquisitions do not block.\<close>

lemma read_read_ok: "rw_free l \<Longrightarrow> read_lock l = Some l' \<Longrightarrow> read_lock l' \<noteq> None"
  by (auto simp: rw_free_def rw_seq_defs)

lemma read_then_write_hangs: "rw_free l \<Longrightarrow> read_lock l = Some l' \<Longrightarrow> write_lock l' = None"
  by (auto simp: rw_free_def rw_seq_defs)

definition lock_cycle :: "rwlock_t \<Rightarrow> rwlock_t option" where
  "lock_cycle l = map_option write_unlock (write_lock l)"

fun lock_cycles :: "nat \<Rightarrow> rwlock_t \<Rightarrow> rwlock_t option" where
  "lock_cycles 0 l = Some l"
| "lock_cycles (Suc n) l = Option.bind (lock_cycles n l) lock_cycle"

lemma carry_u8: "(of_nat n :: u8) = 255 \<longleftrightarrow> Suc n mod 256 = 0"
proof -
  have "(of_nat n :: u8) = 255 \<longleftrightarrow> (of_nat n :: u8) = of_nat 255" by simp
  also have "\<dots> \<longleftrightarrow> n mod 256 = 255"
    by (simp only: word_of_nat_eq_iff) (simp add: take_bit_eq_mod)
  also have "\<dots> \<longleftrightarrow> Suc n mod 256 = 0" by (simp add: mod_Suc)
  finally show ?thesis .
qed

lemma lock_cycles_eq:
  "lock_cycles n rw_zero = Some \<lparr>rw_write = of_nat n, rw_read = of_nat n, rw_users = of_nat n,
     rw_pad = of_nat (n div 256)\<rparr>"
proof (induction n)
  case 0
  show ?case by (simp add: rw_zero_def)
next
  case (Suc n)
  have "of_nat (Suc n div 256) = (of_nat (n div 256) + (if (of_nat n :: u8) = 255 then 1 else 0) :: u8)"
    by (simp add: carry_u8 div_Suc)
  with Suc show ?case by (simp add: lock_cycle_def rw_seq_defs)
qed

text \<open>after any number of uncontended acquire/release pairs the lock is free again and can be
  acquired, but \<open>write_trylock\<close> and \<open>read_trylock\<close> then succeed only while the carry out of the
  users byte, which the code keeps in the unused top byte of the lock word, is a multiple of 256:
  from 256 acquisitions on, both report \<open>EBUSY\<close> on a free lock.\<close>

lemma trylock_after_cycles:
  "\<exists>l. lock_cycles n rw_zero = Some l \<and> rw_free l \<and> write_lock l \<noteq> None \<and> read_lock l \<noteq> None \<and>
     (fst (write_trylock l) = (if n div 256 mod 256 = 0 then 0 else EBUSY)) \<and>
     (fst (read_trylock l) = (if n div 256 mod 256 = 0 then 0 else EBUSY))"
proof -
  have "(of_nat (n div 256) :: u8) = 0 \<longleftrightarrow> n div 256 mod 256 = 0"
    by (simp only: word_of_nat_eq_0_iff) (simp add: dvd_eq_mod_eq_0)
  then show ?thesis
    by (simp add: lock_cycles_eq rw_free_def rw_seq_defs write_trylock_def read_trylock_def
        write_trylock_cas_eq read_trylock_cas_eq)
qed

end
