(* ===== verification/LockField.thy ===== *)
theory LockField
  imports Rwlock
begin

text \<open>
  Reader-writer locks that are members of a component's state. An operation acquires or releases
  such a member; \<open>lock_field\<close> is the interface of a state that has one, and its lemmas say what
  a critical section does to a free lock.
\<close>

definition acquire ::
  "('s \<Rightarrow> rwlock_t) \<Rightarrow> (rwlock_t \<Rightarrow> 's \<Rightarrow> 's) \<Rightarrow> (rwlock_t \<Rightarrow> rwlock_t option) \<Rightarrow> ('s, unit) comp" where
  "acquire get put lock s = (case lock (get s) of
     None \<Rightarrow> (Inl Spin, s) | Some l \<Rightarrow> (Inr (), put l s))"

definition release ::
  "('s \<Rightarrow> rwlock_t) \<Rightarrow> (rwlock_t \<Rightarrow> 's \<Rightarrow> 's) \<Rightarrow> (rwlock_t \<Rightarrow> rwlock_t) \<Rightarrow> ('s, unit) comp" where
  "release get put unlock s = (Inr (), put (unlock (get s)) s)"

text \<open>The lock word while a section is entered from a free lock, and after it is left.\<close>

definition rd_held :: "rwlock_t \<Rightarrow> rwlock_t" where
  "rd_held l = the (read_lock l)"

definition wr_held :: "rwlock_t \<Rightarrow> rwlock_t" where
  "wr_held l = the (write_lock l)"

lemma read_lock_free: "rw_free l \<Longrightarrow> read_lock l = Some (rd_held l)"
  using read_cycle [of l] by (auto simp: rd_held_def)

lemma write_lock_free: "rw_free l \<Longrightarrow> write_lock l = Some (wr_held l)"
  using write_cycle [of l] by (auto simp: wr_held_def)

lemma rd_cycle_free [simp]: "rw_free l \<Longrightarrow> rw_free (read_unlock (rd_held l))"
  using read_cycle [of l] by (auto simp: rd_held_def)

lemma wr_cycle_free [simp]: "rw_free l \<Longrightarrow> rw_free (write_unlock (wr_held l))"
  using write_cycle [of l] by (auto simp: wr_held_def)

lemma rw_free_zero [simp]: "rw_free rw_zero"
  by (simp add: rw_free_def rw_zero_def)

lemma wr_held_blocks:
  "rw_free l \<Longrightarrow> read_lock (wr_held l) = None" "rw_free l \<Longrightarrow> write_lock (wr_held l) = None"
  using relock_hangs write_lock_free by blast+

lemma rd_held_blocks_writer: "rw_free l \<Longrightarrow> write_lock (rd_held l) = None"
  using read_then_write_hangs read_lock_free by blast

locale lock_field =
  fixes get :: "'s \<Rightarrow> rwlock_t"
    and put :: "rwlock_t \<Rightarrow> 's \<Rightarrow> 's"
  assumes get_put [simp]: "get (put l s) = l"
    and put_put [simp]: "put l (put l' s) = put l s"
    and put_get [simp]: "put (get s) s = s"
begin

lemma acquire_read: "rw_free (get s) \<Longrightarrow> acquire get put read_lock s = (Inr (), put (rd_held (get s)) s)"
  by (simp add: acquire_def read_lock_free)

lemma acquire_write: "rw_free (get s) \<Longrightarrow> acquire get put write_lock s = (Inr (), put (wr_held (get s)) s)"
  by (simp add: acquire_def write_lock_free)

lemma release_eq: "release get put unlock s = (Inr (), put (unlock (get s)) s)"
  by (simp add: release_def)

lemma acquire_write_held:
  "rw_free l \<Longrightarrow> get s = rd_held l \<Longrightarrow> acquire get put write_lock s = (Inl Spin, s)"
  "rw_free l \<Longrightarrow> get s = wr_held l \<Longrightarrow> acquire get put write_lock s = (Inl Spin, s)"
  "rw_free l \<Longrightarrow> get s = wr_held l \<Longrightarrow> acquire get put read_lock s = (Inl Spin, s)"
  by (simp_all add: acquire_def wr_held_blocks rd_held_blocks_writer)

text \<open>A section whose body leaves the lock word alone ends with a free lock, whatever the body
  returns, unless the body stops with a fault.\<close>

lemma read_section:
  assumes "rw_free (get s)" and "body (put (rd_held (get s)) s) = (Inr x, s')"
    and "get s' = rd_held (get s)"
  shows "c_then (acquire get put read_lock)
      (c_bind body (\<lambda>x. c_then (release get put read_unlock) (c_ret x))) s
    = (Inr x, put (read_unlock (rd_held (get s))) s')"
    "rw_free (get (put (read_unlock (rd_held (get s))) s'))"
  using assms by (simp_all add: c_then_def c_bind_def acquire_read release_eq)

lemma write_section:
  assumes "rw_free (get s)" and "body (put (wr_held (get s)) s) = (Inr x, s')"
    and "get s' = wr_held (get s)"
  shows "c_then (acquire get put write_lock)
      (c_bind body (\<lambda>x. c_then (release get put write_unlock) (c_ret x))) s
    = (Inr x, put (write_unlock (wr_held (get s))) s')"
    "rw_free (get (put (write_unlock (wr_held (get s))) s'))"
  using assms by (simp_all add: c_then_def c_bind_def acquire_write release_eq)

end

end
