(* ===== verification/Elfparser.thy ===== *)
theory Elfparser
  imports SgxPrelude
begin

text \<open>
  The symbol lookup of \<^verbatim>\<open>src/common/elfparser.cpp\<close>. What \<open>open\<close>, \<open>stat\<close>/\<open>mmap\<close> and libelf say of a
  file is the argument \<open>env\<close>: the descriptor \<open>open\<close> returns, the section headers with the symbols
  \<open>gelf_getsym\<close> and \<open>elf_strptr\<close> give, and the bytes of the file.
\<close>

record elf_sym =
  st_value :: u64
  st_name :: "string option"

record elf_section =
  sh_type :: u32
  sh_flags :: u64
  sh_addr :: u64
  sh_offset :: u64
  sh_size :: u64
  sh_entsize :: u64
  sec_syms :: "elf_sym list"
  sec_name0 :: "string option"

record elf_env =
  os_open :: "string \<Rightarrow> int"
  elf_sections :: "string \<Rightarrow> elf_section list"
  file_bytes :: "string \<Rightarrow> u8 list"

type_synonym file_map = "(string \<times> int) list"

section \<open>Open files\<close>

text \<open>The loop increments the iterator it has just erased.\<close>

fun closeAllFiles :: "(file_map, unit) comp" where
  "closeAllFiles [] = (Inr (), [])"
| "closeAllFiles (f # fs) = (Inl UseAfterFree, fs)"

definition openOrGetFile :: "elf_env \<Rightarrow> string \<Rightarrow> (file_map, int) comp" where
  "openOrGetFile env path fm =
     (case map_of fm path of
        Some fd \<Rightarrow> (Inr fd, fm)
      | None \<Rightarrow>
          (let fd = os_open env path
           in if fd < 0 then (Inr fd, fm) else (Inr fd, fm @ [(path, fd)])))"

section \<open>Symbol lookup\<close>

abbreviation SHT_PROGBITS :: u32 where "SHT_PROGBITS \<equiv> 1"
abbreviation SHT_SYMTAB :: u32 where "SHT_SYMTAB \<equiv> 2"

text \<open>\<open>SHF_WRITE | SHF_ALLOC\<close> are the two lowest bits.\<close>

definition alloc_or_write :: "u64 \<Rightarrow> bool" where
  "alloc_or_write flags \<longleftrightarrow> bit flags 0 \<or> bit flags 1"

text \<open>A symbol past the end of the table: \<open>gelf_getsym\<close> fails and leaves the zeroed symbol.\<close>

definition get_sym :: "elf_section \<Rightarrow> nat \<Rightarrow> elf_sym" where
  "get_sym sec i =
     (if i < length (sec_syms sec) then sec_syms sec ! i else \<lparr>st_value = 0, st_name = sec_name0 sec\<rparr>)"

datatype sym_result = SymFound elf_sym string | SymNone | SymFault fault

fun scan_syms :: "u64 \<Rightarrow> string \<Rightarrow> elf_sym list \<Rightarrow> sym_result" where
  "scan_syms address name [] = SymNone"
| "scan_syms address name (sy # syms) =
     (if address \<noteq> 0 \<and> st_value sy = address
      then (case st_name sy of None \<Rightarrow> SymFault StdException | Some n \<Rightarrow> SymFound sy n)
      else if name \<noteq> []
      then (case st_name sy of
              None \<Rightarrow> SymFault NullDeref
            | Some n \<Rightarrow> if n = name then SymFound sy n else scan_syms address name syms)
      else scan_syms address name syms)"

definition section_offset :: "elf_section \<Rightarrow> u64 \<Rightarrow> u64" where
  "section_offset sec offset =
     (if sh_type sec = SHT_PROGBITS \<and> alloc_or_write (sh_flags sec) then sh_addr sec - sh_offset sec
      else offset)"

fun scan_sections :: "u64 \<Rightarrow> string \<Rightarrow> u64 \<Rightarrow> elf_section list \<Rightarrow> fault + (elf_sym \<times> string \<times> u64) option" where
  "scan_sections address name offset [] = Inr None"
| "scan_sections address name offset (sec # secs) =
     (let off = section_offset sec offset
      in if sh_type sec = SHT_SYMTAB
         then if sh_entsize sec = 0 then Inl DivZero
         else (case scan_syms address name (map (get_sym sec) [0..<unat (sh_size sec div sh_entsize sec)]) of
                 SymFault f \<Rightarrow> Inl f
               | SymFound sy n \<Rightarrow> Inr (Some (sy, n, off))
               | SymNone \<Rightarrow> scan_sections address name off secs)
         else scan_sections address name off secs)"

definition getSymbolInfo ::
  "elf_env \<Rightarrow> string \<Rightarrow> u64 \<Rightarrow> string \<Rightarrow> (file_map, (elf_sym \<times> string \<times> u64) option) comp" where
  "getSymbolInfo env binary address name =
     c_bind (openOrGetFile env binary) (\<lambda>fd.
       if fd < 0 then c_ret None
       else case scan_sections address name 0 (elf_sections env binary) of
              Inl f \<Rightarrow> c_fail f
            | Inr r \<Rightarrow> c_ret r)"

definition get_address_for_symbol :: "elf_env \<Rightarrow> string \<Rightarrow> string \<Rightarrow> (file_map, u64) comp" where
  "get_address_for_symbol env binary name =
     c_bind (getSymbolInfo env binary 0 name) (\<lambda>r.
       c_ret (case r of None \<Rightarrow> 0 | Some (sy, n, off) \<Rightarrow> st_value sy))"

definition getSymbolForAddress :: "elf_env \<Rightarrow> string \<Rightarrow> u64 \<Rightarrow> (file_map, string) comp" where
  "getSymbolForAddress env binary address =
     c_bind (getSymbolInfo env binary address []) (\<lambda>r.
       c_ret (case r of None \<Rightarrow> [] | Some (sy, n, off) \<Rightarrow> n))"

section \<open>The ecall table of an enclave file\<close>

record ecall_entry =
  ecall_addr :: u64
  is_priv :: u8

text \<open>A mapped file: whole pages, zero after the end of the file.\<close>

definition mapped_byte :: "u8 list \<Rightarrow> nat \<Rightarrow> u8 option" where
  "mapped_byte bs i =
     (if i < length bs then Some (bs ! i)
      else if i < 4096 * ((length bs + 4095) div 4096) then Some 0 else None)"

definition mapped_bytes :: "u8 list \<Rightarrow> nat \<Rightarrow> nat \<Rightarrow> u8 list option" where
  "mapped_bytes bs i n = those (map (mapped_byte bs) [i..<i + n])"

definition read_u64 :: "u8 list \<Rightarrow> nat \<Rightarrow> u64 option" where
  "read_u64 bs i = map_option le_word (mapped_bytes bs i 8)"

definition read_entry :: "u8 list \<Rightarrow> nat \<Rightarrow> nat \<Rightarrow> ecall_entry option" where
  "read_entry bs base c =
     (case (read_u64 bs (base + 8 + 16 * c), mapped_byte bs (base + 16 + 16 * c)) of
        (Some a, Some p) \<Rightarrow> Some \<lparr>ecall_addr = a, is_priv = p\<rparr>
      | _ \<Rightarrow> None)"

definition read_table :: "u8 list \<Rightarrow> nat \<Rightarrow> ecall_entry list option" where
  "read_table bs base =
     (case read_u64 bs base of
        None \<Rightarrow> None
      | Some n \<Rightarrow> those (map (read_entry bs base) [0..<unat n]))"

definition getECallTable :: "elf_env \<Rightarrow> string \<Rightarrow> (file_map, ecall_entry list option) comp" where
  "getECallTable env enclave =
     c_bind (getSymbolInfo env enclave 0 ''g_ecall_table'') (\<lambda>r.
       case r of
         None \<Rightarrow> c_ret None
       | Some (sy, n, off) \<Rightarrow>
           if st_value sy = 0 then c_ret None
           else c_bind (openOrGetFile env enclave) (\<lambda>fd.
             case read_table (file_bytes env enclave) (unat (st_value sy - off)) of
               None \<Rightarrow> c_fail OutOfRange
             | Some t \<Rightarrow> c_ret (Some t)))"

section \<open>Symbol lookup finds the first symbol\<close>

text \<open>The symbols the lookup visits, in order, and a file whose tables it can read.\<close>

definition table_syms :: "elf_section \<Rightarrow> elf_sym list" where
  "table_syms sec = (if sh_type sec = SHT_SYMTAB
     then map (get_sym sec) [0..<unat (sh_size sec div sh_entsize sec)] else [])"

definition readable :: "elf_section list \<Rightarrow> bool" where
  "readable secs \<longleftrightarrow> (\<forall>sec \<in> set secs. (sh_type sec = SHT_SYMTAB \<longrightarrow> sh_entsize sec \<noteq> 0) \<and>
     (\<forall>sy \<in> set (table_syms sec). st_name sy \<noteq> None))"

definition all_syms :: "elf_section list \<Rightarrow> elf_sym list" where
  "all_syms secs = concat (map table_syms secs)"

definition sym_match :: "u64 \<Rightarrow> string \<Rightarrow> elf_sym \<Rightarrow> bool" where
  "sym_match address name sy \<longleftrightarrow> (address \<noteq> 0 \<and> st_value sy = address) \<or> (name \<noteq> [] \<and> st_name sy = Some name)"

lemma scan_syms_find:
  assumes "\<forall>sy \<in> set sys. st_name sy \<noteq> None"
  shows "scan_syms address name sys = (case find (sym_match address name) sys of
     None \<Rightarrow> SymNone | Some sy \<Rightarrow> SymFound sy (the (st_name sy)))"
  using assms by (induction sys) (auto simp: sym_match_def)

lemma find_append: "find P (xs @ ys) = (case find P xs of None \<Rightarrow> find P ys | Some x \<Rightarrow> Some x)"
  by (induction xs) auto

lemma scan_sections_find:
  assumes "readable secs"
  shows "\<exists>r. scan_sections address name offset secs = Inr r \<and>
     map_option (\<lambda>(sy, n, off). (sy, n)) r =
     map_option (\<lambda>sy. (sy, the (st_name sy))) (find (sym_match address name) (all_syms secs))"
  using assms
proof (induction secs arbitrary: offset)
  case Nil
  show ?case by (simp add: all_syms_def)
next
  case (Cons sec secs)
  then have IH: "\<exists>r. scan_sections address name off secs = Inr r \<and>
     map_option (\<lambda>(sy, n, off). (sy, n)) r =
     map_option (\<lambda>sy. (sy, the (st_name sy))) (find (sym_match address name) (all_syms secs))" for off
    by (simp add: readable_def)
  have named: "\<forall>sy \<in> set (table_syms sec). st_name sy \<noteq> None" using Cons.prems by (simp add: readable_def)
  show ?case
  proof (cases "sh_type sec = SHT_SYMTAB")
    case True
    then have "table_syms sec = map (get_sym sec) [0..<unat (sh_size sec div sh_entsize sec)]" "sh_entsize sec \<noteq> 0"
      using Cons.prems by (simp_all add: table_syms_def readable_def)
    then show ?thesis
      using scan_syms_find [OF named, of address name] True IH [of "section_offset sec offset"]
      by (auto simp: Let_def all_syms_def find_append split: option.splits)
  next
    case False
    then show ?thesis
      using IH [of "section_offset sec offset"] by (simp add: Let_def all_syms_def table_syms_def)
  qed
qed

text \<open>C36: in a file that can be opened and whose symbol tables are well formed, the lookup of a
  nonzero address returns the name of the first symbol with that address, and the empty name when
  there is none.\<close>

theorem getSymbolForAddress_first:
  assumes "0 \<le> os_open env binary" and "map_of fm binary = None" and "readable (elf_sections env binary)" and "address \<noteq> 0"
  shows "getSymbolForAddress env binary address fm =
    (Inr (case find (\<lambda>sy. st_value sy = address) (all_syms (elf_sections env binary)) of
            None \<Rightarrow> [] | Some sy \<Rightarrow> the (st_name sy)), fm @ [(binary, os_open env binary)])"
proof -
  have m: "sym_match address [] = (\<lambda>sy. st_value sy = address)" using assms(4) by (auto simp: sym_match_def)
  obtain r where "scan_sections address [] 0 (elf_sections env binary) = Inr r"
    "map_option (\<lambda>(sy, n, off). (sy, n)) r =
     map_option (\<lambda>sy. (sy, the (st_name sy))) (find (\<lambda>sy. st_value sy = address) (all_syms (elf_sections env binary)))"
    using scan_sections_find [OF assms(3), of address "[]" 0] m by auto
  with assms(1,2) show ?thesis
    by (auto simp: getSymbolForAddress_def getSymbolInfo_def c_bind_def openOrGetFile_def Let_def split: option.splits)
qed

section \<open>The copied table is the table of the file\<close>

definition entry_bytes :: "ecall_entry \<Rightarrow> u8 list" where
  "entry_bytes e = le_bytes 8 (ecall_addr e) @ is_priv e # replicate 7 0"

definition table_bytes :: "ecall_entry list \<Rightarrow> u8 list" where
  "table_bytes es = le_bytes 8 (of_nat (length es)) @ concat (map entry_bytes es)"

lemma those_map_Some: "(\<And>x. x \<in> set xs \<Longrightarrow> f x = Some (g x)) \<Longrightarrow> those (map f xs) = Some (map g xs)"
  by (induction xs) auto

lemma mapped_bytes_in: "i + n \<le> length bs \<Longrightarrow> mapped_bytes bs i n = Some (take n (drop i bs))"
proof -
  assume le: "i + n \<le> length bs"
  then have "mapped_bytes bs i n = Some (map ((!) bs) [i..<i + n])"
    unfolding mapped_bytes_def by (intro those_map_Some) (simp add: mapped_byte_def)
  also have "map ((!) bs) [i..<i + n] = take n (drop i bs)"
    using le by (intro nth_equalityI) auto
  finally show ?thesis .
qed

lemma read_u64_at: "read_u64 (pre @ le_bytes 8 w @ post) (length pre) = Some w"
  by (simp add: read_u64_def mapped_bytes_in le_round)

lemma length_entry [simp]: "length (entry_bytes e) = 16"
  by (simp add: entry_bytes_def)

lemma length_entries [simp]: "length (concat (map entry_bytes es)) = 16 * length es"
  by (induction es) simp_all

lemma read_entry_at:
  "base + 8 + 16 * c = length pre \<Longrightarrow> read_entry (pre @ entry_bytes e @ post) base c = Some e"
proof -
  assume b: "base + 8 + 16 * c = length pre"
  have "read_u64 (pre @ entry_bytes e @ post) (base + 8 + 16 * c) = Some (ecall_addr e)"
    using read_u64_at [of pre "ecall_addr e" "is_priv e # replicate 7 0 @ post"] b by (simp add: entry_bytes_def)
  moreover have "mapped_byte (pre @ entry_bytes e @ post) (length pre + 8) = Some (is_priv e)"
    by (simp add: mapped_byte_def entry_bytes_def nth_append)
  moreover have eq: "base + 16 + 16 * c = length pre + 8" using b by simp
  ultimately show ?thesis by (simp only: read_entry_def eq) simp
qed

lemma read_table_at:
  assumes "length es < 2 ^ 64"
  shows "read_table (pre @ table_bytes es @ post) (length pre) = Some es"
proof -
  let ?f = "pre @ table_bytes es @ post"
  have "read_u64 ?f (length pre) = Some (of_nat (length es))"
    using read_u64_at [of pre _ "concat (map entry_bytes es) @ post"] by (simp add: table_bytes_def)
  moreover have "unat (of_nat (length es) :: u64) = length es"
    using assms by (simp add: unat_of_nat)
  moreover have "read_entry ?f (length pre) c = Some (es ! c)" if "c < length es" for c
  proof -
    have "es = take c es @ es ! c # drop (Suc c) es" using that by (simp add: id_take_nth_drop)
    then have "concat (map entry_bytes es) = concat (map entry_bytes (take c es)) @ entry_bytes (es ! c)
        @ concat (map entry_bytes (drop (Suc c) es))"
      by (metis concat.simps(2) concat_append list.simps(9) map_append)
    then show ?thesis
      using read_entry_at [of "length pre" c "pre @ le_bytes 8 (of_nat (length es)) @ concat (map entry_bytes (take c es))" "es ! c"] that
      by (simp add: table_bytes_def)
  qed
  ultimately have "read_table ?f (length pre) = those (map (read_entry ?f (length pre)) [0..<length es])"
    by (simp add: read_table_def)
  also have "\<dots> = Some (map ((!) es) [0..<length es])"
    by (rule those_map_Some) (simp add: \<open>\<And>c. c < length es \<Longrightarrow> read_entry ?f (length pre) c = Some (es ! c)\<close>)
  finally show ?thesis by (simp add: map_nth)
qed

text \<open>C35: \<open>getECallTable\<close> reads back the ecall table that the enclave file holds: when the symbol
  \<open>g_ecall_table\<close> of the file points, after the correction by the section offset, at the encoding of
  a table, that table is what it returns.\<close>

theorem getECallTable_roundtrip:
  assumes "0 \<le> os_open env enclave" and "map_of fm enclave = None"
    and "scan_sections 0 ''g_ecall_table'' 0 (elf_sections env enclave) = Inr (Some (sy, n, off))"
    and "st_value sy \<noteq> 0" and "file_bytes env enclave = pre @ table_bytes es @ post"
    and "unat (st_value sy - off) = length pre" and "length es < 2 ^ 64"
  shows "getECallTable env enclave fm = (Inr (Some es), fm @ [(enclave, os_open env enclave)])"
  using assms read_table_at [OF assms(7), of pre post]
  by (simp add: getECallTable_def getSymbolInfo_def c_bind_def openOrGetFile_def map_add_def Let_def)

text \<open>An enclave file with two ecalls whose table starts at file offset 8.\<close>

definition ex_elf :: elf_env where
  "ex_elf = \<lparr>os_open = (\<lambda>_. 3),
     elf_sections = (\<lambda>_.
       [\<lparr>sh_type = 1, sh_flags = 3, sh_addr = 4104, sh_offset = 8, sh_size = 40, sh_entsize = 0, sec_syms = [], sec_name0 = None\<rparr>,
        \<lparr>sh_type = 2, sh_flags = 0, sh_addr = 0, sh_offset = 96, sh_size = 72, sh_entsize = 24,
         sec_syms = [\<lparr>st_value = 0, st_name = Some []\<rparr>, \<lparr>st_value = 8192, st_name = Some ''sgx_ecall_a''\<rparr>,
                     \<lparr>st_value = 4104, st_name = Some ''g_ecall_table''\<rparr>], sec_name0 = Some []\<rparr>]),
     file_bytes = (\<lambda>_. replicate 8 127 @ table_bytes
       [\<lparr>ecall_addr = 8192, is_priv = 0\<rparr>, \<lparr>ecall_addr = 8448, is_priv = 1\<rparr>] @ [0, 0])\<rparr>"

theorem getSymbolForAddress_first_witness:
  "getSymbolForAddress ex_elf ''enclave.so'' 8192 [] = (Inr ''sgx_ecall_a'', [(''enclave.so'', 3)])"
proof -
  have "readable (elf_sections ex_elf ''enclave.so'')"
    by code_simp
  moreover have "all_syms (elf_sections ex_elf ''enclave.so'') =
     [\<lparr>st_value = 0, st_name = Some []\<rparr>, \<lparr>st_value = 8192, st_name = Some ''sgx_ecall_a''\<rparr>,
      \<lparr>st_value = 4104, st_name = Some ''g_ecall_table''\<rparr>]"
    by code_simp
  ultimately show ?thesis
    using getSymbolForAddress_first [of ex_elf "''enclave.so''" "[]" 8192] by (simp add: ex_elf_def)
qed

theorem getECallTable_roundtrip_witness:
  "getECallTable ex_elf ''enclave.so'' [] =
     (Inr (Some [\<lparr>ecall_addr = 8192, is_priv = 0\<rparr>, \<lparr>ecall_addr = 8448, is_priv = 1\<rparr>]), [(''enclave.so'', 3)])"
proof -
  have "scan_sections 0 ''g_ecall_table'' 0 (elf_sections ex_elf ''enclave.so'') =
      Inr (Some (\<lparr>st_value = 4104, st_name = Some ''g_ecall_table''\<rparr>, ''g_ecall_table'', 4096))"
    by code_simp
  then show ?thesis
    using getECallTable_roundtrip [of ex_elf "''enclave.so''" "[]" _ _ _ "replicate 8 127"
        "[\<lparr>ecall_addr = 8192, is_priv = 0\<rparr>, \<lparr>ecall_addr = 8448, is_priv = 1\<rparr>]" "[0, 0]"]
    by (simp add: ex_elf_def)
qed

end
