(* ===== verification/Workingset.thy ===== *)
theory Workingset
  imports LockField Elfparser
begin

text \<open>
  The working set analyzer, \<^verbatim>\<open>src/workingset/src/main.cpp\<close>: it takes all permissions from the pages of an enclave, counts a page when
  the first access to it faults, and gives the permissions back.
\<close>

section \<open>State\<close>

definition PAGE_SIZE :: u64 where
  "PAGE_SIZE = 4096"

definition pages :: "u64 \<Rightarrow> u64" where
  "pages sz = sz div PAGE_SIZE + (if 0 < sz mod PAGE_SIZE then 1 else 0)"

text \<open>\<open>page_status\<close> holds whether the byte of a page is set.\<close>

record enclave_t =
  eid :: u64
  encl_start :: u64
  encl_end :: u64
  encl_size :: u64
  creation_time :: u64
  destruction_time :: u64
  page_counter :: u64
  page_status :: "bool list"

definition Enclave :: "u64 \<Rightarrow> u64 \<Rightarrow> u64 \<Rightarrow> enclave_t" where
  "Enclave i start sz = \<lparr>eid = i, encl_start = start, encl_end = start + sz, encl_size = sz, creation_time = 0,
     destruction_time = UINT64_MAX, page_counter = 0, page_status = replicate (unat (pages sz)) False\<rparr>"

definition is_within_enclave :: "u64 \<Rightarrow> enclave_t \<Rightarrow> bool" where
  "is_within_enclave addr e \<longleftrightarrow> encl_start e \<le> addr \<and> addr \<le> encl_end e"

definition is_within_lifetime :: "u64 \<Rightarrow> enclave_t \<Rightarrow> bool" where
  "is_within_lifetime t e \<longleftrightarrow> creation_time e \<le> t \<and> t \<le> destruction_time e"

definition is_alive :: "enclave_t \<Rightarrow> bool" where
  "is_alive e \<longleftrightarrow> destruction_time e = UINT64_MAX"

definition reset_page_counter :: "enclave_t \<Rightarrow> enclave_t" where
  "reset_page_counter e = e\<lparr>page_status := replicate (unat (pages (encl_size e))) False\<rparr>"

definition update_page_counter :: "enclave_t \<Rightarrow> enclave_t" where
  "update_page_counter e = e\<lparr>page_counter := of_nat (length (filter id (page_status e)))\<rparr>"

text \<open>What a signal number can be connected to; \<open>H_app n\<close> is a handler of the application.\<close>

datatype hnd = H_null | H_handler | H_sigint | H_reset | H_app nat

text \<open>\<open>ws_prot\<close> says which pages may be accessed, by page number; \<open>ws_kernel\<close> is what the kernel calls for a signal,
  \<open>old_handlers\<close> what the library remembers for the application; \<open>ws_pool\<close> are the addresses of the two functions of the runtime's
  enclave pool. \<open>ws_grants\<close> is the kernel's part of \<open>mprotect\<close>: with the given permissions, asked to change so many pages from a page on, it says how
  many of them it changes before it refuses, as it does when the process has too many mappings.\<close>

type_synonym grants = "(nat \<Rightarrow> bool) \<Rightarrow> nat \<Rightarrow> nat \<Rightarrow> bool \<Rightarrow> nat"

record ws =
  enclaves :: "enclave_t list option"
  enclaves_lock :: rwlock_t
  old_handlers :: "nat \<Rightarrow> hnd"
  ws_kernel :: "nat \<Rightarrow> hnd"
  ws_pool :: "u64 \<times> u64"
  ws_prot :: "nat \<Rightarrow> bool"
  ws_grants :: grants
  ws_out :: "(bool \<times> u64 \<times> u64 \<times> u64) list"

definition ws_start :: "grants \<Rightarrow> ws" where
  "ws_start g = \<lparr>enclaves = None, enclaves_lock = rw_zero, old_handlers = (\<lambda>_. H_null), ws_kernel = (\<lambda>_. H_null),
     ws_pool = (0, 0), ws_prot = (\<lambda>_. True), ws_grants = g, ws_out = []\<rparr>"

abbreviation "put_lock \<equiv> \<lambda>l. enclaves_lock_update (\<lambda>_. l)"
abbreviation "ws_read_lock \<equiv> acquire enclaves_lock put_lock read_lock"
abbreviation "ws_read_unlock \<equiv> release enclaves_lock put_lock read_unlock"
abbreviation "ws_write_lock \<equiv> acquire enclaves_lock put_lock write_lock"
abbreviation "ws_write_unlock \<equiv> release enclaves_lock put_lock write_unlock"

interpretation wl: lock_field enclaves_lock put_lock
  by unfold_locales simp_all

text \<open>\<open>mprotect\<close>, whose result the callers ignore: an address that is not that of a page changes nothing, and the kernel may refuse to change all
  pages or those after the first ones.\<close>

definition mprotect :: "u64 \<Rightarrow> u64 \<Rightarrow> bool \<Rightarrow> (ws, unit) comp" where
  "mprotect addr len acc = c_upd (\<lambda>s.
     if unat addr mod 4096 \<noteq> 0 then s
     else let p = unat addr div 4096; n = (unat addr + unat len + 4095) div 4096 - p; m = min n (ws_grants s (ws_prot s) p n acc)
          in s\<lparr>ws_prot := (\<lambda>q. if p \<le> q \<and> q < p + m then acc else ws_prot s q)\<rparr>)"

definition the_enclaves :: "(ws, enclave_t list) comp" where
  "the_enclaves s = (case enclaves s of None \<Rightarrow> (Inl NullDeref, s) | Some es \<Rightarrow> (Inr es, s))"

definition push_enclave :: "enclave_t \<Rightarrow> (ws, unit) comp" where
  "push_enclave e = c_bind the_enclaves (\<lambda>es. c_upd (\<lambda>s. s\<lparr>enclaves := Some (es @ [e])\<rparr>))"

section \<open>Enclaves\<close>

text \<open>\<open>ret\<close>, \<open>i\<close>, \<open>start\<close> and \<open>sz\<close> are what the runtime returns and says of the enclave; \<open>now\<close> is the clock.\<close>

definition add_enclave :: "u64 \<Rightarrow> u64 \<Rightarrow> u64 \<Rightarrow> u64 \<times> u64 \<Rightarrow> (ws, unit) comp" where
  "add_enclave i start sz now =
     (let e = (Enclave i start sz)\<lparr>creation_time := fst now * 1000000000 + snd now\<rparr>
      in c_then (mprotect (encl_start e) (encl_size e) False)
           (c_then ws_write_lock (c_then (push_enclave e) ws_write_unlock)))"

definition sgx_create_enclave :: "u32 \<Rightarrow> u64 \<Rightarrow> u64 \<Rightarrow> u64 \<Rightarrow> u64 \<times> u64 \<Rightarrow> (ws, u32) comp" where
  "sgx_create_enclave ret i start sz now =
     (if ret \<noteq> 0 then c_ret ret else c_then (add_enclave i start sz now) (c_ret ret))"

fun mark_destroyed :: "u64 \<Rightarrow> u64 \<Rightarrow> enclave_t list \<Rightarrow> enclave_t list" where
  "mark_destroyed i t [] = []"
| "mark_destroyed i t (e # es) =
     (if eid e = i \<and> destruction_time e = UINT64_MAX then e\<lparr>destruction_time := t\<rparr> # es else e # mark_destroyed i t es)"

definition sgx_destroy_enclave :: "u32 \<Rightarrow> u64 \<Rightarrow> u64 \<times> u64 \<Rightarrow> (ws, u32) comp" where
  "sgx_destroy_enclave ret i now =
     (let t = fst now * 1000000000 + snd now
      in c_then ws_write_lock (c_bind the_enclaves (\<lambda>es.
           c_then (c_upd (\<lambda>s. s\<lparr>enclaves := Some (mark_destroyed i t es)\<rparr>)) (c_then ws_write_unlock (c_ret ret)))))"

section \<open>Signal handlers\<close>

abbreviation "SIGINT \<equiv> 2 :: nat"
abbreviation "SIGUSR1 \<equiv> 10 :: nat"
abbreviation "SIGSEGV \<equiv> 11 :: nat"
abbreviation "SIGUSR2 \<equiv> 12 :: nat"

fun find_enclave :: "u64 \<Rightarrow> enclave_t list \<Rightarrow> nat option" where
  "find_enclave addr [] = None"
| "find_enclave addr (e # es) =
     (if is_within_enclave addr e \<and> destruction_time e = UINT64_MAX then Some 0 else map_option Suc (find_enclave addr es))"

definition page_addr :: "u64 \<Rightarrow> u64" where
  "page_addr addr = addr AND 0xfffffffffffff000"

definition page_offset :: "u64 \<Rightarrow> enclave_t \<Rightarrow> nat" where
  "page_offset addr e = unat ((page_addr addr - encl_start e) div PAGE_SIZE)"

text \<open>\<open>__atomic_test_and_set\<close> of the status byte of the page.\<close>

definition first_access :: "u64 \<Rightarrow> nat \<Rightarrow> enclave_t list \<Rightarrow> (ws, unit) comp" where
  "first_access addr i es =
     (let e = es ! i; k = page_offset addr e
      in if length (page_status e) \<le> k then c_fail OutOfRange
         else if page_status e ! k then c_ret ()
         else c_then (c_upd (\<lambda>s. s\<lparr>enclaves := Some (es[i := e\<lparr>page_status := (page_status e)[k := True]\<rparr>])\<rparr>))
                (mprotect (page_addr addr) PAGE_SIZE True))"

text \<open>The result is the application's handler that was called, if one was. The fuel bounds the calls of the handler by
  itself through \<open>old_handlers\<close>; a handler called for a signal that is not its own returns at once.\<close>

fun handler :: "nat \<Rightarrow> nat \<Rightarrow> u64 \<Rightarrow> (ws, nat option) comp" where
  "handler 0 signum addr = c_fail Diverge"
| "handler (Suc n) signum addr =
     (if signum \<noteq> SIGSEGV then c_ret None
      else c_then ws_read_lock (c_bind the_enclaves (\<lambda>es.
        case find_enclave addr es of
          Some i \<Rightarrow> c_then (first_access addr i es) (c_then ws_read_unlock (c_ret None))
        | None \<Rightarrow> c_then ws_read_unlock (c_bind (c_get (\<lambda>s. old_handlers s signum)) (\<lambda>h.
            case h of
              H_null \<Rightarrow> c_fail NullDeref
            | H_handler \<Rightarrow> handler n signum addr
            | H_sigint \<Rightarrow> c_ret None
            | H_reset \<Rightarrow> c_ret None
            | H_app k \<Rightarrow> c_ret (Some k))))))"

declare handler.simps(2) [simp del]

text \<open>A line of the summary: whether the enclave is dead, its id, pages and bytes.\<close>

definition print_summary :: "(ws, unit) comp" where
  "print_summary =
     c_then ws_read_lock (c_bind the_enclaves (\<lambda>es.
       (let es' = map update_page_counter es
        in c_then (c_upd (\<lambda>s. s\<lparr>enclaves := Some es',
               ws_out := ws_out s @ map (\<lambda>e. (\<not> is_alive e, eid e, page_counter e, page_counter e * PAGE_SIZE)) es'\<rparr>))
             ws_read_unlock)))"

definition reset_handler :: "nat \<Rightarrow> (ws, unit) comp" where
  "reset_handler signum =
     (if signum \<noteq> SIGUSR1 \<and> signum \<noteq> SIGUSR2 then c_ret ()
      else c_then ws_write_lock (c_then print_summary (c_then
        (if signum = SIGUSR1
         then c_bind the_enclaves (\<lambda>es. c_then (c_upd (\<lambda>s. s\<lparr>enclaves := Some (map reset_page_counter es)\<rparr>))
                (c_each (\<lambda>e. mprotect (encl_start e) (encl_size e) False) es))
         else c_ret ())
        ws_write_unlock)))"

text \<open>\<open>exit\<close> runs the destructor.\<close>

definition destroy :: "(ws, unit) comp" where
  "destroy = print_summary"

definition sigint :: "nat \<Rightarrow> (ws, unit) comp" where
  "sigint signum =
     (if signum \<noteq> SIGINT then c_ret () else c_then print_summary (c_then destroy (c_fail (Exit 0))))"

section \<open>Signal registration\<close>

text \<open>The calls of the C library: the result of \<open>sigaction\<close> is its return value and what it stores as the old
  action.\<close>

definition real_sigaction :: "nat \<Rightarrow> hnd option \<Rightarrow> bool \<Rightarrow> (ws, int \<times> hnd option) comp" where
  "real_sigaction signum act want_old =
     c_bind (c_get (\<lambda>s. ws_kernel s signum)) (\<lambda>old.
       c_then (c_upd (\<lambda>s. case act of None \<Rightarrow> s | Some h \<Rightarrow> s\<lparr>ws_kernel := (ws_kernel s)(signum := h)\<rparr>))
         (c_ret (0, if want_old then Some old else None)))"

definition real_signal :: "nat \<Rightarrow> hnd \<Rightarrow> (ws, hnd) comp" where
  "real_signal signum h =
     c_bind (c_get (\<lambda>s. ws_kernel s signum)) (\<lambda>old.
       c_then (c_upd (\<lambda>s. s\<lparr>ws_kernel := (ws_kernel s)(signum := h)\<rparr>)) (c_ret old))"

definition set_old :: "nat \<Rightarrow> hnd \<Rightarrow> (ws, unit) comp" where
  "set_old signum h = c_upd (\<lambda>s. s\<lparr>old_handlers := (old_handlers s)(signum := h)\<rparr>)"

definition remember :: "nat \<Rightarrow> hnd option \<Rightarrow> bool \<Rightarrow> (ws, int \<times> hnd option) comp" where
  "remember signum act want_old =
     c_bind (c_get (\<lambda>s. old_handlers s signum)) (\<lambda>old.
       c_then (case act of None \<Rightarrow> c_ret () | Some h \<Rightarrow> set_old signum h)
         (c_ret (0, if want_old then Some old else None)))"

definition sigaction :: "nat \<Rightarrow> hnd option \<Rightarrow> bool \<Rightarrow> (ws, int \<times> hnd option) comp" where
  "sigaction signum act want_old =
     (if signum = SIGSEGV \<or> signum = SIGINT
      then if act = Some H_handler \<or> act = Some H_sigint then real_sigaction signum act want_old
           else remember signum act want_old
      else if signum = SIGUSR1 \<or> signum = SIGUSR2
      then if act = Some H_reset then real_sigaction signum act want_old else remember signum act want_old
      else real_sigaction signum act want_old)"

text \<open>\<open>signal\<close> stores the library's own handler where it should store the application's.\<close>

definition signal :: "nat \<Rightarrow> hnd \<Rightarrow> (ws, hnd) comp" where
  "signal signum h =
     (if signum = SIGSEGV \<or> signum = SIGINT
      then if h = H_handler \<or> h = H_sigint then real_signal signum h
           else c_then (if h \<noteq> H_null then set_old signum H_handler else c_ret ()) (c_get (\<lambda>s. old_handlers s signum))
      else if signum = SIGUSR1 \<or> signum = SIGUSR2
      then if h = H_reset then real_signal signum h
           else c_then (if h \<noteq> H_null then set_old signum H_reset else c_ret ()) (c_get (\<lambda>s. old_handlers s signum))
      else real_signal signum h)"

definition register_signal_handlers :: "(ws, unit) comp" where
  "register_signal_handlers =
     c_then (sigaction SIGSEGV (Some H_handler) False) (c_then (sigaction SIGINT (Some H_sigint) False)
       (c_then (sigaction SIGUSR1 (Some H_reset) False) (c_then (sigaction SIGUSR2 (Some H_reset) False) (c_ret ()))))"

text \<open>The addresses \<open>dlsym\<close> finds (0 for none), the file and load address \<open>dladdr\<close> gives for the runtime, and the symbols of that
  file.\<close>

definition initialize_urts_calls ::
  "(string \<Rightarrow> u64) \<Rightarrow> string \<Rightarrow> u64 \<Rightarrow> elf_env \<Rightarrow> (file_map, int \<times> u64 \<times> u64) comp" where
  "initialize_urts_calls dlsym bin fbase env =
     (if dlsym ''sgx_create_enclave'' = 0 then c_ret (-1, 0, 0)
      else if dlsym ''sgx_destroy_enclave'' = 0 then c_ret (-1, 0, 0)
      else c_bind (get_address_for_symbol env bin ''_ZN12CEnclavePool8instanceEv'') (\<lambda>i.
        c_bind (get_address_for_symbol env bin ''_ZN12CEnclavePool11get_enclaveEm'') (\<lambda>e.
          c_ret (0, fbase + i, fbase + e))))"

definition initialize_libc_calls :: "(string \<Rightarrow> u64) \<Rightarrow> int" where
  "initialize_libc_calls dlsym = (if dlsym ''sigaction'' = 0 then -1 else if dlsym ''signal'' = 0 then -1 else 0)"

definition initialize :: "(string \<Rightarrow> u64) \<Rightarrow> string \<Rightarrow> u64 \<Rightarrow> elf_env \<Rightarrow> file_map \<Rightarrow> (ws, unit) comp" where
  "initialize dlsym bin fbase env fm =
     (case fst (initialize_urts_calls dlsym bin fbase env fm) of
        Inl f \<Rightarrow> c_fail f
      | Inr (r, p) \<Rightarrow>
          if r < 0 then c_fail (Exit (-1))
          else c_then (c_upd (\<lambda>s. s\<lparr>ws_pool := p\<rparr>))
            (if initialize_libc_calls dlsym < 0 then c_fail (Exit (-1))
             else c_then (c_upd (\<lambda>s. s\<lparr>enclaves := Some []\<rparr>)) register_signal_handlers))"

definition ws_init :: "u64 \<Rightarrow> u64 \<Rightarrow> u64 \<Rightarrow> u64 \<times> u64 \<Rightarrow> (ws, unit) comp" where
  "ws_init i start sz now =
     c_then ws_write_lock (c_bind (c_get enclaves) (\<lambda>es.
       c_then (if es = None then c_then (c_upd (\<lambda>s. s\<lparr>enclaves := Some []\<rparr>)) register_signal_handlers else c_ret ())
         (c_then ws_write_unlock (add_enclave i start sz now))))"

section \<open>Accesses\<close>

text \<open>An access to an address: the page is accessible, or the kernel delivers SIGSEGV and the access is repeated after the handler
  returned. The result says whether it succeeded.\<close>

definition deliver :: "nat \<Rightarrow> u64 \<Rightarrow> (ws, nat option) comp" where
  "deliver n addr = c_bind (c_get (\<lambda>s. ws_kernel s SIGSEGV)) (\<lambda>h. case h of
     H_handler \<Rightarrow> handler n SIGSEGV addr | H_app k \<Rightarrow> c_ret (Some k) | _ \<Rightarrow> c_ret None)"

definition touch :: "nat \<Rightarrow> u64 \<Rightarrow> (ws, bool) comp" where
  "touch n addr = c_bind (c_get (\<lambda>s. ws_prot s (unat addr div 4096))) (\<lambda>ok.
     if ok then c_ret True else c_then (deliver n addr) (c_get (\<lambda>s. ws_prot s (unat addr div 4096))))"

end
