(* ===== verification/WorkingsetOk.thy ===== *)
theory WorkingsetOk
  imports Workingset
begin

text \<open>
  What the working set analyzer counts: an invariant over all its states that ties the status of a page to its
  permissions, and the number it prints.
\<close>

section \<open>Pages\<close>

lemma unat_push_bit_12: "unat (w :: u64) < 2 ^ 52 \<Longrightarrow> unat (push_bit 12 w) = unat w * 4096"
  by (simp add: push_bit_eq_mult unat_word_ariths)

lemma page_mask: "(0xfffffffffffff000 :: u64) = NOT (mask 12)"
  by (simp add: mask_eq_exp_minus_1 not_eq_complement)

lemma page_addr_eq: "page_addr a = push_bit 12 (drop_bit 12 a)"
  unfolding page_addr_def page_mask
  by (rule bit_word_eqI) (auto simp: bit_simps)

lemma u64_less: "unat (a :: u64) < 2 ^ 64"
  using unsigned_less [of a] by simp

lemma unat_page_addr: "unat (page_addr a) = unat a div 4096 * 4096"
proof -
  have d: "unat (drop_bit 12 a) = unat a div 4096" by (simp add: unat_drop_bit_div)
  have "unat a div 4096 < 2 ^ 52" using u64_less [of a] by simp
  then show ?thesis using unat_push_bit_12 [of "drop_bit 12 a"] d by (simp add: page_addr_eq)
qed

text \<open>The enclave occupies whole pages and does not reach the end of the address space.\<close>

definition page_range :: "u64 \<Rightarrow> u64 \<Rightarrow> bool" where
  "page_range start sz \<longleftrightarrow> unat start mod 4096 = 0 \<and> unat sz mod 4096 = 0 \<and> 0 < unat sz \<and> unat start + unat sz < 2 ^ 64"

definition shape_ok :: "enclave_t \<Rightarrow> bool" where
  "shape_ok e \<longleftrightarrow> page_range (encl_start e) (encl_size e) \<and> unat (encl_end e) = unat (encl_start e) + unat (encl_size e) \<and>
     length (page_status e) = unat (encl_size e) div 4096"

abbreviation first_page :: "enclave_t \<Rightarrow> nat" where
  "first_page e \<equiv> unat (encl_start e) div 4096"

definition inside :: "u64 \<Rightarrow> enclave_t \<Rightarrow> bool" where
  "inside a e \<longleftrightarrow> unat (encl_start e) \<le> unat a \<and> unat a < unat (encl_start e) + unat (encl_size e)"

lemma Enclave_shape: "page_range start sz \<Longrightarrow> shape_ok ((Enclave i start sz)\<lparr>creation_time := t\<rparr>)"
proof -
  assume "page_range start sz"
  moreover have "unat sz div 4096 mod 2 ^ 64 = unat sz div 4096"
    by (rule mod_less) (rule le_less_trans [OF div_le_dividend u64_less])
  ultimately show ?thesis
    by (simp add: shape_ok_def Enclave_def page_range_def pages_def PAGE_SIZE_def unat_word_ariths word_less_nat_alt unat_mod unat_div)
qed

lemma page_of_inside:
  assumes "shape_ok e" "inside a e"
  shows "page_offset a e = unat a div 4096 - first_page e" "page_offset a e < length (page_status e)" "first_page e \<le> unat a div 4096"
    "is_within_enclave a e"
proof -
  let ?S = "unat (encl_start e)" let ?Z = "unat (encl_size e)"
  obtain k m where k: "?S = 4096 * k" "?Z = 4096 * m"
    using assms(1) by (auto simp: shape_ok_def page_range_def elim!: dvdE dest!: mod_eq_0_iff_dvd [THEN iffD1])
  have a: "4096 * k \<le> unat a" "unat a < 4096 * k + 4096 * m" using assms(2) k by (simp_all add: inside_def)
  have p: "k \<le> unat a div 4096" "unat a div 4096 < k + m" using a by simp_all
  then show "first_page e \<le> unat a div 4096" using k by simp
  have "unat (page_addr a - encl_start e) = unat a div 4096 * 4096 - 4096 * k"
    using p k by (simp add: unat_sub_if_size unat_page_addr)
  then have o: "page_offset a e = (unat a div 4096 * 4096 - 4096 * k) div 4096"
    by (simp add: page_offset_def PAGE_SIZE_def unat_div)
  also have "\<dots> = unat a div 4096 - k" using p by (simp add: diff_mult_distrib2 [symmetric] mult.commute)
  finally show "page_offset a e = unat a div 4096 - first_page e" using k by simp
  then show "page_offset a e < length (page_status e)" using p k assms(1) by (simp add: shape_ok_def)
  show "is_within_enclave a e"
    using assms by (simp add: is_within_enclave_def word_le_nat_alt shape_ok_def inside_def)
qed

section \<open>The invariant\<close>

definition apart :: "enclave_t \<Rightarrow> enclave_t \<Rightarrow> bool" where
  "apart e f \<longleftrightarrow> unat (encl_end e) \<le> unat (encl_start f) \<or> unat (encl_end f) \<le> unat (encl_start e)"

text \<open>A kernel that takes permissions away whenever it is asked to, and one that gives them back.\<close>

definition removes_all :: "grants \<Rightarrow> bool" where
  "removes_all g \<longleftrightarrow> (\<forall>prot p n. n \<le> g prot p n False)"

definition grants_all :: "grants \<Rightarrow> bool" where
  "grants_all g \<longleftrightarrow> (\<forall>prot p n. n \<le> g prot p n True)"

text \<open>With such a kernel, a page of a live enclave is only accessible when its status is set, or always then.\<close>

definition pages_ok :: "grants \<Rightarrow> (nat \<Rightarrow> bool) \<Rightarrow> enclave_t \<Rightarrow> bool" where
  "pages_ok g prot e \<longleftrightarrow> (\<forall>k < length (page_status e).
     (removes_all g \<longrightarrow> prot (first_page e + k) \<longrightarrow> page_status e ! k) \<and> (grants_all g \<longrightarrow> page_status e ! k \<longrightarrow> prot (first_page e + k)))"

definition ws_inv :: "ws \<Rightarrow> bool" where
  "ws_inv s \<longleftrightarrow> rw_free (enclaves_lock s) \<and> ws_kernel s SIGSEGV = H_handler \<and>
     (\<exists>es. enclaves s = Some es \<and> (\<forall>e \<in> set es. shape_ok e) \<and>
       (\<forall>i < length es. \<forall>j < length es. i \<noteq> j \<longrightarrow> is_alive (es ! i) \<longrightarrow> is_alive (es ! j) \<longrightarrow> apart (es ! i) (es ! j)) \<and>
       (\<forall>e \<in> set es. is_alive e \<longrightarrow> pages_ok (ws_grants s) (ws_prot s) e))"

lemma find_enclave_ok:
  assumes "i < length es" "is_alive (es ! i)" "inside a (es ! i)" "is_within_enclave a (es ! i)"
    and "\<And>j. j < length es \<Longrightarrow> i \<noteq> j \<Longrightarrow> is_alive (es ! j) \<Longrightarrow> apart (es ! i) (es ! j)"
    and "\<And>j. j < length es \<Longrightarrow> is_alive (es ! j) \<Longrightarrow> a \<noteq> encl_end (es ! j)" "\<forall>e \<in> set es. shape_ok e"
  shows "find_enclave a es = Some i"
  using assms
proof (induction es arbitrary: i)
  case (Cons e es)
  show ?case
  proof (cases i)
    case 0
    then show ?thesis using Cons.prems by (simp add: is_alive_def)
  next
    case (Suc k)
    have "\<not> (is_within_enclave a e \<and> destruction_time e = UINT64_MAX)"
    proof
      assume w: "is_within_enclave a e \<and> destruction_time e = UINT64_MAX"
      then have "apart (es ! k) e" "a \<noteq> encl_end e" using Cons.prems(5,6) [of 0] Suc by (simp_all add: is_alive_def)
      moreover have "unat a < unat (encl_end (es ! k))" "unat (encl_start (es ! k)) \<le> unat a"
        using Cons.prems(1,3,7) Suc by (simp_all add: inside_def shape_ok_def)
      moreover have "unat a \<noteq> unat (encl_end e)" using \<open>a \<noteq> encl_end e\<close> by (simp add: word_unat_eq_iff)
      ultimately show False using w by (auto simp: apart_def is_within_enclave_def word_le_nat_alt)
    qed
    moreover have "find_enclave a es = Some k"
    proof (rule Cons.IH)
      fix j assume "j < length es"
      then show "k \<noteq> j \<Longrightarrow> is_alive (es ! j) \<Longrightarrow> apart (es ! k) (es ! j)" "is_alive (es ! j) \<Longrightarrow> a \<noteq> encl_end (es ! j)"
        using Cons.prems(5,6) [of "Suc j"] Suc by simp_all
    qed (use Cons.prems Suc in simp_all)
    ultimately show ?thesis using Suc by simp
  qed
qed simp

lemma find_enclave_Some: "find_enclave a es = Some i \<Longrightarrow> i < length es \<and> is_alive (es ! i) \<and> is_within_enclave a (es ! i)"
  by (induction es arbitrary: i) (auto simp: is_alive_def split: if_splits)

lemma find_enclave_none: "(\<forall>e \<in> set es. is_alive e \<longrightarrow> \<not> is_within_enclave a e) \<Longrightarrow> find_enclave a es = None"
  by (induction es) (auto simp: is_alive_def)

section \<open>One access\<close>

lemma page_end: "(p * 4096 + 4096 + 4095) div 4096 = Suc (p :: nat)"
  by simp

lemma page_interval:
  assumes "s mod 4096 = 0" "z mod 4096 = 0" "s div 4096 \<le> a div 4096" "a div 4096 < s div 4096 + z div (4096 :: nat)"
  shows "s \<le> a" "a < s + z"
proof -
  have s: "s = 4096 * (s div 4096)" and z: "z = 4096 * (z div 4096)" using assms(1,2) by auto
  have "4096 * (s div 4096) \<le> a" using assms(3) times_div_less_eq_dividend [of 4096 a] by linarith
  then show "s \<le> a" using s by simp
  have "a < 4096 * (s div 4096 + z div 4096)" using assms(4) dividend_less_times_div [of 4096 a] by simp
  then show "a < s + z" using s z by simp
qed

text \<open>The permissions after those of one page were asked for.\<close>

definition granted :: "u64 \<Rightarrow> ws \<Rightarrow> bool" where
  "granted a s \<longleftrightarrow> 0 < ws_grants s (ws_prot s) (unat a div 4096) 1 True"

definition open_page :: "u64 \<Rightarrow> ws \<Rightarrow> nat \<Rightarrow> bool" where
  "open_page a s = (if granted a s then (ws_prot s)(unat a div 4096 := True) else ws_prot s)"

lemma mprotect_page: "mprotect (page_addr a) PAGE_SIZE True s = (Inr (), s\<lparr>ws_prot := open_page a s\<rparr>)"
proof -
  let ?p = "unat a div 4096"
  have p: "unat (page_addr a) mod 4096 = 0" "unat (page_addr a) div 4096 = ?p"
    "(unat (page_addr a) + unat PAGE_SIZE + 4095) div 4096 - ?p = 1"
    unfolding unat_page_addr using page_end [of "unat a div 4096"] by (simp_all add: PAGE_SIZE_def)
  have "(\<lambda>q. if ?p \<le> q \<and> q < ?p + min 1 m then True else ws_prot s q) = (if 0 < m then (ws_prot s)(?p := True) else ws_prot s)" for m
    by (cases m) (auto simp: fun_eq_iff)
  then show ?thesis unfolding mprotect_def p Let_def by (simp add: p open_page_def granted_def)
qed

lemma pages_ok_touch:
  assumes "shape_ok e" "inside a e" "pages_ok (ws_grants s) (ws_prot s) e"
  shows "pages_ok (ws_grants s) (open_page a s) (e\<lparr>page_status := (page_status e)[page_offset a e := True]\<rparr>)"
proof -
  note P = page_of_inside [OF assms(1,2)]
  have eq: "first_page e + k = unat a div 4096 \<longleftrightarrow> k = page_offset a e" for k using P(1,3) by auto
  have g: "granted a s" if "grants_all (ws_grants s)" using that by (simp add: grants_all_def granted_def Suc_le_eq [symmetric])
  show ?thesis using assms(3) P(2) g by (auto simp: pages_ok_def nth_list_update eq open_page_def)
qed

lemma pages_ok_apart:
  assumes "shape_ok e" "inside a e" "shape_ok f" "apart e f" "pages_ok g (ws_prot s) f"
  shows "pages_ok g (open_page a s) f"
  unfolding pages_ok_def
proof (intro allI impI)
  fix k assume k: "k < length (page_status f)"
  let ?S = "unat (encl_start f)" and ?Z = "unat (encl_size f)"
  have m: "?S mod 4096 = 0" "?Z mod 4096 = 0" using assms(3) by (simp_all add: shape_ok_def page_range_def)
  have b: "k < ?Z div 4096" using k assms(3) by (simp add: shape_ok_def)
  have "first_page f + k \<noteq> unat a div 4096"
  proof
    assume "first_page f + k = unat a div 4096"
    then have "?S div 4096 \<le> unat a div 4096" "unat a div 4096 < ?S div 4096 + ?Z div 4096" using b by simp_all
    then have "?S \<le> unat a" "unat a < ?S + ?Z" using page_interval [OF m] by blast+
    moreover have "unat (encl_start e) \<le> unat a" "unat a < unat (encl_end e)" "unat (encl_end f) = ?S + ?Z"
      using assms(1-3) by (simp_all add: inside_def shape_ok_def)
    ultimately show False using assms(4) by (auto simp: apart_def)
  qed
  then have "open_page a s (first_page f + k) = ws_prot s (first_page f + k)" by (simp add: open_page_def)
  then show "(removes_all g \<longrightarrow> open_page a s (first_page f + k) \<longrightarrow> page_status f ! k) \<and> (grants_all g \<longrightarrow> page_status f ! k \<longrightarrow> open_page a s (first_page f + k))"
    using assms(5) k by (simp add: pages_ok_def)
qed

lemma apart_pages:
  assumes "shape_ok e" "shape_ok f" "apart e f" "k < length (page_status f)"
  shows "\<not> (first_page e \<le> first_page f + k \<and> first_page f + k < first_page e + unat (encl_size e) div 4096)"
proof
  let ?a = "unat (encl_start f) + 4096 * k"
  assume p: "first_page e \<le> first_page f + k \<and> first_page f + k < first_page e + unat (encl_size e) div 4096"
  have m: "unat (encl_start e) mod 4096 = 0" "unat (encl_size e) mod 4096 = 0" "unat (encl_start f) mod 4096 = 0"
    "unat (encl_size f) = 4096 * (unat (encl_size f) div 4096)"
    using assms(1,2) by (auto simp: shape_ok_def page_range_def)
  have a: "?a div 4096 = first_page f + k" by simp
  have "unat (encl_start e) \<le> ?a" "?a < unat (encl_start e) + unat (encl_size e)"
    using page_interval [OF m(1,2), of ?a] p a by auto
  moreover have "?a < unat (encl_start f) + unat (encl_size f)"
    using assms(2,4) m(4) by (simp add: shape_ok_def)
  ultimately show False using assms(1-3) by (auto simp: apart_def shape_ok_def)
qed

text \<open>The state after a first access to a page.\<close>

definition touched :: "u64 \<Rightarrow> nat \<Rightarrow> enclave_t list \<Rightarrow> ws \<Rightarrow> ws" where
  "touched a i es s = s\<lparr>enclaves := Some (es[i := (es ! i)\<lparr>page_status := (page_status (es ! i))[page_offset a (es ! i) := True]\<rparr>]),
     enclaves_lock := read_unlock (rd_held (enclaves_lock s)), ws_prot := open_page a s\<rparr>"

lemma touched_inv:
  assumes inv: "ws_inv s" and es: "enclaves s = Some es" and i: "i < length es" "is_alive (es ! i)" "inside a (es ! i)"
  shows "ws_inv (touched a i es s)"
proof -
  let ?e = "es ! i" let ?k = "page_offset a ?e"
  have I: "rw_free (enclaves_lock s)" "ws_kernel s SIGSEGV = H_handler" "\<forall>e \<in> set es. shape_ok e"
    "\<And>i j. i < length es \<Longrightarrow> j < length es \<Longrightarrow> i \<noteq> j \<Longrightarrow> is_alive (es ! i) \<Longrightarrow> is_alive (es ! j) \<Longrightarrow> apart (es ! i) (es ! j)"
    "\<And>e. e \<in> set es \<Longrightarrow> is_alive e \<Longrightarrow> pages_ok (ws_grants s) (ws_prot s) e"
    using inv es by (auto simp: ws_inv_def)
  have sh: "shape_ok ?e" using I(3) i(1) by simp
  let ?es = "es[i := ?e\<lparr>page_status := (page_status ?e)[?k := True]\<rparr>]"
  show ?thesis
    unfolding ws_inv_def
  proof (intro conjI exI [of _ ?es] ballI allI impI)
    show "rw_free (enclaves_lock (touched a i es s))" "ws_kernel (touched a i es s) SIGSEGV = H_handler"
      "enclaves (touched a i es s) = Some ?es" using I(1,2) by (simp_all add: touched_def)
    show "shape_ok e" if "e \<in> set ?es" for e
      using that sh I(3) by (auto simp: shape_ok_def dest!: set_update_subset_insert [THEN subsetD])
    show "apart (?es ! p) (?es ! q)" if "p < length ?es" "q < length ?es" "p \<noteq> q" "is_alive (?es ! p)" "is_alive (?es ! q)" for p q
      using that I(4) [of p q] i(1) by (cases "p = i"; cases "q = i") (auto simp: apart_def is_alive_def)
    show "pages_ok (ws_grants (touched a i es s)) (ws_prot (touched a i es s)) e" if e: "e \<in> set ?es" "is_alive e" for e
    proof -
      from e(1) obtain q where q: "q < length es" "e = ?es ! q" by (auto simp: in_set_conv_nth)
      show ?thesis
      proof (cases "q = i")
        case True
        then show ?thesis using pages_ok_touch [OF sh i(3) I(5)] i q by (simp add: touched_def)
      next
        case False
        then have eq: "e = es ! q" "es ! q \<in> set es" using q by simp_all
        then have "shape_ok e" "apart ?e e" "pages_ok (ws_grants s) (ws_prot s) e" using I(3,5) I(4) [of i q] e(2) q(1) i False by auto
        from pages_ok_apart [OF sh i(3) this] show ?thesis by (simp add: touched_def)
      qed
    qed
  qed
qed

text \<open>A fault at an address for which the handler finds an enclave: the enclave has it inside, or it is the address just past the enclave.\<close>

definition seen :: "ws \<Rightarrow> ws" where
  "seen s = s\<lparr>enclaves_lock := read_unlock (rd_held (enclaves_lock s))\<rparr>"

lemma seen_inv: "ws_inv s \<Longrightarrow> ws_inv (seen s)"
  by (simp add: seen_def ws_inv_def)

lemma handler_found:
  assumes inv: "ws_inv s" and es: "enclaves s = Some es" and f: "find_enclave a es = Some i" and a: "inside a (es ! i)"
  shows "handler (Suc n) SIGSEGV a s = (Inr None, if page_status (es ! i) ! page_offset a (es ! i) then seen s else touched a i es s)"
proof -
  have l: "rw_free (enclaves_lock s)" "shape_ok (es ! i)" using inv es find_enclave_Some [OF f] by (auto simp: ws_inv_def)
  note P = page_of_inside [OF l(2) a]
  show ?thesis
    using P(2) es l(1)
    by (simp add: handler.simps(2) c_then_def c_bind_def wl.acquire_read the_enclaves_def f first_access_def Let_def
        mprotect_page wl.release_eq touched_def seen_def open_page_def granted_def)
qed

lemma handler_past_end:
  assumes inv: "ws_inv s" and es: "enclaves s = Some es" and f: "find_enclave a es = Some i" and a: "\<not> inside a (es ! i)"
  shows "a = encl_end (es ! i)" "fst (handler (Suc n) SIGSEGV a s) = Inl OutOfRange"
proof -
  let ?e = "es ! i"
  have I: "rw_free (enclaves_lock s)" "shape_ok ?e" "is_within_enclave a ?e" using inv es find_enclave_Some [OF f] by (auto simp: ws_inv_def)
  let ?S = "unat (encl_start ?e)" and ?Z = "unat (encl_size ?e)"
  have al: "?S mod 4096 = 0" "?Z mod 4096 = 0" "unat (encl_end ?e) = ?S + ?Z" "length (page_status ?e) = ?Z div 4096"
    using I(2) by (simp_all add: shape_ok_def page_range_def)
  show e: "a = encl_end ?e"
    using I(3) a al(3) by (auto simp: is_within_enclave_def inside_def word_le_nat_alt word_unat_eq_iff)
  have "(?S + ?Z) mod 4096 = 0" using al by (simp add: mod_add_eq [symmetric])
  then have "unat (page_addr (encl_end ?e)) = ?S + ?Z" using al(3) by (auto simp: unat_page_addr)
  then have "unat (page_addr (encl_end ?e) - encl_start ?e) = ?Z" by (simp add: unat_sub_if_size)
  then have "page_offset a ?e = length (page_status ?e)" by (simp add: e page_offset_def PAGE_SIZE_def unat_div al(4))
  then show "fst (handler (Suc n) SIGSEGV a s) = Inl OutOfRange"
    using I(1) es f by (simp add: handler.simps(2) c_bind_def c_then_def wl.acquire_read the_enclaves_def first_access_def Let_def)
qed

lemma touch_live:
  assumes inv: "ws_inv s" and es: "enclaves s = Some es" and i: "i < length es" "is_alive (es ! i)" "inside a (es ! i)"
    and ends: "\<And>e. e \<in> set es \<Longrightarrow> is_alive e \<Longrightarrow> a \<noteq> encl_end e"
  defines "counted \<equiv> page_status (es ! i) ! page_offset a (es ! i)"
  shows "touch (Suc n) a s =
    (if ws_prot s (unat a div 4096) then (Inr True, s) else if counted then (Inr False, seen s) else (Inr (granted a s), touched a i es s))"
proof -
  have I: "ws_kernel s SIGSEGV = H_handler" "\<forall>e \<in> set es. shape_ok e"
    "\<And>i j. i < length es \<Longrightarrow> j < length es \<Longrightarrow> i \<noteq> j \<Longrightarrow> is_alive (es ! i) \<Longrightarrow> is_alive (es ! j) \<Longrightarrow> apart (es ! i) (es ! j)"
    using inv es by (auto simp: ws_inv_def)
  have "is_within_enclave a (es ! i)" using page_of_inside(4) [OF bspec [OF I(2) nth_mem [OF i(1)]] i(3)] .
  then have f: "find_enclave a es = Some i"
    by (rule find_enclave_ok [OF i]) (use I(2,3) i ends in auto)
  show ?thesis
    using I(1) handler_found [OF inv es f i(3), of n]
    by (auto simp: touch_def c_bind_def c_then_def deliver_def touched_def seen_def counted_def open_page_def)
qed

text \<open>Whatever the address, an access that does not fail keeps the invariant.\<close>

lemma touch_inv:
  assumes inv: "ws_inv s" and run: "touch 1 a s = (Inr r, s')"
  shows "ws_inv s'"
proof -
  obtain es where es: "enclaves s = Some es" and I: "rw_free (enclaves_lock s)" "ws_kernel s SIGSEGV = H_handler" using inv by (auto simp: ws_inv_def)
  have "ws_inv t" if "handler 1 SIGSEGV a s = (Inr q, t)" for q t
  proof (cases "find_enclave a es")
    case None
    then have "t = seen s"
      using that es I(1)
      by (auto simp: handler.simps(2) c_bind_def c_then_def wl.acquire_read the_enclaves_def wl.release_eq seen_def split: hnd.splits)
    then show ?thesis using seen_inv [OF inv] by simp
  next
    case (Some i)
    show ?thesis
    proof (cases "inside a (es ! i)")
      case True
      then show ?thesis
        using handler_found [OF inv es Some True, of 0] that seen_inv [OF inv] touched_inv [OF inv es _ _ True] find_enclave_Some [OF Some]
        by (auto split: if_splits)
    next
      case False
      then show ?thesis using handler_past_end(2) [OF inv es Some False, of 0] that by simp
    qed
  qed
  then show ?thesis using run I(2) inv by (auto simp: touch_def c_bind_def c_then_def deliver_def split: if_splits prod.splits sum.splits)
qed

section \<open>Creation, destruction and summary\<close>

text \<open>A range for a new enclave: whole pages, apart from the live enclaves.\<close>

definition free_range :: "u64 \<Rightarrow> u64 \<Rightarrow> ws \<Rightarrow> bool" where
  "free_range start sz s \<longleftrightarrow> page_range start sz \<and>
     (\<forall>es. enclaves s = Some es \<longrightarrow> (\<forall>e \<in> set es. is_alive e \<longrightarrow> apart (Enclave 0 start sz) e))"

definition new_encl :: "u64 \<Rightarrow> u64 \<Rightarrow> u64 \<Rightarrow> u64 \<times> u64 \<Rightarrow> enclave_t" where
  "new_encl i start sz now = (Enclave i start sz)\<lparr>creation_time := fst now * 1000000000 + snd now\<rparr>"

lemma add_enclave_ok:
  assumes inv: "ws_inv s" and es: "enclaves s = Some es" and fr: "free_range start sz s"
  shows "\<exists>s'. add_enclave i start sz now s = (Inr (), s') \<and> ws_inv s' \<and> ws_grants s' = ws_grants s \<and> enclaves s' = Some (es @ [new_encl i start sz now]) \<and> ws_out s' = ws_out s"
proof -
  let ?e = "new_encl i start sz now"
  have I: "rw_free (enclaves_lock s)" "ws_kernel s SIGSEGV = H_handler" "\<forall>e \<in> set es. shape_ok e"
    "\<And>i j. i < length es \<Longrightarrow> j < length es \<Longrightarrow> i \<noteq> j \<Longrightarrow> is_alive (es ! i) \<Longrightarrow> is_alive (es ! j) \<Longrightarrow> apart (es ! i) (es ! j)"
    "\<And>e. e \<in> set es \<Longrightarrow> is_alive e \<Longrightarrow> pages_ok (ws_grants s) (ws_prot s) e"
    using inv es by (auto simp: ws_inv_def)
  have R: "page_range start sz" "\<And>e. e \<in> set es \<Longrightarrow> is_alive e \<Longrightarrow> apart ?e e"
    using fr es by (auto simp: free_range_def apart_def Enclave_def new_encl_def)
  have sh: "shape_ok ?e" unfolding new_encl_def by (rule Enclave_shape [OF R(1)])
  have e: "encl_start ?e = start" "encl_size ?e = sz" "is_alive ?e" "page_status ?e = replicate (unat (pages sz)) False"
    by (simp_all add: new_encl_def Enclave_def is_alive_def)
  have al: "unat start mod 4096 = 0" "unat sz mod 4096 = 0" using R(1) by (simp_all add: page_range_def)
  have pe: "(unat start + unat sz + 4095) div 4096 - unat start div 4096 = unat sz div 4096"
  proof -
    obtain k m where "unat start = 4096 * k" "unat sz = 4096 * m" using al by (metis dvd_eq_mod_eq_0 dvdE)
    then show ?thesis by simp
  qed
  let ?p = "unat start div 4096" and ?n = "unat sz div 4096"
  define m where "m = min ?n (ws_grants s (ws_prot s) ?p ?n False)"
  define prot where "prot = (\<lambda>q. if ?p \<le> q \<and> q < ?p + m then False else ws_prot s q)"
  let ?s = "s\<lparr>enclaves := Some (es @ [?e]), enclaves_lock := write_unlock (wr_held (enclaves_lock s)), ws_prot := prot\<rparr>"
  have mp: "mprotect start sz False s = (Inr (), s\<lparr>ws_prot := prot\<rparr>)"
    unfolding mprotect_def Let_def pe using al(1) by (simp add: prot_def m_def)
  have run: "add_enclave i start sz now s = (Inr (), ?s)"
    using I(1) es e mp
    by (simp add: add_enclave_def new_encl_def [symmetric] Let_def c_then_def wl.acquire_write push_enclave_def
        c_bind_def the_enclaves_def wl.release_eq)
  have rem: "m = ?n" if "removes_all (ws_grants s)" using that by (simp add: removes_all_def m_def)
  have new: "pages_ok (ws_grants s) prot ?e" using sh e rem by (auto simp: prot_def pages_ok_def shape_ok_def)
  have old: "pages_ok (ws_grants s) prot f" if f: "f \<in> set es" "is_alive f" for f
    unfolding pages_ok_def
  proof (intro allI impI)
    fix k assume k: "k < length (page_status f)"
    have sf: "shape_ok f" using I(3) f(1) by simp
    have "\<not> (?p \<le> first_page f + k \<and> first_page f + k < ?p + ?n)"
      using apart_pages [OF sh sf R(2) [OF f] k] e by simp
    then have "prot (first_page f + k) = ws_prot s (first_page f + k)" by (auto simp: prot_def m_def)
    then show "(removes_all (ws_grants s) \<longrightarrow> prot (first_page f + k) \<longrightarrow> page_status f ! k) \<and>
        (grants_all (ws_grants s) \<longrightarrow> page_status f ! k \<longrightarrow> prot (first_page f + k))"
      using I(5) [OF f] k unfolding pages_ok_def by simp
  qed
  have "ws_inv ?s"
    unfolding ws_inv_def
  proof (intro conjI exI [of _ "es @ [?e]"] ballI allI impI)
    show "apart ((es @ [?e]) ! p) ((es @ [?e]) ! q)"
      if "p < length (es @ [?e])" "q < length (es @ [?e])" "p \<noteq> q" "is_alive ((es @ [?e]) ! p)" "is_alive ((es @ [?e]) ! q)" for p q
      using that I(4) [of p q] R(2) [of "es ! p"] R(2) [of "es ! q"] by (auto simp: nth_append less_Suc_eq apart_def split: if_splits)
    show "pages_ok (ws_grants ?s) (ws_prot ?s) f" if "f \<in> set (es @ [?e])" "is_alive f" for f
      using that new old by auto
  qed (use I sh in auto)
  with run show ?thesis by auto
qed

lemma mark_destroyed_nth:
  "length (mark_destroyed i t es) = length es"
  "k < length es \<Longrightarrow> mark_destroyed i t es ! k = es ! k \<or> mark_destroyed i t es ! k = (es ! k)\<lparr>destruction_time := t\<rparr> \<and> is_alive (es ! k)"
proof (induction es arbitrary: k)
  case (Cons e es)
  { case 1 then show ?case using Cons by simp }
  { case 2 then show ?case using Cons(2) by (cases k) (auto simp: is_alive_def) }
qed simp_all

lemma destroy_enclave_ok:
  assumes inv: "ws_inv s"
  shows "\<exists>s'. sgx_destroy_enclave ret i now s = (Inr ret, s') \<and> ws_inv s' \<and> ws_out s' = ws_out s"
proof -
  obtain es where es: "enclaves s = Some es" and I: "rw_free (enclaves_lock s)" "ws_kernel s SIGSEGV = H_handler" "\<forall>e \<in> set es. shape_ok e"
    "\<And>i j. i < length es \<Longrightarrow> j < length es \<Longrightarrow> i \<noteq> j \<Longrightarrow> is_alive (es ! i) \<Longrightarrow> is_alive (es ! j) \<Longrightarrow> apart (es ! i) (es ! j)"
    "\<And>e. e \<in> set es \<Longrightarrow> is_alive e \<Longrightarrow> pages_ok (ws_grants s) (ws_prot s) e"
    using inv by (auto simp: ws_inv_def)
  let ?es = "mark_destroyed i (fst now * 1000000000 + snd now) es"
  let ?s = "s\<lparr>enclaves := Some ?es, enclaves_lock := write_unlock (wr_held (enclaves_lock s))\<rparr>"
  have run: "sgx_destroy_enclave ret i now s = (Inr ret, ?s)"
    using I(1) es
    by (simp add: sgx_destroy_enclave_def Let_def c_then_def c_bind_def wl.acquire_write the_enclaves_def wl.release_eq)
  have like: "\<exists>k < length es. f = ?es ! k \<and> (shape_ok (es ! k) \<longrightarrow> shape_ok f) \<and> (is_alive f \<longrightarrow> is_alive (es ! k)) \<and>
      (pages_ok (ws_grants s) (ws_prot s) (es ! k) \<longrightarrow> pages_ok (ws_grants s) (ws_prot s) f)" if "f \<in> set ?es" for f
  proof -
    from that obtain k where k: "k < length es" "f = ?es ! k" by (auto simp: in_set_conv_nth mark_destroyed_nth(1))
    then show ?thesis using mark_destroyed_nth(2) [OF k(1), of i "fst now * 1000000000 + snd now"]
      by (intro exI [of _ k]) (auto simp: shape_ok_def pages_ok_def)
  qed
  have "ws_inv ?s"
    unfolding ws_inv_def
  proof (intro conjI exI [of _ ?es] ballI allI impI)
    show "shape_ok f" if "f \<in> set ?es" for f using like [OF that] I(3) by auto
    show "pages_ok (ws_grants ?s) (ws_prot ?s) f" if "f \<in> set ?es" "is_alive f" for f using like [OF that(1)] that(2) I(5) by auto
    show "apart (?es ! p) (?es ! q)" if "p < length ?es" "q < length ?es" "p \<noteq> q" "is_alive (?es ! p)" "is_alive (?es ! q)" for p q
      using that I(4) [of p q] mark_destroyed_nth(2) [where k = p and es = es and i = i and t = "fst now * 1000000000 + snd now"]
        mark_destroyed_nth(2) [where k = q and es = es and i = i and t = "fst now * 1000000000 + snd now"]
      by (auto simp: mark_destroyed_nth(1) apart_def is_alive_def)
  qed (use I in simp_all)
  with run show ?thesis by auto
qed

lemma update_page_counter_simps [simp]:
  "shape_ok (update_page_counter e) = shape_ok e" "is_alive (update_page_counter e) = is_alive e"
  "pages_ok g prot (update_page_counter e) = pages_ok g prot e" "apart (update_page_counter e) f = apart e f"
  "apart f (update_page_counter e) = apart f e" "inside a (update_page_counter e) = inside a e"
  by (simp_all add: update_page_counter_def shape_ok_def is_alive_def pages_ok_def apart_def inside_def)

lemma print_summary_ok:
  assumes inv: "ws_inv s" and es: "enclaves s = Some es"
  shows "\<exists>s'. print_summary s = (Inr (), s') \<and> ws_inv s' \<and> enclaves s' = Some (map update_page_counter es) \<and>
    ws_out s' = ws_out s @ map (\<lambda>e. (\<not> is_alive e, eid e, of_nat (length (filter id (page_status e))),
      of_nat (length (filter id (page_status e))) * PAGE_SIZE)) es"
proof -
  have l: "rw_free (enclaves_lock s)" using inv by (simp add: ws_inv_def)
  let ?s = "s\<lparr>enclaves := Some (map update_page_counter es), ws_out := ws_out s @ map (\<lambda>e. (\<not> is_alive e, eid e, of_nat (length (filter id (page_status e))),
      of_nat (length (filter id (page_status e))) * PAGE_SIZE)) es, enclaves_lock := read_unlock (rd_held (enclaves_lock s))\<rparr>"
  have "print_summary s = (Inr (), ?s)"
    using l es by (simp add: print_summary_def c_then_def c_bind_def wl.acquire_read the_enclaves_def wl.release_eq Let_def comp_def update_page_counter_def is_alive_def)
  moreover have "ws_inv ?s" using inv es by (simp add: ws_inv_def)
  ultimately show ?thesis by auto
qed

section \<open>All states\<close>

datatype ws_op = Create u64 u64 u64 "u64 \<times> u64" | Destroy u64 "u64 \<times> u64" | Touch u64 | Action nat nat | Signal nat nat | Summary

text \<open>An address inside a live enclave, and one that is just past a live enclave, which the handler takes for one inside it.\<close>

definition live_at :: "u64 \<Rightarrow> ws \<Rightarrow> bool" where
  "live_at a s \<longleftrightarrow> (\<exists>es. enclaves s = Some es \<and> (\<exists>e \<in> set es. is_alive e \<and> inside a e))"

definition past_end :: "u64 \<Rightarrow> ws \<Rightarrow> bool" where
  "past_end a s \<longleftrightarrow> (\<exists>es. enclaves s = Some es \<and> (\<exists>e \<in> set es. is_alive e \<and> a = encl_end e))"

text \<open>The steps of a program that runs under the analyzer, after its initialization: enclaves are created in free
  ranges of whole pages, memory is accessed, and the application registers its own signal handlers. What the kernel does for
  \<open>mprotect\<close> is arbitrary.\<close>

inductive ws_step :: "ws \<Rightarrow> ws_op \<Rightarrow> ws \<Rightarrow> bool" where
  create: "free_range start sz s \<Longrightarrow> sgx_create_enclave 0 i start sz now s = (Inr r, s') \<Longrightarrow> ws_step s (Create i start sz now) s'"
| destroy: "sgx_destroy_enclave 0 i now s = (Inr r, s') \<Longrightarrow> ws_step s (Destroy i now) s'"
| touch: "touch 1 a s = (Inr r, s') \<Longrightarrow> ws_step s (Touch a) s'"
| action: "sigaction sig (Some (H_app k)) want s = (Inr r, s') \<Longrightarrow> ws_step s (Action sig k) s'"
| signal: "signal sig (H_app k) s = (Inr r, s') \<Longrightarrow> ws_step s (Signal sig k) s'"
| summary: "print_summary s = (Inr r, s') \<Longrightarrow> ws_step s Summary s'"

inductive_cases ws_step_elims: "ws_step s (Create i start sz now) s'" "ws_step s (Touch a) s'"

inductive ws_reach :: "ws \<Rightarrow> bool" where
  start: "initialize dlsym bin fbase env fm (ws_start g) = (Inr (), s) \<Longrightarrow> ws_reach s"
| step: "ws_reach s \<Longrightarrow> ws_step s x s' \<Longrightarrow> ws_reach s'"

lemma initialize_inv: "initialize dlsym bin fbase env fm (ws_start g) = (Inr (), s) \<Longrightarrow> ws_inv s"
  by (auto simp: initialize_def register_signal_handlers_def sigaction_def real_sigaction_def c_then_def c_bind_def ws_start_def ws_inv_def
      split: sum.splits if_splits)

text \<open>Registering a handler changes nothing but the handlers, and not the one the kernel calls for an access violation.\<close>

lemma ws_inv_handlers:
  "ws_inv s \<Longrightarrow> ws_inv (s\<lparr>old_handlers := h\<rparr>)" "ws_inv s \<Longrightarrow> sig \<noteq> SIGSEGV \<Longrightarrow> ws_inv (s\<lparr>ws_kernel := (ws_kernel s)(sig := g)\<rparr>)"
  by (simp_all add: ws_inv_def)

lemma register_inv:
  "ws_inv s \<Longrightarrow> sigaction sig (Some (H_app k)) want s = (Inr r, s') \<Longrightarrow> ws_inv s'"
  "ws_inv s \<Longrightarrow> signal sig (H_app k) s = (Inr q, s') \<Longrightarrow> ws_inv s'"
  by (auto simp: sigaction_def remember_def real_sigaction_def signal_def real_signal_def set_old_def c_bind_def c_then_def
      ws_inv_handlers split: if_splits)

lemma live_at_index:
  assumes "live_at a s"
  obtains es i where "enclaves s = Some es" "i < length es" "is_alive (es ! i)" "inside a (es ! i)"
  using assms unfolding live_at_def by (metis in_set_conv_nth)

lemma ws_step_inv: "ws_step s x s' \<Longrightarrow> ws_inv s \<Longrightarrow> ws_inv s'"
proof (induction rule: ws_step.induct)
  case (create start sz s i now r s')
  obtain es where es: "enclaves s = Some es" using create.prems by (auto simp: ws_inv_def)
  from add_enclave_ok [OF create.prems es create.hyps(1), of i now] create.hyps(2) show ?case
    by (auto simp: sgx_create_enclave_def c_then_def c_bind_def)
next
  case (destroy i now s r s')
  then show ?case using destroy_enclave_ok [of s 0 i now] by auto
next
  case (touch a s r s')
  then show ?case using touch_inv by blast
next
  case (action sig k want s r s')
  then show ?case using register_inv(1) by blast
next
  case (signal sig k s r s')
  then show ?case using register_inv(2) by blast
next
  case (summary s r s')
  obtain es where es: "enclaves s = Some es" using summary.prems by (auto simp: ws_inv_def)
  from print_summary_ok [OF summary.prems es] summary.hyps show ?case by auto
qed

lemma ws_reach_inv: "ws_reach s \<Longrightarrow> ws_inv s"
  by (induction rule: ws_reach.induct) (auto intro: initialize_inv ws_step_inv)

end
