(* ===== verification/WorkingsetRun.thy ===== *)
theory WorkingsetRun
  imports WorkingsetOk
begin

text \<open>
  The claims on the working set analyzer: what it counts, that the program under it goes on, and where its signal
  handlers go wrong.
\<close>

section \<open>Several accesses\<close>

definition access :: "u64 \<Rightarrow> (ws, unit) comp" where
  "access a = c_then (touch 1 a) (c_ret ())"

text \<open>What accesses leave unchanged of an enclave.\<close>

definition same_encl :: "enclave_t \<Rightarrow> enclave_t \<Rightarrow> bool" where
  "same_encl e f \<longleftrightarrow> eid f = eid e \<and> encl_start f = encl_start e \<and> encl_size f = encl_size e \<and> is_alive f = is_alive e \<and>
     length (page_status f) = length (page_status e)"

lemma same_encl_simps:
  "same_encl e e" "same_encl e f \<Longrightarrow> same_encl f g \<Longrightarrow> same_encl e g" "same_encl e f \<Longrightarrow> inside a f = inside a e"
  "same_encl e f \<Longrightarrow> page_offset a f = page_offset a e" "same_encl e (e\<lparr>page_status := (page_status e)[k := b]\<rparr>)"
  by (auto simp: same_encl_def inside_def page_offset_def is_alive_def)

text \<open>The first addresses past the live enclaves.\<close>

definition ends :: "enclave_t list \<Rightarrow> u64 set" where
  "ends es = encl_end ` {e \<in> set es. is_alive e}"

lemma ends_update: "i < length es \<Longrightarrow> ends (es[i := (es ! i)\<lparr>page_status := st\<rparr>]) = ends es"
proof -
  assume i: "i < length es"
  have "ends es = (\<lambda>k. encl_end (es ! k)) ` {k. k < length es \<and> is_alive (es ! k)}" for es
    by (auto simp: ends_def in_set_conv_nth image_iff)
  moreover have "encl_end (es[i := (es ! i)\<lparr>page_status := st\<rparr>] ! k) = encl_end (es ! k)" "is_alive (es[i := (es ! i)\<lparr>page_status := st\<rparr>] ! k) = is_alive (es ! k)" for k
    using i by (cases "k = i"; simp add: is_alive_def)+
  ultimately show ?thesis by simp
qed

lemma access_live:
  assumes "ws_inv s" "enclaves s = Some es" "i < length es" "is_alive (es ! i)" "inside a (es ! i)" "a \<notin> ends es" "removes_all (ws_grants s)"
  shows "\<exists>s' es'. access a s = (Inr (), s') \<and> ws_inv s' \<and> enclaves s' = Some es' \<and> length es' = length es \<and> ws_out s' = ws_out s \<and>
    ws_grants s' = ws_grants s \<and> ends es' = ends es \<and> same_encl (es ! i) (es' ! i) \<and>
    page_status (es' ! i) = (page_status (es ! i))[page_offset a (es ! i) := True]"
proof -
  let ?e = "es ! i"
  have "a \<noteq> encl_end e" if "e \<in> set es" "is_alive e" for e using assms(6) that by (auto simp: ends_def)
  note T = touch_live [OF assms(1-5) this, of 0]
  have e: "shape_ok ?e" "pages_ok (ws_grants s) (ws_prot s) ?e" using assms(1-4) by (auto simp: ws_inv_def)
  have counted: "page_status ?e ! page_offset a ?e" if "ws_prot s (unat a div 4096)"
    using e(2) page_of_inside [OF e(1) assms(5)] that assms(7) by (auto simp: pages_ok_def)
  have same: "(page_status ?e)[page_offset a ?e := True] = page_status ?e" if "page_status ?e ! page_offset a ?e"
    using that list_update_id [of "page_status ?e" "page_offset a ?e"] by simp
  show ?thesis
  proof (cases "page_status ?e ! page_offset a ?e")
    case True
    then have "\<exists>t \<in> {s, seen s}. access a s = (Inr (), t)" using T by (auto simp: access_def c_then_def c_bind_def)
    then obtain t where t: "t \<in> {s, seen s}" "access a s = (Inr (), t)" by blast
    then have "ws_inv t \<and> enclaves t = Some es \<and> ws_out t = ws_out s \<and> ws_grants t = ws_grants s"
      using assms(1,2) seen_inv [OF assms(1)] by (auto simp: seen_def)
    then show ?thesis using t(2) same [OF True] same_encl_simps(1) by (intro exI [of _ t] exI [of _ es]) simp
  next
    case False
    then have "access a s = (Inr (), touched a i es s)" using T counted by (auto simp: access_def c_then_def c_bind_def)
    then show ?thesis using touched_inv [OF assms(1-5)] assms(3) ends_update [OF assms(3)]
      by (simp add: touched_def same_encl_simps(5))
  qed
qed

lemma accesses_live:
  assumes "ws_inv s" "enclaves s = Some es" "i < length es" "is_alive (es ! i)" "\<forall>a \<in> set as. inside a (es ! i) \<and> a \<notin> ends es" "removes_all (ws_grants s)"
  shows "\<exists>s' es'. c_each access as s = (Inr (), s') \<and> ws_inv s' \<and> enclaves s' = Some es' \<and> length es' = length es \<and> ws_out s' = ws_out s \<and>
    same_encl (es ! i) (es' ! i) \<and>
    page_status (es' ! i) = foldl (\<lambda>st a. st[page_offset a (es ! i) := True]) (page_status (es ! i)) as"
  using assms
proof (induction as arbitrary: s es)
  case Nil
  then show ?case using same_encl_simps(1) by auto
next
  case (Cons a as)
  from Cons.prems access_live [of s es i a] obtain s1 es1 where 1: "access a s = (Inr (), s1)" "ws_inv s1" "enclaves s1 = Some es1"
    "length es1 = length es" "ws_out s1 = ws_out s" "ws_grants s1 = ws_grants s" "ends es1 = ends es" "same_encl (es ! i) (es1 ! i)"
    "page_status (es1 ! i) = (page_status (es ! i))[page_offset a (es ! i) := True]" by auto
  have al: "i < length es1" "is_alive (es1 ! i)" "\<forall>a \<in> set as. inside a (es1 ! i) \<and> a \<notin> ends es1" "removes_all (ws_grants s1)"
    using Cons.prems(3-) 1(4,6-8) same_encl_simps(3) [OF 1(8)] by (simp_all add: same_encl_def)
  from Cons.IH [OF 1(2,3) al] obtain s2 es2 where 2: "c_each access as s1 = (Inr (), s2)" "ws_inv s2" "enclaves s2 = Some es2"
    "length es2 = length es1" "ws_out s2 = ws_out s1" "same_encl (es1 ! i) (es2 ! i)"
    "page_status (es2 ! i) = foldl (\<lambda>st a. st[page_offset a (es1 ! i) := True]) (page_status (es1 ! i)) as" by blast
  show ?case
    using 1(1,4,5,9) 2(1-5,7) same_encl_simps(2) [OF 1(8) 2(6)] same_encl_simps(4) [OF 1(8)]
    by (intro exI [of _ s2] exI [of _ es2]) (simp add: c_then_def c_bind_def)
qed

lemma foldl_marks: "k < length st \<Longrightarrow> foldl (\<lambda>st a. st[f a := True]) st as ! k \<longleftrightarrow> st ! k \<or> k \<in> f ` set as"
proof (induction as arbitrary: st)
  case (Cons a as)
  then show ?case by (cases "k = f a") simp_all
qed simp

lemma length_foldl_marks: "length (foldl (\<lambda>st a. st[f a := True]) st as) = length st"
  by (induction as arbitrary: st) auto

lemma count_marks:
  assumes "\<forall>a \<in> set as. f a < n"
  shows "length (filter id (foldl (\<lambda>st a. st[f a := True]) (replicate n False) as)) = card (f ` set as)"
proof -
  have "{k. k < n \<and> foldl (\<lambda>st a. st[f a := True]) (replicate n False) as ! k} = f ` set as"
    using assms foldl_marks [of _ "replicate n False" f as] by auto
  then show ?thesis by (simp add: length_filter_conv_card length_foldl_marks)
qed

section \<open>A program\<close>

definition ex_elf :: elf_env where
  "ex_elf = \<lparr>os_open = (\<lambda>_. -1), elf_sections = (\<lambda>_. []), file_bytes = (\<lambda>_. [])\<rparr>"

text \<open>Under a kernel that does what it is asked to, or another.\<close>

definition ex_kernel :: grants where
  "ex_kernel = (\<lambda>_ _ n _. n)"

definition ex_refusing :: grants where
  "ex_refusing = (\<lambda>_ _ n b. if b then 0 else n)"

definition ex_ws :: "grants \<Rightarrow> ws" where
  "ex_ws g = snd (initialize (\<lambda>_. 1) [] 0 ex_elf [] (ws_start g))"

lemma ex_ws_eq: "initialize (\<lambda>_. 1) [] 0 ex_elf [] (ws_start g) = (Inr (), ex_ws g)" "enclaves (ex_ws g) = Some []" "ws_out (ex_ws g) = []"
  "ws_grants (ex_ws g) = g"
  by (simp_all add: ex_ws_def initialize_def initialize_urts_calls_def get_address_for_symbol_def getSymbolInfo_def openOrGetFile_def ex_elf_def
      initialize_libc_calls_def register_signal_handlers_def sigaction_def real_sigaction_def c_then_def c_bind_def ws_start_def Let_def)

lemma ex_reach: "ws_reach (ex_ws g)"
  by (rule ws_reach.start [OF ex_ws_eq(1)])

lemma ex_free: "free_range 0x10000 0x3000 (ex_ws g)"
  by (simp add: free_range_def ex_ws_eq page_range_def)

text \<open>One enclave of three pages.\<close>

lemma ex_one: "\<exists>s. ws_reach s \<and> enclaves s = Some [new_encl 1 0x10000 0x3000 (0, 0)] \<and> ws_grants s = g"
proof -
  from add_enclave_ok [OF ws_reach_inv [OF ex_reach] ex_ws_eq(2) ex_free, of 1 "(0, 0)" g] obtain s where
    s: "add_enclave 1 0x10000 0x3000 (0, 0) (ex_ws g) = (Inr (), s)" "enclaves s = Some [new_encl 1 0x10000 0x3000 (0, 0)]" "ws_grants s = g"
    by (auto simp: ex_ws_eq(4))
  have "sgx_create_enclave 0 1 0x10000 0x3000 (0, 0) (ex_ws g) = (Inr 0, s)" using s(1) by (simp add: sgx_create_enclave_def c_then_def c_bind_def)
  then have "ws_reach s" using ws_reach.step [OF ex_reach ws_step.create [OF ex_free]] by blast
  with s(2,3) show ?thesis by blast
qed

lemma new_encl_fields [simp]: "encl_start (new_encl i start sz now) = start" "encl_size (new_encl i start sz now) = sz"
  "encl_end (new_encl i start sz now) = start + sz" "is_alive (new_encl i start sz now)" "eid (new_encl i start sz now) = i"
  by (simp_all add: new_encl_def Enclave_def is_alive_def)

text \<open>Whether the page of an address counts.\<close>

definition counted :: "u64 \<Rightarrow> ws \<Rightarrow> bool" where
  "counted a s \<longleftrightarrow> (\<exists>es. enclaves s = Some es \<and> (\<exists>e \<in> set es. is_alive e \<and> inside a e \<and> page_status e ! page_offset a e))"


lemma ex_closed:
  assumes "ws_reach s" "enclaves s = Some [new_encl 1 0x10000 0x3000 (0, 0)]" "removes_all (ws_grants s)" "k < 3"
  shows "\<not> ws_prot s (16 + k)"
proof
  let ?e = "new_encl 1 0x10000 0x3000 (0, 0)"
  assume "ws_prot s (16 + k)"
  moreover have "page_status ?e = replicate 3 False" by (simp add: new_encl_def Enclave_def pages_def PAGE_SIZE_def)
  moreover have "pages_ok (ws_grants s) (ws_prot s) ?e" using ws_reach_inv [OF assms(1)] assms(2) by (simp add: ws_inv_def)
  ultimately show False using assms(3,4) by (auto simp: pages_ok_def dest: spec [of _ k])
qed

text \<open>A kernel that takes permissions away but does not give them back leaves the first page that is accessed counted and inaccessible.\<close>

lemma refused_page: "\<exists>s es e. ws_reach s \<and> removes_all (ws_grants s) \<and> enclaves s = Some es \<and> e \<in> set es \<and> is_alive e \<and> page_status e ! 0 \<and>
    \<not> ws_prot s (unat (encl_start e) div 4096)"
proof -
  let ?a = "0x10000 :: u64" and ?e = "new_encl 1 0x10000 0x3000 (0, 0)"
  obtain s where s: "ws_reach s" "enclaves s = Some [?e]" "ws_grants s = ex_refusing" using ex_one by blast
  have rem: "removes_all ex_refusing" by (simp add: removes_all_def ex_refusing_def)
  have inv: "ws_inv s" using s(1) by (rule ws_reach_inv)
  have i: "0 < length [?e]" "is_alive ([?e] ! 0)" "inside ?a ([?e] ! 0)" by (simp_all add: inside_def)
  have st: "page_status ?e = replicate 3 False" by (simp add: new_encl_def Enclave_def pages_def PAGE_SIZE_def)
  have off: "page_offset ?a ?e = 0" by (simp add: page_offset_def page_addr_def)
  have np: "\<not> ws_prot s 16" using ex_closed [OF s(1,2) _, of 0] s(3) rem by simp
  have "touch 1 ?a s = (Inr False, touched ?a 0 [?e] s)"
    using touch_live [OF inv s(2) i, of 0] np st off s(3) by (simp add: granted_def ex_refusing_def)
  then have r: "ws_reach (touched ?a 0 [?e] s)" using ws_reach.step [OF s(1) ws_step.touch] by blast
  let ?f = "?e\<lparr>page_status := (page_status ?e)[page_offset ?a ?e := True]\<rparr>"
  have "enclaves (touched ?a 0 [?e] s) = Some [?f]" "ws_grants (touched ?a 0 [?e] s) = ex_refusing" "\<not> ws_prot (touched ?a 0 [?e] s) 16"
    using s(3) np by (simp_all add: touched_def open_page_def granted_def ex_refusing_def)
  moreover have "is_alive ?f" "page_status ?f ! 0" "unat (encl_start ?f) div 4096 = 16"
    using st off by (simp_all add: is_alive_def new_encl_def Enclave_def)
  ultimately show ?thesis using r rem by (intro exI [of _ "touched ?a 0 [?e] s"] exI [of _ "[?f]"] exI [of _ ?f]) simp
qed

section \<open>The claims\<close>

text \<open>C22: In every state of the program under the working set analyzer, and whatever the kernel refuses, the status of the pages of a live
  enclave is what the kernel allows it to be: if the kernel never refuses to take permissions away, an accessible page counts for the working set,
  and if it never refuses to give them back, a page that counts is accessible, so that with both they are the same. After a refusal, as beyond the limit of
  mappings, a page can count without being accessible (\<open>refused_page\<close>), or be accessible without counting.\<close>

theorem ws_pages_tracked:
  assumes "ws_reach s" "enclaves s = Some es" "e \<in> set es" "is_alive e" "k < unat (encl_size e) div 4096"
  shows "k < length (page_status e) \<and>
    (removes_all (ws_grants s) \<longrightarrow> ws_prot s (unat (encl_start e) div 4096 + k) \<longrightarrow> page_status e ! k) \<and>
    (grants_all (ws_grants s) \<longrightarrow> page_status e ! k \<longrightarrow> ws_prot s (unat (encl_start e) div 4096 + k))"
  using ws_reach_inv [OF assms(1)] assms(2-) by (auto simp: ws_inv_def shape_ok_def pages_ok_def)

theorem ws_pages_tracked_witness:
  "\<exists>s e. ws_reach s \<and> enclaves s = Some [e] \<and> is_alive e \<and> encl_start e = 0x10000 \<and> 1 < length (page_status e) \<and>
    (page_status e ! 1 \<longleftrightarrow> ws_prot s 17)"
proof -
  obtain s where s: "ws_reach s" "enclaves s = Some [new_encl 1 0x10000 0x3000 (0, 0)]" "ws_grants s = ex_kernel" using ex_one by blast
  have "removes_all ex_kernel" "grants_all ex_kernel" by (simp_all add: removes_all_def grants_all_def ex_kernel_def)
  then show ?thesis using ws_pages_tracked [OF s(1,2), of "new_encl 1 0x10000 0x3000 (0, 0)" 1] s by auto
qed



text \<open>C10: The number of pages that is printed for an enclave that is created and then accessed is the number of its pages that have been
  accessed, however often and in which order, as long as the kernel takes the permissions away when it is asked to. Whether it gives them back does not
  matter. No live enclave ends right at an accessed address.\<close>

theorem ws_counts_pages:
  assumes "ws_reach s" "free_range start sz s" "removes_all (ws_grants s)"
    and "\<forall>a \<in> set as. unat start \<le> unat a \<and> unat a < unat start + unat sz \<and> \<not> past_end a s"
  shows "\<exists>s' es. c_then (sgx_create_enclave 0 i start sz now) (c_then (c_each access as) print_summary) s = (Inr (), s') \<and>
    enclaves s = Some es \<and> length (ws_out s') = length (ws_out s) + length es + 1 \<and>
    last (ws_out s') = (False, i, of_nat (card ((\<lambda>a. unat a div 4096) ` set as)), of_nat (card ((\<lambda>a. unat a div 4096) ` set as)) * 4096)"
proof -
  let ?e = "new_encl i start sz now"
  have inv: "ws_inv s" using assms(1) by (rule ws_reach_inv)
  then obtain es where es: "enclaves s = Some es" by (auto simp: ws_inv_def)
  from add_enclave_ok [OF inv es assms(2), of i now] obtain s1 where 1: "add_enclave i start sz now s = (Inr (), s1)" "ws_inv s1"
    "enclaves s1 = Some (es @ [?e])" "ws_out s1 = ws_out s" "ws_grants s1 = ws_grants s" by blast
  have e: "encl_start ?e = start" "encl_size ?e = sz" "is_alive ?e" "eid ?e = i" "page_status ?e = replicate (unat (pages sz)) False"
    by (simp_all add: new_encl_def Enclave_def is_alive_def)
  have sh: "shape_ok ?e" using Enclave_shape assms(2) by (simp add: free_range_def new_encl_def)
  have ins: "\<forall>a \<in> set as. inside a ?e" using assms(4) e by (simp add: inside_def)
  have "\<forall>a \<in> set as. a \<notin> ends (es @ [?e])"
  proof
    fix a assume a: "a \<in> set as"
    then have "a \<noteq> encl_end ?e" using bspec [OF ins a] sh by (auto simp: inside_def shape_ok_def)
    then show "a \<notin> ends (es @ [?e])" using assms(4) a es by (auto simp: ends_def past_end_def)
  qed
  with ins accesses_live [OF 1(2,3), of "length es" as] e assms(3) 1(5) obtain s2 es2 where 2: "c_each access as s1 = (Inr (), s2)" "ws_inv s2"
    "enclaves s2 = Some es2" "length es2 = length es + 1" "ws_out s2 = ws_out s" "same_encl ?e (es2 ! length es)"
    "page_status (es2 ! length es) = foldl (\<lambda>st a. st[page_offset a ?e := True]) (replicate (unat (pages sz)) False) as"
    by (auto simp: 1(4))
  from print_summary_ok [OF 2(2,3)] obtain s3 where 3: "print_summary s2 = (Inr (), s3)"
    "ws_out s3 = ws_out s2 @ map (\<lambda>e. (\<not> is_alive e, eid e, of_nat (length (filter id (page_status e))),
      of_nat (length (filter id (page_status e))) * PAGE_SIZE)) es2" by blast
  have off: "page_offset a ?e = unat a div 4096 - first_page ?e" "page_offset a ?e < unat (pages sz)" "first_page ?e \<le> unat a div 4096"
    if "a \<in> set as" for a using page_of_inside [OF sh bspec [OF ins that]] e by simp_all
  have "length (filter id (page_status (es2 ! length es))) = card ((\<lambda>a. page_offset a ?e) ` set as)"
    unfolding 2(7) by (rule count_marks) (use off in blast)
  also have "(\<lambda>a. page_offset a ?e) ` set as = (\<lambda>p. p - first_page ?e) ` (\<lambda>a. unat a div 4096) ` set as"
    using off(1) by (simp add: image_image)
  also have "card \<dots> = card ((\<lambda>a. unat a div 4096) ` set as)"
    by (rule card_image) (use off(3) in \<open>auto intro!: inj_onI dest: eq_diff_iff [THEN iffD1, rotated 2]\<close>)
  finally have c: "length (filter id (page_status (es2 ! length es))) = card ((\<lambda>a. unat a div 4096) ` set as)" .
  have "last es2 = es2 ! length es" using 2(4) by (subst last_conv_nth) auto
  then have "last (ws_out s3) = (False, i, of_nat (card ((\<lambda>a. unat a div 4096) ` set as)), of_nat (card ((\<lambda>a. unat a div 4096) ` set as)) * 4096)"
    using 3(2) 2(4,6) e c by (cases es2 rule: rev_cases) (auto simp: same_encl_def PAGE_SIZE_def)
  moreover have "length (ws_out s3) = length (ws_out s) + length es + 1" using 3(2) 2(4,5) by simp
  ultimately show ?thesis
    using es 1(1) 2(1) 3(1) by (intro exI [of _ s3] exI [of _ es]) (simp add: sgx_create_enclave_def c_then_def c_bind_def)
qed

theorem ws_counts_pages_witness:
  "\<exists>s'. c_then (sgx_create_enclave 0 1 0x10000 0x3000 (0, 0)) (c_then (c_each access [0x10000, 0x12fff, 0x10008]) print_summary) (ex_ws ex_kernel)
      = (Inr (), s') \<and> ws_out s' = [(False, 1, 2, 8192)]"
proof -
  let ?s = "ex_ws ex_kernel"
  have a: "\<forall>a \<in> set [0x10000, 0x12fff, 0x10008 :: u64]. unat (0x10000 :: u64) \<le> unat a \<and> unat a < unat (0x10000 :: u64) + unat (0x3000 :: u64) \<and> \<not> past_end a ?s"
    by (simp add: past_end_def ex_ws_eq)
  have r: "removes_all (ws_grants ?s)" by (simp add: ex_ws_eq removes_all_def ex_kernel_def)
  from ws_counts_pages [OF ex_reach ex_free r a, where i = 1 and now = "(0, 0)"] obtain s' where
    "c_then (sgx_create_enclave 0 1 0x10000 0x3000 (0, 0)) (c_then (c_each access [0x10000, 0x12fff, 0x10008]) print_summary) ?s = (Inr (), s')"
    and o: "length (ws_out s') = 1" "last (ws_out s') = (False, 1, 2, 8192)"
    by (auto simp: ex_ws_eq card_insert_if)
  moreover have "ws_out s' = [(False, 1, 2, 8192)]" using o by (cases "ws_out s'") auto
  ultimately show ?thesis by blast
qed

lemma handler_recurses:
  "rw_free (enclaves_lock s) \<Longrightarrow> enclaves s = Some es \<Longrightarrow> find_enclave a es = None \<Longrightarrow> old_handlers s SIGSEGV = H_handler \<Longrightarrow>
    fst (handler n SIGSEGV a s) = Inl Diverge"
proof (induction n arbitrary: s)
  case (Suc n)
  then show ?case
    by (simp add: handler.simps(2) c_bind_def c_then_def wl.acquire_read the_enclaves_def wl.release_eq)
qed simp

text \<open>A handler the application registers with \<open>signal\<close> instead is lost: the library stores its own handler, which then calls itself
  without end for a fault outside the live enclaves.\<close>

lemma ws_signal_recursion:
  assumes "ws_reach s" "enclaves s = Some es" "\<forall>e \<in> set es. is_alive e \<longrightarrow> \<not> is_within_enclave a e"
  shows "\<exists>s'. signal SIGSEGV (H_app k) s = (Inr H_handler, s') \<and> ws_kernel s' = ws_kernel s \<and> (\<forall>n. fst (deliver n a s') = Inl Diverge)"
proof -
  let ?s = "s\<lparr>old_handlers := (old_handlers s)(SIGSEGV := H_handler)\<rparr>"
  have I: "rw_free (enclaves_lock s)" "ws_kernel s SIGSEGV = H_handler" using ws_reach_inv [OF assms(1)] by (simp_all add: ws_inv_def)
  have "signal SIGSEGV (H_app k) s = (Inr H_handler, ?s)"
    by (simp add: signal_def set_old_def c_then_def c_bind_def)
  moreover have "fst (deliver n a ?s) = Inl Diverge" for n
    using handler_recurses [of ?s es a n] I assms(2) find_enclave_none [OF assms(3)] by (simp add: deliver_def c_bind_def)
  ultimately show ?thesis by auto
qed

text \<open>C31: A handler the application registers with \<open>sigaction\<close> for an access violation is hidden from the kernel, is what a later query
  returns, and is called for a fault outside the live enclaves. One it registers with \<open>signal\<close> is lost: the library stores its own handler instead and returns
  that, and a fault outside the live enclaves then makes it call itself without end.\<close>

theorem ws_handler_virtualised:
  assumes "ws_reach s" "enclaves s = Some es" "\<forall>e \<in> set es. is_alive e \<longrightarrow> \<not> is_within_enclave a e"
  shows "\<exists>s' s''. sigaction SIGSEGV (Some (H_app k)) False s = (Inr (0, None), s') \<and> ws_kernel s' = ws_kernel s \<and>
    sigaction SIGSEGV None True s' = (Inr (0, Some (H_app k)), s') \<and> deliver (Suc n) a s' = (Inr (Some k), s'') \<and>
    (\<exists>t. signal SIGSEGV (H_app k) s = (Inr H_handler, t) \<and> ws_kernel t = ws_kernel s \<and> (\<forall>m. fst (deliver m a t) = Inl Diverge))"
proof -
  let ?s = "s\<lparr>old_handlers := (old_handlers s)(SIGSEGV := H_app k)\<rparr>"
  have I: "rw_free (enclaves_lock s)" "ws_kernel s SIGSEGV = H_handler" using ws_reach_inv [OF assms(1)] by (simp_all add: ws_inv_def)
  have "sigaction SIGSEGV (Some (H_app k)) False s = (Inr (0, None), ?s)" "sigaction SIGSEGV None True ?s = (Inr (0, Some (H_app k)), ?s)"
    by (simp_all add: sigaction_def remember_def set_old_def c_bind_def c_then_def)
  moreover have "\<exists>s''. deliver (Suc n) a ?s = (Inr (Some k), s'')"
    using I assms(2) find_enclave_none [OF assms(3)]
    by (simp add: deliver_def handler.simps(2) c_bind_def c_then_def wl.acquire_read the_enclaves_def wl.release_eq)
  moreover note ws_signal_recursion [OF assms, of k]
  ultimately show ?thesis by auto
qed

theorem ws_handler_virtualised_witness:
  "\<exists>s' s'' t. sigaction SIGSEGV (Some (H_app 7)) False (ex_ws ex_kernel) = (Inr (0, None), s') \<and> deliver 1 0x123 s' = (Inr (Some 7), s'') \<and>
    signal SIGSEGV (H_app 7) (ex_ws ex_kernel) = (Inr H_handler, t) \<and> fst (deliver 1 0x123 t) = Inl Diverge"
  using ws_handler_virtualised [OF ex_reach [of ex_kernel] ex_ws_eq(2), of "0x123" 7 0] by fastforce

text \<open>The signal that asks for a summary hangs: its handler takes the lock as a writer and then waits for itself as a reader.\<close>

lemma ws_reset_deadlock:
  assumes "ws_reach s" "sig = SIGUSR1 \<or> sig = SIGUSR2"
  shows "fst (reset_handler sig s) = Inl Spin"
proof -
  have "rw_free (enclaves_lock s)" using ws_reach_inv [OF assms(1)] by (simp add: ws_inv_def)
  then show ?thesis
    using assms(2) wl.acquire_write_held(3) [of "enclaves_lock s" "s\<lparr>enclaves_lock := wr_held (enclaves_lock s)\<rparr>"]
    by (auto simp: reset_handler_def c_then_def c_bind_def wl.acquire_write print_summary_def)
qed

lemma ws_reset_deadlock_witness: "fst (reset_handler SIGUSR1 (ex_ws ex_kernel)) = Inl Spin"
  using ws_reset_deadlock [OF ex_reach, where sig = SIGUSR1] by simp

text \<open>The address just past a live enclave counts as inside it, so that a fault there makes the handler write past the end of the page
  status.\<close>

lemma ws_end_out_of_range:
  assumes "ws_reach s" "enclaves s = Some es" "find_enclave (encl_end (es ! i)) es = Some i"
  shows "fst (handler (Suc n) SIGSEGV (encl_end (es ! i)) s) = Inl OutOfRange"
proof -
  have inv: "ws_inv s" using assms(1) by (rule ws_reach_inv)
  have "shape_ok (es ! i)" using inv assms(2) find_enclave_Some [OF assms(3)] by (auto simp: ws_inv_def)
  then have "\<not> inside (encl_end (es ! i)) (es ! i)" by (simp add: inside_def shape_ok_def)
  from handler_past_end(2) [OF inv assms(2,3) this] show ?thesis .
qed

lemma ws_end_out_of_range_witness:
  "\<exists>s e. ws_reach s \<and> enclaves s = Some [e] \<and> is_alive e \<and> fst (handler 1 SIGSEGV (encl_end e) s) = Inl OutOfRange"
proof -
  obtain s where s: "ws_reach s" "enclaves s = Some [new_encl 1 0x10000 0x3000 (0, 0)]" using ex_one by blast
  have "is_within_enclave 0x13000 (new_encl 1 0x10000 0x3000 (0, 0))" "destruction_time (new_encl 1 0x10000 0x3000 (0, 0)) = UINT64_MAX"
    by (simp_all add: is_within_enclave_def new_encl_def Enclave_def)
  then have "find_enclave 0x13000 [new_encl 1 0x10000 0x3000 (0, 0)] = Some 0" by simp
  from ws_end_out_of_range [OF s, of 0 0] this s show ?thesis by auto
qed

end
