(* ===== verification/Calls.thy ===== *)
theory Calls
  imports SgxPrelude "HOL-Library.Sublist"
begin

text \<open>
  The call analysis of \<^verbatim>\<open>src/analyzer/src/calls.cpp\<close>: the tables it loads, and how it relates every call to the
  call it was made in and to its predecessor. A pointer into the array of a thread's calls is an
  index; \<open>None\<close> is the null pointer. The maps are association lists.
\<close>

section \<open>Data\<close>

datatype call_type_t = UNDEF | ECALL | OCALL

record single_call_data =
  event_id :: u64
  sc_call_id :: u64
  sc_type :: call_type_t
  sc_start :: u64
  sc_end :: u64
  sc_exec :: u64
  sc_parent :: "nat option"

text \<open>The array of a thread has room for \<open>td_capacity\<close> calls; the first \<open>next_call_index\<close> are filled.\<close>

record thread_data =
  td_id :: u64
  td_pthread_id :: u64
  td_capacity :: u64
  td_calls :: "single_call_data list"

abbreviation next_call_index :: "thread_data \<Rightarrow> nat" where
  "next_call_index t \<equiv> length (td_calls t)"

record stats_t =
  st_sum :: u64
  st_sq_sum :: u64
  st_avg :: u64
  st_calls :: u64
  st_std :: u64
  st_aexs :: u64
  st_min :: u64
  st_max :: u64
  num_less_1us :: u64
  num_less_5us :: u64
  num_less_10us :: u64

definition zero_stats :: stats_t where
  "zero_stats = \<lparr>st_sum = 0, st_sq_sum = 0, st_avg = 0, st_calls = 0, st_std = 0, st_aexs = 0, st_min = 0, st_max = 0,
     num_less_1us = 0, num_less_5us = 0, num_less_10us = 0\<rparr>"

text \<open>\<open>pc_call\<close> is the call the entry is about: its type and its index in the enclave's table.\<close>

record parent_call_data =
  pc_count :: u64
  pc_call :: "(call_type_t \<times> nat) option"
  pc_10us_from_start :: u64
  pc_20us_from_start :: u64
  pc_10us_from_end :: u64
  pc_20us_from_end :: u64
  pc_1us :: u64
  pc_5us :: u64
  pc_10us :: u64
  pc_20us :: u64

definition zero_pcd :: parent_call_data where
  "zero_pcd = \<lparr>pc_count = 0, pc_call = None, pc_10us_from_start = 0, pc_20us_from_start = 0, pc_10us_from_end = 0,
     pc_20us_from_end = 0, pc_1us = 0, pc_5us = 0, pc_10us = 0, pc_20us = 0\<rparr>"

record call_data =
  cd_type :: call_type_t
  cd_call_id :: u64
  cd_name :: string
  exectimes :: "u64 list"
  single_calls :: "(u64 \<times> nat) list"
  aex_counts :: "u64 list"
  has_direct_parents :: bool
  num_ecall_called_from_ocalls :: u64
  direct_parents_data :: "parent_call_data list"
  has_indirect_parents :: bool
  indirect_parents_data :: "parent_call_data list"
  all_stats :: stats_t
  aex_stats :: stats_t
  stats_95th :: stats_t

record enclave_data =
  ecalls :: "call_data list"
  ecalls_sorted :: "call_data list"
  ecall_count :: u64
  ocalls :: "call_data list"
  ocalls_sorted :: "call_data list"
  ocall_count :: u64
  first_ecall_start :: u64
  last_ecall_end :: u64

definition new_enclave_data :: enclave_data where
  "new_enclave_data = \<lparr>ecalls = [], ecalls_sorted = [], ecall_count = 0, ocalls = [], ocalls_sorted = [], ocall_count = 0,
     first_ecall_start = UINT64_MAX, last_ecall_end = 0\<rparr>"

record general_data =
  starttime :: u64
  endtime :: u64
  gd_main_thread :: u64

record analysis =
  an_general :: general_data
  encls :: "(u64 \<times> enclave_data) list"
  an_threads :: "(u64 \<times> thread_data) list"

section \<open>Faults and maps\<close>

definition fbind :: "fault + 'a \<Rightarrow> ('a \<Rightarrow> fault + 'b) \<Rightarrow> fault + 'b" where
  "fbind m f = (case m of Inl e \<Rightarrow> Inl e | Inr x \<Rightarrow> f x)"


definition amap_get :: "'v \<Rightarrow> ('k \<times> 'v) list \<Rightarrow> 'k \<Rightarrow> 'v" where
  "amap_get d m k = (case map_of m k of None \<Rightarrow> d | Some v \<Rightarrow> v)"

text \<open>\<open>m[k]\<close> of a \<open>std::map\<close>, which is kept ordered, with a new entry for a new key.\<close>

definition amap_upd :: "'v \<Rightarrow> 'k :: linorder \<Rightarrow> ('v \<Rightarrow> 'v) \<Rightarrow> ('k \<times> 'v) list \<Rightarrow> ('k \<times> 'v) list" where
  "amap_upd d k f m =
     (if k \<in> fst ` set m then map (\<lambda>kv. if fst kv = k then (k, f (snd kv)) else kv) m
      else insort_key fst (k, f d) m)"

definition upd_encl :: "u64 \<Rightarrow> (enclave_data \<Rightarrow> enclave_data) \<Rightarrow> analysis \<Rightarrow> analysis" where
  "upd_encl eid f a = a\<lparr>encls := amap_upd new_enclave_data eid f (encls a)\<rparr>"

definition encl_of :: "analysis \<Rightarrow> u64 \<Rightarrow> enclave_data" where
  "encl_of a eid = amap_get new_enclave_data (encls a) eid"

definition no_thread :: thread_data where
  "no_thread = \<lparr>td_id = 0, td_pthread_id = 0, td_capacity = 0, td_calls = []\<rparr>"

definition thread_of :: "analysis \<Rightarrow> u64 \<Rightarrow> thread_data" where
  "thread_of a tid = amap_get no_thread (an_threads a) tid"

definition upd_athread :: "u64 \<Rightarrow> (thread_data \<Rightarrow> thread_data) \<Rightarrow> analysis \<Rightarrow> analysis" where
  "upd_athread tid f a = a\<lparr>an_threads := amap_upd no_thread tid f (an_threads a)\<rparr>"

section \<open>Loading\<close>

text \<open>A row of the general table: the key and the number its value text denotes.\<close>

definition general_callback :: "string \<Rightarrow> u64 \<Rightarrow> analysis \<Rightarrow> analysis" where
  "general_callback key v a =
     (if key = ''start_time'' then a\<lparr>an_general := (an_general a)\<lparr>starttime := v\<rparr>\<rparr>
      else if key = ''end_time'' then a\<lparr>an_general := (an_general a)\<lparr>endtime := v\<rparr>\<rparr>
      else if key = ''main_thread'' then a\<lparr>an_general := (an_general a)\<lparr>gd_main_thread := v\<rparr>\<rparr>
      else a)"

definition new_call_data :: "call_type_t \<Rightarrow> u64 \<Rightarrow> string \<Rightarrow> call_data" where
  "new_call_data ty i name =
     \<lparr>cd_type = ty, cd_call_id = i, cd_name = name, exectimes = [], single_calls = [], aex_counts = [],
      has_direct_parents = False, num_ecall_called_from_ocalls = 0, direct_parents_data = [],
      has_indirect_parents = False, indirect_parents_data = [], all_stats = zero_stats, aex_stats = zero_stats,
      stats_95th = zero_stats\<rparr>"

text \<open>A symbol name that is NULL makes the constructor of the name throw.\<close>

definition ecalls_callback :: "u64 \<Rightarrow> u64 \<Rightarrow> string option \<Rightarrow> analysis \<Rightarrow> fault + analysis" where
  "ecalls_callback i eid name a =
     (case name of
        None \<Rightarrow> Inl StdException
      | Some n \<Rightarrow> Inr (upd_encl eid (\<lambda>e. e\<lparr>ecalls := ecalls e @ [new_call_data ECALL i n], ecall_count := 0\<rparr>) a))"

definition ocalls_callback :: "u64 \<Rightarrow> u64 \<Rightarrow> string option \<Rightarrow> analysis \<Rightarrow> fault + analysis" where
  "ocalls_callback i eid name a =
     (case name of
        None \<Rightarrow> Inl StdException
      | Some n \<Rightarrow> Inr (upd_encl eid (\<lambda>e. e\<lparr>ocalls := ocalls e @ [new_call_data OCALL i n], ocall_count := 0\<rparr>) a))"

definition thread_callback :: "u64 \<Rightarrow> u64 \<Rightarrow> u64 \<Rightarrow> analysis \<Rightarrow> analysis" where
  "thread_callback i pthread_id n =
     upd_athread i (\<lambda>_. \<lparr>td_id = i, td_pthread_id = pthread_id, td_capacity = n, td_calls = []\<rparr>)"

text \<open>The vectors of parent data, one entry per ocall or ecall of the enclave.\<close>

definition init_parents :: "enclave_data \<Rightarrow> enclave_data" where
  "init_parents e =
     e\<lparr>ecalls := map (\<lambda>c. c\<lparr>direct_parents_data := replicate (length (ocalls e)) zero_pcd,
          indirect_parents_data := replicate (length (ecalls e)) zero_pcd\<rparr>) (ecalls e),
       ocalls := map (\<lambda>c. c\<lparr>direct_parents_data := replicate (length (ecalls e)) zero_pcd,
          indirect_parents_data := replicate (length (ocalls e)) zero_pcd\<rparr>) (ocalls e)\<rparr>"

fun fold_fault :: "('a \<Rightarrow> 's \<Rightarrow> fault + 's) \<Rightarrow> 'a list \<Rightarrow> 's \<Rightarrow> fault + 's" where
  "fold_fault f [] s = Inr s"
| "fold_fault f (x # xs) s = fbind (f x s) (fold_fault f xs)"

definition new_analysis :: analysis where
  "new_analysis = \<lparr>an_general = \<lparr>starttime = 0, endtime = 0, gd_main_thread = 0\<rparr>, encls = [], an_threads = []\<rparr>"

text \<open>The queries before that of the calls: ecalls and ocalls as (id, enclave, name), threads as
  (id, pthread id, number of events).\<close>

definition load_tables ::
  "(string \<times> u64) list \<Rightarrow> (u64 \<times> u64 \<times> string option) list \<Rightarrow> (u64 \<times> u64 \<times> string option) list \<Rightarrow> (u64 \<times> u64 \<times> u64) list \<Rightarrow>
     fault + analysis" where
  "load_tables gs es os ts =
     fbind (fold_fault (\<lambda>(i, eid, n). ecalls_callback i eid n) es (fold (\<lambda>(k, v). general_callback k v) gs new_analysis)) (\<lambda>a.
       fbind (fold_fault (\<lambda>(i, eid, n). ocalls_callback i eid n) os a) (\<lambda>a.
         Inr (fold (\<lambda>(i, p, n). thread_callback i p n) ts (a\<lparr>encls := map (apsnd init_parents) (encls a)\<rparr>))))"

section \<open>Finding the parents of a call\<close>

text \<open>The loop down from the last call; running below the first element fails the assertion, and a thread
  without calls makes the first access run out of the array.\<close>

fun find_parent :: "single_call_data list \<Rightarrow> u64 \<Rightarrow> nat \<Rightarrow> fault + nat" where
  "find_parent calls pid i =
     (if i < length calls
      then if event_id (calls ! i) = pid then Inr i
           else if i = 0 then Inl AssertFailed else find_parent calls pid (i - 1)
      else Inl OutOfRange)"

declare find_parent.simps [simp del]

definition direct_parent :: "single_call_data list \<Rightarrow> u64 option \<Rightarrow> fault + nat option" where
  "direct_parent calls pid =
     (case pid of
        None \<Rightarrow> Inr None
      | Some p \<Rightarrow> if calls = [] then Inl OutOfRange else map_sum id Some (find_parent calls p (length calls - 1)))"

text \<open>
  The search for the predecessor on the same level, from \<open>c\<close> down: \<open>c > parent\<close> compares addresses, with
  the null pointer below all of them. \<open>c->parent - 1\<close> of the first call would be before the array.
\<close>

definition above :: "nat \<Rightarrow> nat option \<Rightarrow> bool" where
  "above c p = (case p of None \<Rightarrow> True | Some q \<Rightarrow> q < c)"

fun find_indirect :: "nat \<Rightarrow> single_call_data list \<Rightarrow> call_type_t \<Rightarrow> nat option \<Rightarrow> nat option \<Rightarrow> fault + nat option" where
  "find_indirect 0 calls ty p c = Inl Diverge"
| "find_indirect (Suc n) calls ty p c =
     (case c of
        None \<Rightarrow> Inr None
      | Some i \<Rightarrow>
          if \<not> above i p then Inr None
          else if length calls \<le> i then Inl OutOfRange
          else if sc_type (calls ! i) = ty
          then if sc_parent (calls ! i) = p then Inr (Some i)
               else (case sc_parent (calls ! i) of
                       None \<Rightarrow> find_indirect n calls ty p None
                     | Some 0 \<Rightarrow> if p = None then Inl OutOfRange else Inr None
                     | Some (Suc q) \<Rightarrow> find_indirect n calls ty p (Some q))
          else if sc_type (calls ! i) \<noteq> UNDEF then find_indirect n calls ty p (sc_parent (calls ! i))
          else find_indirect n calls ty p c)"

definition indirect_parent :: "single_call_data list \<Rightarrow> call_type_t \<Rightarrow> nat option \<Rightarrow> fault + nat option" where
  "indirect_parent calls ty p =
     (if calls = [] then Inr None
      else find_indirect (Suc (length calls)) calls ty p (Some (length calls - 1)))"

section \<open>Counting a parent\<close>

definition bump_direct :: "call_type_t \<times> nat \<Rightarrow> u64 \<Rightarrow> u64 \<Rightarrow> parent_call_data \<Rightarrow> parent_call_data" where
  "bump_direct pc timediff_start timediff_end d =
     (let d1 = d\<lparr>pc_count := pc_count d + 1, pc_call := Some pc\<rparr>;
          d2 = (if timediff_start < 10000 then d1\<lparr>pc_10us_from_start := pc_10us_from_start d1 + 1\<rparr>
                else if timediff_start < 20000 then d1\<lparr>pc_20us_from_start := pc_20us_from_start d1 + 1\<rparr> else d1)
      in if timediff_end < 10000 then d2\<lparr>pc_10us_from_end := pc_10us_from_end d2 + 1\<rparr>
         else if timediff_end < 20000 then d2\<lparr>pc_20us_from_end := pc_20us_from_end d2 + 1\<rparr> else d2)"

definition bump_indirect :: "call_type_t \<times> nat \<Rightarrow> u64 \<Rightarrow> parent_call_data \<Rightarrow> parent_call_data" where
  "bump_indirect pc timediff d =
     (let d1 = d\<lparr>pc_call := Some pc, pc_count := pc_count d + 1\<rparr>
      in if timediff < 1000 then d1\<lparr>pc_1us := pc_1us d1 + 1\<rparr>
         else if timediff < 5000 then d1\<lparr>pc_5us := pc_5us d1 + 1\<rparr>
         else if timediff < 10000 then d1\<lparr>pc_10us := pc_10us d1 + 1\<rparr>
         else if timediff < 20000 then d1\<lparr>pc_20us := pc_20us d1 + 1\<rparr> else d1)"

section \<open>A row of the call query\<close>

record call_row =
  cr_id :: u64
  cr_type :: u64
  cr_thread :: u64
  cr_call_id :: u64
  cr_eid :: u64
  cr_exectime :: u64
  cr_aex_count :: "u64 option"
  cr_parent :: "u64 option"
  cr_start :: u64
  cr_end :: u64

definition scd_of :: "call_type_t \<Rightarrow> call_row \<Rightarrow> nat option \<Rightarrow> single_call_data" where
  "scd_of ty r p = \<lparr>event_id = cr_id r, sc_call_id = cr_call_id r, sc_type = ty, sc_start = cr_start r, sc_end = cr_end r,
     sc_exec = cr_exectime r, sc_parent = p\<rparr>"

definition other_type :: "call_type_t \<Rightarrow> call_type_t" where
  "other_type ty = (if ty = ECALL then OCALL else ECALL)"

text \<open>Entry \<open>i\<close> of a vector with \<open>at\<close>.\<close>

definition at_upd :: "u64 \<Rightarrow> ('a \<Rightarrow> 'a) \<Rightarrow> 'a list \<Rightarrow> fault + 'a list" where
  "at_upd i f xs = (if unat i < length xs then Inr (xs[unat i := f (xs ! unat i)]) else Inl StdException)"

text \<open>What the row means for the data of the call: its direct parent, if it has one, \<dots>\<close>

definition note_direct :: "call_type_t \<Rightarrow> call_row \<Rightarrow> single_call_data list \<Rightarrow> nat option \<Rightarrow> call_data \<Rightarrow> fault + call_data" where
  "note_direct ty r calls p c =
     (case p of
        None \<Rightarrow> Inr c
      | Some i \<Rightarrow>
          (let q = calls ! i
           in map_sum id (\<lambda>d. c\<lparr>direct_parents_data := d, has_direct_parents := True,
                  num_ecall_called_from_ocalls := num_ecall_called_from_ocalls c + (if ty = ECALL then 1 else 0)\<rparr>)
                (at_upd (sc_call_id q) (bump_direct (other_type ty, unat (sc_call_id q)) (cr_start r - sc_start q) (sc_end q - cr_end r))
                  (direct_parents_data c))))"

text \<open>\<dots> and its predecessor on the same level.\<close>

definition note_indirect :: "call_type_t \<Rightarrow> call_row \<Rightarrow> single_call_data list \<Rightarrow> nat option \<Rightarrow> call_data \<Rightarrow> fault + call_data" where
  "note_indirect ty r calls s c =
     (case s of
        None \<Rightarrow> Inr c
      | Some i \<Rightarrow>
          (let q = calls ! i
           in map_sum id (\<lambda>d. c\<lparr>indirect_parents_data := d, has_indirect_parents := True\<rparr>)
                (at_upd (sc_call_id q) (bump_indirect (ty, unat (sc_call_id q)) (cr_start r - sc_end q))
                  (indirect_parents_data c))))"

definition add_exectime :: "call_row \<Rightarrow> call_data \<Rightarrow> call_data" where
  "add_exectime r c = c\<lparr>exectimes := exectimes c @ [cr_exectime r],
     all_stats := (all_stats c)\<lparr>st_sum := st_sum (all_stats c) + cr_exectime r\<rparr>\<rparr>"

definition add_aex :: "call_row \<Rightarrow> call_data \<Rightarrow> call_data" where
  "add_aex r c =
     (case cr_aex_count r of
        None \<Rightarrow> c
      | Some n \<Rightarrow> c\<lparr>aex_counts := aex_counts c @ [n], all_stats := (all_stats c)\<lparr>st_aexs := st_aexs (all_stats c) + n\<rparr>\<rparr>)"

text \<open>The part the branches for ecalls and ocalls share: the new element of the thread's array and the
  updated data of the call. The pointer kept for the call is taken after the index has been incremented.\<close>

definition relate_call ::
  "call_type_t \<Rightarrow> call_row \<Rightarrow> thread_data \<Rightarrow> call_data \<Rightarrow> fault + (call_data \<times> thread_data)" where
  "relate_call ty r t c =
     fbind (direct_parent (td_calls t) (cr_parent r)) (\<lambda>p.
       fbind (note_direct ty r (td_calls t) p c) (\<lambda>c1.
         fbind (indirect_parent (td_calls t) ty p) (\<lambda>s.
           fbind (note_indirect ty r (td_calls t) s c1) (\<lambda>c2.
             if unat (td_capacity t) \<le> length (td_calls t) then Inl OutOfRange
             else Inr (c2\<lparr>single_calls := single_calls c2 @ [(cr_thread r, Suc (length (td_calls t)))]\<rparr>,
                    t\<lparr>td_calls := td_calls t @ [scd_of ty r p]\<rparr>)))))"

definition call_data_callback :: "call_row \<Rightarrow> analysis \<Rightarrow> fault + analysis" where
  "call_data_callback r a =
     (let e = encl_of a (cr_eid r); t = thread_of a (cr_thread r); i = unat (cr_call_id r)
      in if cr_type r = 15
         then if length (ecalls e) \<le> i then Inl OutOfRange
              else fbind (relate_call ECALL r t (add_exectime r (add_aex r (ecalls e ! i)))) (\<lambda>(c, t').
                Inr (upd_athread (cr_thread r) (\<lambda>_. t') (upd_encl (cr_eid r) (\<lambda>e. e\<lparr>ecalls := (ecalls e)[i := c],
                  first_ecall_start := (if cr_start r < first_ecall_start e then cr_start r else first_ecall_start e),
                  last_ecall_end := (if last_ecall_end e < cr_end r then cr_end r else last_ecall_end e)\<rparr>) a)))
         else if cr_type r = 17
         then if length (ocalls e) \<le> i then Inl OutOfRange
              else fbind (relate_call OCALL r t (add_exectime r (ocalls e ! i))) (\<lambda>(c, t').
                Inr (upd_athread (cr_thread r) (\<lambda>_. t') (upd_encl (cr_eid r) (\<lambda>e. e\<lparr>ocalls := (ocalls e)[i := c]\<rparr>) a)))
         else Inr a)"

fun load_calls :: "call_row list \<Rightarrow> analysis \<Rightarrow> fault + analysis" where
  "load_calls [] a = Inr a"
| "load_calls (r # rs) a = fbind (call_data_callback r a) (load_calls rs)"

end
