(* ===== verification/CallsRel.thy ===== *)
theory CallsRel
  imports Calls
begin

text \<open>
  The array of a thread's calls in the order they were made: where the parent of a call and its
  predecessor on the same level are, and that the searches of \<open>call_data_callback\<close> find them.
\<close>

section \<open>Open calls\<close>

text \<open>Call \<open>i\<close> and the calls it was made in, innermost first.\<close>

fun chain :: "single_call_data list \<Rightarrow> nat \<Rightarrow> nat list" where
  "chain cs i = i # (case sc_parent (cs ! i) of None \<Rightarrow> [] | Some q \<Rightarrow> if q < i then chain cs q else [])"

declare chain.simps [simp del]

text \<open>A call of type \<open>ty\<close> in call \<open>p\<close> can follow the calls \<open>cs\<close>: ecalls are made from outside or from an
  ocall that has not returned, ocalls from such an ecall.\<close>

definition fits :: "single_call_data list \<Rightarrow> call_type_t \<Rightarrow> nat option \<Rightarrow> bool" where
  "fits cs ty p = (case p of
       None \<Rightarrow> ty = ECALL
     | Some q \<Rightarrow> ty \<noteq> UNDEF \<and> cs \<noteq> [] \<and> q \<in> set (chain cs (length cs - 1)) \<and> sc_type (cs ! q) = other_type ty)"

definition wf_calls :: "single_call_data list \<Rightarrow> bool" where
  "wf_calls cs \<longleftrightarrow> (\<forall>i < length cs. fits (take i cs) (sc_type (cs ! i)) (sc_parent (cs ! i)))"

lemma chain_self [simp]: "i \<in> set (chain cs i)"
  by (subst chain.simps) simp

lemma in_chain:
  "q \<in> set (chain cs i) \<longleftrightarrow> q = i \<or> (\<exists>p. sc_parent (cs ! i) = Some p \<and> p < i \<and> q \<in> set (chain cs p))"
  by (subst chain.simps) (auto split: option.splits)

lemma chain_le: "q \<in> set (chain cs i) \<Longrightarrow> q \<le> i"
proof (induction cs i arbitrary: q rule: chain.induct)
  case (1 cs i)
  then show ?case by (auto simp: in_chain [of q cs i] dest: order.strict_implies_order order.trans)
qed

lemma chain_cong: "(\<And>j. j \<le> i \<Longrightarrow> sc_parent (xs ! j) = sc_parent (ys ! j)) \<Longrightarrow> chain xs i = chain ys i"
proof (induction xs i rule: chain.induct)
  case (1 cs i)
  then show ?case
    by (subst (1 2) chain.simps) (auto split: option.splits)
qed

lemma chain_append [simp]: "i < length xs \<Longrightarrow> chain (xs @ ys) i = chain xs i"
  by (rule chain_cong) (simp add: nth_append)

lemma chain_take [simp]: "i < k \<Longrightarrow> chain (take k xs) i = chain xs i"
  by (rule chain_cong) simp

lemma chain_trans: "r \<in> set (chain cs q) \<Longrightarrow> q \<in> set (chain cs i) \<Longrightarrow> r \<in> set (chain cs i)"
proof (induction cs i rule: chain.induct)
  case (1 cs i)
  show ?case
  proof (cases "q = i")
    case False
    with 1(3) obtain p where "sc_parent (cs ! i) = Some p" "p < i" "q \<in> set (chain cs p)"
      by (auto simp: in_chain [of q cs i])
    with 1(1) [OF this(1,2) 1(2)] show ?thesis by (simp add: in_chain [of r cs i])
  qed (use 1 in simp)
qed

lemma wf_fits: "wf_calls cs \<Longrightarrow> i < length cs \<Longrightarrow> fits (take i cs) (sc_type (cs ! i)) (sc_parent (cs ! i))"
  by (simp add: wf_calls_def)

lemma wf_parent:
  assumes "wf_calls cs" "i < length cs" "sc_parent (cs ! i) = Some q"
  shows "q < i" "q \<in> set (chain cs (i - 1))" "sc_type (cs ! q) = other_type (sc_type (cs ! i))" "sc_type (cs ! i) \<noteq> UNDEF"
proof -
  have f: "take i cs \<noteq> []" "q \<in> set (chain (take i cs) (length (take i cs) - 1))"
    "sc_type (take i cs ! q) = other_type (sc_type (cs ! i))" "sc_type (cs ! i) \<noteq> UNDEF"
    using wf_fits [OF assms(1,2)] assms(3) by (simp_all add: fits_def)
  have i: "0 < i" "length (take i cs) = i" using f(1) assms(2) by auto
  show c: "q \<in> set (chain cs (i - 1))" using f(2) i by simp
  show q: "q < i" using chain_le [OF c] i by simp
  show "sc_type (cs ! q) = other_type (sc_type (cs ! i))" "sc_type (cs ! i) \<noteq> UNDEF" using f(3,4) q by simp_all
qed

lemma wf_root: "wf_calls cs \<Longrightarrow> i < length cs \<Longrightarrow> sc_parent (cs ! i) = None \<Longrightarrow> sc_type (cs ! i) = ECALL"
  using wf_fits [of cs i] by (simp add: fits_def)

lemma wf_defined: "wf_calls cs \<Longrightarrow> i < length cs \<Longrightarrow> sc_type (cs ! i) \<noteq> UNDEF"
  using wf_parent(4) wf_root by (cases "sc_parent (cs ! i)") fastforce+

lemma chain_parent:
  "sc_parent (cs ! i) = Some p \<Longrightarrow> p < i \<Longrightarrow> q \<in> set (chain cs i) \<Longrightarrow> q \<noteq> i \<Longrightarrow> q \<in> set (chain cs p)"
  by (subst (asm) chain.simps) simp

lemma chain_orphan: "sc_parent (cs ! i) = None \<Longrightarrow> chain cs i = [i]"
  by (subst chain.simps) simp

lemma wf_calls_append:
  "wf_calls cs \<Longrightarrow> fits cs (sc_type c) (sc_parent c) \<Longrightarrow> wf_calls (cs @ [c])"
  by (auto simp: wf_calls_def nth_append less_Suc_eq)

section \<open>The calls of a subtree are consecutive\<close>

lemma chain_pred:
  assumes "wf_calls cs" "i < length cs" "q \<in> set (chain cs i)" "q < i"
  shows "q \<in> set (chain cs (i - 1))"
proof (cases "sc_parent (cs ! i)")
  case None
  with assms(3,4) show ?thesis by (simp add: chain_orphan)
next
  case (Some p)
  note P = wf_parent [OF assms(1,2) Some]
  have "q \<in> set (chain cs p)" using chain_parent [OF Some P(1) assms(3)] assms(4) by simp
  with P(2) show ?thesis by (rule chain_trans [rotated])
qed

lemma chain_between:
  assumes "wf_calls cs" "i < length cs" "q \<in> set (chain cs i)" "q \<le> s" "s \<le> i"
  shows "q \<in> set (chain cs s)"
  using assms(5,4)
proof (induction s rule: inc_induct)
  case base
  show ?case by (rule assms(3))
next
  case (step n)
  then show ?case using chain_pred [OF assms(1), of "Suc n" q] assms(2) by simp
qed

lemma below_parent:
  assumes "wf_calls cs" "i < length cs" "q \<in> set (chain cs i)" "q < s" "s \<le> i"
  shows "\<exists>r. sc_parent (cs ! s) = Some r \<and> q \<le> r"
proof -
  have c: "q \<in> set (chain cs s)" using chain_between [OF assms(1-3)] assms(4,5) by simp
  show ?thesis
  proof (cases "sc_parent (cs ! s)")
    case None
    with c assms(4) show ?thesis by (simp add: chain_orphan)
  next
    case (Some r)
    then have "r < s" using wf_parent [OF assms(1)] assms(2,5) by simp
    from chain_parent [OF Some this c] assms(4) have "q \<in> set (chain cs r)" by simp
    with Some show ?thesis using chain_le by blast
  qed
qed

section \<open>The searches\<close>

text \<open>The last call in \<open>p\<close> among the first \<open>n\<close>.\<close>

fun last_in :: "single_call_data list \<Rightarrow> nat option \<Rightarrow> nat \<Rightarrow> nat option" where
  "last_in cs p 0 = None"
| "last_in cs p (Suc n) = (if sc_parent (cs ! n) = p then Some n else last_in cs p n)"

definition prev_sibling :: "single_call_data list \<Rightarrow> nat option \<Rightarrow> nat option" where
  "prev_sibling cs p = last_in cs p (length cs)"

lemma last_in_skip:
  "m \<le> n \<Longrightarrow> (\<And>s. m \<le> s \<Longrightarrow> s < n \<Longrightarrow> sc_parent (cs ! s) \<noteq> p) \<Longrightarrow> last_in cs p n = last_in cs p m"
  by (induction n) (auto simp: le_Suc_eq)

lemma last_in_none: "(\<And>s. s < n \<Longrightarrow> sc_parent (cs ! s) \<noteq> p) \<Longrightarrow> last_in cs p n = None"
  by (induction n) auto

definition opens :: "single_call_data list \<Rightarrow> nat option \<Rightarrow> nat \<Rightarrow> bool" where
  "opens cs p i = (case p of None \<Rightarrow> True | Some q \<Rightarrow> q \<in> set (chain cs i))"

definition may_call :: "single_call_data list \<Rightarrow> call_type_t \<Rightarrow> nat option \<Rightarrow> bool" where
  "may_call cs ty p \<longleftrightarrow> ty \<noteq> UNDEF \<and> (case p of None \<Rightarrow> ty = ECALL | Some q \<Rightarrow> sc_type (cs ! q) = other_type ty)"

lemma fits_may_call: "fits cs ty p \<Longrightarrow> may_call cs ty p"
  by (auto simp: fits_def may_call_def split: option.splits)

lemma child_type:
  assumes wf: "wf_calls cs" and ty: "may_call cs ty p" and s: "s < length cs" "sc_parent (cs ! s) = p"
  shows "sc_type (cs ! s) = ty"
proof (cases p)
  case None
  then show ?thesis using wf_root [OF wf s(1)] s(2) ty by (simp add: may_call_def)
next
  case (Some q)
  then have "other_type (sc_type (cs ! s)) = other_type ty" "sc_type (cs ! s) \<noteq> UNDEF"
    using wf_parent(3,4) [OF wf s(1)] s(2) ty by (simp_all add: may_call_def)
  moreover have "ty \<noteq> UNDEF" using ty by (simp add: may_call_def)
  ultimately show ?thesis by (cases ty; cases "sc_type (cs ! s)") (simp_all add: other_type_def)
qed

lemma find_indirect_ok:
  assumes wf: "wf_calls cs" and ty: "may_call cs ty p"
  shows "i < length cs \<Longrightarrow> opens cs p i \<Longrightarrow> i < n \<Longrightarrow> find_indirect n cs ty p (Some i) = Inr (last_in cs p (Suc i))"
proof (induction n arbitrary: i)
  case (Suc n)
  have u: "ty \<noteq> UNDEF" using ty by (simp add: may_call_def)
  note child = child_type [OF wf ty]
  show ?case
  proof (cases "above i p")
    case False
    then have "p = Some i" using Suc.prems(2) by (auto simp: above_def opens_def split: option.splits dest: chain_le)
    then have "sc_parent (cs ! s) \<noteq> p" if "s < Suc i" for s
      using wf_parent(1) [OF wf, of s i] that Suc.prems(1) by auto
    with False show ?thesis by (auto simp: last_in_none)
  next
    case True
    show ?thesis
    proof (cases "sc_parent (cs ! i) = p")
      case pp: True
      then show ?thesis using True Suc.prems(1) child [OF Suc.prems(1)] by simp
    next
      case False
      show ?thesis
      proof (cases "sc_parent (cs ! i)")
        case None
        then have "p = None"
          using False Suc.prems(2) True by (auto simp: opens_def chain_orphan above_def split: option.splits)
        with None False show ?thesis by simp
      next
        case (Some q)
        note P = wf_parent [OF wf Suc.prems(1) Some]
        have oq: "opens cs p q" "above q p"
          using Suc.prems(2) True False Some chain_parent [OF Some P(1)] chain_le
          by (fastforce simp: opens_def above_def split: option.splits)+
        have skip: "last_in cs p (Suc i) = last_in cs p (Suc q)"
        proof (rule last_in_skip)
          fix s assume s: "Suc q \<le> s" "s < Suc i"
          have "q \<in> set (chain cs i)" using P(1) Some by (subst chain.simps) simp
          from below_parent [OF wf Suc.prems(1) this, of s] s show "sc_parent (cs ! s) \<noteq> p"
            using oq(2) by (auto simp: above_def)
        qed (use P in simp)
        show ?thesis
        proof (cases "sc_type (cs ! i) = ty")
          case False
          then show ?thesis
            using True Suc.prems Suc.IH [OF _ oq(1)] P(1,4) Some skip \<open>sc_parent (cs ! i) \<noteq> p\<close> by simp
        next
          case t: True
          have qn: "sc_parent (cs ! q) \<noteq> p"
            using child [of q] P(1,3) Suc.prems(1) t u by (auto simp: other_type_def split: if_splits)
          have "\<exists>m. q = Suc m \<and> opens cs p m"
          proof (cases "sc_parent (cs ! q)")
            case None
            then show ?thesis using qn oq by (auto simp: opens_def chain_orphan above_def split: option.splits)
          next
            case (Some r)
            note R = wf_parent [OF wf _ Some]
            have ql: "q < length cs" using P(1) Suc.prems(1) by simp
            have "0 < q" using R(1) [OF ql] by simp
            moreover have "opens cs p (q - 1)"
              using oq chain_pred [OF wf ql] by (auto simp: opens_def above_def split: option.splits)
            ultimately show ?thesis by (cases q) simp_all
          qed
          then obtain m where m: "q = Suc m" "opens cs p m" by blast
          have "find_indirect n cs ty p (Some m) = Inr (last_in cs p q)"
            using Suc.IH [OF _ m(2)] Suc.prems P(1) m(1) by simp
          then show ?thesis
            using True Suc.prems(1) t Some m(1) skip qn \<open>sc_parent (cs ! i) \<noteq> p\<close> by simp
        qed
      qed
    qed
  qed
qed simp

lemma indirect_parent_ok:
  assumes "wf_calls cs" "fits cs ty p"
  shows "indirect_parent cs ty p = Inr (prev_sibling cs p)"
proof (cases "cs = []")
  case False
  have "opens cs p (length cs - 1)" using assms(2) by (simp add: fits_def opens_def split: option.splits)
  from find_indirect_ok [OF assms(1) fits_may_call [OF assms(2)] _ this, of "Suc (length cs)"] False show ?thesis
    by (simp add: indirect_parent_def prev_sibling_def)
qed (simp add: indirect_parent_def prev_sibling_def)

lemma find_parent_ok:
  assumes "distinct (map event_id cs)" "q < length cs"
  shows "q \<le> i \<Longrightarrow> i < length cs \<Longrightarrow> find_parent cs (event_id (cs ! q)) i = Inr q"
proof (induction i rule: dec_induct)
  case base
  then show ?case by (subst find_parent.simps) simp
next
  case (step i)
  then have "event_id (cs ! Suc i) \<noteq> event_id (cs ! q)"
    using assms nth_eq_iff_index_eq [OF assms(1), of "Suc i" q] by simp
  with step show ?case by (subst find_parent.simps) simp
qed

lemma direct_parent_ok:
  assumes "distinct (map event_id cs)" "\<And>q. p = Some q \<Longrightarrow> q < length cs"
  shows "direct_parent cs (map_option (\<lambda>q. event_id (cs ! q)) p) = Inr p"
  using assms find_parent_ok [OF assms(1), of _ "length cs - 1"]
  by (cases p) (auto simp: direct_parent_def)

end
