(* ===== verification/CallsLoad.thy ===== *)
theory CallsLoad
  imports CallsRel
begin

text \<open>
  Loading the rows of the call query: what the data of every call says once all rows have been seen,
  in terms of the rows alone.
\<close>

section \<open>Maps\<close>

lemma map_of_insort: "k \<notin> fst ` set m \<Longrightarrow> map_of (insort_key fst (k, v) m) = (map_of m)(k \<mapsto> v)"
  by (induction m) (auto simp: fun_eq_iff)

lemma map_of_modify:
  "map_of (map (\<lambda>kv. if fst kv = k then (k, f (snd kv)) else kv) m) k' =
     (if k' = k then map_option f (map_of m k) else map_of m k')"
  by (induction m) auto

lemma amap_get_upd: "amap_get d (amap_upd d k f m) k' = (if k' = k then f (amap_get d m k) else amap_get d m k')"
proof (cases "k \<in> fst ` set m")
  case True
  then obtain v where "map_of m k = Some v" by (metis domD dom_map_of_conv_image_fst)
  with True show ?thesis by (simp add: amap_upd_def amap_get_def map_of_modify)
next
  case False
  then have "map_of m k = None" by (simp add: map_of_eq_None_iff)
  with False show ?thesis by (simp add: amap_upd_def amap_get_def map_of_insort)
qed

lemma encl_of_upd [simp]:
  "encl_of (upd_encl eid f a) eid' = (if eid' = eid then f (encl_of a eid) else encl_of a eid')"
  "encl_of (upd_athread tid g a) eid' = encl_of a eid'"
  by (simp_all add: encl_of_def upd_encl_def upd_athread_def amap_get_upd)

lemma thread_of_upd [simp]:
  "thread_of (upd_athread tid g a) tid' = (if tid' = tid then g (thread_of a tid) else thread_of a tid')"
  "thread_of (upd_encl eid f a) tid' = thread_of a tid'"
  by (simp_all add: thread_of_def upd_encl_def upd_athread_def amap_get_upd)

section \<open>Rows\<close>

definition row_type :: "call_row \<Rightarrow> call_type_t" where
  "row_type r = (if cr_type r = 15 then ECALL else if cr_type r = 17 then OCALL else UNDEF)"

text \<open>The row of the call \<open>r\<close> was made in, and the row of the call before it in the same call.\<close>

definition parent_in :: "call_row list \<Rightarrow> call_row \<Rightarrow> call_row option" where
  "parent_in rows r = Option.bind (cr_parent r) (\<lambda>p. find (\<lambda>q. cr_thread q = cr_thread r \<and> cr_id q = p) rows)"

definition prev_in :: "call_row list \<Rightarrow> call_row \<Rightarrow> call_row option" where
  "prev_in rows r = find (\<lambda>q. cr_thread q = cr_thread r \<and> cr_parent q = cr_parent r) (rev rows)"

definition related :: "(call_row list \<Rightarrow> call_row \<Rightarrow> call_row option) \<Rightarrow> call_row list \<Rightarrow> (call_row \<times> call_row) list" where
  "related f rows = concat (map (\<lambda>j. case f (take j rows) (rows ! j) of None \<Rightarrow> [] | Some q \<Rightarrow> [(rows ! j, q)]) [0..<length rows])"

definition of_call :: "u64 \<Rightarrow> call_type_t \<Rightarrow> nat \<Rightarrow> call_row \<Rightarrow> bool" where
  "of_call eid ty i r \<longleftrightarrow> cr_eid r = eid \<and> row_type r = ty \<and> unat (cr_call_id r) = i"

lemma related_Nil [simp]: "related f [] = []"
  by (simp add: related_def)

lemma related_snoc [simp]:
  "related f (rows @ [r]) = related f rows @ (case f rows r of None \<Rightarrow> [] | Some q \<Rightarrow> [(r, q)])"
proof -
  have "map (\<lambda>j. case f (take j (rows @ [r])) ((rows @ [r]) ! j) of None \<Rightarrow> [] | Some q \<Rightarrow> [((rows @ [r]) ! j, q)]) [0..<length rows] =
    map (\<lambda>j. case f (take j rows) (rows ! j) of None \<Rightarrow> [] | Some q \<Rightarrow> [(rows ! j, q)]) [0..<length rows]"
    by (rule map_cong) (auto simp: nth_append split: option.split)
  then show ?thesis 
    by (simp add: related_def del: take_append map_eq_conv) (simp split: option.split)
qed

text \<open>The calls that are open after the given calls of a thread, innermost first; \<open>None\<close> when a call is not
  made in an open call, or an ecall in an ecall, or an ocall in an ocall or from outside.\<close>

definition open_row :: "call_row list option \<Rightarrow> call_row \<Rightarrow> call_row list option" where
  "open_row so r = Option.bind so (\<lambda>st.
     case cr_parent r of
       None \<Rightarrow> if row_type r = ECALL then Some [r] else None
     | Some p \<Rightarrow>
         (case dropWhile (\<lambda>q. cr_id q \<noteq> p) st of
            [] \<Rightarrow> None
          | q # st' \<Rightarrow> if row_type r \<noteq> UNDEF \<and> row_type q = other_type (row_type r) then Some (r # q # st') else None))"

definition open_rows :: "call_row list \<Rightarrow> call_row list option" where
  "open_rows rs = foldl open_row (Some []) rs"

lemma open_rows_snoc: "open_rows (rs @ [r]) = open_row (open_rows rs) r"
  by (simp add: open_rows_def)

definition of_thread :: "u64 \<Rightarrow> call_row list \<Rightarrow> call_row list" where
  "of_thread tid rows = filter (\<lambda>r. cr_thread r = tid) rows"

definition calls_of :: "call_type_t \<Rightarrow> enclave_data \<Rightarrow> call_data list" where
  "calls_of ty e = (if ty = ECALL then ecalls e else ocalls e)"

text \<open>The rows are of calls the tables know, have ids of their own, fit into the threads' arrays and are
  nested; and no thread calls two enclaves.\<close>

definition good_rows :: "analysis \<Rightarrow> call_row list \<Rightarrow> bool" where
  "good_rows a rows \<longleftrightarrow>
     (\<forall>r \<in> set rows. row_type r \<noteq> UNDEF \<and> unat (cr_call_id r) < length (calls_of (row_type r) (encl_of a (cr_eid r))) \<and>
        open_rows (of_thread (cr_thread r) rows) \<noteq> None \<and>
        length (of_thread (cr_thread r) rows) \<le> unat (td_capacity (thread_of a (cr_thread r))) \<and>
        (\<forall>q \<in> set rows. cr_thread q = cr_thread r \<longrightarrow> cr_eid q = cr_eid r)) \<and>
     distinct (map cr_id rows)"

lemma open_row_None [simp]: "open_row None r = None"
  by (simp add: open_row_def)

lemma open_rows_prefix: "open_rows (xs @ ys) \<noteq> None \<Longrightarrow> open_rows xs \<noteq> None"
proof (induction ys rule: rev_induct)
  case (snoc y ys)
  then show ?case by (cases "open_rows (xs @ ys)") (auto simp: open_rows_snoc simp flip: append_assoc)
qed simp

lemma good_rows_prefix: "good_rows a (xs @ [r]) \<Longrightarrow> good_rows a xs"
proof -
  assume g: "good_rows a (xs @ [r])"
  have e: "of_thread tid (xs @ [r]) = of_thread tid xs @ (if cr_thread r = tid then [r] else [])" for tid
    by (simp add: of_thread_def)
  have "open_rows (of_thread tid xs) \<noteq> None" "length (of_thread tid xs) \<le> length (of_thread tid (xs @ [r]))"
    if "open_rows (of_thread tid (xs @ [r])) \<noteq> None" for tid
    using that open_rows_prefix [of "of_thread tid xs"] unfolding e by simp_all
  note O = this
  show ?thesis
    unfolding good_rows_def
  proof (intro conjI ballI)
    fix q assume q: "q \<in> set xs"
    then have "q \<in> set (xs @ [r])" by simp
    from bspec [OF conjunct1 [OF g [unfolded good_rows_def]] this] have Q: "row_type q \<noteq> UNDEF" "unat (cr_call_id q) < length (calls_of (row_type q) (encl_of a (cr_eid q)))"
      "open_rows (of_thread (cr_thread q) (xs @ [r])) \<noteq> None"
      "length (of_thread (cr_thread q) (xs @ [r])) \<le> unat (td_capacity (thread_of a (cr_thread q)))"
      "\<forall>p \<in> set (xs @ [r]). cr_thread p = cr_thread q \<longrightarrow> cr_eid p = cr_eid q"
      by blast+
    show "row_type q \<noteq> UNDEF" "unat (cr_call_id q) < length (calls_of (row_type q) (encl_of a (cr_eid q)))" by (rule Q)+
    show "open_rows (of_thread (cr_thread q) xs) \<noteq> None" using O(1) [OF Q(3)] .
    show "length (of_thread (cr_thread q) xs) \<le> unat (td_capacity (thread_of a (cr_thread q)))"
      using O(2) [OF Q(3)] Q(4) by (rule order_trans)
    show "cr_thread p = cr_thread q \<longrightarrow> cr_eid p = cr_eid q" if "p \<in> set xs" for p using Q(5) that by simp
  qed (use g in \<open>simp add: good_rows_def\<close>)
qed

section \<open>The array of a thread and its rows\<close>

definition row_matches :: "single_call_data list \<Rightarrow> single_call_data \<Rightarrow> call_row \<Rightarrow> bool" where
  "row_matches cs c r \<longleftrightarrow> c = scd_of (row_type r) r (sc_parent c) \<and>
     map_option (\<lambda>q. event_id (cs ! q)) (sc_parent c) = cr_parent r"

definition thr_rel :: "single_call_data list \<Rightarrow> call_row list \<Rightarrow> bool" where
  "thr_rel cs rs \<longleftrightarrow> wf_calls cs \<and> length cs = length rs \<and> (\<forall>i < length cs. row_matches cs (cs ! i) (rs ! i)) \<and>
     open_rows rs = Some (if cs = [] then [] else map (\<lambda>i. rs ! i) (chain cs (length cs - 1)))"

lemma thr_rel_nth:
  assumes "thr_rel cs rs" "i < length cs"
  shows "event_id (cs ! i) = cr_id (rs ! i)" "sc_call_id (cs ! i) = cr_call_id (rs ! i)" "sc_type (cs ! i) = row_type (rs ! i)"
    "sc_start (cs ! i) = cr_start (rs ! i)" "sc_end (cs ! i) = cr_end (rs ! i)"
    "map_option (\<lambda>q. event_id (cs ! q)) (sc_parent (cs ! i)) = cr_parent (rs ! i)"
proof -
  have m: "cs ! i = scd_of (row_type (rs ! i)) (rs ! i) (sc_parent (cs ! i))"
    and p: "map_option (\<lambda>q. event_id (cs ! q)) (sc_parent (cs ! i)) = cr_parent (rs ! i)"
    using assms by (simp_all add: thr_rel_def row_matches_def)
  show "event_id (cs ! i) = cr_id (rs ! i)" "sc_call_id (cs ! i) = cr_call_id (rs ! i)" "sc_type (cs ! i) = row_type (rs ! i)"
    "sc_start (cs ! i) = cr_start (rs ! i)" "sc_end (cs ! i) = cr_end (rs ! i)"
    by (subst m, simp add: scd_of_def)+
  show "map_option (\<lambda>q. event_id (cs ! q)) (sc_parent (cs ! i)) = cr_parent (rs ! i)" by (rule p)
qed

lemma thr_rel_ids: "thr_rel cs rs \<Longrightarrow> map event_id cs = map cr_id rs"
  using thr_rel_nth(1) by (intro nth_equalityI) (auto simp: thr_rel_def)

lemma chain_drop: "q \<in> set (chain cs i) \<Longrightarrow> dropWhile (\<lambda>x. x \<noteq> q) (chain cs i) = chain cs q"
proof (induction cs i rule: chain.induct)
  case (1 cs i)
  show ?case
  proof (cases "q = i")
    case True
    then show ?thesis unfolding True by (subst (1 2) chain.simps) simp
  next
    case False
    with 1(2) obtain p where p: "sc_parent (cs ! i) = Some p" "p < i" "q \<in> set (chain cs p)"
      by (auto simp: in_chain [of q cs i])
    from 1(1) [OF p] False p(1,2) show ?thesis by (subst chain.simps) simp
  qed
qed

lemma dropWhile_map_inj:
  "(\<And>x. x \<in> set xs \<Longrightarrow> P (f x) = Q x) \<Longrightarrow> dropWhile P (map f xs) = map f (dropWhile Q xs)"
  by (induction xs) auto

text \<open>A row that continues a nested sequence: the index of its parent.\<close>

lemma next_row:
  assumes rel: "thr_rel cs rs" and d: "distinct (map cr_id rs)" and o: "open_rows (rs @ [r]) \<noteq> None"
  obtains p where "fits cs (row_type r) p" "cr_parent r = map_option (\<lambda>q. event_id (cs ! q)) p"
    "\<And>q. p = Some q \<Longrightarrow> q < length cs" "thr_rel (cs @ [scd_of (row_type r) r p]) (rs @ [r])"
proof -
  have st: "open_rows rs = Some (if cs = [] then [] else map (\<lambda>i. rs ! i) (chain cs (length cs - 1)))"
    and len: "length cs = length rs" and wf: "wf_calls cs" and rm: "\<forall>i < length cs. row_matches cs (cs ! i) (rs ! i)"
    using rel by (simp_all add: thr_rel_def)
  have "\<exists>p. fits cs (row_type r) p \<and> cr_parent r = map_option (\<lambda>q. event_id (cs ! q)) p \<and>
    (\<forall>q. p = Some q \<longrightarrow> q < length cs) \<and>
    open_rows (rs @ [r]) = Some (r # (case p of None \<Rightarrow> [] | Some q \<Rightarrow> map (\<lambda>i. rs ! i) (chain cs q)))"
  proof (cases "cr_parent r")
    case None
    with o st show ?thesis
      by (intro exI [of _ None]) (auto simp: open_rows_snoc open_row_def fits_def split: if_splits)
  next
    case (Some pid)
    let ?ch = "chain cs (length cs - 1)"
    have ne: "cs \<noteq> []" using o st Some by (auto simp: open_rows_snoc open_row_def)
    have lt: "i < length cs" if "i \<in> set ?ch" for i using chain_le [OF that] ne by (cases cs) simp_all
    have "pid \<in> (\<lambda>i. cr_id (rs ! i)) ` set ?ch"
    proof (rule ccontr)
      assume "pid \<notin> (\<lambda>i. cr_id (rs ! i)) ` set ?ch"
      then have "dropWhile (\<lambda>q. cr_id q \<noteq> pid) (map (\<lambda>i. rs ! i) ?ch) = []" by auto
      with o st ne Some show False by (simp add: open_rows_snoc open_row_def del: dropWhile_eq_Nil_conv)
    qed
    then obtain q where q: "q \<in> set ?ch" "pid = cr_id (rs ! q)" by blast
    have "dropWhile (\<lambda>q. cr_id q \<noteq> pid) (map (\<lambda>i. rs ! i) ?ch) = map (\<lambda>i. rs ! i) (dropWhile (\<lambda>x. x \<noteq> q) ?ch)"
      using nth_eq_iff_index_eq [OF d] lt q len by (intro dropWhile_map_inj) simp
    moreover obtain ch where hd: "chain cs q = q # ch" using chain.simps [of cs q] by blast
    ultimately have dw: "dropWhile (\<lambda>q. cr_id q \<noteq> pid) (map (\<lambda>i. rs ! i) ?ch) = rs ! q # map (\<lambda>i. rs ! i) ch"
      using chain_drop [OF q(1)] by simp
    have ty: "row_type r \<noteq> UNDEF" "row_type (rs ! q) = other_type (row_type r)"
      using o st ne Some dw by (auto simp: open_rows_snoc open_row_def split: if_splits)
    have "open_rows (rs @ [r]) = Some (r # map (\<lambda>i. rs ! i) (chain cs q))"
      using st ne Some dw ty hd by (simp add: open_rows_snoc open_row_def)
    with Some q ne ty lt thr_rel_nth [OF rel, of q] show ?thesis by (intro exI [of _ "Some q"]) (simp add: fits_def)
  qed
  then obtain p where p: "fits cs (row_type r) p" "cr_parent r = map_option (\<lambda>q. event_id (cs ! q)) p"
    "\<And>q. p = Some q \<Longrightarrow> q < length cs"
    "open_rows (rs @ [r]) = Some (r # (case p of None \<Rightarrow> [] | Some q \<Rightarrow> map (\<lambda>i. rs ! i) (chain cs q)))" by blast
  let ?c = "scd_of (row_type r) r p"
  have "wf_calls (cs @ [?c])" using wf p(1) by (intro wf_calls_append) (simp_all add: scd_of_def)
  moreover have "row_matches (cs @ [?c]) ((cs @ [?c]) ! i) ((rs @ [r]) ! i)" if i: "i < length (cs @ [?c])" for i
  proof (cases "i = length cs")
    case True
    then show ?thesis using len p(2,3)
      by (cases p) (simp_all add: row_matches_def scd_of_def nth_append)
  next
    case False
    then have "i < length cs" using i by simp
    then have "row_matches cs (cs ! i) (rs ! i)" and "\<And>q. sc_parent (cs ! i) = Some q \<Longrightarrow> q < length cs"
      using rm wf_parent(1) [OF wf] by (auto intro: order.strict_trans)
    then show ?thesis using \<open>i < length cs\<close> len
      by (cases "sc_parent (cs ! i)") (simp_all add: row_matches_def nth_append)
  qed
  moreover have "map (\<lambda>i. (rs @ [r]) ! i) (chain (cs @ [?c]) (length cs)) =
    r # (case p of None \<Rightarrow> [] | Some q \<Rightarrow> map (\<lambda>i. rs ! i) (chain cs q))"
  proof (cases p)
    case None
    then show ?thesis using len by (simp add: chain_orphan scd_of_def nth_append)
  next
    case (Some q)
    then have "q < length cs" using p(3) by simp
    with Some show ?thesis using len
      by (subst chain.simps) (auto simp: scd_of_def nth_append dest: chain_le)
  qed
  ultimately have "thr_rel (cs @ [?c]) (rs @ [r])" using p(4) len by (simp add: thr_rel_def)
  with p(1-3) that show ?thesis by blast
qed

section \<open>One row\<close>

text \<open>What the data of a call says after the given rows.\<close>

definition direct_pcd :: "call_type_t \<Rightarrow> nat \<Rightarrow> (call_row \<times> call_row) list \<Rightarrow> parent_call_data" where
  "direct_pcd ty k ps = foldl (\<lambda>d (r, q). bump_direct (ty, k) (cr_start r - cr_start q) (cr_end q - cr_end r) d) zero_pcd ps"

definition indirect_pcd :: "call_type_t \<Rightarrow> nat \<Rightarrow> (call_row \<times> call_row) list \<Rightarrow> parent_call_data" where
  "indirect_pcd ty k ps = foldl (\<lambda>d (r, q). bump_indirect (ty, k) (cr_start r - cr_end q) d) zero_pcd ps"

definition pairs_for :: "(call_row list \<Rightarrow> call_row \<Rightarrow> call_row option) \<Rightarrow> u64 \<Rightarrow> call_type_t \<Rightarrow> nat \<Rightarrow> nat \<Rightarrow> call_row list \<Rightarrow>
    (call_row \<times> call_row) list" where
  "pairs_for f eid ty i k rows = filter (\<lambda>(r, q). of_call eid ty i r \<and> unat (cr_call_id q) = k) (related f rows)"

text \<open>How many of the rows of an ecall were made in an ocall.\<close>

definition from_ocalls :: "u64 \<Rightarrow> call_type_t \<Rightarrow> nat \<Rightarrow> call_row list \<Rightarrow> u64" where
  "from_ocalls eid ty i rows = (if ty = ECALL then of_nat (length (filter (\<lambda>(r, q). of_call eid ty i r) (related parent_in rows))) else 0)"

lemma from_ocalls_snoc:
  "from_ocalls eid ty i (rows @ [r]) = from_ocalls eid ty i rows +
     (if of_call eid ty i r \<and> parent_in rows r \<noteq> None \<and> ty = ECALL then 1 else 0)"
  by (auto simp: from_ocalls_def split: option.split)

definition cd_ok :: "nat \<Rightarrow> nat \<Rightarrow> call_row list \<Rightarrow> u64 \<Rightarrow> call_type_t \<Rightarrow> nat \<Rightarrow> call_data \<Rightarrow> bool" where
  "cd_ok nd ni rows eid ty i c \<longleftrightarrow> cd_type c = ty \<and>
     exectimes c = map cr_exectime (filter (of_call eid ty i) rows) \<and>
     st_sum (all_stats c) = sum_list (exectimes c) \<and>
     num_ecall_called_from_ocalls c = from_ocalls eid ty i rows \<and>
     direct_parents_data c = map (\<lambda>k. direct_pcd (other_type ty) k (pairs_for parent_in eid ty i k rows)) [0..<nd] \<and>
     indirect_parents_data c = map (\<lambda>k. indirect_pcd ty k (pairs_for prev_in eid ty i k rows)) [0..<ni]"

lemma pairs_for_snoc:
  "pairs_for f eid ty i k (rows @ [r]) = pairs_for f eid ty i k rows @
     (if of_call eid ty i r then (case f rows r of None \<Rightarrow> [] | Some q \<Rightarrow> if unat (cr_call_id q) = k then [(r, q)] else []) else [])"
  by (simp add: pairs_for_def split: option.split)

lemma cd_ok_other: "cd_ok nd ni rows eid ty i c \<Longrightarrow> \<not> of_call eid ty i r \<Longrightarrow> cd_ok nd ni (rows @ [r]) eid ty i c"
  by (simp add: cd_ok_def pairs_for_snoc from_ocalls_snoc)

lemma map_upd: "j < n \<Longrightarrow> (map f [0..<n])[j := g (f j)] = map (\<lambda>k. if k = j then g (f k) else f k) [0..<n]"
  by (rule nth_equalityI) (auto simp: nth_list_update)

lemma find_filter: "find (\<lambda>x. Q x \<and> P x) xs = find P (filter Q xs)"
  by (induction xs) auto

lemma parent_in_ok:
  assumes rel: "thr_rel cs (of_thread (cr_thread r) rows)" and d: "distinct (map cr_id rows)"
    and p: "cr_parent r = map_option (\<lambda>q. event_id (cs ! q)) p" "\<And>q. p = Some q \<Longrightarrow> q < length cs"
  shows "parent_in rows r = map_option (\<lambda>i. of_thread (cr_thread r) rows ! i) p"
proof (cases p)
  case (Some q)
  let ?rs = "of_thread (cr_thread r) rows"
  have q: "q < length ?rs" "event_id (cs ! q) = cr_id (?rs ! q)"
    using p(2) [OF Some] rel thr_rel_nth(1) [OF rel] by (simp_all add: thr_rel_def)
  have "distinct (map cr_id ?rs)" using d by (simp add: of_thread_def distinct_map_filter)
  then have "find (\<lambda>x. cr_id x = cr_id (?rs ! q)) ?rs = Some (?rs ! q)"
    using q(1) nth_eq_iff_index_eq [of "map cr_id ?rs"] by (auto simp: find_Some_iff intro!: exI [of _ q])
  then show ?thesis
    using Some p(1) q(2) by (simp add: parent_in_def find_filter of_thread_def)
qed (use p in \<open>simp add: parent_in_def\<close>)

lemma find_last_in:
  "n \<le> length rs \<Longrightarrow> (\<And>s. s < n \<Longrightarrow> P (rs ! s) \<longleftrightarrow> sc_parent (cs ! s) = p) \<Longrightarrow>
     find P (rev (take n rs)) = map_option (\<lambda>s. rs ! s) (last_in cs p n)"
  by (induction n) (auto simp: take_Suc_conv_app_nth)

lemma last_in_Some: "last_in cs p n = Some s \<Longrightarrow> s < n \<and> sc_parent (cs ! s) = p"
  by (induction n) (auto split: if_splits)

lemma prev_in_ok:
  assumes rel: "thr_rel cs (of_thread (cr_thread r) rows)" and d: "distinct (map cr_id rows)"
    and p: "cr_parent r = map_option (\<lambda>q. event_id (cs ! q)) p" "\<And>q. p = Some q \<Longrightarrow> q < length cs"
  shows "prev_in rows r = map_option (\<lambda>i. of_thread (cr_thread r) rows ! i) (prev_sibling cs p)"
proof -
  let ?rs = "of_thread (cr_thread r) rows"
  have wf: "wf_calls cs" and len: "length cs = length ?rs" using rel by (simp_all add: thr_rel_def)
  have "distinct (map cr_id ?rs)" using d by (simp add: of_thread_def distinct_map_filter)
  then have dc: "distinct (map event_id cs)" using thr_rel_ids [OF rel] by simp
  have "cr_parent (?rs ! s) = cr_parent r \<longleftrightarrow> sc_parent (cs ! s) = p" if s: "s < length cs" for s
  proof -
    have "q < length cs" if "sc_parent (cs ! s) = Some q" for q using wf_parent(1) [OF wf s that] s by simp
    then show ?thesis
      using p nth_eq_iff_index_eq [OF dc]
      by (cases p; cases "sc_parent (cs ! s)") (auto simp: thr_rel_nth(6) [OF rel s, symmetric])
  qed
  from find_last_in [of "length cs" ?rs "\<lambda>q. cr_parent q = cr_parent r", OF _ this] len show ?thesis
    by (simp add: prev_in_def prev_sibling_def find_filter of_thread_def rev_filter)
qed

lemma note_direct_ok:
  assumes D: "direct_parents_data c = map (\<lambda>k. direct_pcd (other_type ty) k (pairs_for parent_in eid ty i k rows)) [0..<nd]"
    and r: "of_call eid ty i r" and par: "parent_in rows r = map_option (\<lambda>i. rs ! i) p"
    and q: "\<And>q. p = Some q \<Longrightarrow> sc_call_id (cs ! q) = cr_call_id (rs ! q) \<and> sc_start (cs ! q) = cr_start (rs ! q) \<and>
      sc_end (cs ! q) = cr_end (rs ! q) \<and> unat (cr_call_id (rs ! q)) < nd"
  shows "\<exists>b. note_direct ty r cs p c = Inr (c\<lparr>direct_parents_data :=
      map (\<lambda>k. direct_pcd (other_type ty) k (pairs_for parent_in eid ty i k (rows @ [r]))) [0..<nd],
      has_direct_parents := b, num_ecall_called_from_ocalls := num_ecall_called_from_ocalls c + (if p \<noteq> None \<and> ty = ECALL then 1 else 0)\<rparr>)"
proof (cases p)
  case None
  with par r have "pairs_for parent_in eid ty i k (rows @ [r]) = pairs_for parent_in eid ty i k rows" for k
    by (simp add: pairs_for_snoc)
  with None D show ?thesis
    by (intro exI [of _ "has_direct_parents c"]) (cases c, simp add: note_direct_def)
next
  case (Some q)
  let ?k = "unat (cr_call_id (rs ! q))"
  let ?F = "\<lambda>k. direct_pcd (other_type ty) k (pairs_for parent_in eid ty i k rows)"
  let ?g = "bump_direct (other_type ty, ?k) (cr_start r - cr_start (rs ! q)) (cr_end (rs ! q) - cr_end r)"
  have "(map ?F [0..<nd])[?k := ?g (?F ?k)] =
    map (\<lambda>k. direct_pcd (other_type ty) k (pairs_for parent_in eid ty i k (rows @ [r]))) [0..<nd]"
    using par Some r q [OF Some] by (subst map_upd) (auto simp: pairs_for_snoc direct_pcd_def)
  with Some q [OF Some] D show ?thesis
    by (intro exI [of _ True]) (simp add: note_direct_def at_upd_def Let_def)
qed

lemma note_indirect_ok:
  assumes D: "indirect_parents_data c = map (\<lambda>k. indirect_pcd ty k (pairs_for prev_in eid ty i k rows)) [0..<ni]"
    and r: "of_call eid ty i r" and prev: "prev_in rows r = map_option (\<lambda>i. rs ! i) s"
    and q: "\<And>q. s = Some q \<Longrightarrow> sc_call_id (cs ! q) = cr_call_id (rs ! q) \<and> sc_end (cs ! q) = cr_end (rs ! q) \<and>
      unat (cr_call_id (rs ! q)) < ni"
  shows "\<exists>b. note_indirect ty r cs s c = Inr (c\<lparr>indirect_parents_data :=
      map (\<lambda>k. indirect_pcd ty k (pairs_for prev_in eid ty i k (rows @ [r]))) [0..<ni], has_indirect_parents := b\<rparr>)"
proof (cases s)
  case None
  with prev r have "pairs_for prev_in eid ty i k (rows @ [r]) = pairs_for prev_in eid ty i k rows" for k
    by (simp add: pairs_for_snoc)
  with None D show ?thesis
    by (intro exI [of _ "has_indirect_parents c"]) (cases c, simp add: note_indirect_def)
next
  case (Some q)
  let ?k = "unat (cr_call_id (rs ! q))"
  let ?F = "\<lambda>k. indirect_pcd ty k (pairs_for prev_in eid ty i k rows)"
  let ?g = "bump_indirect (ty, ?k) (cr_start r - cr_end (rs ! q))"
  have "(map ?F [0..<ni])[?k := ?g (?F ?k)] =
    map (\<lambda>k. indirect_pcd ty k (pairs_for prev_in eid ty i k (rows @ [r]))) [0..<ni]"
    using prev Some r q [OF Some] by (subst map_upd) (auto simp: pairs_for_snoc indirect_pcd_def)
  with Some q [OF Some] D show ?thesis
    by (intro exI [of _ True]) (simp add: note_indirect_def at_upd_def Let_def)
qed

text \<open>A row adds one element to the array of its thread and one call to the data of its call.\<close>

lemma relate_call_ok:
  assumes rel: "thr_rel (td_calls t) (of_thread (cr_thread r) rows)" and d: "distinct (map cr_id rows)"
    and o: "open_rows (of_thread (cr_thread r) (rows @ [r])) \<noteq> None"
    and cap: "length (td_calls t) < unat (td_capacity t)"
    and c: "cd_ok nd ni rows eid ty i c" and r: "of_call eid ty i r"
    and nd: "\<And>q. q \<in> set (of_thread (cr_thread r) rows) \<Longrightarrow> row_type q = other_type ty \<Longrightarrow> unat (cr_call_id q) < nd"
    and ni: "\<And>q. q \<in> set (of_thread (cr_thread r) rows) \<Longrightarrow> row_type q = ty \<Longrightarrow> unat (cr_call_id q) < ni"
  shows "\<exists>c' t'. relate_call ty r t (add_exectime r c) = Inr (c', t') \<and> cd_ok nd ni (rows @ [r]) eid ty i c' \<and>
    thr_rel (td_calls t') (of_thread (cr_thread r) (rows @ [r])) \<and> td_capacity t' = td_capacity t"
proof -
  let ?rs = "of_thread (cr_thread r) rows" let ?cs = "td_calls t" let ?c = "add_exectime r c"
  have rs: "of_thread (cr_thread r) (rows @ [r]) = ?rs @ [r]" by (simp add: of_thread_def)
  have len: "length ?cs = length ?rs" and wf: "wf_calls ?cs" using rel by (simp_all add: thr_rel_def)
  have dr: "distinct (map cr_id ?rs)" using d by (simp add: of_thread_def distinct_map_filter)
  have ty: "row_type r = ty" using r by (simp add: of_call_def)
  obtain p where p: "fits ?cs ty p" "cr_parent r = map_option (\<lambda>q. event_id (?cs ! q)) p"
    "\<And>q. p = Some q \<Longrightarrow> q < length ?cs" "thr_rel (?cs @ [scd_of ty r p]) (?rs @ [r])"
    using next_row [OF rel dr, of r] o ty unfolding rs by blast
  have dp: "direct_parent ?cs (cr_parent r) = Inr p"
    using direct_parent_ok [OF _ p(3)] dr thr_rel_ids [OF rel] p(2) by simp
  have ip: "indirect_parent ?cs ty p = Inr (prev_sibling ?cs p)" by (rule indirect_parent_ok [OF wf p(1)])
  note nth = thr_rel_nth [OF rel]
  have q1: "sc_call_id (?cs ! q) = cr_call_id (?rs ! q) \<and> sc_start (?cs ! q) = cr_start (?rs ! q) \<and>
      sc_end (?cs ! q) = cr_end (?rs ! q) \<and> unat (cr_call_id (?rs ! q)) < nd" if "p = Some q" for q
    using p(1) p(3) [OF that] nth [of q] nd [of "?rs ! q"] len that by (simp add: fits_def)
  have q2: "sc_call_id (?cs ! q) = cr_call_id (?rs ! q) \<and> sc_end (?cs ! q) = cr_end (?rs ! q) \<and>
      unat (cr_call_id (?rs ! q)) < ni" if "prev_sibling ?cs p = Some q" for q
  proof -
    have "q < length ?cs" "sc_parent (?cs ! q) = p" using that last_in_Some by (auto simp: prev_sibling_def)
    moreover from this have "sc_type (?cs ! q) = ty" by (rule child_type [OF wf fits_may_call [OF p(1)]])
    ultimately show ?thesis using nth [of q] ni [of "?rs ! q"] len by simp
  qed
  let ?d = "map (\<lambda>k. direct_pcd (other_type ty) k (pairs_for parent_in eid ty i k (rows @ [r]))) [0..<nd]"
  let ?e = "map (\<lambda>k. indirect_pcd ty k (pairs_for prev_in eid ty i k (rows @ [r]))) [0..<ni]"
  have D: "direct_parents_data ?c = map (\<lambda>k. direct_pcd (other_type ty) k (pairs_for parent_in eid ty i k rows)) [0..<nd]"
    "indirect_parents_data ?c = map (\<lambda>k. indirect_pcd ty k (pairs_for prev_in eid ty i k rows)) [0..<ni]"
    using c by (simp_all add: cd_ok_def add_exectime_def)
  define n where "n = num_ecall_called_from_ocalls ?c + (if p \<noteq> None \<and> ty = ECALL then 1 else 0)"
  note par = parent_in_ok [OF rel d p(2,3)]
  obtain b where c1: "note_direct ty r ?cs p ?c =
      Inr (?c\<lparr>direct_parents_data := ?d, has_direct_parents := b, num_ecall_called_from_ocalls := n\<rparr>)"
    using note_direct_ok [OF D(1) r par q1] unfolding n_def by blast
  let ?c1 = "?c\<lparr>direct_parents_data := ?d, has_direct_parents := b, num_ecall_called_from_ocalls := n\<rparr>"
  obtain b' where c2: "note_indirect ty r ?cs (prev_sibling ?cs p) ?c1 =
      Inr (?c1\<lparr>indirect_parents_data := ?e, has_indirect_parents := b'\<rparr>)"
    using note_indirect_ok [OF _ r prev_in_ok [OF rel d p(2,3)] q2, of ?c1] D(2) by auto
  have nn: "n = from_ocalls eid ty i (rows @ [r])"
    using c r par by (simp add: n_def from_ocalls_snoc cd_ok_def add_exectime_def)
  show ?thesis
    using p(4) c r cap rs
    by (simp add: relate_call_def fbind_def dp ip c1 c2) (simp add: cd_ok_def add_exectime_def nn)
qed

section \<open>All rows\<close>

definition load_inv :: "call_row list \<Rightarrow> analysis \<Rightarrow> analysis \<Rightarrow> bool" where
  "load_inv rows a0 a \<longleftrightarrow>
     (\<forall>tid. td_capacity (thread_of a tid) = td_capacity (thread_of a0 tid) \<and>
        thr_rel (td_calls (thread_of a tid)) (of_thread tid rows)) \<and>
     (\<forall>eid ty. ty \<noteq> UNDEF \<longrightarrow> length (calls_of ty (encl_of a eid)) = length (calls_of ty (encl_of a0 eid)) \<and>
        (\<forall>i < length (calls_of ty (encl_of a0 eid)).
           cd_ok (length (calls_of (other_type ty) (encl_of a0 eid))) (length (calls_of ty (encl_of a0 eid))) rows eid ty i
             (calls_of ty (encl_of a eid) ! i)))"

definition call_of :: "analysis \<Rightarrow> u64 \<Rightarrow> call_type_t \<Rightarrow> nat \<Rightarrow> call_data" where
  "call_of a eid ty i = calls_of ty (encl_of a eid) ! i"

lemma load_inv_call:
  "load_inv rows a0 a \<Longrightarrow> ty \<noteq> UNDEF \<Longrightarrow> i < length (calls_of ty (encl_of a0 eid)) \<Longrightarrow>
     cd_ok (length (calls_of (other_type ty) (encl_of a0 eid))) (length (calls_of ty (encl_of a0 eid))) rows eid ty i (call_of a eid ty i)"
  by (simp add: load_inv_def call_of_def)

lemma other_type_simps [simp]: "other_type ECALL = OCALL" "other_type OCALL = ECALL" "other_type ty \<noteq> UNDEF"
  by (simp_all add: other_type_def)

lemma cd_ok_add_aex [simp]: "cd_ok nd ni rows eid ty i (add_aex r c) = cd_ok nd ni rows eid ty i c"
  by (simp add: add_aex_def cd_ok_def split: option.split)

lemma callback_eq:
  assumes "row_type r = ty" "ty \<noteq> UNDEF" "i = unat (cr_call_id r)" "i < length (calls_of ty (encl_of a (cr_eid r)))"
    and "relate_call ty r (thread_of a (cr_thread r)) (add_exectime r
      (if ty = ECALL then add_aex r (calls_of ty (encl_of a (cr_eid r)) ! i) else calls_of ty (encl_of a (cr_eid r)) ! i)) = Inr (c', t')"
  obtains F where "call_data_callback r a = Inr (upd_athread (cr_thread r) (\<lambda>_. t') (upd_encl (cr_eid r) F a))"
    "\<And>e. calls_of ty (F e) = (calls_of ty e)[i := c']" "\<And>e. calls_of (other_type ty) (F e) = calls_of (other_type ty) e"
proof (cases ty)
  case ECALL
  then have "cr_type r = 15" using assms(1) by (simp add: row_type_def split: if_splits)
  with ECALL assms(3-5) show ?thesis
    by (intro that) (simp add: call_data_callback_def Let_def calls_of_def fbind_def, simp_all add: calls_of_def)
next
  case OCALL
  then have "cr_type r = 17" using assms(1) by (simp add: row_type_def split: if_splits)
  with OCALL assms(3-5) show ?thesis
    by (intro that) (simp add: call_data_callback_def Let_def calls_of_def fbind_def, simp_all add: calls_of_def)
qed (use assms in simp)

lemma callback_inv:
  assumes inv: "load_inv rows a0 a" and good: "good_rows a0 (rows @ [r])"
  shows "\<exists>a'. call_data_callback r a = Inr a' \<and> load_inv (rows @ [r]) a0 a'"
proof -
  let ?ty = "row_type r" let ?i = "unat (cr_call_id r)" let ?eid = "cr_eid r" let ?tid = "cr_thread r"
  let ?t = "thread_of a ?tid" let ?c = "calls_of ?ty (encl_of a ?eid) ! ?i"
  let ?nd = "length (calls_of (other_type ?ty) (encl_of a0 ?eid))" let ?ni = "length (calls_of ?ty (encl_of a0 ?eid))"
  have "r \<in> set (rows @ [r])" by simp
  from bspec [OF conjunct1 [OF good [unfolded good_rows_def]] this]
  have G: "?ty \<noteq> UNDEF" "?i < ?ni" "open_rows (of_thread ?tid (rows @ [r])) \<noteq> None"
    "length (of_thread ?tid (rows @ [r])) \<le> unat (td_capacity (thread_of a0 ?tid))"
    "\<And>q. q \<in> set (rows @ [r]) \<Longrightarrow> cr_thread q = ?tid \<Longrightarrow> cr_eid q = ?eid" by blast+
  have d: "distinct (map cr_id rows)" using good by (simp add: good_rows_def)
  have rng: "unat (cr_call_id q) < length (calls_of (row_type q) (encl_of a0 ?eid))" if q: "q \<in> set (of_thread ?tid rows)" for q
  proof -
    have "q \<in> set (rows @ [r])" "cr_thread q = ?tid" using q by (auto simp: of_thread_def)
    with bspec [OF conjunct1 [OF good [unfolded good_rows_def]], of q] G(5) [of q] show ?thesis by simp
  qed
  have T: "thr_rel (td_calls ?t) (of_thread ?tid rows)" "td_capacity ?t = td_capacity (thread_of a0 ?tid)"
    using inv by (simp_all add: load_inv_def)
  have C: "cd_ok ?nd ?ni rows ?eid ?ty ?i ?c" "length (calls_of ?ty (encl_of a ?eid)) = ?ni"
    using inv G(1,2) by (simp_all add: load_inv_def)
  let ?c0 = "if ?ty = ECALL then add_aex r ?c else ?c"
  have cap: "length (td_calls ?t) < unat (td_capacity ?t)" using T G(4) by (simp add: thr_rel_def of_thread_def)
  have c0: "cd_ok ?nd ?ni rows ?eid ?ty ?i ?c0" using C(1) by (cases "?ty = ECALL") simp_all
  have "\<exists>c' t'. relate_call ?ty r ?t (add_exectime r ?c0) = Inr (c', t') \<and> cd_ok ?nd ?ni (rows @ [r]) ?eid ?ty ?i c' \<and>
    thr_rel (td_calls t') (of_thread ?tid (rows @ [r])) \<and> td_capacity t' = td_capacity ?t"
    by (rule relate_call_ok [OF T(1) d G(3) cap c0]) (simp add: of_call_def, metis rng, metis rng)
  then obtain c' t' where ct: "relate_call ?ty r ?t (add_exectime r ?c0) = Inr (c', t')"
    "cd_ok ?nd ?ni (rows @ [r]) ?eid ?ty ?i c'" "thr_rel (td_calls t') (of_thread ?tid (rows @ [r]))" "td_capacity t' = td_capacity ?t"
    by blast
  obtain F where F: "call_data_callback r a = Inr (upd_athread ?tid (\<lambda>_. t') (upd_encl ?eid F a))"
    "\<And>e. calls_of ?ty (F e) = (calls_of ?ty e)[?i := c']" "\<And>e. calls_of (other_type ?ty) (F e) = calls_of (other_type ?ty) e"
    using callback_eq [OF refl G(1) refl, of a] ct(1) C(2) G(2) by auto
  let ?a = "upd_athread ?tid (\<lambda>_. t') (upd_encl ?eid F a)"
  have "load_inv (rows @ [r]) a0 ?a"
    unfolding load_inv_def
  proof (intro conjI allI impI)
    fix tid
    have "td_capacity (thread_of a tid) = td_capacity (thread_of a0 tid)" "thr_rel (td_calls (thread_of a tid)) (of_thread tid rows)"
      using inv by (simp_all add: load_inv_def)
    then show "td_capacity (thread_of ?a tid) = td_capacity (thread_of a0 tid)"
      "thr_rel (td_calls (thread_of ?a tid)) (of_thread tid (rows @ [r]))"
      using ct(3,4) T(2) by (cases "tid = ?tid"; simp add: of_thread_def)+
  next
    fix eid ty assume ty: "ty \<noteq> UNDEF"
    then have tys: "ty = ?ty \<or> ty = other_type ?ty" using G(1) by (cases ty; cases ?ty) simp_all
    have old: "length (calls_of ty (encl_of a eid)) = length (calls_of ty (encl_of a0 eid))"
      using inv ty by (simp add: load_inv_def)
    then show "length (calls_of ty (encl_of ?a eid)) = length (calls_of ty (encl_of a0 eid))" using tys F(2,3) by auto
    fix i assume i: "i < length (calls_of ty (encl_of a0 eid))"
    let ?n = "length (calls_of (other_type ty) (encl_of a0 eid))" let ?m = "length (calls_of ty (encl_of a0 eid))"
    have c: "cd_ok ?n ?m rows eid ty i (calls_of ty (encl_of a eid) ! i)" using inv ty i by (simp add: load_inv_def)
    show "cd_ok ?n ?m (rows @ [r]) eid ty i (calls_of ty (encl_of ?a eid) ! i)"
    proof (cases "of_call eid ty i r")
      case True
      then show ?thesis using F(2) ct(2) old i by (auto simp: of_call_def)
    next
      case False
      then have "calls_of ty (encl_of ?a eid) ! i = calls_of ty (encl_of a eid) ! i"
        using tys F(2,3) by (auto simp: of_call_def nth_list_update)
      then show ?thesis using cd_ok_other [OF c False] by simp
    qed
  qed
  with F(1) show ?thesis by blast
qed

lemma load_calls_append: "load_calls (xs @ ys) a = fbind (load_calls xs a) (load_calls ys)"
  by (induction xs arbitrary: a) (auto simp: fbind_def split: sum.split)

lemma load_calls_inv:
  "load_inv [] a0 a0 \<Longrightarrow> good_rows a0 rows \<Longrightarrow> \<exists>a. load_calls rows a0 = Inr a \<and> load_inv rows a0 a"
proof (induction rows rule: rev_induct)
  case (snoc r rows)
  then obtain a where a: "load_calls rows a0 = Inr a" "load_inv rows a0 a" using good_rows_prefix by blast
  from callback_inv [OF a(2) snoc.prems(2)] a(1) show ?case by (auto simp: load_calls_append fbind_def)
qed simp

lemma parent_in_None:
  assumes "load_inv rows a0 a" "good_rows a0 (rows @ [r])"
  shows "parent_in rows r = None \<longleftrightarrow> cr_parent r = None"
proof -
  let ?cs = "td_calls (thread_of a (cr_thread r))" let ?rs = "of_thread (cr_thread r) rows"
  have rel: "thr_rel ?cs ?rs" using assms(1) by (simp add: load_inv_def)
  have d: "distinct (map cr_id rows)" using assms(2) by (simp add: good_rows_def)
  then have dr: "distinct (map cr_id ?rs)" by (simp add: of_thread_def distinct_map_filter)
  have "open_rows (?rs @ [r]) \<noteq> None" using assms(2) by (simp add: good_rows_def of_thread_def)
  from next_row [OF rel dr this] obtain p where p: "cr_parent r = map_option (\<lambda>q. event_id (?cs ! q)) p"
    "\<And>q. p = Some q \<Longrightarrow> q < length ?cs" by blast
  show ?thesis using parent_in_ok [OF rel d p] p(1) by simp
qed

lemma related_parents:
  assumes "load_inv [] a0 a0" "good_rows a0 rows"
  shows "map fst (related parent_in rows) = filter (\<lambda>r. cr_parent r \<noteq> None) rows"
  using assms(2)
proof (induction rows rule: rev_induct)
  case (snoc r rows)
  have g: "good_rows a0 rows" using snoc.prems by (rule good_rows_prefix)
  then obtain a where "load_inv rows a0 a" using load_calls_inv [OF assms(1)] by blast
  from parent_in_None [OF this snoc.prems] snoc.IH [OF g] show ?case by (auto split: option.split)
qed simp

lemma from_ocalls_eq:
  assumes "load_inv [] a0 a0" "good_rows a0 rows"
  shows "from_ocalls eid ECALL i rows = of_nat (length (filter (\<lambda>r. of_call eid ECALL i r \<and> cr_parent r \<noteq> None) rows))"
proof -
  have "map fst (filter (\<lambda>(r, q). of_call eid ECALL i r) (related parent_in rows)) =
    filter (of_call eid ECALL i) (map fst (related parent_in rows))"
    by (simp add: filter_map comp_def split_def)
  then have "length (filter (\<lambda>(r, q). of_call eid ECALL i r) (related parent_in rows)) =
    length (filter (of_call eid ECALL i) (filter (\<lambda>r. cr_parent r \<noteq> None) rows))"
    unfolding related_parents [OF assms] by (metis length_map)
  then show ?thesis by (simp add: from_ocalls_def conj_commute)
qed

section \<open>The tables before the first row\<close>

definition no_calls :: "analysis \<Rightarrow> bool" where
  "no_calls a \<longleftrightarrow> an_threads a = [] \<and> (\<forall>e \<in> snd ` set (encls a). \<forall>ty \<in> {ECALL, OCALL}. \<forall>c \<in> set (calls_of ty e).
     cd_type c = ty \<and> exectimes c = [] \<and> st_sum (all_stats c) = 0 \<and> num_ecall_called_from_ocalls c = 0)"

lemma snd_amap_upd: "snd ` set (amap_upd d k f m) \<subseteq> insert (f d) (snd ` set m \<union> f ` snd ` set m)"
  by (auto simp: amap_upd_def set_insort_key image_iff split: if_splits) (force+)?

lemma no_calls_upd:
  assumes "no_calls a" "\<And>e ty. ty \<in> {ECALL, OCALL} \<Longrightarrow> set (calls_of ty (f e)) \<subseteq> insert (new_call_data ty i n) (set (calls_of ty e))"
  shows "no_calls (upd_encl eid f a)"
proof -
  have "cd_type c = ty \<and> exectimes c = [] \<and> st_sum (all_stats c) = 0 \<and> num_ecall_called_from_ocalls c = 0"
    if e: "e \<in> snd ` set (encls (upd_encl eid f a))" and ty: "ty \<in> {ECALL, OCALL}" and c: "c \<in> set (calls_of ty e)" for e ty c
  proof -
    have "e = f new_enclave_data \<or> e \<in> snd ` set (encls a) \<or> (\<exists>e' \<in> snd ` set (encls a). e = f e')"
      using e snd_amap_upd [of new_enclave_data eid f "encls a"] by (auto simp: upd_encl_def)
    then have "c = new_call_data ty i n \<or> (\<exists>e' \<in> snd ` set (encls a). c \<in> set (calls_of ty e'))"
    proof (elim disjE bexE)
      assume "e = f new_enclave_data"
      moreover have "calls_of ty new_enclave_data = []" by (simp add: calls_of_def new_enclave_data_def)
      ultimately show ?thesis using c assms(2) [OF ty, of new_enclave_data] by auto
    qed (use c assms(2) [OF ty] in blast)+
    then show ?thesis using assms(1) ty by (auto simp: no_calls_def new_call_data_def zero_stats_def)
  qed
  with assms(1) show ?thesis by (simp add: no_calls_def upd_encl_def)
qed

lemma fold_fault_keeps:
  "(\<And>x s s'. P s \<Longrightarrow> f x s = Inr s' \<Longrightarrow> P s') \<Longrightarrow> fold_fault f xs s = Inr s' \<Longrightarrow> P s \<Longrightarrow> P s'"
  by (induction xs arbitrary: s) (auto simp: fbind_def split: sum.splits)

lemma symbols_no_calls:
  "no_calls a \<Longrightarrow> ecalls_callback i eid n a = Inr a' \<Longrightarrow> no_calls a'"
  "no_calls a \<Longrightarrow> ocalls_callback i eid n a = Inr a' \<Longrightarrow> no_calls a'"
  by (auto simp: ecalls_callback_def ocalls_callback_def calls_of_def split: option.splits intro!: no_calls_upd)

lemma init_parents_calls:
  "c \<in> set (calls_of ty (init_parents e)) \<Longrightarrow> ty \<noteq> UNDEF \<Longrightarrow> \<exists>c' \<in> set (calls_of ty e).
     cd_type c = cd_type c' \<and> exectimes c = exectimes c' \<and> all_stats c = all_stats c' \<and>
     num_ecall_called_from_ocalls c = num_ecall_called_from_ocalls c' \<and>
     direct_parents_data c = replicate (length (calls_of (other_type ty) e)) zero_pcd \<and>
     indirect_parents_data c = replicate (length (calls_of ty e)) zero_pcd"
  by (cases ty) (auto simp: init_parents_def calls_of_def)

lemma length_init_parents [simp]: "length (calls_of ty (init_parents e)) = length (calls_of ty e)"
  by (simp add: calls_of_def init_parents_def)

lemma map_of_apsnd: "map_of (map (apsnd f) m) k = map_option f (map_of m k)"
  by (induction m) auto

lemma load_tables_inv:
  assumes "load_tables gs es os ts = Inr a"
  shows "load_inv [] a a"
proof -
  have g: "encls (fold (\<lambda>(k, v). general_callback k v) gs a) = encls a"
    "an_threads (fold (\<lambda>(k, v). general_callback k v) gs a) = an_threads a" for a
    by (induction gs arbitrary: a) (auto simp: general_callback_def)
  have th: "encls (fold (\<lambda>(i, p, n). thread_callback i p n) ts a) = encls a" for a
    by (induction ts arbitrary: a) (auto simp: thread_callback_def upd_athread_def)
  have t: "td_calls (thread_of (fold (\<lambda>(i, p, n). thread_callback i p n) ts b) tid) = []" if "\<And>tid. td_calls (thread_of b tid) = []" for b tid
    using that by (induction ts arbitrary: b) (auto simp: thread_callback_def)
  obtain a1 a2 where a1: "fold_fault (\<lambda>(i, eid, n). ecalls_callback i eid n) es (fold (\<lambda>(k, v). general_callback k v) gs new_analysis) = Inr a1"
    and a2: "fold_fault (\<lambda>(i, eid, n). ocalls_callback i eid n) os a1 = Inr a2"
    and a: "a = fold (\<lambda>(i, p, n). thread_callback i p n) ts (a2\<lparr>encls := map (apsnd init_parents) (encls a2)\<rparr>)"
    using assms by (auto simp: load_tables_def fbind_def split: sum.splits)
  have "no_calls (fold (\<lambda>(k, v). general_callback k v) gs new_analysis)" by (simp add: no_calls_def g new_analysis_def)
  then have "no_calls a1" by (rule fold_fault_keeps [OF _ a1, rotated]) (auto intro: symbols_no_calls)
  then have n2: "no_calls a2" by (rule fold_fault_keeps [OF _ a2, rotated]) (auto intro: symbols_no_calls)
  have e: "encl_of a eid = (case map_of (encls a2) eid of None \<Rightarrow> new_enclave_data | Some e \<Rightarrow> init_parents e)" for eid
    by (simp add: a encl_of_def th amap_get_def map_of_apsnd split: option.split)
  have tid: "td_calls (thread_of a tid) = []" for tid
    unfolding a by (rule t) (use n2 in \<open>simp add: thread_of_def amap_get_def no_thread_def no_calls_def\<close>)
  have "cd_ok (length (calls_of (other_type ty) (encl_of a eid))) (length (calls_of ty (encl_of a eid))) [] eid ty i
      (calls_of ty (encl_of a eid) ! i)" if ty: "ty \<noteq> UNDEF" and i: "i < length (calls_of ty (encl_of a eid))" for eid ty i
  proof -
    obtain x where x: "map_of (encls a2) eid = Some x" "encl_of a eid = init_parents x"
      using i e [of eid] by (cases "map_of (encls a2) eid") (auto simp: calls_of_def new_enclave_data_def split: if_splits)
    from i have "calls_of ty (encl_of a eid) ! i \<in> set (calls_of ty (init_parents x))" by (simp add: x)
    from init_parents_calls [OF this ty] obtain c' where cx: "c' \<in> set (calls_of ty x)"
      and c': "cd_type (calls_of ty (encl_of a eid) ! i) = cd_type c'" "exectimes (calls_of ty (encl_of a eid) ! i) = exectimes c'" "all_stats (calls_of ty (encl_of a eid) ! i) = all_stats c'"
        "num_ecall_called_from_ocalls (calls_of ty (encl_of a eid) ! i) = num_ecall_called_from_ocalls c'"
        "direct_parents_data (calls_of ty (encl_of a eid) ! i) = replicate (length (calls_of (other_type ty) x)) zero_pcd"
        "indirect_parents_data (calls_of ty (encl_of a eid) ! i) = replicate (length (calls_of ty x)) zero_pcd" by blast
    have "ty \<in> {ECALL, OCALL}" "x \<in> snd ` set (encls a2)" using ty map_of_SomeD [OF x(1)] by (cases ty; force)+
    then have "cd_type c' = ty" "exectimes c' = []" "st_sum (all_stats c') = 0" "num_ecall_called_from_ocalls c' = 0"
      using n2 cx unfolding no_calls_def by blast+
    with c' x show ?thesis
      by (simp add: cd_ok_def pairs_for_def direct_pcd_def indirect_pcd_def from_ocalls_def map_replicate_const)
  qed
  then show ?thesis by (simp add: load_inv_def tid thr_rel_def wf_calls_def of_thread_def open_rows_def)
qed

section \<open>The counters\<close>

text \<open>How many pairs have a difference in a range.\<close>

definition count_diffs :: "(call_row \<Rightarrow> call_row \<Rightarrow> u64) \<Rightarrow> u64 \<Rightarrow> u64 \<Rightarrow> (call_row \<times> call_row) list \<Rightarrow> u64" where
  "count_diffs d lo hi ps = of_nat (length (filter (\<lambda>(r, q). lo \<le> d r q \<and> d r q < hi) ps))"

lemma count_diffs_snoc:
  "count_diffs d lo hi [] = 0"
  "count_diffs d lo hi (ps @ [p]) = count_diffs d lo hi ps + (if lo \<le> d (fst p) (snd p) \<and> d (fst p) (snd p) < hi then 1 else 0)"
  by (simp_all add: count_diffs_def case_prod_unfold)

text \<open>All counters of an entry for a call that contains the calls, and of one for a call before them: the time between the two starts, between
  the two ends, and from the end of the earlier to the start of the later call.\<close>

definition direct_counters :: "parent_call_data \<Rightarrow> (call_row \<times> call_row) list \<Rightarrow> bool" where
  "direct_counters e ps \<longleftrightarrow> pc_count e = of_nat (length ps) \<and>
     pc_10us_from_start e = count_diffs (\<lambda>r q. cr_start r - cr_start q) 0 10000 ps \<and>
     pc_20us_from_start e = count_diffs (\<lambda>r q. cr_start r - cr_start q) 10000 20000 ps \<and>
     pc_10us_from_end e = count_diffs (\<lambda>r q. cr_end q - cr_end r) 0 10000 ps \<and>
     pc_20us_from_end e = count_diffs (\<lambda>r q. cr_end q - cr_end r) 10000 20000 ps \<and>
     pc_1us e = 0 \<and> pc_5us e = 0 \<and> pc_10us e = 0 \<and> pc_20us e = 0"

definition indirect_counters :: "parent_call_data \<Rightarrow> (call_row \<times> call_row) list \<Rightarrow> bool" where
  "indirect_counters e ps \<longleftrightarrow> pc_count e = of_nat (length ps) \<and>
     pc_1us e = count_diffs (\<lambda>r q. cr_start r - cr_end q) 0 1000 ps \<and>
     pc_5us e = count_diffs (\<lambda>r q. cr_start r - cr_end q) 1000 5000 ps \<and>
     pc_10us e = count_diffs (\<lambda>r q. cr_start r - cr_end q) 5000 10000 ps \<and>
     pc_20us e = count_diffs (\<lambda>r q. cr_start r - cr_end q) 10000 20000 ps \<and>
     pc_10us_from_start e = 0 \<and> pc_20us_from_start e = 0 \<and> pc_10us_from_end e = 0 \<and> pc_20us_from_end e = 0"

lemma bump_direct_counts:
  "pc_count (bump_direct pc a b d) = pc_count d + 1"
  "pc_10us_from_start (bump_direct pc a b d) = pc_10us_from_start d + (if a < 10000 then 1 else 0)"
  "pc_20us_from_start (bump_direct pc a b d) = pc_20us_from_start d + (if 10000 \<le> a \<and> a < 20000 then 1 else 0)"
  "pc_10us_from_end (bump_direct pc a b d) = pc_10us_from_end d + (if b < 10000 then 1 else 0)"
  "pc_20us_from_end (bump_direct pc a b d) = pc_20us_from_end d + (if 10000 \<le> b \<and> b < 20000 then 1 else 0)"
  "pc_1us (bump_direct pc a b d) = pc_1us d" "pc_5us (bump_direct pc a b d) = pc_5us d"
  "pc_10us (bump_direct pc a b d) = pc_10us d" "pc_20us (bump_direct pc a b d) = pc_20us d"
  by (simp_all add: bump_direct_def Let_def linorder_not_less [symmetric])

lemma bounds_less: "a < (1000 :: u64) \<Longrightarrow> a < 5000" "a < (1000 :: u64) \<Longrightarrow> a < 10000" "a < (5000 :: u64) \<Longrightarrow> a < 10000"
  by (rule less_trans, assumption, simp)+

lemma bump_indirect_counts:
  "pc_count (bump_indirect pc a d) = pc_count d + 1"
  "pc_1us (bump_indirect pc a d) = pc_1us d + (if a < 1000 then 1 else 0)"
  "pc_5us (bump_indirect pc a d) = pc_5us d + (if 1000 \<le> a \<and> a < 5000 then 1 else 0)"
  "pc_10us (bump_indirect pc a d) = pc_10us d + (if 5000 \<le> a \<and> a < 10000 then 1 else 0)"
  "pc_20us (bump_indirect pc a d) = pc_20us d + (if 10000 \<le> a \<and> a < 20000 then 1 else 0)"
  "pc_10us_from_start (bump_indirect pc a d) = pc_10us_from_start d" "pc_20us_from_start (bump_indirect pc a d) = pc_20us_from_start d"
  "pc_10us_from_end (bump_indirect pc a d) = pc_10us_from_end d" "pc_20us_from_end (bump_indirect pc a d) = pc_20us_from_end d"
  using bounds_less [of a] by (simp_all add: bump_indirect_def Let_def linorder_not_less [symmetric])

lemma direct_pcd_snoc:
  "direct_pcd ty k (ps @ [p]) = bump_direct (ty, k) (cr_start (fst p) - cr_start (snd p)) (cr_end (snd p) - cr_end (fst p)) (direct_pcd ty k ps)"
  by (simp add: direct_pcd_def case_prod_unfold)

lemma indirect_pcd_snoc:
  "indirect_pcd ty k (ps @ [p]) = bump_indirect (ty, k) (cr_start (fst p) - cr_end (snd p)) (indirect_pcd ty k ps)"
  by (simp add: indirect_pcd_def case_prod_unfold)

lemma direct_pcd_counts: "direct_counters (direct_pcd ty k ps) ps"
proof (induction ps rule: rev_induct)
  case Nil
  show ?case by (simp add: direct_counters_def count_diffs_def direct_pcd_def zero_pcd_def)
next
  case (snoc p ps)
  then show ?case unfolding direct_counters_def direct_pcd_snoc bump_direct_counts count_diffs_snoc by simp
qed

lemma indirect_pcd_counts: "indirect_counters (indirect_pcd ty k ps) ps"
proof (induction ps rule: rev_induct)
  case Nil
  show ?case by (simp add: indirect_counters_def count_diffs_def indirect_pcd_def zero_pcd_def)
next
  case (snoc p ps)
  then show ?case unfolding indirect_counters_def indirect_pcd_snoc bump_indirect_counts count_diffs_snoc by simp
qed

text \<open>C3: once the tables are loaded, the rows of nested calls, each thread in one enclave, load without a fault, and afterwards every
  call has the execution times of its rows, in their order, and their sum; an ecall has the number of its rows made in a call; its entry for a call that may contain it
  counts those of its rows whose \<open>call_event\<close> is a row of that call on the same thread: all of them, and those that started, and those that
  ended, less than 10 and from 10 to 20 microseconds apart from it; and its entry for a call of its own kind counts those of
  its rows for which that call is the last one before it in the same call: all of them, and those less than 1, from 1 to 5, from 5 to 10 and from
  10 to 20 microseconds after its end.\<close>

theorem load_counts_parents:
  assumes "load_tables gs es os ts = Inr a0" and "good_rows a0 rows"
  shows "\<exists>a. load_calls rows a0 = Inr a \<and>
    (\<forall>eid ty i. ty \<noteq> UNDEF \<longrightarrow> i < length (calls_of ty (encl_of a0 eid)) \<longrightarrow>
       exectimes (call_of a eid ty i) = map cr_exectime (filter (of_call eid ty i) rows) \<and>
       st_sum (all_stats (call_of a eid ty i)) = sum_list (exectimes (call_of a eid ty i)) \<and>
       num_ecall_called_from_ocalls (call_of a eid ty i) = from_ocalls eid ty i rows \<and>
       (\<forall>k < length (calls_of (other_type ty) (encl_of a0 eid)).
          direct_counters (direct_parents_data (call_of a eid ty i) ! k) (pairs_for parent_in eid ty i k rows)) \<and>
       (\<forall>k < length (calls_of ty (encl_of a0 eid)).
          indirect_counters (indirect_parents_data (call_of a eid ty i) ! k) (pairs_for prev_in eid ty i k rows)))"
proof -
  obtain a where a: "load_calls rows a0 = Inr a" "load_inv rows a0 a"
    using load_calls_inv [OF load_tables_inv [OF assms(1)] assms(2)] by blast
  have "cd_ok (length (calls_of (other_type ty) (encl_of a0 eid))) (length (calls_of ty (encl_of a0 eid))) rows eid ty i (call_of a eid ty i)"
    if "ty \<noteq> UNDEF" "i < length (calls_of ty (encl_of a0 eid))" for eid ty i
    by (rule load_inv_call [OF a(2) that])
  then show ?thesis
    by (intro exI [of _ a] conjI allI impI a(1)) (simp_all add: cd_ok_def direct_pcd_counts indirect_pcd_counts)
qed

definition ex_row :: "u64 \<Rightarrow> u64 \<Rightarrow> u64 \<Rightarrow> u64 \<Rightarrow> u64 \<Rightarrow> u64 option \<Rightarrow> u64 \<Rightarrow> u64 \<Rightarrow> call_row" where
  "ex_row i ty tid c eid p s e = \<lparr>cr_id = i, cr_type = ty, cr_thread = tid, cr_call_id = c, cr_eid = eid, cr_exectime = e - s,
     cr_aex_count = Some 0, cr_parent = p, cr_start = s, cr_end = e\<rparr>"

definition ex_rows :: "call_row list" where
  "ex_rows = [ex_row 1 15 0 0 2 None 100 90000, ex_row 2 17 0 0 2 (Some 1) 200 80000, ex_row 3 15 0 1 2 (Some 2) 300 400,
     ex_row 5 15 0 1 2 (Some 2) 500 600, ex_row 9 15 0 0 2 None 90500 90600]"

definition ex_tables :: analysis where
  "ex_tables = projr (load_tables [(''start_time'', 50)] [(0, 2, Some ''a''), (1, 2, Some ''b'')] [(0, 2, Some ''o'')] [(0, 7, 5)])"

lemma ex_tables_loaded:
  "load_tables [(''start_time'', 50)] [(0, 2, Some ''a''), (1, 2, Some ''b'')] [(0, 2, Some ''o'')] [(0, 7, 5)] = Inr ex_tables"
  "good_rows ex_tables ex_rows" "length (calls_of ECALL (encl_of ex_tables 2)) = 2" "length (calls_of OCALL (encl_of ex_tables 2)) = 1"
  "length (pairs_for prev_in 2 ECALL 1 1 ex_rows) = 1" "length (pairs_for parent_in 2 ECALL 1 0 ex_rows) = 2"
  "count_diffs (\<lambda>r q. cr_start r - cr_start q) 0 10000 (pairs_for parent_in 2 ECALL 1 0 ex_rows) = 2"
  "count_diffs (\<lambda>r q. cr_end q - cr_end r) 10000 20000 (pairs_for parent_in 2 ECALL 1 0 ex_rows) = 0"
  "count_diffs (\<lambda>r q. cr_start r - cr_end q) 0 1000 (pairs_for prev_in 2 ECALL 1 1 ex_rows) = 1"
  by code_simp+

theorem load_counts_parents_witness:
  "\<exists>a. load_calls ex_rows ex_tables = Inr a \<and> pc_count (direct_parents_data (call_of a 2 ECALL 1) ! 0) = 2 \<and>
     pc_10us_from_start (direct_parents_data (call_of a 2 ECALL 1) ! 0) = 2 \<and> pc_20us_from_end (direct_parents_data (call_of a 2 ECALL 1) ! 0) = 0 \<and>
     pc_count (indirect_parents_data (call_of a 2 ECALL 1) ! 1) = 1 \<and> pc_1us (indirect_parents_data (call_of a 2 ECALL 1) ! 1) = 1"
proof -
  obtain a where "load_calls ex_rows ex_tables = Inr a"
    "\<forall>k < length (calls_of (other_type ECALL) (encl_of ex_tables 2)).
      direct_counters (direct_parents_data (call_of a 2 ECALL 1) ! k) (pairs_for parent_in 2 ECALL 1 k ex_rows)"
    "\<forall>k < length (calls_of ECALL (encl_of ex_tables 2)).
      indirect_counters (indirect_parents_data (call_of a 2 ECALL 1) ! k) (pairs_for prev_in 2 ECALL 1 k ex_rows)"
    using load_counts_parents [OF ex_tables_loaded(1,2)] ex_tables_loaded(3) by auto
  then show ?thesis using ex_tables_loaded(3-) by (intro exI [of _ a]) (simp add: direct_counters_def indirect_counters_def)
qed

text \<open>A call that follows, on the same level of its thread, a call of another enclave with an id that the
  enclave of the later call has no entry for, makes the analysis end with an exception of \<open>at\<close>.\<close>

lemma sibling_of_other_enclave_throws:
  assumes "wf_calls (td_calls t)" and "distinct (map event_id (td_calls t))" and "fits (td_calls t) ty p"
    and "cr_parent r = map_option (\<lambda>q. event_id (td_calls t ! q)) p"
    and "prev_sibling (td_calls t) p = Some s"
    and "length (indirect_parents_data c) \<le> unat (sc_call_id (td_calls t ! s))"
  shows "relate_call ty r t c = Inl StdException"
proof -
  let ?cs = "td_calls t"
  have len: "q < length ?cs" if "p = Some q" for q
    using assms(3) that chain_le [of q ?cs "length ?cs - 1"] by (cases ?cs) (auto simp: fits_def)
  have dp: "direct_parent ?cs (cr_parent r) = Inr p" using direct_parent_ok [OF assms(2) len] assms(4) by simp
  have ip: "indirect_parent ?cs ty p = Inr (Some s)" using indirect_parent_ok [OF assms(1,3)] assms(5) by simp
  show ?thesis
  proof (cases "note_direct ty r ?cs p c")
    case (Inl e)
    then have "e = StdException" by (auto simp: note_direct_def at_upd_def Let_def split: option.splits if_splits)
    with Inl dp show ?thesis by (simp add: relate_call_def fbind_def)
  next
    case (Inr c1)
    then have "indirect_parents_data c1 = indirect_parents_data c"
      by (auto simp: note_direct_def at_upd_def Let_def split: option.splits if_splits)
    with Inr dp ip assms(6) show ?thesis
      by (simp add: relate_call_def fbind_def note_indirect_def at_upd_def Let_def)
  qed
qed

definition ex_two :: thread_data where
  "ex_two = \<lparr>td_id = 0, td_pthread_id = 7, td_capacity = 5, td_calls = [scd_of ECALL (ex_row 1 15 0 1 2 None 100 200) None]\<rparr>"

lemma sibling_of_other_enclave_throws_witness:
  "relate_call ECALL (ex_row 3 15 0 0 3 None 300 400) ex_two
     ((new_call_data ECALL 0 ''a'')\<lparr>indirect_parents_data := [zero_pcd]\<rparr>) = Inl StdException"
  by (rule sibling_of_other_enclave_throws [where p = None and s = 0])
    (simp_all add: ex_two_def wf_calls_def fits_def scd_of_def ex_row_def prev_sibling_def)

end
