(* ===== verification/Doubles.thy ===== *)
theory Doubles
  imports Complex_Main "HOL-Library.Log_Nat" SgxPrelude
begin

text \<open>
  The type \<open>double\<close> as the analyzer uses it: values that are not negative, far from the limits of the
  exponent. A result is the exact one, rounded to 53 significant bits, ties to even; a division by
  zero gives the infinity, or no number for zero by zero.
\<close>

section \<open>Rounding\<close>

definition pow2 :: "int \<Rightarrow> rat" where
  "pow2 k = (if 0 \<le> k then 2 ^ nat k else 1 / 2 ^ nat (- k))"

lemma pow2_pos [simp]: "0 < pow2 k"
  by (simp add: pow2_def)

lemma pow2_nonzero [simp]: "pow2 k \<noteq> 0"
  using pow2_pos [of k] by linarith

lemma pow2_0 [simp]: "pow2 0 = 1"
  by (simp add: pow2_def)

lemma pow2_Suc: "pow2 (k + 1) = 2 * pow2 k"
proof (cases "0 \<le> k")
  case True
  then show ?thesis by (simp add: pow2_def nat_add_distrib)
next
  case False
  then have "nat (- k) = Suc (nat (- (k + 1)))" by simp
  with False show ?thesis by (auto simp: pow2_def)
qed

lemma pow2_add_nat: "pow2 (k + int n) = pow2 k * 2 ^ n"
proof (induction n)
  case (Suc n)
  then show ?case using pow2_Suc [of "k + int n"] by (simp add: algebra_simps)
qed simp

lemma pow2_diff: "pow2 (int m - int n) = 2 ^ m / 2 ^ n"
  using pow2_add_nat [of "int m - int n" n] pow2_add_nat [of 0 m] by (simp add: field_simps)

lemma pow2_mono: "j \<le> k \<Longrightarrow> pow2 j \<le> pow2 k"
  using pow2_add_nat [of j "nat (k - j)"] by simp

text \<open>The exponent of a positive number: \<open>2 ^ ilog2 x \<le> x < 2 ^ (ilog2 x + 1)\<close>.\<close>

definition ilog2 :: "rat \<Rightarrow> int" where
  "ilog2 x = (let (p, q) = quotient_of x; k = int (floorlog 2 (nat p)) - int (floorlog 2 (nat q))
     in if pow2 k \<le> x then k else k - 1)"

lemma ilog2_bounds:
  assumes "0 < x"
  shows "pow2 (ilog2 x) \<le> x" "x < pow2 (ilog2 x + 1)"
proof -
  obtain p q where pq: "quotient_of x = (p, q)" by force
  then have q: "0 < q" and x: "x = of_int p / of_int q" by (auto dest: quotient_of_denom_pos quotient_of_div)
  then have p: "0 < p" using assms by (simp add: zero_less_divide_iff)
  let ?P = "floorlog 2 (nat p)" and ?Q = "floorlog 2 (nat q)"
  have "2 ^ (?P - 1) \<le> nat p \<and> nat p < 2 ^ ?P" "2 ^ (?Q - 1) \<le> nat q \<and> nat q < 2 ^ ?Q" "0 < ?P" "0 < ?Q"
    using p q floorlog_bounds [of "nat p" 2] floorlog_bounds [of "nat q" 2] by (auto simp: floorlog_def)
  note n = this
  have pq': "of_nat (nat p) = (of_int p :: rat)" "of_nat (nat q) = (of_int q :: rat)" using p q by simp_all
  have r: "(2 :: rat) ^ j \<le> of_nat i" if "2 ^ j \<le> i" for i j using that by (metis of_nat_le_iff of_nat_numeral of_nat_power)
  have r': "of_nat i < (2 :: rat) ^ j" if "i < 2 ^ j" for i j using that by (metis of_nat_less_iff of_nat_numeral of_nat_power)
  have b: "(2 :: rat) ^ (?P - 1) \<le> of_int p" "of_int p < (2 :: rat) ^ ?P" "(2 :: rat) ^ (?Q - 1) \<le> of_int q" "of_int q < (2 :: rat) ^ ?Q"
    using n(1,2) r [of _ "nat p"] r' [of "nat p"] r [of _ "nat q"] r' [of "nat q"] unfolding pq' by blast+
  have h: "(2 :: rat) ^ ?P = 2 * 2 ^ (?P - 1)" "(2 :: rat) ^ ?Q = 2 * 2 ^ (?Q - 1)"
    using n(3,4) by (simp_all flip: power_Suc)
  let ?k = "int ?P - int ?Q"
  have k: "pow2 ?k = 2 ^ ?P / 2 ^ ?Q" by (rule pow2_diff)
  have "of_int p * 2 ^ (?Q - 1) < (2 :: rat) ^ ?P * of_int q"
    using b p by (intro mult_less_le_imp_less) auto
  then have up: "x < 2 * pow2 ?k" using q by (simp add: x k h field_simps)
  have "(2 :: rat) ^ (?P - 1) * of_int q < of_int p * 2 ^ ?Q"
    using b q p by (intro mult_le_less_imp_less) auto
  then have lo: "pow2 ?k / 2 < x" using q by (simp add: x k h field_simps)
  have h': "pow2 (?k - 1) = pow2 ?k / 2" using pow2_Suc [of "?k - 1"] by simp
  show "pow2 (ilog2 x) \<le> x" "x < pow2 (ilog2 x + 1)"
    using up lo h' pow2_Suc [of ?k] by (auto simp: ilog2_def pq Let_def)
qed

lemma ilog2_unique:
  assumes "pow2 k \<le> x" "x < pow2 (k + 1)"
  shows "ilog2 x = k"
proof -
  have x: "0 < x" using assms(1) pow2_pos [of k] by linarith
  note b = ilog2_bounds [OF x]
  have "\<not> k + 1 \<le> ilog2 x" using pow2_mono [of "k + 1" "ilog2 x"] b(1) assms(2) by linarith
  moreover have "\<not> ilog2 x + 1 \<le> k" using pow2_mono [of "ilog2 x + 1" k] b(2) assms(1) by linarith
  ultimately show ?thesis by linarith
qed

definition round_even :: "rat \<Rightarrow> int" where
  "round_even y = (let f = \<lfloor>y\<rfloor>; d = y - of_int f
     in if d < 1/2 then f else if 1/2 < d then f + 1 else if even f then f else f + 1)"

lemma round_even_int [simp]: "round_even (of_int n) = n"
  by (simp add: round_even_def)

definition rnd_bits :: "nat \<Rightarrow> rat \<Rightarrow> rat" where
  "rnd_bits b x = (if x \<le> 0 then 0 else let u = pow2 (ilog2 x - (int b - 1)) in of_int (round_even (x / u)) * u)"

abbreviation rnd :: "rat \<Rightarrow> rat" where
  "rnd \<equiv> rnd_bits 53"

text \<open>A \<open>float\<close> has 24 significant bits.\<close>

abbreviation rnd_float :: "rat \<Rightarrow> rat" where
  "rnd_float \<equiv> rnd_bits 24"

lemma rnd_0 [simp]: "rnd_bits b 0 = 0"
  by (simp add: rnd_bits_def)

text \<open>Integers of at most 53 bits are doubles.\<close>

lemma rnd_nat: "n < 2 ^ 53 \<Longrightarrow> rnd (of_nat n) = of_nat n"
proof (cases "n = 0")
  case False
  assume n: "n < 2 ^ 53"
  let ?e = "ilog2 (of_nat n) - 52"
  have x: "(0 :: rat) < of_nat n" using False by simp
  have "?e \<le> 0"
  proof (rule ccontr)
    assume "\<not> ?e \<le> 0"
    then have "pow2 53 \<le> pow2 (ilog2 (of_nat n))" by (intro pow2_mono) simp
    also have "\<dots> \<le> of_nat n" by (rule ilog2_bounds(1) [OF x])
    finally have "(2 :: rat) ^ 53 \<le> of_nat n" by (simp add: pow2_def)
    then have "2 ^ 53 \<le> n" by (metis of_nat_le_iff of_nat_numeral of_nat_power)
    with n show False by simp
  qed
  then have "of_nat n / pow2 ?e = of_int (int n * 2 ^ nat (- ?e))" by (auto simp: pow2_def)
  then have "of_int (round_even (of_nat n / pow2 ?e)) * pow2 ?e = (of_nat n :: rat)"
    by (metis nonzero_eq_divide_eq pow2_nonzero round_even_int)
  with x show ?thesis by (simp add: rnd_bits_def Let_def)
qed simp

lemma rnd_nonneg [simp]: "0 \<le> rnd_bits b x"
proof (cases "x \<le> 0")
  case False
  let ?u = "pow2 (ilog2 x - (int b - 1))"
  have "0 \<le> \<lfloor>x / ?u\<rfloor>" using False by (simp add: less_imp_le)
  then have "0 \<le> round_even (x / ?u)" by (simp add: round_even_def Let_def)
  with False show ?thesis by (simp add: rnd_bits_def Let_def less_imp_le)
qed (simp add: rnd_bits_def)

lemma u64_bound: "unat (b :: u64) < 2 ^ 64"
  using unsigned_less [of b] by simp

lemma unat_of_nat_u64: "n < 2 ^ 64 \<Longrightarrow> unat (of_nat n :: u64) = n"
  by (simp add: unat_of_nat)

lemma of_nat_u64_eq: "m < 2 ^ 53 \<Longrightarrow> n < 2 ^ 53 \<Longrightarrow> (of_nat m :: u64) = of_nat n \<longleftrightarrow> m = n"
proof -
  assume "m < 2 ^ 53" "n < 2 ^ 53"
  then have "m < 2 ^ 64" "n < 2 ^ 64" by simp_all
  then show ?thesis by (metis unat_of_nat_u64)
qed

section \<open>Values\<close>

datatype dbl = Fin rat | Infinity | NaN

definition d_of_u64 :: "u64 \<Rightarrow> dbl" where
  "d_of_u64 w = Fin (rnd (of_nat (unat w)))"

fun d_div :: "dbl \<Rightarrow> dbl \<Rightarrow> dbl" where
  "d_div (Fin x) (Fin y) = (if y = 0 then if x = 0 then NaN else Infinity else Fin (rnd (x / y)))"
| "d_div Infinity (Fin y) = Infinity"
| "d_div (Fin x) Infinity = Fin 0"
| "d_div _ _ = NaN"

fun d_mul :: "dbl \<Rightarrow> dbl \<Rightarrow> dbl" where
  "d_mul (Fin x) (Fin y) = Fin (rnd (x * y))"
| "d_mul Infinity (Fin y) = (if y = 0 then NaN else Infinity)"
| "d_mul (Fin x) Infinity = (if x = 0 then NaN else Infinity)"
| "d_mul Infinity Infinity = Infinity"
| "d_mul _ _ = NaN"

fun d_add :: "dbl \<Rightarrow> dbl \<Rightarrow> dbl" where
  "d_add (Fin x) (Fin y) = Fin (rnd (x + y))"
| "d_add NaN _ = NaN"
| "d_add _ NaN = NaN"
| "d_add _ _ = Infinity"

text \<open>Comparisons with something that is no number are false.\<close>

fun d_less :: "dbl \<Rightarrow> dbl \<Rightarrow> bool" where
  "d_less (Fin x) (Fin y) = (x < y)"
| "d_less (Fin x) Infinity = True"
| "d_less _ _ = False"

fun d_le :: "dbl \<Rightarrow> dbl \<Rightarrow> bool" where
  "d_le (Fin x) (Fin y) = (x \<le> y)"
| "d_le (Fin x) Infinity = True"
| "d_le Infinity Infinity = True"
| "d_le _ _ = False"

definition lit :: "rat \<Rightarrow> dbl" where
  "lit x = Fin (rnd x)"

lemma d_add_NaN [simp]: "d_add x NaN = NaN"
  by (cases x) simp_all

lemma d_mul_NaN [simp]: "d_mul NaN x = NaN"
  by (cases x) simp_all

section \<open>Square roots\<close>

text \<open>The largest number whose square is at most \<open>m\<close>, built from its bits.\<close>

fun isqrt_bits :: "nat \<Rightarrow> nat \<Rightarrow> nat \<Rightarrow> nat" where
  "isqrt_bits 0 m r = r"
| "isqrt_bits (Suc b) m r = isqrt_bits b m (if (r + 2 ^ b)\<^sup>2 \<le> m then r + 2 ^ b else r)"

definition isqrt :: "nat \<Rightarrow> nat" where
  "isqrt m = isqrt_bits 33 m 0"

lemma isqrt_bits_ok:
  "r\<^sup>2 \<le> m \<Longrightarrow> m < (r + 2 ^ b)\<^sup>2 \<Longrightarrow> (isqrt_bits b m r)\<^sup>2 \<le> m \<and> m < (isqrt_bits b m r + 1)\<^sup>2"
  by (induction b arbitrary: r) (auto simp: mult_2 add.assoc)

lemma isqrt_ok: "m < 2 ^ 66 \<Longrightarrow> (isqrt m)\<^sup>2 \<le> m \<and> m < (isqrt m + 1)\<^sup>2"
  using isqrt_bits_ok [of 0 m 33] by (simp add: isqrt_def)

text \<open>
  The integer part of the rounded square root of an unsigned integer: with \<open>n\<close> the integer part of the
  exact root, it is \<open>n + 1\<close> when the root is nearer to that than to the largest double below it.
\<close>

definition sqrt_u64 :: "u64 \<Rightarrow> u64" where
  "sqrt_u64 w = (let d = rnd (of_nat (unat w)); n = isqrt (nat \<lfloor>d\<rfloor>)
     in if n \<noteq> 0 \<and> (of_nat n + 1 - pow2 (ilog2 (of_nat n) - 53))\<^sup>2 \<le> d then of_nat (n + 1) else of_nat n)"

lemma sqrt_u64_small:
  assumes w: "unat w < 2 ^ 52"
  shows "sqrt_u64 w = of_nat (isqrt (unat w))"
proof -
  let ?d = "of_nat (unat w) :: rat" let ?n = "isqrt (unat w)" let ?u = "pow2 (ilog2 (of_nat ?n) - 53)"
  have d: "rnd ?d = ?d" using w by (intro rnd_nat) simp
  have sq: "?n\<^sup>2 \<le> unat w" "unat w < (?n + 1)\<^sup>2" using isqrt_ok [of "unat w"] w by simp_all
  have "\<not> (of_nat ?n + 1 - ?u)\<^sup>2 \<le> ?d" if n: "?n \<noteq> 0"
  proof -
    let ?l = "ilog2 (of_nat ?n)"
    have n0: "(0 :: rat) < of_nat ?n" using n by simp
    have "?n < 2 ^ 26"
    proof (rule ccontr)
      assume "\<not> ?n < 2 ^ 26"
      then have "(2 ^ 26)\<^sup>2 \<le> ?n\<^sup>2" by (intro power_mono) simp_all
      with sq(1) w show False by simp
    qed
    then have n26: "(of_nat ?n :: rat) < 2 ^ 26" by (metis of_nat_less_iff of_nat_numeral of_nat_power)
    have u: "?u * 2 ^ 53 = pow2 ?l" using pow2_add_nat [of "?l - 53" 53] by simp
    have "pow2 ?l < 2 ^ 26" using ilog2_bounds(1) [OF n0] n26 by linarith
    then have ub: "?u < 1 / 2 ^ 27" using u by simp
    have up: "0 < ?u" by simp
    have "unat w + 1 \<le> (?n + 1)\<^sup>2" using sq(2) by simp
    then have "?d + 1 \<le> (of_nat ?n + 1)\<^sup>2"
      by (metis (mono_tags) of_nat_1 of_nat_add of_nat_le_iff of_nat_power)
    moreover have "2 * (of_nat ?n + 1) * ?u < 1"
    proof -
      have n1: "of_nat ?n + 1 \<le> (2 :: rat) ^ 26"
        using \<open>?n < 2 ^ 26\<close> by (metis of_nat_Suc of_nat_le_iff of_nat_numeral of_nat_power Suc_leI add.commute)
      have "(of_nat ?n + 1) * ?u < 2 ^ 26 * (1 / 2 ^ 27)" using n1 ub less_imp_le [OF up] n0 by (intro mult_le_less_imp_less; linarith)
      then show ?thesis by (simp add: algebra_simps)
    qed
    moreover have "(of_nat ?n + 1 - ?u)\<^sup>2 = (of_nat ?n + 1)\<^sup>2 - 2 * (of_nat ?n + 1) * ?u + ?u\<^sup>2"
      by (simp add: power2_eq_square algebra_simps)
    moreover have "0 < ?u\<^sup>2" by simp
    ultimately show ?thesis by linarith
  qed
  then have "\<not> (?n \<noteq> 0 \<and> (of_nat ?n + 1 - ?u)\<^sup>2 \<le> ?d)" by blast
  moreover have "nat \<lfloor>?d\<rfloor> = unat w" by (simp only: floor_of_nat nat_int)
  ultimately show ?thesis unfolding sqrt_u64_def Let_def d by (simp only: if_False)
qed

end
