(* ===== verification/CallsStats.thy ===== *)
theory CallsStats
  imports CallsLoad Doubles "HOL-Library.Multiset"
begin

text \<open>
  The statistics of \<^verbatim>\<open>src/analyzer/src/calls.cpp\<close> and the helpers of \<^verbatim>\<open>util.h\<close> and \<^verbatim>\<open>util.cpp\<close>: averages and
  deviations, percentiles, the split of work over threads, the exported histograms and scatter data.
\<close>

section \<open>Percentiles\<close>

text \<open>\<open>vec.size() - 1\<close> wraps for an empty vector.\<close>

definition percentile_idx :: "dbl \<Rightarrow> u64 \<Rightarrow> u64" where
  "percentile_idx p n =
     (case d_mul p (d_of_u64 n) of
        Fin x \<Rightarrow> of_int \<lfloor>min (of_int \<lceil>x\<rceil>) (rnd (of_nat (unat (n - 1))))\<rfloor>
      | _ \<Rightarrow> of_int \<lfloor>rnd (of_nat (unat (n - 1)))\<rfloor>)"

lemma unat_pred: "0 < unat n \<Longrightarrow> unat (n - 1 :: u64) = unat n - 1"
  by (simp add: unat_sub_if_size word_less_nat_alt)

lemma percentile_idx_eq:
  assumes "0 < unat n" "unat n < 2 ^ 53"
  shows "unat (percentile_idx (Fin p) n) = min (nat \<lceil>rnd (p * of_nat (unat n))\<rceil>) (unat n - 1)"
proof -
  note m = unat_pred [OF assms(1)]
  have rn: "rnd (of_nat (unat n)) = of_nat (unat n)" "rnd (of_nat (unat (n - 1))) = of_nat (unat n - 1)"
    unfolding m using assms by (intro rnd_nat; simp)+
  let ?c = "\<lceil>rnd (p * of_nat (unat n))\<rceil>"
  have fl: "\<lfloor>min (of_int ?c) (of_nat (unat n - 1)) :: rat\<rfloor> = min ?c (int (unat n - 1))"
    by (simp add: min_def)
  have "percentile_idx (Fin p) n = of_int (min ?c (int (unat n - 1)))"
    unfolding percentile_idx_def d_of_u64_def d_mul.simps dbl.case rn fl ..
  also have "min ?c (int (unat n - 1)) = int (min (nat ?c) (unat n - 1))"
  proof -
    have "(-1 :: rat) < rnd (p * of_nat (unat n))" by (rule less_le_trans [OF _ rnd_nonneg]) simp
    then have "0 \<le> ?c" by linarith
    then show ?thesis by linarith
  qed
  finally have "percentile_idx (Fin p) n = of_nat (min (nat ?c) (unat n - 1))" by simp
  moreover have "min (nat ?c) (unat n - 1) < 2 ^ 64" using assms by simp
  ultimately show ?thesis by (simp add: unat_of_nat_u64)
qed

lemma percentile_idx_0 [simp]: "percentile_idx (Fin p) 0 = 0"
  by (simp add: percentile_idx_def d_of_u64_def min_def)

section \<open>Averages and deviations\<close>

text \<open>Differences and squares are 64-bit numbers that wrap, read as signed ones by the code.\<close>

definition sq_diffs :: "u64 \<Rightarrow> u64 list \<Rightarrow> u64" where
  "sq_diffs avg xs = sum_list (map (\<lambda>x. (x - avg) * (x - avg)) xs)"

definition num_less :: "u64 \<Rightarrow> u64 list \<Rightarrow> u64" where
  "num_less b xs = of_nat (length (filter (\<lambda>x. x < b) xs))"

definition calc_stats :: "stats_t \<Rightarrow> u64 list \<Rightarrow> fault + stats_t" where
  "calc_stats s ts =
     (if st_calls s = 0 then Inr s
      else if length ts < unat (st_calls s) then Inl OutOfRange
      else let avg = st_sum s div st_calls s; xs = take (unat (st_calls s)) ts; sq = sq_diffs avg xs
           in Inr (s\<lparr>st_sq_sum := sq, st_avg := avg, st_std := sqrt_u64 (sq div st_calls s),
                num_less_1us := num_less 1000 xs, num_less_5us := num_less 5000 xs, num_less_10us := num_less 10000 xs\<rparr>))"

definition calc_aex_stats :: "stats_t \<Rightarrow> u64 list \<Rightarrow> stats_t" where
  "calc_aex_stats s aex =
     (let s1 = s\<lparr>st_calls := of_nat (length aex)\<rparr>
      in if st_calls s1 = 0 then s1
         else let xs = take (unat (st_calls s1)) aex; total = sum_list xs; avg = total div st_calls s1; sq = sq_diffs avg xs
              in s1\<lparr>st_sum := total, st_sq_sum := sq, st_avg := avg, st_std := sqrt_u64 (sq div st_calls s1),
                   st_min := Min (set xs), st_max := Max (set xs)\<rparr>)"

text \<open>What is computed for one call: the times are sorted first.\<close>

definition stats_95 :: "call_data \<Rightarrow> fault + call_data" where
  "stats_95 c =
     (let n = percentile_idx (lit (95 / 100)) (of_nat (length (exectimes c)));
          s = (stats_95th c)\<lparr>st_sum := sum_list (take (unat n) (exectimes c)), st_calls := n\<rparr>
      in map_sum id (\<lambda>s. c\<lparr>stats_95th := s\<rparr>) (calc_stats s (exectimes c)))"

definition stats_all :: "call_data \<Rightarrow> fault + call_data" where
  "stats_all c =
     (let c1 = c\<lparr>exectimes := sort (exectimes c), all_stats := (all_stats c)\<lparr>st_calls := of_nat (length (exectimes c))\<rparr>\<rparr>
      in map_sum id (\<lambda>s. c1\<lparr>all_stats := s\<rparr>) (calc_stats (all_stats c1) (exectimes c1)))"

definition ecall_stats :: "call_data \<Rightarrow> fault + call_data" where
  "ecall_stats c = fbind (stats_all c) (\<lambda>c. stats_95 (c\<lparr>aex_stats := calc_aex_stats (aex_stats c) (aex_counts c)\<rparr>))"

definition ocall_stats :: "call_data \<Rightarrow> fault + call_data" where
  "ocall_stats c = fbind (stats_all c) stats_95"

section \<open>Work split over threads\<close>

text \<open>
  \<open>parallel_for_each\<close>: the range handed to every thread, for \<open>hw\<close> reported hardware threads. The functions
  passed to it change only the element they are given and, atomically, a sum, so their effect is that of
  running the ranges one after the other.
\<close>

definition no_of_threads :: "nat \<Rightarrow> nat \<Rightarrow> nat" where
  "no_of_threads hw n = min ((n + 1 - 1) div 1) (if hw \<noteq> 0 then hw else 4)"

fun split_blocks :: "nat \<Rightarrow> nat \<Rightarrow> 'a list \<Rightarrow> 'a list list" where
  "split_blocks 0 b xs = [xs]"
| "split_blocks (Suc k) b xs = take b xs # split_blocks k b (drop b xs)"

definition parallel_blocks :: "nat \<Rightarrow> 'a list \<Rightarrow> 'a list list" where
  "parallel_blocks hw xs =
     (if xs = [] then []
      else let k = no_of_threads hw (length xs) in split_blocks (k - 1) (length xs div k) xs)"

fun map_fault :: "('a \<Rightarrow> fault + 'b) \<Rightarrow> 'a list \<Rightarrow> fault + 'b list" where
  "map_fault f [] = Inr []"
| "map_fault f (x # xs) = fbind (f x) (\<lambda>y. map_sum id (Cons y) (map_fault f xs))"

definition parallel_for_each :: "nat \<Rightarrow> ('a \<Rightarrow> fault + 'b) \<Rightarrow> 'a list \<Rightarrow> fault + 'b list" where
  "parallel_for_each hw f xs = map_sum id concat (map_fault (map_fault f) (parallel_blocks hw xs))"

definition call_sum :: "call_data list \<Rightarrow> u64" where
  "call_sum cs = sum_list (map (\<lambda>c. st_calls (all_stats c)) cs)"

definition by_calls :: "call_data list \<Rightarrow> call_data list" where
  "by_calls cs = rev (sort_key (\<lambda>c. st_calls (all_stats c)) (rev cs))"

text \<open>The statistics of an enclave, and its tables sorted by the number of calls; calls with equal numbers
  stay in the order of the table, one of the orders \<open>std::sort\<close> may choose.\<close>

definition enclave_stats :: "nat \<Rightarrow> enclave_data \<Rightarrow> fault + enclave_data" where
  "enclave_stats hw e =
     fbind (parallel_for_each hw ecall_stats (ecalls e)) (\<lambda>es.
       fbind (parallel_for_each hw ocall_stats (ocalls e)) (\<lambda>os.
         Inr (e\<lparr>ecalls := es, ecalls_sorted := by_calls es, ecall_count := call_sum es,
                ocalls := os, ocalls_sorted := by_calls os, ocall_count := call_sum os\<rparr>)))"

definition generate_stats :: "nat \<Rightarrow> analysis \<Rightarrow> fault + analysis" where
  "generate_stats hw a =
     map_sum id (\<lambda>es. a\<lparr>encls := es\<rparr>) (parallel_for_each hw (\<lambda>(k, e). map_sum id (Pair k) (enclave_stats hw e)) (encls a))"

section \<open>Exported data\<close>

record export_config =
  ecall_set :: "u64 set"
  ocall_set :: "u64 set"
  call_data_filename :: string

definition skip_call :: "call_data option \<Rightarrow> u64 set \<Rightarrow> bool" where
  "skip_call cd ids = (case cd of
       None \<Rightarrow> True
     | Some c \<Rightarrow> if ids = {} then st_calls (all_stats c) = 0 else cd_call_id c \<notin> ids)"

definition export_skipped :: "export_config \<Rightarrow> call_data \<Rightarrow> bool" where
  "export_skipped cfg c \<longleftrightarrow> call_data_filename cfg = [] \<or> cd_type c = ECALL \<and> skip_call (Some c) (ecall_set cfg) \<or>
     cd_type c = OCALL \<and> skip_call (Some c) (ocall_set cfg)"

text \<open>\<open>*max_element(begin, begin + n)\<close>: for \<open>n = 0\<close> the first element, which an empty vector does not have.\<close>

definition max_of :: "nat \<Rightarrow> u64 list \<Rightarrow> fault + u64" where
  "max_of n xs = (if xs = [] then Inl OutOfRange else Inr (if n = 0 then hd xs else Max (set (take n xs))))"

definition min_of :: "nat \<Rightarrow> u64 list \<Rightarrow> fault + u64" where
  "min_of n xs = (if xs = [] then Inl OutOfRange else Inr (if n = 0 then hd xs else Min (set (take n xs))))"

definition percentile_size :: "u8 \<Rightarrow> call_data \<Rightarrow> u64" where
  "percentile_size p c = percentile_idx (Fin (rnd_float (of_nat (unat p) / 100))) (of_nat (length (exectimes c)))"

fun hist_loop :: "u64 \<Rightarrow> u64 \<Rightarrow> u64 \<Rightarrow> u64 \<Rightarrow> u64 list \<Rightarrow> u64 list \<Rightarrow> fault + u64 list" where
  "hist_loop mn mx w bins [] bin = Inr bin"
| "hist_loop mn mx w bins (v # vs) bin =
     (if \<not> v \<le> mx then Inl AssertFailed
      else let n = (v - mn) div w
           in if \<not> n < bins + 1 then Inl AssertFailed
              else hist_loop mn mx w bins vs (bin[unat n := bin ! unat n + 1]))"

definition hist_bins :: "u64 \<Rightarrow> u64 \<Rightarrow> u64" where
  "hist_bins mn mx = (let b = (if mx - mn < 100 then mx - mn else 100) in if b = 0 then 1 else b)"

text \<open>The lines of the file: the lower end of a bin and its count.\<close>

definition histogram :: "call_data \<Rightarrow> u8 \<Rightarrow> fault + (u64 \<times> u64) list" where
  "histogram c percentile =
     (let n = unat (percentile_size percentile c)
      in fbind (max_of n (exectimes c)) (\<lambda>mx. fbind (min_of n (exectimes c)) (\<lambda>mn.
           let bins = hist_bins mn mx; w = (mx - mn) div bins + 1
           in map_sum id (\<lambda>bin. map (\<lambda>i. (mn + of_nat i * w, bin ! i)) [0..<unat (bins + 1)])
                (hist_loop mn mx w bins (take n (exectimes c)) (replicate (unat (bins + 1)) 0)))))"

text \<open>\<open>None\<close> when nothing is written; \<open>mkdir_ok\<close> says whether the folder exists afterwards.\<close>

definition export_call_data_histogram :: "export_config \<Rightarrow> bool \<Rightarrow> call_data \<Rightarrow> u8 \<Rightarrow> fault + (u64 \<times> u64) list option" where
  "export_call_data_histogram cfg mkdir_ok c percentile =
     (if export_skipped cfg c then Inr None else if \<not> mkdir_ok then Inr None
      else map_sum id Some (histogram c percentile))"

text \<open>A pointer that is not to a filled element of the array has no value.\<close>

definition deref_call :: "analysis \<Rightarrow> u64 \<times> nat \<Rightarrow> fault + single_call_data" where
  "deref_call a p = (let t = thread_of a (fst p) in if snd p < next_call_index t then Inr (td_calls t ! snd p) else Inl OutOfRange)"

definition export_call_data_scatter :: "export_config \<Rightarrow> bool \<Rightarrow> analysis \<Rightarrow> call_data \<Rightarrow> u8 \<Rightarrow> fault + (u64 \<times> u64) list option" where
  "export_call_data_scatter cfg mkdir_ok a c percentile =
     (if export_skipped cfg c then Inr None else if \<not> mkdir_ok then Inr None
      else let n = unat (percentile_size percentile c)
           in fbind (max_of n (exectimes c)) (\<lambda>mx. fbind (min_of n (exectimes c)) (\<lambda>mn.
                map_sum id (\<lambda>ss. Some (map (\<lambda>s. (sc_end s - starttime (an_general a), sc_exec s))
                    (filter (\<lambda>s. \<not> (mx < sc_exec s \<or> sc_exec s < mn)) ss)))
                  (map_fault (deref_call a) (single_calls c)))))"

section \<open>The split covers the range\<close>

lemma concat_split_blocks: "concat (split_blocks k b xs) = xs"
  by (induction k b xs rule: split_blocks.induct) simp_all

lemma length_split_blocks: "length (split_blocks k b xs) = Suc k"
  by (induction k b xs rule: split_blocks.induct) simp_all

lemma split_blocks_nonempty: "0 < b \<Longrightarrow> k * b < length xs \<Longrightarrow> [] \<notin> set (split_blocks k b xs)"
  by (induction k b xs rule: split_blocks.induct) auto

lemma map_fault_append: "map_fault f (xs @ ys) = fbind (map_fault f xs) (\<lambda>us. map_sum id ((@) us) (map_fault f ys))"
proof (induction xs)
  case Nil
  then show ?case by (cases "map_fault f ys") (simp_all add: fbind_def)
next
  case (Cons x xs)
  then show ?case by (cases "f x"; cases "map_fault f xs"; cases "map_fault f ys") (simp_all add: fbind_def)
qed

lemma map_fault_concat: "map_sum id concat (map_fault (map_fault f) xss) = map_fault f (concat xss)"
proof (induction xss)
  case (Cons xs xss)
  have "map_fault f (concat (xs # xss)) = fbind (map_fault f xs) (\<lambda>us. map_sum id ((@) us) (map_fault f (concat xss)))"
    by (simp add: map_fault_append)
  then show ?case
    unfolding Cons.IH [symmetric] by (cases "map_fault f xs"; cases "map_fault (map_fault f) xss") (simp_all add: fbind_def)
qed simp

text \<open>C29: the ranges that \<open>parallel_for_each\<close> gives to its threads are not empty and together are the whole
  range, in order and without overlap, on at most as many threads as the machine reports (four, when it reports none); so
  running the function on them has the effect of one pass over the range.\<close>

theorem parallel_for_each_once:
  "concat (parallel_blocks hw xs) = xs \<and> [] \<notin> set (parallel_blocks hw xs) \<and>
   length (parallel_blocks hw xs) \<le> (if hw = 0 then 4 else hw) \<and> parallel_for_each hw f xs = map_fault f xs"
proof (cases "xs = []")
  case False
  let ?k = "no_of_threads hw (length xs)"
  have k: "0 < ?k" "?k \<le> length xs" "?k \<le> (if hw = 0 then 4 else hw)" using False by (auto simp: no_of_threads_def)
  have b: "0 < length xs div ?k" using k by (simp add: div_greater_zero_iff)
  have "(?k - 1) * (length xs div ?k) < ?k * (length xs div ?k)" using k(1) b by simp
  also have "\<dots> \<le> length xs" by simp
  finally have "[] \<notin> set (parallel_blocks hw xs)"
    using False split_blocks_nonempty [OF b] by (simp add: parallel_blocks_def Let_def)
  moreover have "concat (parallel_blocks hw xs) = xs" "length (parallel_blocks hw xs) = ?k"
    using False k(1) by (simp_all add: parallel_blocks_def Let_def concat_split_blocks length_split_blocks)
  ultimately show ?thesis using k(3) by (simp add: parallel_for_each_def map_fault_concat)
qed (simp add: parallel_blocks_def parallel_for_each_def)

section \<open>Histograms\<close>

lemma hist_loop_ok:
  assumes "\<forall>v \<in> set vs. v \<le> mx \<and> (v - mn) div w < bins + 1" "length bin = unat (bins + 1)"
  shows "\<exists>bin'. hist_loop mn mx w bins vs bin = Inr bin' \<and> length bin' = length bin \<and>
    (\<forall>k < length bin. bin' ! k = bin ! k + of_nat (length (filter (\<lambda>v. unat ((v - mn) div w) = k) vs)))"
  using assms
proof (induction vs arbitrary: bin)
  case (Cons v vs)
  let ?n = "unat ((v - mn) div w)"
  have n: "?n < length bin" using Cons.prems by (simp add: word_less_nat_alt)
  obtain bin' where "hist_loop mn mx w bins vs (bin[?n := bin ! ?n + 1]) = Inr bin'" "length bin' = length bin"
    "\<forall>k < length bin. bin' ! k = bin[?n := bin ! ?n + 1] ! k + of_nat (length (filter (\<lambda>v. unat ((v - mn) div w) = k) vs))"
    using Cons.IH [of "bin[?n := bin ! ?n + 1]"] Cons.prems by auto
  with Cons.prems n show ?case by (auto simp: nth_list_update Let_def)
qed simp

lemma hist_width:
  assumes le: "mn \<le> (mx :: u64)"
  defines "D \<equiv> unat mx - unat mn"
  shows "unat ((mx - mn) div hist_bins mn mx + 1) = D div unat (hist_bins mn mx) + 1"
    "1 \<le> unat (hist_bins mn mx)" "unat (hist_bins mn mx) \<le> 100"
    "D div (D div unat (hist_bins mn mx) + 1) < unat (hist_bins mn mx)"
proof -
  have d: "unat (mx - mn) = D" using le by (simp add: D_def unat_sub_if_size word_le_nat_alt)
  let ?b = "unat (hist_bins mn mx)"
  have b: "?b = (if D < 100 then if D = 0 then 1 else D else 100)"
    using d by (auto simp: hist_bins_def Let_def word_less_nat_alt unat_eq_0 [symmetric])
  then show b1: "1 \<le> ?b" and "?b \<le> 100" by auto
  have D: "D < 2 ^ 64" using u64_bound [of mx] by (simp add: D_def)
  have "D div ?b + 1 < 2 ^ 64"
  proof (cases "D < 100")
    case False
    then have "D div ?b * 100 \<le> D" using b by simp
    with D show ?thesis by simp
  next
    case True
    have "D div ?b + 1 < 101" using True div_le_dividend [of D ?b] by linarith
    then show ?thesis by (rule less_trans) simp
  qed
  then show "unat ((mx - mn) div hist_bins mn mx + 1) = D div ?b + 1"
    by (simp add: unat_word_ariths unat_div d)
  have "D < ?b * (D div ?b + 1)" using b1 dividend_less_times_div [of ?b D] by simp
  then show "D div (D div ?b + 1) < ?b" by (simp add: div_less_iff_less_mult mult.commute)
qed

lemma percentile_size_less:
  assumes "exectimes c \<noteq> []" "length (exectimes c) < 2 ^ 53"
  shows "unat (percentile_size p c) < length (exectimes c)"
proof -
  have "unat (of_nat (length (exectimes c)) :: u64) = length (exectimes c)" using assms(2) by (intro unat_of_nat_u64) simp
  then show ?thesis
    using percentile_idx_eq [of "of_nat (length (exectimes c))"] assms by (simp add: percentile_size_def min_less_iff_disj)
qed

text \<open>C15: for a call with at least one execution time, the histogram of the first times (as many as the percentile
  index says, all but the last one for one hundred percent) fails no assertion; its bins start at the smallest of these times, are equally wide, and
  the count of a bin is the number of these times that fall into it.\<close>

theorem histogram_counts:
  assumes "exectimes c \<noteq> []" and "length (exectimes c) < 2 ^ 53"
    and "n = unat (percentile_size p c)" and "0 < n"
  shows "\<exists>rows w. histogram c p = Inr rows \<and> 2 \<le> length rows \<and> length rows \<le> 101 \<and>
    w = unat ((Max (set (take n (exectimes c))) - Min (set (take n (exectimes c)))) div
      hist_bins (Min (set (take n (exectimes c)))) (Max (set (take n (exectimes c)))) + 1) \<and>
    (\<forall>v \<in> set (take n (exectimes c)). \<exists>k < length rows. (unat v - unat (Min (set (take n (exectimes c))))) div w = k) \<and>
    (\<forall>k < length rows. fst (rows ! k) = Min (set (take n (exectimes c))) + of_nat (k * w) \<and>
       snd (rows ! k) = of_nat (length (filter (\<lambda>v. (unat v - unat (Min (set (take n (exectimes c))))) div w = k) (take n (exectimes c)))))"
proof -
  let ?ys = "take n (exectimes c)"
  let ?mn = "Min (set ?ys)" and ?mx = "Max (set ?ys)"
  let ?b = "hist_bins ?mn ?mx" let ?w = "(?mx - ?mn) div ?b + 1"
  have ne: "?ys \<noteq> []" using assms(1,4) by simp
  have mm: "?mn \<le> v" "v \<le> ?mx" if "v \<in> set ?ys" for v using that by (simp_all add: Min_le Max_ge)
  have le: "?mn \<le> ?mx" using mm [OF hd_in_set [OF ne]] by (rule order_trans)
  note W = hist_width [OF le]
  have sub: "unat (v - ?mn) = unat v - unat ?mn" if "v \<in> set ?ys" for v
    using mm(1) [OF that] by (simp add: unat_sub_if_size word_le_nat_alt)
  have q: "unat ((v - ?mn) div ?w) = (unat v - unat ?mn) div unat ?w" if "v \<in> set ?ys" for v
    using sub [OF that] by (simp add: unat_div)
  have lt: "(unat v - unat ?mn) div unat ?w < unat ?b" if "v \<in> set ?ys" for v
  proof -
    have "unat v - unat ?mn \<le> unat ?mx - unat ?mn" using mm(2) [OF that] by (simp add: word_le_nat_alt)
    from div_le_mono [OF this, of "unat ?w"] W(1,4) show ?thesis by simp
  qed
  have b1: "unat (?b + 1) = unat ?b + 1" using W(3) by (simp add: unat_word_ariths)
  have ok: "\<forall>v \<in> set ?ys. v \<le> ?mx \<and> (v - ?mn) div ?w < ?b + 1"
    using mm(2) lt by (auto simp: word_less_nat_alt q b1 less_Suc_eq)
  obtain bin where bin: "hist_loop ?mn ?mx ?w ?b ?ys (replicate (unat (?b + 1)) 0) = Inr bin" "length bin = unat (?b + 1)"
    "\<forall>k < unat (?b + 1). bin ! k = of_nat (length (filter (\<lambda>v. unat ((v - ?mn) div ?w) = k) ?ys))"
    using hist_loop_ok [OF ok, of "replicate (unat (?b + 1)) 0"] by auto
  let ?rows = "map (\<lambda>i. (?mn + of_nat i * ?w, bin ! i)) [0..<unat (?b + 1)]"
  have "histogram c p = Inr ?rows"
    using assms(1,3,4) bin(1) by (simp add: histogram_def max_of_def min_of_def fbind_def Let_def)
  moreover have "2 \<le> length ?rows" "length ?rows \<le> 101" using W(2,3) b1 by simp_all
  moreover have "\<forall>v \<in> set ?ys. \<exists>k < length ?rows. (unat v - unat ?mn) div unat ?w = k"
    using lt by (auto simp: b1 less_Suc_eq)
  moreover have "filter (\<lambda>v. unat ((v - ?mn) div ?w) = k) ?ys = filter (\<lambda>v. (unat v - unat ?mn) div unat ?w = k) ?ys" for k
    by (rule filter_cong) (simp_all add: q)
  ultimately show ?thesis
    using bin(3) by (intro exI [of _ ?rows] exI [of _ "unat ?w"]) simp
qed

definition ex_hist :: call_data where
  "ex_hist = (new_call_data ECALL 0 ''a'')\<lparr>exectimes := [3, 5, 250, 400]\<rparr>"

lemma ex_hist_size: "unat (percentile_size 100 ex_hist) = 3"
  by code_simp

theorem histogram_counts_witness:
  "\<exists>rows. histogram ex_hist 100 = Inr rows \<and> snd (rows ! 0) = 2 \<and> snd (rows ! 82) = 1"
proof -
  have "exectimes ex_hist \<noteq> []" "length (exectimes ex_hist) < 2 ^ 53" by (simp_all add: ex_hist_def)
  note H = histogram_counts [OF this ex_hist_size [symmetric]]
  have w: "take 3 (exectimes ex_hist) = [3, 5, 250]" "Max (set [3, 5, 250 :: u64]) = 250" "Min (set [3, 5, 250 :: u64]) = 3"
    "unat ((250 - 3) div hist_bins 3 250 + 1) = 3"
    by (simp add: ex_hist_def, code_simp, code_simp, code_simp)
  from H obtain rows where r: "histogram ex_hist 100 = Inr rows" "2 \<le> length rows"
    "\<forall>v \<in> set [3, 5, 250 :: u64]. \<exists>k < length rows. (unat v - unat (3 :: u64)) div 3 = k"
    "\<forall>k < length rows. snd (rows ! k) = of_nat (length (filter (\<lambda>v. (unat v - unat (3 :: u64)) div 3 = k) [3, 5, 250 :: u64]))"
    unfolding w by auto
  then show ?thesis by (intro exI [of _ rows]) auto
qed

section \<open>The statistics of a call\<close>

lemma unat_sum_list: "sum_list (map unat xs) < 2 ^ 64 \<Longrightarrow> unat (sum_list xs :: u64) = sum_list (map unat xs)"
proof (induction xs)
  case (Cons x xs)
  then show ?case by (simp add: unat_word_ariths)
qed simp

lemma calc_stats_ok:
  assumes "st_calls s \<noteq> 0" "unat (st_calls s) \<le> length ts" "xs = take (unat (st_calls s)) ts" "st_sum s = sum_list xs"
    and "sum_list (map unat xs) < 2 ^ 64"
  shows "\<exists>s'. calc_stats s ts = Inr s' \<and> unat (st_avg s') = sum_list (map unat xs) div length xs \<and>
    st_calls s' = st_calls s \<and> st_sum s' = st_sum s \<and>
    st_std s' = sqrt_u64 (sq_diffs (st_avg s') xs div st_calls s) \<and>
    num_less_1us s' = num_less 1000 xs \<and> num_less_5us s' = num_less 5000 xs \<and> num_less_10us s' = num_less 10000 xs"
  using assms by (simp add: calc_stats_def Let_def unat_div unat_sum_list min_absorb2 not_less)

lemma take_sort_le:
  assumes "sum_list (map unat ts) < 2 ^ 64"
  shows "sum_list (map unat (take n ts)) < 2 ^ 64"
proof -
  have "sum_list (map unat ts) = sum_list (map unat (take n ts)) + sum_list (map unat (drop n ts))"
    by (metis append_take_drop_id map_append sum_list_append)
  with assms show ?thesis by simp
qed

lemma sum_list_mset: "mset xs = mset ys \<Longrightarrow> sum_list (map f xs) = (sum_list (map f ys) :: 'a :: comm_monoid_add)"
  by (metis mset_map sum_mset_sum_list)

text \<open>C14: the statistics of an ecall that was called at least once: its times are sorted, the average is the
  exact one rounded down, the counts below the limits are those of the times, and the figures for the 95th percentile are those of the
  fastest calls, as many as the percentile index says and always fewer than all.\<close>

theorem ecall_stats_correct:
  assumes "exectimes c \<noteq> []" and "length (exectimes c) < 2 ^ 53"
    and "st_sum (all_stats c) = sum_list (exectimes c)" and "sum_list (map unat (exectimes c)) < 2 ^ 64"
  shows "\<exists>c' n. ecall_stats c = Inr c' \<and> exectimes c' = sort (exectimes c) \<and>
    unat (st_calls (all_stats c')) = length (exectimes c) \<and>
    unat (st_avg (all_stats c')) = sum_list (map unat (exectimes c)) div length (exectimes c) \<and>
    num_less_1us (all_stats c') = num_less 1000 (exectimes c) \<and>
    unat (st_calls (stats_95th c')) = n \<and> n = min (nat \<lceil>rnd (rnd (95 / 100) * of_nat (length (exectimes c)))\<rceil>) (length (exectimes c) - 1) \<and>
    st_sum (stats_95th c') = sum_list (take n (sort (exectimes c))) \<and>
    (0 < n \<longrightarrow> unat (st_avg (stats_95th c')) = sum_list (map unat (take n (sort (exectimes c)))) div n \<and>
       num_less_1us (stats_95th c') = num_less 1000 (take n (sort (exectimes c))))"
proof -
  let ?ts = "sort (exectimes c)" let ?n = "length (exectimes c)"
  let ?w = "of_nat ?n :: u64"
  have w: "unat ?w = ?n" using assms(2) by (intro unat_of_nat_u64) simp
  have w0: "?w \<noteq> 0" using w assms(1) by (metis length_0_conv unat_0)
  have s: "sum_list (exectimes c) = sum_list ?ts" "sum_list (map unat (exectimes c)) = sum_list (map unat ?ts)"
    using sum_list_mset [of "exectimes c" ?ts id] sum_list_mset [of "exectimes c" ?ts unat] by simp_all
  let ?s = "(all_stats c)\<lparr>st_calls := ?w\<rparr>"
  obtain a where a: "calc_stats ?s ?ts = Inr a" "unat (st_avg a) = sum_list (map unat ?ts) div ?n" "st_calls a = ?w"
    "num_less_1us a = num_less 1000 ?ts"
    using calc_stats_ok [of ?s ?ts ?ts] w w0 s assms(3,4) by auto
  have nl: "num_less b ?ts = num_less b (exectimes c)" for b
    unfolding num_less_def by (metis mset_filter mset_sort size_mset)
  let ?p = "percentile_idx (lit (95 / 100)) ?w"
  have p: "unat ?p = min (nat \<lceil>rnd (rnd (95 / 100) * of_nat ?n)\<rceil>) (?n - 1)"
    using percentile_idx_eq [of ?w "rnd (95 / 100)"] w assms(1,2) unfolding lit_def by simp
  let ?c1 = "c\<lparr>exectimes := ?ts, all_stats := a, aex_stats := calc_aex_stats (aex_stats c) (aex_counts c)\<rparr>"
  let ?s95 = "(stats_95th c)\<lparr>st_sum := sum_list (take (unat ?p) ?ts), st_calls := ?p\<rparr>"
  have e: "ecall_stats c = map_sum id (\<lambda>s. ?c1\<lparr>stats_95th := s\<rparr>) (calc_stats ?s95 ?ts)"
    using a(1) by (simp add: ecall_stats_def stats_all_def stats_95_def fbind_def Let_def)
  show ?thesis
  proof (cases "?p = 0")
    case True
    then have "calc_stats ?s95 ?ts = Inr ?s95" by (simp add: calc_stats_def)
    then have r: "ecall_stats c = Inr (?c1\<lparr>stats_95th := ?s95\<rparr>)" by (simp add: e)
    have "unat ?p = 0" using True by simp
    then show ?thesis
      using a(2-4) nl [of 1000] s(2) w p True
      by (intro exI [of _ "?c1\<lparr>stats_95th := ?s95\<rparr>"] exI [of _ 0] conjI r) simp_all
  next
    case False
    then have pos: "0 < unat ?p" by (simp add: unat_gt_0)
    have lt: "unat ?p \<le> ?n" using p by simp
    then obtain b where b: "calc_stats ?s95 ?ts = Inr b" "unat (st_avg b) = sum_list (map unat (take (unat ?p) ?ts)) div unat ?p"
      "st_calls b = ?p" "st_sum b = sum_list (take (unat ?p) ?ts)" "num_less_1us b = num_less 1000 (take (unat ?p) ?ts)"
      using calc_stats_ok [of ?s95 ?ts "take (unat ?p) ?ts"] False take_sort_le [of ?ts "unat ?p"] s assms(4)
      by (auto simp: min_absorb2)
    then have r: "ecall_stats c = Inr (?c1\<lparr>stats_95th := b\<rparr>)" by (simp add: e)
    show ?thesis
      using a(2-4) nl [of 1000] s(2) w p b
      by (intro exI [of _ "?c1\<lparr>stats_95th := b\<rparr>"] exI [of _ "unat ?p"] conjI r) simp_all
  qed
qed

lemma rnd_95: "rnd (19 / 20) = 4278419646001971 / 4503599627370496"
proof -
  have "ilog2 (19 / 20) = - 1" by (rule ilog2_unique) (simp_all add: pow2_def)
  moreover have "\<lfloor>42784196460019712 / 5 :: rat\<rfloor> = 8556839292003942" by (simp add: floor_eq_iff)
  ultimately show ?thesis by (simp add: rnd_bits_def Let_def pow2_def round_even_def)
qed

lemma rnd_95_4: "rnd (4278419646001971 / 1125899906842624) = 4278419646001971 / 1125899906842624"
proof -
  have "ilog2 (4278419646001971 / 1125899906842624) = 1" by (rule ilog2_unique) (simp_all add: pow2_def)
  then show ?thesis by (simp add: rnd_bits_def Let_def pow2_def round_even_def)
qed

theorem ecall_stats_correct_witness:
  "\<exists>c'. ecall_stats (ex_hist\<lparr>exectimes := [5, 400, 3, 250], all_stats := zero_stats\<lparr>st_sum := 658\<rparr>\<rparr>) = Inr c' \<and>
     exectimes c' = [3, 5, 250, 400] \<and> unat (st_avg (all_stats c')) = 164 \<and> unat (st_avg (stats_95th c')) = 86"
proof -
  let ?c = "ex_hist\<lparr>exectimes := [5, 400, 3, 250], all_stats := zero_stats\<lparr>st_sum := 658\<rparr>\<rparr>"
  have n: "min (nat \<lceil>rnd (rnd (95 / 100) * of_nat (length (exectimes ?c)))\<rceil>) (length (exectimes ?c) - 1) = 3"
    "sort (exectimes ?c) = [3, 5, 250, 400]"
    by (simp add: rnd_95 rnd_95_4, code_simp) (simp add: sort_key_def)
  show ?thesis using ecall_stats_correct [of ?c] unfolding n by auto
qed

end
