(* ===== verification/CallsReport.thy ===== *)
theory CallsReport
  imports CallsStats
begin

text \<open>
  The report of the call analysis: the hints of \<^verbatim>\<open>src/analyzer/src/calls.cpp\<close>, the lines of \<open>print_call_data\<close> and
  of \<open>analyze_calls\<close>, and the number formats of \<^verbatim>\<open>util.cpp\<close>. A printed line is a value that holds
  what it shows; the colours and rulers around it are left out.
\<close>

section \<open>Numbers\<close>

datatype unit_t = Ns | Us | Ms | Sec

text \<open>The number and the unit, and the nanoseconds when they are shown as well.\<close>

record time_text =
  tt_value :: u64
  tt_unit :: unit_t
  tt_ns :: "u64 option"

definition timeformat :: "u64 \<Rightarrow> bool \<Rightarrow> time_text" where
  "timeformat ns print_ns =
     (let us = ns div 1000; ms = us div 1000; s = ms div 1000;
          (v, u) = (if ns < 1000 then (ns, Ns) else if us < 1000 then (us, Us) else if ms < 1000 then (ms, Ms) else (s, Sec))
      in \<lparr>tt_value = v, tt_unit = u, tt_ns = (if print_ns then Some ns else None)\<rparr>)"

fun unit_ns :: "unit_t \<Rightarrow> nat" where
  "unit_ns Ns = 1" | "unit_ns Us = 1000" | "unit_ns Ms = 1000000" | "unit_ns Sec = 1000000000"

datatype colour = Plain | Red | Yellow | Green

text \<open>A count and its share of the whole in percent, with its colour.\<close>

record count_text =
  ct_count :: u64
  ct_percent :: dbl
  ct_colour :: colour

definition countformat :: "u64 \<Rightarrow> u64 \<Rightarrow> bool \<Rightarrow> count_text" where
  "countformat c m color =
     (if c = 0 then \<lparr>ct_count = 0, ct_percent = Fin 0, ct_colour = Plain\<rparr>
      else let p = d_mul (d_div (d_of_u64 c) (d_of_u64 m)) (lit 100)
           in \<lparr>ct_count = c, ct_percent = p, ct_colour =
                (if \<not> color then Plain else if d_le (lit 75) p then Red else if d_le (lit 30) p then Yellow else Green)\<rparr>)"

section \<open>Hints\<close>

record weights_t =
  w_alpha :: dbl
  w_beta :: dbl
  w_gamma :: dbl
  w_delta :: dbl
  w_epsilon :: dbl
  w_lambda :: dbl

definition ratio :: "u64 \<Rightarrow> u64 \<Rightarrow> dbl" where
  "ratio a b = d_div (d_of_u64 a) (d_of_u64 b)"

definition weigh :: "dbl \<Rightarrow> (u64 \<times> dbl) list \<Rightarrow> u64 \<Rightarrow> dbl" where
  "weigh w0 parts n = foldl (\<lambda>w (k, a). d_add w (d_mul (ratio k n) a)) w0 parts"

text \<open>\<open>calls\<close> is the number of calls of the call the entry is about.\<close>

definition batch_opportunity :: "weights_t \<Rightarrow> parent_call_data \<Rightarrow> u64 \<Rightarrow> bool" where
  "batch_opportunity W pcd calls =
     (if d_le (ratio (pc_count pcd) calls) (w_lambda W) then False
      else d_less (w_epsilon W) (weigh (lit 0) [(pc_1us pcd, w_alpha W), (pc_5us pcd, w_beta W), (pc_10us pcd, w_gamma W),
             (pc_20us pcd, w_delta W)] (pc_count pcd)))"

definition merge_opportunity :: "weights_t \<Rightarrow> parent_call_data \<Rightarrow> call_data \<Rightarrow> bool" where
  "merge_opportunity W pcd c =
     (if d_le (ratio (pc_count pcd) (st_calls (all_stats c))) (w_lambda W) then False
      else d_less (w_epsilon W) (weigh (lit 0) [(pc_1us pcd, w_alpha W), (pc_5us pcd, w_beta W), (pc_10us pcd, w_gamma W),
             (pc_20us pcd, w_delta W)] (pc_count pcd)))"

definition duplication_or_move_opportunity :: "weights_t \<Rightarrow> call_data \<Rightarrow> bool" where
  "duplication_or_move_opportunity W c =
     (let s = stats_95th c
      in d_less (w_alpha W) (ratio (num_less_1us s) (st_calls s)) \<or> d_less (w_beta W) (ratio (num_less_5us s) (st_calls s)) \<or>
         d_less (w_gamma W) (ratio (num_less_10us s) (st_calls s)))"

definition reorder_start_opportunity :: "weights_t \<Rightarrow> parent_call_data \<Rightarrow> bool" where
  "reorder_start_opportunity W pcd =
     d_less (w_gamma W) (weigh (lit 0) [(pc_10us_from_start pcd, w_alpha W), (pc_20us_from_start pcd, w_beta W)] (pc_count pcd))"

definition reorder_end_opportunity :: "weights_t \<Rightarrow> parent_call_data \<Rightarrow> bool" where
  "reorder_end_opportunity W pcd =
     d_less (w_gamma W) (weigh (lit 0) [(pc_10us_from_end pcd, w_alpha W), (pc_20us_from_end pcd, w_beta W)] (pc_count pcd))"

section \<open>The report of a call\<close>

datatype line =
    Title u64 string
  | Calls count_text
  | Overall time_text
  | Average time_text time_text
  | Longest time_text
  | CalledDirectly count_text
  | CalledFromOcall count_text
  | CanBePrivate
  | Less1us count_text
  | Less5us count_text
  | Less10us count_text
  | DuplicateOrMove
  | Percentile nat time_text
  | DirectSuccessor
  | Predecessor u64 string count_text
  | FromStart10 count_text
  | FromStart20 count_text
  | ReorderBefore u64 u64
  | FromEnd10 count_text
  | FromEnd20 count_text
  | ReorderAfter u64 u64
  | AexDuring u64
  | AexAverage u64 u64
  | AexHighest u64
  | AexLowest u64
  | IndirectSuccessor
  | Less20us count_text
  | Batching
  | Merging

record report_config =
  duplication_weights :: weights_t
  reordering_weights :: weights_t
  merging_weights :: weights_t
  batching_weights :: weights_t

definition show_if :: "bool \<Rightarrow> 'a list \<Rightarrow> 'a list" where
  "show_if b xs = (if b then xs else [])"

text \<open>The call an entry is about, looked up in the enclave.\<close>

definition entry_call :: "enclave_data \<Rightarrow> call_type_t \<times> nat \<Rightarrow> call_data" where
  "entry_call e p = calls_of (fst p) e ! snd p"

definition direct_lines :: "report_config \<Rightarrow> enclave_data \<Rightarrow> call_data \<Rightarrow> parent_call_data \<Rightarrow> line list" where
  "direct_lines cfg e c pc =
     (case pc_call pc of
        None \<Rightarrow> []
      | Some p \<Rightarrow>
          (let q = entry_call e p
           in [Predecessor (cd_call_id q) (cd_name q) (countformat (pc_count pc) (st_calls (all_stats c)) False),
               FromStart10 (countformat (pc_10us_from_start pc) (pc_count pc) False),
               FromStart20 (countformat (pc_20us_from_start pc) (pc_count pc) False)] @
              show_if (reorder_start_opportunity (reordering_weights cfg) pc) [ReorderBefore (cd_call_id c) (cd_call_id q)] @
              [FromEnd10 (countformat (pc_10us_from_end pc) (pc_count pc) False),
               FromEnd20 (countformat (pc_20us_from_end pc) (pc_count pc) False)] @
              show_if (reorder_end_opportunity (reordering_weights cfg) pc) [ReorderAfter (cd_call_id c) (cd_call_id q)]))"

text \<open>\<open>self\<close> is the call the report is about, as an entry names it.\<close>

definition indirect_lines :: "report_config \<Rightarrow> enclave_data \<Rightarrow> call_type_t \<times> nat \<Rightarrow> call_data \<Rightarrow> parent_call_data \<Rightarrow> line list" where
  "indirect_lines cfg e self c pc =
     (case pc_call pc of
        None \<Rightarrow> []
      | Some p \<Rightarrow>
          (let q = entry_call e p
           in [Predecessor (cd_call_id q) (cd_name q) (countformat (pc_count pc) (st_calls (all_stats c)) False),
               Less1us (countformat (pc_1us pc) (pc_count pc) False), Less5us (countformat (pc_5us pc) (pc_count pc) False),
               Less10us (countformat (pc_10us pc) (pc_count pc) False), Less20us (countformat (pc_20us pc) (pc_count pc) False)] @
              (if p = self then show_if (batch_opportunity (batching_weights cfg) pc (st_calls (all_stats q))) [Batching]
               else show_if (merge_opportunity (merging_weights cfg) pc c) [Merging])))"

text \<open>\<open>exectimes->at\<close> throws outside the vector.\<close>

definition at_time :: "call_data \<Rightarrow> u64 \<Rightarrow> fault + u64" where
  "at_time c i = (if unat i < length (exectimes c) then Inr (exectimes c ! unat i) else Inl StdException)"

definition percentile_time :: "call_data \<Rightarrow> rat \<Rightarrow> fault + u64" where
  "percentile_time c p = at_time c (percentile_idx (lit p) (of_nat (length (exectimes c))))"

definition print_call_data :: "report_config \<Rightarrow> enclave_data \<Rightarrow> call_type_t \<times> nat \<Rightarrow> call_data \<Rightarrow> u64 \<Rightarrow> fault + line list" where
  "print_call_data cfg e self c print_min =
     (let s = all_stats c; s95 = stats_95th c; oc = (cd_type c = OCALL); ec = (cd_type c = ECALL)
      in if st_calls s < print_min then Inr []
         else let head = [Title (cd_call_id c) (cd_name c)] @ show_if ec [Calls (countformat (st_calls s) (ecall_count e) False)] @
                show_if oc [Calls (countformat (st_calls s) (ocall_count e) False)]
              in if st_calls s = 0 then Inr head
                 else fbind (at_time c (of_nat (length (exectimes c)) - 1)) (\<lambda>longest.
                   fbind (percentile_time c (50 / 100)) (\<lambda>t50. fbind (percentile_time c (75 / 100)) (\<lambda>t75.
                     fbind (percentile_time c (95 / 100)) (\<lambda>t95. Inr (head @
                       [Overall (timeformat (st_sum s) True), Average (timeformat (st_avg s) True) (timeformat (st_std s) True),
                        Longest (timeformat longest True)] @
                       show_if ec ([CalledDirectly (countformat (st_calls s - num_ecall_called_from_ocalls c) (st_calls s) False),
                         CalledFromOcall (countformat (num_ecall_called_from_ocalls c) (st_calls s) False)] @
                         show_if (num_ecall_called_from_ocalls c = st_calls s) [CanBePrivate]) @
                       show_if oc [Less1us (countformat (num_less_1us s) (st_calls s) True)] @
                       [Less5us (countformat (num_less_5us s) (st_calls s) True), Less10us (countformat (num_less_10us s) (st_calls s) True)] @
                       show_if (oc \<and> duplication_or_move_opportunity (duplication_weights cfg) c) [DuplicateOrMove] @
                       [Percentile 50 (timeformat t50 False), Percentile 75 (timeformat t75 False), Percentile 95 (timeformat t95 False),
                        Average (timeformat (st_avg s95) True) (timeformat (st_std s95) True)] @
                       show_if oc [Less1us (countformat (num_less_1us s95) (st_calls s95) True)] @
                       [Less5us (countformat (num_less_5us s95) (st_calls s95) True), Less10us (countformat (num_less_10us s95) (st_calls s95) True)] @
                       show_if (oc \<or> 0 < num_ecall_called_from_ocalls c)
                         (DirectSuccessor # concat (map (direct_lines cfg e c) (direct_parents_data c))) @
                       show_if (ec \<and> aex_counts c \<noteq> [])
                         [AexDuring (st_sum (aex_stats c)), AexAverage (st_avg (aex_stats c)) (st_std (aex_stats c)),
                          AexHighest (st_max (aex_stats c)), AexLowest (st_min (aex_stats c))] @
                       show_if (has_indirect_parents c)
                         (IndirectSuccessor # concat (map (indirect_lines cfg e self c) (indirect_parents_data c)))))))))"

section \<open>The whole analysis\<close>

text \<open>The general statistics of an enclave. The number shown for the ocalls that were called is counted over the
  ecalls, as in the code.\<close>

record enclave_summary =
  es_ecalls :: nat
  es_ocalls :: nat
  es_ecalls_called :: nat
  es_ecall_count :: u64
  es_ocalls_called :: nat
  es_ocall_count :: u64
  es_active :: time_text
  es_first :: time_text
  es_last :: time_text

definition enclave_general :: "general_data \<Rightarrow> enclave_data \<Rightarrow> enclave_summary" where
  "enclave_general g e =
     \<lparr>es_ecalls = length (ecalls e), es_ocalls = length (ocalls e),
      es_ecalls_called = length (filter (\<lambda>c. 0 < st_calls (all_stats c)) (ecalls_sorted e)), es_ecall_count = ecall_count e,
      es_ocalls_called = length (filter (\<lambda>c. 0 < st_calls (all_stats c)) (ecalls_sorted e)), es_ocall_count = ocall_count e,
      es_active = timeformat (last_ecall_end e - first_ecall_start e) True,
      es_first = timeformat (first_ecall_start e - starttime g) True,
      es_last = timeformat (last_ecall_end e - starttime g) True\<rparr>"

record call_output =
  co_lines :: "line list"
  co_histograms :: "(u64 \<times> u64) list option list"
  co_scatters :: "(u64 \<times> u64) list option list"

definition call_output_of :: "report_config \<Rightarrow> export_config \<Rightarrow> bool \<Rightarrow> analysis \<Rightarrow> enclave_data \<Rightarrow> u64 \<Rightarrow> call_data \<Rightarrow> fault + call_output" where
  "call_output_of cfg xcfg mkdir_ok a e print_min c =
     fbind (print_call_data cfg e (cd_type c, unat (cd_call_id c)) c print_min) (\<lambda>ls.
       fbind (map_fault (export_call_data_histogram xcfg mkdir_ok c) [100, 99, 95]) (\<lambda>hs.
         fbind (map_fault (export_call_data_scatter xcfg mkdir_ok a c) [100, 99, 95]) (\<lambda>ss.
           Inr \<lparr>co_lines = ls, co_histograms = hs, co_scatters = ss\<rparr>)))"

text \<open>The totals above a section and the output of its calls.\<close>

definition ecall_section ::
  "report_config \<Rightarrow> export_config \<Rightarrow> bool \<Rightarrow> u64 \<Rightarrow> analysis \<Rightarrow> enclave_data \<Rightarrow> fault + (count_text list \<times> call_output list)" where
  "ecall_section cfg xcfg mkdir_ok print_min a e =
     (let less5 = sum_list (map (\<lambda>c. num_less_5us (all_stats c)) (ecalls_sorted e));
          less10 = sum_list (map (\<lambda>c. num_less_10us (all_stats c)) (ecalls_sorted e))
      in map_sum id (Pair [countformat less5 (ecall_count e) True, countformat less10 (ecall_count e) True])
           (map_fault (call_output_of cfg xcfg mkdir_ok a e print_min) (ecalls_sorted e)))"

definition ocall_section ::
  "report_config \<Rightarrow> export_config \<Rightarrow> bool \<Rightarrow> u64 \<Rightarrow> analysis \<Rightarrow> enclave_data \<Rightarrow> fault + (count_text list \<times> call_output list)" where
  "ocall_section cfg xcfg mkdir_ok print_min a e =
     (let less1 = sum_list (map (\<lambda>c. num_less_1us (all_stats c)) (ocalls_sorted e));
          less5 = sum_list (map (\<lambda>c. num_less_5us (all_stats c)) (ocalls_sorted e));
          less10 = sum_list (map (\<lambda>c. num_less_10us (all_stats c)) (ocalls_sorted e))
      in map_sum id (Pair [countformat less1 (ocall_count e) True, countformat less5 (ocall_count e) True, countformat less10 (ocall_count e) True])
           (map_fault (call_output_of cfg xcfg mkdir_ok a e print_min) (ocalls_sorted e)))"

record analysis_report =
  ar_runtime :: time_text
  ar_general :: "(u64 \<times> enclave_summary) list"
  ar_ecalls :: "(count_text list \<times> call_output list) list"
  ar_ocalls :: "(count_text list \<times> call_output list) list"

definition report_calls ::
  "report_config \<Rightarrow> export_config \<Rightarrow> bool \<Rightarrow> u64 \<Rightarrow> u64 \<Rightarrow> analysis \<Rightarrow> fault + analysis_report" where
  "report_calls cfg xcfg mkdir_ok ecall_min ocall_min a =
     fbind (map_fault (ecall_section cfg xcfg mkdir_ok ecall_min a) (map snd (encls a))) (\<lambda>es.
       fbind (map_fault (ocall_section cfg xcfg mkdir_ok ocall_min a) (map snd (encls a))) (\<lambda>os.
         Inr \<lparr>ar_runtime = timeformat (endtime (an_general a) - starttime (an_general a)) True,
              ar_general = map (\<lambda>(k, e). (k, enclave_general (an_general a) e)) (encls a), ar_ecalls = es, ar_ocalls = os\<rparr>))"

definition analyze_calls ::
  "nat \<Rightarrow> report_config \<Rightarrow> export_config \<Rightarrow> bool \<Rightarrow> u64 \<Rightarrow> u64 \<Rightarrow> (string \<times> u64) list \<Rightarrow> (u64 \<times> u64 \<times> string option) list \<Rightarrow>
     (u64 \<times> u64 \<times> string option) list \<Rightarrow> (u64 \<times> u64 \<times> u64) list \<Rightarrow> call_row list \<Rightarrow> fault + analysis \<times> analysis_report" where
  "analyze_calls hw cfg xcfg mkdir_ok ecall_min ocall_min gs es os ts rows =
     fbind (load_tables gs es os ts) (\<lambda>a0. fbind (load_calls rows a0) (\<lambda>a1. fbind (generate_stats hw a1) (\<lambda>a.
       map_sum id (Pair a) (report_calls cfg xcfg mkdir_ok ecall_min ocall_min a))))"

section \<open>Properties\<close>

text \<open>The number \<open>timeformat\<close> shows is the duration in the shown unit rounded down, and below one thousand
  in every unit but seconds.\<close>

lemma timeformat_bounds:
  "unat (tt_value (timeformat ns b)) * unit_ns (tt_unit (timeformat ns b)) \<le> unat ns \<and>
   unat ns < (unat (tt_value (timeformat ns b)) + 1) * unit_ns (tt_unit (timeformat ns b)) \<and>
   (tt_unit (timeformat ns b) = Sec \<or> unat (tt_value (timeformat ns b)) < 1000)"
proof -
  have d: "unat (ns div 1000) = unat ns div 1000" "unat (ns div 1000 div 1000) = unat ns div 1000000"
    "unat (ns div 1000 div 1000 div 1000) = unat ns div 1000000000"
    by (simp_all add: unat_div div_mult2_eq [symmetric])
  show ?thesis
    by (auto simp: timeformat_def Let_def d word_less_nat_alt)
qed

lemma calc_stats_total: "unat (st_calls s) \<le> length ts \<Longrightarrow> \<exists>s'. calc_stats s ts = Inr s' \<and> st_calls s' = st_calls s"
  by (simp add: calc_stats_def Let_def not_less)

lemma ecall_stats_total:
  assumes "length (exectimes c) < 2 ^ 53"
  shows "\<exists>c'. ecall_stats c = Inr c' \<and> cd_type c' = cd_type c \<and> exectimes c' = sort (exectimes c) \<and>
    st_calls (all_stats c') = of_nat (length (exectimes c)) \<and> num_ecall_called_from_ocalls c' = num_ecall_called_from_ocalls c"
proof -
  let ?ts = "sort (exectimes c)" let ?w = "of_nat (length (exectimes c)) :: u64"
  have w: "unat ?w = length (exectimes c)" using assms by (intro unat_of_nat_u64) simp
  have p: "unat (percentile_idx (lit (95 / 100)) ?w) \<le> length ?ts"
  proof (cases "exectimes c = []")
    case False
    then show ?thesis using percentile_idx_eq [of ?w "rnd (95 / 100)"] w assms unfolding lit_def by simp
  qed (simp add: lit_def)
  let ?s = "(all_stats c)\<lparr>st_calls := ?w\<rparr>"
  let ?s95 = "(stats_95th c)\<lparr>st_sum := sum_list (take (unat (percentile_idx (lit (95 / 100)) ?w)) ?ts), st_calls := percentile_idx (lit (95 / 100)) ?w\<rparr>"
  obtain s where s: "calc_stats ?s ?ts = Inr s" "st_calls s = ?w" using calc_stats_total [of ?s ?ts] w by auto
  obtain s' where s': "calc_stats ?s95 ?ts = Inr s'" using calc_stats_total [of ?s95 ?ts] p by auto
  show ?thesis
    using s s' by (simp add: ecall_stats_def stats_all_def stats_95_def fbind_def Let_def)
qed

lemma percentile_time_total:
  assumes "exectimes c \<noteq> []" "length (exectimes c) < 2 ^ 53"
  shows "\<exists>t. percentile_time c p = Inr t"
proof -
  have w: "unat (of_nat (length (exectimes c)) :: u64) = length (exectimes c)" using assms(2) by (intro unat_of_nat_u64) simp
  have "unat (percentile_idx (lit p) (of_nat (length (exectimes c)))) < length (exectimes c)"
    using percentile_idx_eq [of "of_nat (length (exectimes c))" "rnd p"] w assms
    unfolding lit_def by (cases "exectimes c") simp_all
  then show ?thesis by (simp add: percentile_time_def at_time_def)
qed

lemma print_call_data_total:
  assumes "exectimes c \<noteq> []" "length (exectimes c) < 2 ^ 53" "st_calls (all_stats c) = of_nat (length (exectimes c))" "cd_type c = ECALL"
  shows "\<exists>ls. print_call_data cfg e self c 0 = Inr ls \<and>
    (CanBePrivate \<in> set ls \<longleftrightarrow> num_ecall_called_from_ocalls c = st_calls (all_stats c))"
proof -
  have w: "unat (of_nat (length (exectimes c)) :: u64) = length (exectimes c)" using assms(2) by (intro unat_of_nat_u64) simp
  have w0: "(of_nat (length (exectimes c)) :: u64) \<noteq> 0" using w assms(1) by (metis length_0_conv unat_0)
  have l: "at_time c (of_nat (length (exectimes c)) - 1) = Inr (exectimes c ! (length (exectimes c) - 1))"
    using unat_pred [of "of_nat (length (exectimes c))"] w assms(1) by (simp add: at_time_def)
  obtain t50 t75 t95 where t: "percentile_time c (50 / 100) = Inr t50" "percentile_time c (75 / 100) = Inr t75"
    "percentile_time c (95 / 100) = Inr t95"
    using percentile_time_total [OF assms(1,2)] by metis
  have d: "CanBePrivate \<notin> set (direct_lines cfg e c pc)" "CanBePrivate \<notin> set (indirect_lines cfg e self c pc)" for pc
    by (auto simp: direct_lines_def indirect_lines_def show_if_def Let_def split: option.splits)
  show ?thesis
    unfolding print_call_data_def Let_def fbind_def l t
    using w0 assms(3,4) d by (auto simp: show_if_def)
qed

lemma length_filter_eq: "length (filter (\<lambda>r. P r \<and> Q r) xs) = length (filter P xs) \<longleftrightarrow> (\<forall>r \<in> set xs. P r \<longrightarrow> Q r)"
proof (induction xs)
  case (Cons x xs)
  have "length (filter (\<lambda>r. P r \<and> Q r) xs) \<le> length (filter P xs)" by (induction xs) auto
  with Cons show ?case by auto
qed simp

text \<open>C13: for an ecall with rows, loading, statistics and report end without a fault, and the report suggests to make
  the ecall private exactly when every one of its rows was made in another call, that is, none came from outside.\<close>

theorem private_hint_exact:
  assumes "load_tables gs es os ts = Inr a0" and "good_rows a0 rows" and "i < length (ecalls (encl_of a0 eid))"
    and "filter (of_call eid ECALL i) rows \<noteq> []" and "length rows < 2 ^ 53"
  shows "\<exists>a c ls. load_calls rows a0 = Inr a \<and> ecall_stats (call_of a eid ECALL i) = Inr c \<and>
    print_call_data cfg e self c 0 = Inr ls \<and>
    (CanBePrivate \<in> set ls \<longleftrightarrow> (\<forall>r \<in> set rows. of_call eid ECALL i r \<longrightarrow> cr_parent r \<noteq> None))"
proof -
  note I = load_tables_inv [OF assms(1)]
  obtain a where a: "load_calls rows a0 = Inr a" "load_inv rows a0 a" using load_calls_inv [OF I assms(2)] by blast
  let ?c = "call_of a eid ECALL i" let ?rs = "filter (of_call eid ECALL i) rows"
  have c: "cd_type ?c = ECALL" "exectimes ?c = map cr_exectime ?rs" "num_ecall_called_from_ocalls ?c = from_ocalls eid ECALL i rows"
    using load_inv_call [OF a(2), of ECALL i eid] assms(3) by (simp_all add: calls_of_def cd_ok_def)
  have len: "length ?rs < 2 ^ 53" using assms(5) by (rule le_less_trans [OF length_filter_le])
  obtain c' where c': "ecall_stats ?c = Inr c'" "cd_type c' = ECALL" "exectimes c' = sort (map cr_exectime ?rs)"
    "st_calls (all_stats c') = of_nat (length ?rs)" "num_ecall_called_from_ocalls c' = from_ocalls eid ECALL i rows"
    using ecall_stats_total [of ?c] c len by auto
  have "exectimes c' \<noteq> []" using c'(3) assms(4) by (metis length_0_conv length_map length_sort)
  then obtain ls where ls: "print_call_data cfg e self c' 0 = Inr ls"
    "CanBePrivate \<in> set ls \<longleftrightarrow> num_ecall_called_from_ocalls c' = st_calls (all_stats c')"
    using print_call_data_total [of c'] c' len by (metis length_map length_sort)
  let ?k = "length (filter (\<lambda>r. of_call eid ECALL i r \<and> cr_parent r \<noteq> None) rows)"
  have k: "?k < 2 ^ 53" using assms(5) by (rule le_less_trans [OF length_filter_le])
  have "(of_nat ?k :: u64) = of_nat (length ?rs) \<longleftrightarrow> ?k = length ?rs"
    by (rule of_nat_u64_eq [OF k len])
  then have "CanBePrivate \<in> set ls \<longleftrightarrow> (\<forall>r \<in> set rows. of_call eid ECALL i r \<longrightarrow> cr_parent r \<noteq> None)"
    using ls(2) c'(4,5) from_ocalls_eq [OF I assms(2), of eid i] length_filter_eq [of "of_call eid ECALL i" "\<lambda>r. cr_parent r \<noteq> None" rows]
    by simp
  with a(1) c'(1) ls(1) show ?thesis by blast
qed

theorem private_hint_exact_witness:
  "\<forall>cfg e self. \<exists>a c ls. load_calls ex_rows ex_tables = Inr a \<and> ecall_stats (call_of a 2 ECALL 1) = Inr c \<and>
     print_call_data cfg e self c 0 = Inr ls \<and> CanBePrivate \<in> set ls"
proof (intro allI)
  fix cfg e self
  have "filter (of_call 2 ECALL 1) ex_rows \<noteq> []" "length ex_rows < 2 ^ 53" "\<forall>r \<in> set ex_rows. of_call 2 ECALL 1 r \<longrightarrow> cr_parent r \<noteq> None"
    by (simp_all add: ex_rows_def ex_row_def of_call_def row_type_def)
  moreover have "1 < length (ecalls (encl_of ex_tables 2))" using ex_tables_loaded(3) by (simp add: calls_of_def)
  ultimately show "\<exists>a c ls. load_calls ex_rows ex_tables = Inr a \<and> ecall_stats (call_of a 2 ECALL 1) = Inr c \<and>
     print_call_data cfg e self c 0 = Inr ls \<and> CanBePrivate \<in> set ls"
    using private_hint_exact [OF ex_tables_loaded(1,2), of 1 2 cfg e self] by blast
qed

text \<open>the pointer that is kept for a call, and that the scatter export reads, is not to the element of the call but to the
  one after it, which is filled by the next call of the thread if there is one.\<close>

lemma single_call_pointer_past:
  assumes "relate_call ty r t c = Inr (c', t')"
  shows "single_calls c' = single_calls c @ [(cr_thread r, Suc (length (td_calls t)))] \<and>
    length (td_calls t') = Suc (length (td_calls t)) \<and> event_id (td_calls t' ! length (td_calls t)) = cr_id r"
proof -
  have "single_calls c1 = single_calls c" if "note_direct ty r cs p c = Inr c1" for cs p c1
    using that by (auto simp: note_direct_def at_upd_def Let_def split: option.splits if_splits)
  moreover have "single_calls c2 = single_calls c1" if "note_indirect ty r cs p c1 = Inr c2" for cs p c1 c2
    using that by (auto simp: note_indirect_def at_upd_def Let_def split: option.splits if_splits)
  ultimately show ?thesis
    using assms by (auto simp: relate_call_def fbind_def scd_of_def split: sum.splits if_splits)
qed

definition ex_thread :: thread_data where
  "ex_thread = \<lparr>td_id = 0, td_pthread_id = 7, td_capacity = 5, td_calls = []\<rparr>"

lemma single_call_pointer_past_witness:
  "\<exists>c' t'. relate_call ECALL (ex_row 1 15 0 0 2 None 100 200) ex_thread (new_call_data ECALL 0 ''a'') = Inr (c', t') \<and>
     single_calls c' = [(0, 1)] \<and> length (td_calls t') = 1 \<and> event_id (td_calls t' ! 0) = 1"
proof -
  obtain c' t' where r: "relate_call ECALL (ex_row 1 15 0 0 2 None 100 200) ex_thread (new_call_data ECALL 0 ''a'') = Inr (c', t')"
    by (simp add: relate_call_def direct_parent_def indirect_parent_def note_direct_def note_indirect_def fbind_def ex_thread_def ex_row_def)
  from single_call_pointer_past [OF r] r show ?thesis
    by (simp add: ex_thread_def ex_row_def new_call_data_def)
qed

end
