(* ===== verification/Security.thy ===== *)
theory Security
  imports CallsReport
begin

text \<open>
  The hints on the ocall interface, \<^verbatim>\<open>src/analyzer/src/security.cpp\<close>: the interface each ocall needs, or what the EDL file allows beyond
  it. Positions in strings are numbers, \<open>None\<close> is \<open>npos\<close>.
\<close>

section \<open>Strings\<close>

text \<open>\<open>s.find(n)\<close>, \<open>s.find(n, pos)\<close>, \<open>s.substr(pos, len)\<close> with \<open>None\<close> for all that is left, and \<open>s[i]\<close>, where \<open>s[s.length()]\<close> is the null character.\<close>

fun str_find :: "string \<Rightarrow> string \<Rightarrow> nat option" where
  "str_find n [] = (if n = [] then Some 0 else None)"
| "str_find n (c # cs) = (if prefix n (c # cs) then Some 0 else map_option Suc (str_find n cs))"

definition find_at :: "string \<Rightarrow> string \<Rightarrow> nat \<Rightarrow> nat option" where
  "find_at n s pos = (if length s < pos then None else map_option ((+) pos) (str_find n (drop pos s)))"

definition substr :: "string \<Rightarrow> nat \<Rightarrow> nat option \<Rightarrow> fault + string" where
  "substr s pos len =
     (if length s < pos then Inl StdException
      else Inr (case len of None \<Rightarrow> drop pos s | Some n \<Rightarrow> take n (drop pos s)))"

definition char_at :: "string \<Rightarrow> nat \<Rightarrow> char" where
  "char_at s i = (if i < length s then s ! i else CHR 0x00)"

definition isspace :: "char \<Rightarrow> bool" where
  "isspace c \<longleftrightarrow> c \<in> {CHR '' '', CHR 0x09, CHR 0x0A, CHR 0x0B, CHR 0x0C, CHR 0x0D}"

definition ltrim :: "string \<Rightarrow> string" where
  "ltrim s = dropWhile isspace s"

definition rtrim :: "string \<Rightarrow> string" where
  "rtrim s = rev (dropWhile isspace (rev s))"

text \<open>The state is whether the line before ended inside a block comment.\<close>

definition remove_comments :: "bool \<Rightarrow> string \<Rightarrow> bool \<times> string" where
  "remove_comments in_block s =
     (let (b, t) =
        (if in_block then (True, s)
         else let u = (case str_find ''//'' s of None \<Rightarrow> s | Some i \<Rightarrow> take i s)
              in case str_find ''/*'' u of None \<Rightarrow> (False, u) | Some i \<Rightarrow> (True, take i u))
      in if b then (case str_find ''*/'' t of Some i \<Rightarrow> (False, drop (i + 2) t) | None \<Rightarrow> (True, []))
         else (False, t))"

section \<open>The EDL file\<close>

text \<open>The names after \<open>allow\<close>. \<open>end\<close> is where the last comma was, 0 at first; a comma at position 0 would be found again and
  again.\<close>

fun allowed_loop :: "nat \<Rightarrow> string \<Rightarrow> nat \<Rightarrow> nat \<Rightarrow> fault + string set" where
  "allowed_loop 0 line start end' = Inl Diverge"
| "allowed_loop (Suc n) line start end' =
     (let start = (if end' \<noteq> 0 then end' + 1 else start)
      in case find_at '','' line start of
           Some e \<Rightarrow> fbind (substr line start (Some (e - start))) (\<lambda>sym.
             map_sum id (insert sym) (allowed_loop n line start e))
         | None \<Rightarrow> fbind (substr line start (map_option (\<lambda>e. e - start) (find_at '')'' line start))) (\<lambda>sym. Inr {sym}))"

definition allowed_of :: "string \<Rightarrow> fault + string \<times> string set" where
  "allowed_of line =
     (case str_find ''allow'' line of
        None \<Rightarrow> Inr (line, {})
      | Some allow \<Rightarrow>
          (let start = (case find_at ''('' line allow of None \<Rightarrow> 0 | Some p \<Rightarrow> p + 1)
           in fbind (allowed_loop (length line + 2) line start 0) (\<lambda>allowed.
                Inr (if allow = 0 then line else take (allow - 1) line, allowed))))"

text \<open>Back from the closing parenthesis of the arguments to the opening one, and then to the space before the name.\<close>

fun name_start :: "string \<Rightarrow> nat \<Rightarrow> nat" where
  "name_start line 0 = 0"
| "name_start line (Suc i) = (if char_at line (Suc i) = CHR '' '' then i else name_start line i)"

fun backtrack :: "string \<Rightarrow> nat \<Rightarrow> nat \<Rightarrow> nat \<Rightarrow> nat \<times> nat" where
  "backtrack line 0 op cp = (0, 0)"
| "backtrack line (Suc i) op cp =
     (let c = char_at line (Suc i); cp' = (if c = CHR '')'' then cp + 1 else cp); op' = (if c = CHR ''('' then op + 1 else op)
      in if 0 < op' \<and> op' = cp' then (name_start line (Suc i) + 2, Suc i) else backtrack line i op' cp')"

definition ocall_name :: "string \<Rightarrow> fault + string" where
  "ocall_name line =
     (let (start, end') = backtrack line (length line) 0 0
      in substr line start (if start \<le> end' then Some (end' - start) else None))"

definition ocall_decl :: "string \<Rightarrow> fault + string \<times> string set" where
  "ocall_decl line = fbind (allowed_of line) (\<lambda>(rest, allowed). fbind (ocall_name rest) (\<lambda>sym. Inr (sym, allowed)))"

record edl_state =
  in_block_comment :: bool
  in_untrusted :: bool
  edl_ocalls :: "string \<rightharpoonup> string set"

definition edl_line :: "string \<Rightarrow> edl_state \<Rightarrow> fault + edl_state" where
  "edl_line l s =
     (let (b, line) = remove_comments (in_block_comment s) (rtrim (ltrim l)); s = s\<lparr>in_block_comment := b\<rparr>
      in if \<not> in_untrusted s
         then Inr (if str_find ''untrusted'' line \<noteq> None then s\<lparr>in_untrusted := True\<rparr> else s)
         else if line = [] then Inr s
         else fbind (ocall_decl line) (\<lambda>(sym, allowed).
           Inr (s\<lparr>in_untrusted := line \<noteq> ''};'', edl_ocalls := (edl_ocalls s)(sym \<mapsto> allowed)\<rparr>)))"

definition read_edl :: "string list \<Rightarrow> fault + edl_state" where
  "read_edl ls = fold_fault edl_line ls \<lparr>in_block_comment = False, in_untrusted = False, edl_ocalls = Map.empty\<rparr>"

section \<open>Hints\<close>

definition pcd_at :: "u64 \<Rightarrow> parent_call_data list \<Rightarrow> fault + parent_call_data" where
  "pcd_at i ps = (if unat i < length ps then Inr (ps ! unat i) else Inl StdException)"

text \<open>The names of the ecalls that were made in an ocall.\<close>

definition callers_of :: "enclave_data \<Rightarrow> call_data \<Rightarrow> fault + string list" where
  "callers_of e ocd =
     map_sum id concat (map_fault (\<lambda>ecd. map_sum id (\<lambda>od. if pc_count od = 0 then [] else [cd_name ecd])
       (pcd_at (cd_call_id ocd) (direct_parents_data ecd))) (ecalls e))"

definition interface_text :: "string \<Rightarrow> string list \<Rightarrow> string" where
  "interface_text name names =
     name @ (case names of [] \<Rightarrow> [] | n # ns \<Rightarrow> '' allow ('' @ n @ concat (map (\<lambda>m. '', '' @ m) ns) @ '')'') @ '';''"

datatype hint = NoEDL | NoFile | Reading | Interface string | CanBeNarrowed string "string set"

definition interface_hint :: "enclave_data \<Rightarrow> call_data \<Rightarrow> fault + hint list" where
  "interface_hint e ocd = fbind (callers_of e ocd) (\<lambda>names.
     let s = interface_text (cd_name ocd) names
     in if length s < 2 then Inl OutOfRange
        else Inr (if s ! (length s - 2) = CHR '')'' then [Interface s] else []))"

definition narrow_hint :: "(string \<rightharpoonup> string set) \<Rightarrow> enclave_data \<Rightarrow> call_data \<Rightarrow> fault + hint list" where
  "narrow_hint decls e ocd = fbind (callers_of e ocd) (\<lambda>edlallowed.
     let narallowed = (case decls (cd_name ocd) of None \<Rightarrow> {} | Some a \<Rightarrow> a); in_edl = set edlallowed - narallowed
     in Inr (if in_edl = {} then [] else [CanBeNarrowed (cd_name ocd) in_edl]))"

definition all_ocalls :: "(enclave_data \<Rightarrow> call_data \<Rightarrow> fault + hint list) \<Rightarrow> analysis \<Rightarrow> fault + hint list" where
  "all_ocalls f a = map_sum id concat (map_fault (\<lambda>(eid, e). map_sum id concat (map_fault (f e) (ocalls e))) (encls a))"

text \<open>The lines of the EDL file, if it can be opened.\<close>

definition analyze_security :: "string \<Rightarrow> (string \<Rightarrow> string list option) \<Rightarrow> analysis \<Rightarrow> fault + hint list" where
  "analyze_security edl_path file a =
     (if edl_path = [] then map_sum id (Cons NoEDL) (all_ocalls interface_hint a)
      else case file edl_path of
             None \<Rightarrow> Inr [NoFile]
           | Some ls \<Rightarrow> fbind (read_edl ls) (\<lambda>s. map_sum id (Cons Reading) (all_ocalls (narrow_hint (edl_ocalls s)) a)))"

end
