(* ===== verification/EdlOk.thy ===== *)
theory EdlOk
  imports Security
begin

text \<open>
  Reading the EDL file: a declaration is read as it was written, and a block comment that ends on its own line is not.
\<close>

section \<open>Searching\<close>

lemma str_find_char:
  "c \<notin> set xs \<Longrightarrow> str_find [c] (xs @ c # ys) = Some (length xs)" "c \<notin> set xs \<Longrightarrow> str_find [c] xs = None"
  by (induction xs) auto

lemma str_find_ext: "str_find n (p @ n) = Some (length p) \<Longrightarrow> str_find n (p @ n @ t) = Some (length p)"
proof (induction p)
  case Nil
  then show ?case by (cases n) (cases t; auto)+
next
  case (Cons c p)
  have "\<not> prefix n (c # p @ n)" using Cons.prems by (auto split: if_splits)
  then have "\<not> prefix n ((c # p @ n) @ t)" using prefix_length_prefix [of n "(c # p @ n) @ t" "c # p @ n"] by auto
  then show ?case using Cons by (auto split: if_splits)
qed

lemma find_at_char: "c \<notin> set xs \<Longrightarrow> find_at [c] (p @ xs @ c # ys) (length p) = Some (length p + length xs)"
  "c \<notin> set xs \<Longrightarrow> find_at [c] (p @ xs) (length p) = None"
  by (simp_all add: find_at_def str_find_char)

lemma take_length_append: "take (length q) (q @ r) = q"
  by simp

section \<open>The allowed ecalls\<close>

fun join_commas :: "string list \<Rightarrow> string" where
  "join_commas [] = []"
| "join_commas [n] = n"
| "join_commas (n # m # ns) = n @ '','' @ join_commas (m # ns)"

definition plain_name :: "string \<Rightarrow> bool" where
  "plain_name n \<longleftrightarrow> CHR '','' \<notin> set n \<and> CHR '')'' \<notin> set n"

lemma allowed_loop_ok:
  assumes "names \<noteq> []" "list_all plain_name names" "CHR '','' \<notin> set post" "length names \<le> fuel" "(if e \<noteq> 0 then e + 1 else start) = length p"
    "p \<noteq> []"
  shows "allowed_loop fuel (p @ join_commas names @ '')'' @ post) start e = Inr (set names)"
  using assms
proof (induction names arbitrary: fuel start e p rule: join_commas.induct)
  case (2 n)
  then obtain f where f: "fuel = Suc f" by (cases fuel) auto
  have "CHR '','' \<notin> set (n @ '')'' @ post)" "CHR '')'' \<notin> set n" using 2 by (auto simp: plain_name_def)
  from find_at_char(2) [OF this(1), of p] find_at_char(1) [OF this(2), of p post] show ?case
    using 2 f by (simp add: substr_def fbind_def)
next
  case (3 n m ns)
  then obtain f where f: "fuel = Suc f" by (cases fuel) auto
  let ?line = "p @ join_commas (n # m # ns) @ '')'' @ post"
  have c: "CHR '','' \<notin> set n" using 3 by (simp add: plain_name_def)
  have line: "?line = (p @ n @ '','') @ join_commas (m # ns) @ '')'' @ post" by simp
  have fa: "find_at '','' ?line (length p) = Some (length p + length n)"
    using find_at_char(1) [OF c, of p "join_commas (m # ns) @ '')'' @ post"] by simp
  have "allowed_loop f ?line (length p) (length p + length n) = Inr (set (m # ns))"
    unfolding line by (rule "3.IH") (use 3 f in auto)
  then show ?case using "3.prems"(5) fa f by (simp add: substr_def fbind_def Let_def)
qed simp

section \<open>The name\<close>

lemma name_start_skip: "(\<And>j. a < j \<Longrightarrow> j \<le> b \<Longrightarrow> char_at line j \<noteq> CHR '' '') \<Longrightarrow> a \<le> b \<Longrightarrow> name_start line b = name_start line a"
proof (induction b)
  case (Suc b)
  then show ?case by (cases "a = Suc b") auto
qed simp

lemma backtrack_skip:
  "(\<And>j. a < j \<Longrightarrow> j \<le> b \<Longrightarrow> char_at line j \<noteq> CHR ''('' \<and> char_at line j \<noteq> CHR '')'') \<Longrightarrow> a \<le> b \<Longrightarrow> \<not> (0 < op \<and> op = cp) \<Longrightarrow>
    backtrack line b op cp = backtrack line a op cp"
proof (induction b)
  case (Suc b)
  then show ?case by (cases "a = Suc b") (auto simp: Let_def)
qed simp

lemma char_at_append: "char_at (xs @ ys) j = (if j < length xs then xs ! j else char_at ys (j - length xs))"
  by (auto simp: char_at_def nth_append)

lemma ocall_name_ok:
  assumes "ret \<noteq> []" "CHR '' '' \<notin> set name" "CHR ''('' \<notin> set args" "CHR '')'' \<notin> set args"
  shows "ocall_name (ret @ '' '' @ name @ ''('' @ args @ '')'') = Inr name"
proof -
  define line where "line = ret @ '' '' @ name @ ''('' @ args @ '')''"
  define P where "P = length ret + 1 + length name"
  have L: "length line = Suc (Suc (P + length args))" by (simp add: line_def P_def)
  have nul: "char_at line (length line) = CHR 0x00" by (simp add: char_at_def)
  have cl: "char_at line (Suc (P + length args)) = CHR '')''" by (simp add: line_def P_def char_at_def nth_append nth_Cons')
  have arg: "char_at line j \<in> set args" if "P < j" "j < Suc (P + length args)" for j
  proof -
    have "char_at line j = args ! (j - (P + 1))" using that by (auto simp: line_def P_def char_at_append char_at_def nth_append nth_Cons')
    then show ?thesis using that by simp
  qed
  have op: "char_at line P = CHR ''(''" by (simp add: line_def P_def char_at_def nth_append nth_Cons')
  have sp: "char_at line (length ret) = CHR '' ''" by (simp add: line_def char_at_append char_at_def)
  have nm: "char_at line j \<noteq> CHR '' ''" if j: "length ret < j" "j \<le> P" for j
  proof (cases "j = P")
    case False
    then have "char_at line j = name ! (j - (length ret + 1))" using j by (auto simp: line_def P_def char_at_append char_at_def nth_append nth_Cons')
    moreover have "name ! (j - (length ret + 1)) \<in> set name" using j False by (simp add: P_def)
    ultimately show ?thesis using assms(2) by metis
  qed (use op in simp)
  have "backtrack line (length line) 0 0 = backtrack line (Suc (P + length args)) 0 0"
    unfolding L backtrack.simps using nul L by simp
  also have "\<dots> = backtrack line (P + length args) 0 1" using cl by (simp add: Let_def)
  also have "\<dots> = backtrack line P 0 1" 
  proof (rule backtrack_skip)
    fix j assume "P < j" "j \<le> P + length args"
    then have "char_at line j \<in> set args" using arg by simp
    with assms(3,4) show "char_at line j \<noteq> CHR ''('' \<and> char_at line j \<noteq> CHR '')''" by metis
  qed simp_all
  also have "\<dots> = (name_start line P + 2, P)" using op by (cases P) (simp_all add: Let_def P_def)
  also have "name_start line P = name_start line (length ret)" by (rule name_start_skip) (use nm in \<open>auto simp: P_def\<close>)
  also have "\<dots> = length ret - 1" using sp assms(1) by (cases "length ret") auto
  finally have "backtrack line (length line) 0 0 = (length ret + 1, P)" using assms(1) by (cases ret) auto
  then show ?thesis unfolding ocall_name_def line_def [symmetric] by (simp add: substr_def P_def) (simp add: line_def)
qed

section \<open>The claims\<close>

lemma ocall_decl_pieces:
  assumes "ret \<noteq> []" "CHR '' '' \<notin> set name" "CHR ''('' \<notin> set args" "CHR '')'' \<notin> set args" "names \<noteq> []" "list_all plain_name names"
    and "str_find ''allow'' (ret @ '' '' @ name @ ''('' @ args @ '') '' @ ''allow'') = Some (length (ret @ '' '' @ name @ ''('' @ args @ '') ''))"
  shows "ocall_decl (ret @ '' '' @ name @ ''('' @ args @ '') '' @ ''allow('' @ join_commas names @ '');'') = Inr (name, set names)"
proof -
  let ?q = "ret @ '' '' @ name @ ''('' @ args @ '')''" let ?p = "?q @ '' ''"
  let ?line = "?p @ ''allow('' @ join_commas names @ '');''"
  have a: "str_find ''allow'' ?line = Some (length ?p)"
    using str_find_ext [of "''allow''" ?p "''('' @ join_commas names @ '');''"] assms(7) by simp
  have f: "find_at ''('' ?line (length ?p) = Some (length ?p + 5)"
    using find_at_char(1) [of "CHR ''(''" "''allow''" ?p "join_commas names @ '');''"] by simp
  have "length names \<le> Suc (length (join_commas names))" by (induction names rule: join_commas.induct) auto
  then have l: "length names \<le> length ?line + 2" by simp
  have lp: "length ?p + 5 + 1 = length (?p @ ''allow('')" by simp
  have "allowed_loop (length ?line + 2) ((?p @ ''allow('') @ join_commas names @ '')'' @ '';'') (length ?p + 5 + 1) 0 = Inr (set names)"
    by (rule allowed_loop_ok [OF assms(5,6) _ l]) (simp_all add: lp)
  then have al: "allowed_loop (length ?line + 2) ?line (length ?p + 5 + 1) 0 = Inr (set names)" by simp
  have "length ?p - 1 = length ?q" "?line = ?q @ '' '' @ ''allow('' @ join_commas names @ '');''" by simp_all
  then have t: "take (length ?p - 1) ?line = ?q" using take_length_append by metis
  have "allowed_of ?line = Inr (?q, set names)"
    unfolding allowed_of_def a f option.case Let_def al fbind_def sum.case t by simp
  then have "ocall_decl ?line = Inr (name, set names)" using ocall_name_ok [OF assms(1-4)] by (simp add: ocall_decl_def fbind_def)
  then show ?thesis by simp
qed

text \<open>An ecall as it is written in the list, with the blanks before it.\<close>

definition blank_piece :: "string \<times> string \<Rightarrow> bool" where
  "blank_piece p \<longleftrightarrow> set (fst p) \<subseteq> {CHR '' '', CHR 0x09} \<and> plain_name (snd p) \<and> snd p \<noteq> [] \<and> hd (snd p) \<notin> {CHR '' '', CHR 0x09}"

lemma blank_piece_name:
  assumes "blank_piece p" "blank_piece q" "fst p @ snd p = snd q" shows "p = ([], snd q)"
proof (cases "fst p")
  case (Cons c b)
  with assms have "hd (snd q) = c" by (metis append_Cons list.sel(1))
  with Cons assms(1,2) show ?thesis by (auto simp: blank_piece_def)
qed (use assms(3) in \<open>cases p; simp\<close>)

text \<open>C32: A declaration of the untrusted section with the usual parts, a return type, a name, arguments and a list of allowed ecalls, is read
  as this name and these ecalls, where the blanks after a comma (or after the opening parenthesis) stay part of the ecall's name. So
  an ecall of the list is found under its name exactly if it is written somewhere without a blank before it: all of
  \<open>allow(a,b)\<close> are, of \<open>allow(a, b)\<close> only the first.\<close>

theorem ocall_decl_roundtrip:
  assumes "ret \<noteq> []" "CHR '' '' \<notin> set name" "CHR ''('' \<notin> set args" "CHR '')'' \<notin> set args" "ps \<noteq> []" "list_all blank_piece ps"
    and "str_find ''allow'' (ret @ '' '' @ name @ ''('' @ args @ '') '' @ ''allow'') = Some (length (ret @ '' '' @ name @ ''('' @ args @ '') ''))"
  shows "\<exists>allowed. ocall_decl (ret @ '' '' @ name @ ''('' @ args @ '') '' @ ''allow('' @ join_commas (map (\<lambda>(b, n). b @ n) ps) @ '');'') =
      Inr (name, allowed) \<and> allowed = (\<lambda>(b, n). b @ n) ` set ps \<and> (\<forall>p \<in> set ps. snd p \<in> allowed \<longleftrightarrow> ([], snd p) \<in> set ps)"
proof -
  have "plain_name (b @ n)" if "(b, n) \<in> set ps" for b n
  proof -
    have "blank_piece (b, n)" using that assms(6) by (simp add: list_all_iff)
    then show ?thesis by (auto simp: blank_piece_def plain_name_def)
  qed
  then have "list_all plain_name (map (\<lambda>(b, n). b @ n) ps)" by (auto simp: list_all_iff)
  note d = ocall_decl_pieces [OF assms(1-4) _ this assms(7)]
  have "snd p \<in> (\<lambda>(b, n). b @ n) ` set ps \<longleftrightarrow> ([], snd p) \<in> set ps" if p: "p \<in> set ps" for p
  proof
    assume "snd p \<in> (\<lambda>(b, n). b @ n) ` set ps"
    then obtain q where q: "q \<in> set ps" "fst q @ snd q = snd p" by auto
    with p assms(6) have "blank_piece q" "blank_piece p" by (auto simp: list_all_iff)
    from blank_piece_name [OF this q(2)] q(1) show "([], snd p) \<in> set ps" by simp
  qed force
  then show ?thesis using d assms(5) by simp
qed

theorem ocall_decl_roundtrip_witness:
  "\<exists>allowed. ocall_decl ''int ocall_write(int fd, size_t n) allow(ecall_a,ecall_b, ecall_c);'' = Inr (''ocall_write'', allowed) \<and>
     allowed = {''ecall_a'', ''ecall_b'', '' ecall_c''}"
  using ocall_decl_roundtrip [of "''int''" "''ocall_write''" "''int fd, size_t n''" "[([], ''ecall_a''), ([], ''ecall_b''), ('' '', ''ecall_c'')]"]
  by (simp add: plain_name_def blank_piece_def)

text \<open>A block comment that ends on the line it starts on loses the declaration before it on that line and every line after it up to the
  next end of a comment: nothing of them is recorded.\<close>

lemma closed_comment_swallows:
  assumes "in_untrusted s" "\<not> in_block_comment s" "str_find ''//'' (rtrim (ltrim l)) = None" "str_find ''/*'' (rtrim (ltrim l)) = Some i"
    and "str_find ''*/'' (take i (rtrim (ltrim l))) = None" "\<forall>d \<in> set ds. str_find ''*/'' (rtrim (ltrim d)) = None"
  shows "fold_fault edl_line (l # ds) s = Inr (s\<lparr>in_block_comment := True\<rparr>)"
proof -
  have 1: "edl_line l s = Inr (s\<lparr>in_block_comment := True\<rparr>)"
    using assms(1-5) by (simp add: edl_line_def remove_comments_def Let_def)
  have "fold_fault edl_line ds t = Inr t" if "in_block_comment t" "in_untrusted t" for t
    using assms(6) that
  proof (induction ds)
    case (Cons d ds)
    have "edl_line d t = Inr t" using Cons.prems by (simp add: edl_line_def remove_comments_def Let_def)
    then show ?case using Cons by (simp add: fbind_def)
  qed simp
  from this [of "s\<lparr>in_block_comment := True\<rparr>"] show ?thesis using 1 assms(1) by (simp add: fbind_def)
qed

lemma closed_comment_swallows_witness:
  "read_edl [''untrusted {'', ''void f(int a) allow(x); /* the first */'', ''void g(int a) allow(y);''] =
     Inr \<lparr>in_block_comment = True, in_untrusted = True, edl_ocalls = Map.empty\<rparr>"
proof -
  let ?s = "\<lparr>in_block_comment = False, in_untrusted = True, edl_ocalls = Map.empty\<rparr> :: edl_state"
  have "read_edl [''untrusted {'', ''void f(int a) allow(x); /* the first */'', ''void g(int a) allow(y);''] =
      fold_fault edl_line [''void f(int a) allow(x); /* the first */'', ''void g(int a) allow(y);''] ?s"
    by (simp add: read_edl_def edl_line_def remove_comments_def ltrim_def rtrim_def isspace_def fbind_def Let_def)
  also have "\<dots> = Inr (?s\<lparr>in_block_comment := True\<rparr>)"
    by (rule closed_comment_swallows [where i = 24]) (simp_all add: ltrim_def rtrim_def isspace_def)
  finally show ?thesis by simp
qed

end
