(* ===== verification/Graph.thy ===== *)
theory Graph
  imports CallsReport
begin

text \<open>
  The DOT descriptions of \<^verbatim>\<open>src/analyzer/src/graph.cpp\<close>. A line is a value with what it shows. An edge goes from a call to one that was
  made in it, or after it when it is dashed. The sets of the search are sets of table indices; the element a loop takes is
  the smallest.
\<close>

section \<open>The graph of an enclave\<close>

datatype gline =
    GDigraph u64
  | GDigraphOf string
  | GNode string u64 bool
  | GBox string
  | GEdge string string u64 bool
  | GShare string string count_text bool
  | GEnd

definition shown_call :: "enclave_data \<Rightarrow> parent_call_data \<Rightarrow> call_data option" where
  "shown_call e p = map_option (entry_call e) (pc_call p)"

definition parent_edge :: "enclave_data \<Rightarrow> u64 set \<Rightarrow> bool \<Rightarrow> call_data \<Rightarrow> parent_call_data \<Rightarrow> gline list" where
  "parent_edge e ids dashed c p =
     (if skip_call (shown_call e p) ids then []
      else [GEdge (cd_name (the (shown_call e p))) (cd_name c) (pc_count p) dashed])"

definition call_lines :: "enclave_data \<Rightarrow> u64 set \<Rightarrow> u64 set \<Rightarrow> bool \<Rightarrow> call_data \<Rightarrow> gline list" where
  "call_lines e own other box c =
     (if skip_call (Some c) own then []
      else GNode (cd_name c) (cd_call_id c) box # concat (map (parent_edge e own True c) (indirect_parents_data c)) @
             concat (map (parent_edge e other False c) (direct_parents_data c)))"

definition dot_graph :: "export_config \<Rightarrow> analysis \<Rightarrow> u64 \<Rightarrow> gline list" where
  "dot_graph cfg a eid =
     (let e = encl_of a eid
      in GDigraph eid # concat (map (call_lines e (ecall_set cfg) (ocall_set cfg) True) (ecalls e)) @
           concat (map (call_lines e (ocall_set cfg) (ecall_set cfg) False) (ocalls e)) @ [GEnd])"

definition draw_graphs :: "export_config \<Rightarrow> analysis \<Rightarrow> gline list list" where
  "draw_graphs cfg a = map (\<lambda>(eid, _). dot_graph cfg a eid) (encls a)"

section \<open>The calls an ecall depends on\<close>

record gsearch =
  g_lines :: "gline list"
  done_ecalls :: "nat set"
  done_ocalls :: "nat set"
  todo_ecalls :: "nat set"
  todo_ocalls :: "nat set"

text \<open>The loop over the entries \<open>i\<close>, \<open>i + 1\<close>, \<dots> of a call's parents: the lines, and the set of calls that are to do.\<close>

fun parents_loop :: "enclave_data \<Rightarrow> string \<Rightarrow> u64 \<Rightarrow> bool \<Rightarrow> nat set \<Rightarrow> nat \<Rightarrow> parent_call_data list \<Rightarrow> nat set \<Rightarrow>
    fault + (gline list \<times> nat set)" where
  "parents_loop e name m dashed don i [] todo = Inr ([], todo)"
| "parents_loop e name m dashed don i (p # ps) todo =
     (if pc_count p = 0 then parents_loop e name m dashed don (Suc i) ps todo
      else case pc_call p of
             None \<Rightarrow> Inl NullDeref
           | Some q \<Rightarrow> map_sum id (apfst ((#) (GShare (cd_name (entry_call e q)) name (countformat (pc_count p) m False) dashed)))
               (parents_loop e name m dashed don (Suc i) ps (if i \<in> don then todo else insert i todo)))"

text \<open>One ocall. The edges from ecalls are shown relative to \<open>m\<close>, the number of calls of the ecall the outer loop is at.\<close>

definition ocall_step :: "enclave_data \<Rightarrow> u64 \<Rightarrow> gsearch \<Rightarrow> fault + gsearch" where
  "ocall_step e m g =
     (let oid = Min (todo_ocalls g)
      in if length (ocalls e) \<le> oid then Inl OutOfRange
         else let c = ocalls e ! oid;
                  finish = (\<lambda>g. g\<lparr>done_ocalls := insert oid (done_ocalls g), todo_ocalls := todo_ocalls g - {oid}\<rparr>)
              in if \<not> has_indirect_parents c \<and> \<not> has_direct_parents c then Inr (finish g)
                 else fbind (parents_loop e (cd_name c) (st_calls (all_stats c)) True (done_ocalls g) 0 (indirect_parents_data c) (todo_ocalls g))
                   (\<lambda>(l1, to). fbind (parents_loop e (cd_name c) m False (done_ecalls g) 0 (direct_parents_data c) (todo_ecalls g))
                     (\<lambda>(l2, te). Inr (finish (g\<lparr>g_lines := g_lines g @ l1 @ l2, todo_ecalls := te, todo_ocalls := to\<rparr>)))))"

fun ocall_loop :: "nat \<Rightarrow> enclave_data \<Rightarrow> u64 \<Rightarrow> gsearch \<Rightarrow> fault + gsearch" where
  "ocall_loop 0 e m g = Inl Diverge"
| "ocall_loop (Suc n) e m g = (if todo_ocalls g = {} then Inr g else fbind (ocall_step e m g) (ocall_loop n e m))"

text \<open>One ecall, without the loop over the ocalls that follows it.\<close>

definition ecall_step :: "enclave_data \<Rightarrow> nat \<Rightarrow> gsearch \<Rightarrow> fault + gsearch" where
  "ecall_step e i g =
     (let c = ecalls e ! i
      in fbind (parents_loop e (cd_name c) (st_calls (all_stats c)) True (done_ecalls g) 0 (indirect_parents_data c) (todo_ecalls g))
           (\<lambda>(l1, te). fbind (parents_loop e (cd_name c) (st_calls (all_stats c)) False (done_ocalls g) 0 (direct_parents_data c) (todo_ocalls g))
             (\<lambda>(l2, to). Inr (g\<lparr>g_lines := g_lines g @ GBox (cd_name c) # l1 @ l2, done_ecalls := insert i (done_ecalls g),
                todo_ecalls := te - {i}, todo_ocalls := to\<rparr>))))"

fun ecall_loop :: "nat \<Rightarrow> nat \<Rightarrow> enclave_data \<Rightarrow> gsearch \<Rightarrow> fault + gsearch" where
  "ecall_loop 0 k e g = Inl Diverge"
| "ecall_loop (Suc n) k e g =
     (if todo_ecalls g = {} then Inr g
      else let i = Min (todo_ecalls g)
           in if length (ecalls e) \<le> i then Inl OutOfRange
              else let c = ecalls e ! i
                   in if \<not> has_indirect_parents c \<and> \<not> has_direct_parents c
                      then ecall_loop n k e (g\<lparr>done_ecalls := insert i (done_ecalls g), todo_ecalls := todo_ecalls g - {i}\<rparr>)
                      else fbind (ecall_step e i g) (\<lambda>g. fbind (ocall_loop k e (st_calls (all_stats c)) g) (ecall_loop n k e)))"

text \<open>The fuels \<open>n\<close> and \<open>k\<close> bound the rounds of the outer and of each inner loop.\<close>

definition dot_ecall_graph :: "nat \<Rightarrow> nat \<Rightarrow> enclave_data \<Rightarrow> nat \<Rightarrow> fault + gline list" where
  "dot_ecall_graph n k e start =
     (if length (ecalls e) \<le> start then Inl OutOfRange
      else fbind (ecall_loop n k e \<lparr>g_lines = [GDigraphOf (cd_name (ecalls e ! start))], done_ecalls = {}, done_ocalls = {},
             todo_ecalls = {start}, todo_ocalls = {}\<rparr>) (\<lambda>g. Inr (g_lines g @ [GEnd])))"

end
