(* ===== verification/GraphOk.thy ===== *)
theory GraphOk
  imports Graph
begin

text \<open>
  The search of the calls an ecall depends on ends, visits every call from which the ecall can be reached and no other, and
  shows each edge once.
\<close>

section \<open>The graph\<close>

type_synonym node = "call_type_t \<times> nat"

definition counted :: "parent_call_data list \<Rightarrow> nat list" where
  "counted ps = filter (\<lambda>k. pc_count (ps ! k) \<noteq> 0) [0..<length ps]"

text \<open>The calls a call was made after or in, and the edges of the picture that end at it.\<close>

definition callers :: "enclave_data \<Rightarrow> node \<Rightarrow> node set" where
  "callers e v = Pair (fst v) ` set (counted (indirect_parents_data (entry_call e v))) \<union>
     Pair (other_type (fst v)) ` set (counted (direct_parents_data (entry_call e v)))"

definition edges_to :: "enclave_data \<Rightarrow> node \<Rightarrow> (string \<times> string \<times> bool) list" where
  "edges_to e v = (let c = entry_call e v
     in map (\<lambda>k. (cd_name (entry_call e (fst v, k)), cd_name c, True)) (counted (indirect_parents_data c)) @
        map (\<lambda>k. (cd_name (entry_call e (other_type (fst v), k)), cd_name c, False)) (counted (direct_parents_data c)))"

definition origins :: "enclave_data \<Rightarrow> nat \<Rightarrow> node set" where
  "origins e i = {(v, u). u \<in> callers e v}\<^sup>* `` {(ECALL, i)}"

text \<open>The tables as loading leaves them: one entry per call, which refers to that call, and flags that tell whether there is a parent.\<close>

definition entries_ok :: "call_type_t \<Rightarrow> nat \<Rightarrow> parent_call_data list \<Rightarrow> bool" where
  "entries_ok ty n ps \<longleftrightarrow> length ps = n \<and> (\<forall>k < n. pc_count (ps ! k) \<noteq> 0 \<longrightarrow> pc_call (ps ! k) = Some (ty, k))"

definition linked :: "enclave_data \<Rightarrow> node \<Rightarrow> bool" where
  "linked e v \<longleftrightarrow> (let c = entry_call e v
     in entries_ok (fst v) (length (calls_of (fst v) e)) (indirect_parents_data c) \<and>
        entries_ok (other_type (fst v)) (length (calls_of (other_type (fst v)) e)) (direct_parents_data c) \<and>
        (\<not> has_indirect_parents c \<longrightarrow> (\<forall>p \<in> set (indirect_parents_data c). pc_count p = 0)) \<and>
        (\<not> has_direct_parents c \<longrightarrow> (\<forall>p \<in> set (direct_parents_data c). pc_count p = 0)))"

definition calls_in :: "enclave_data \<Rightarrow> node set" where
  "calls_in e = Pair ECALL ` {..<length (ecalls e)} \<union> Pair OCALL ` {..<length (ocalls e)}"

definition graph_wf :: "enclave_data \<Rightarrow> bool" where
  "graph_wf e \<longleftrightarrow> (\<forall>v \<in> calls_in e. linked e v)"

lemma calls_of_simps [simp]: "calls_of ECALL e = ecalls e" "calls_of OCALL e = ocalls e"
  by (simp_all add: calls_of_def)

lemma counted_0: "(\<forall>p \<in> set ps. pc_count p = 0) \<Longrightarrow> counted ps = []"
  by (simp add: counted_def)

lemma callers_in: "graph_wf e \<Longrightarrow> v \<in> calls_in e \<Longrightarrow> callers e v \<subseteq> calls_in e"
  by (auto simp: graph_wf_def calls_in_def callers_def linked_def Let_def entries_ok_def counted_def)

lemma origins_in:
  assumes "graph_wf e" "i < length (ecalls e)"
  shows "origins e i \<subseteq> calls_in e"
proof -
  have "u \<in> calls_in e" if "((ECALL, i), u) \<in> {(v, u). u \<in> callers e v}\<^sup>*" for u
    using that
  proof induction
    case base
    then show ?case using assms(2) by (simp add: calls_in_def)
  next
    case (step v u)
    then show ?case using callers_in [OF assms(1)] by blast
  qed
  then show ?thesis by (auto simp: origins_def)
qed

section \<open>One call\<close>

fun edge_of :: "gline \<Rightarrow> (string \<times> string \<times> bool) list" where
  "edge_of (GShare a b s d) = [(a, b, d)]"
| "edge_of (GEdge a b n d) = [(a, b, d)]"
| "edge_of _ = []"

definition edges :: "gline list \<Rightarrow> (string \<times> string \<times> bool) list" where
  "edges ls = concat (map edge_of ls)"

lemma edges_simps [simp]: "edges [] = []" "edges (l # ls) = edge_of l @ edges ls" "edges (xs @ ys) = edges xs @ edges ys"
  by (simp_all add: edges_def)

lemma counted_Cons: "counted (p # ps) = (if pc_count p = 0 then [] else [0]) @ map Suc (counted ps)"
proof -
  have "[0..<length (p # ps)] = 0 # map Suc [0..<length ps]" by (simp add: map_Suc_upt upt_conv_Cons del: upt_Suc)
  then show ?thesis by (simp add: counted_def filter_map comp_def)
qed

lemma parents_loop_ok:
  assumes "\<forall>k < length ps. pc_count (ps ! k) \<noteq> 0 \<longrightarrow> pc_call (ps ! k) = Some (ty, i + k)"
  shows "\<exists>ls. parents_loop e name m dashed don i ps todo = Inr (ls, todo \<union> ((+) i ` set (counted ps) - don)) \<and>
    edges ls = map (\<lambda>k. (cd_name (entry_call e (ty, i + k)), name, dashed)) (counted ps)"
  using assms
proof (induction ps arbitrary: i todo)
  case Nil
  then show ?case by (simp add: counted_def)
next
  case (Cons p ps)
  let ?t = "if pc_count p = 0 \<or> i \<in> don then todo else insert i todo"
  have "\<forall>k < length ps. pc_count (ps ! k) \<noteq> 0 \<longrightarrow> pc_call (ps ! k) = Some (ty, Suc i + k)"
    using Cons.prems by auto
  from Cons.IH [OF this, of ?t] obtain ls where ls: "parents_loop e name m dashed don (Suc i) ps ?t = Inr (ls, ?t \<union> ((+) (Suc i) ` set (counted ps) - don))"
    "edges ls = map (\<lambda>k. (cd_name (entry_call e (ty, Suc i + k)), name, dashed)) (counted ps)" by blast
  have im: "(+) i ` set (counted (p # ps)) = (if pc_count p = 0 then {} else {i}) \<union> (+) (Suc i) ` set (counted ps)"
    by (auto simp: counted_Cons image_image)
  have t: "?t \<union> ((+) (Suc i) ` set (counted ps) - don) = todo \<union> ((+) i ` set (counted (p # ps)) - don)"
    unfolding im by auto
  show ?case
  proof (cases "pc_count p = 0")
    case True
    then show ?thesis using ls t by (simp add: counted_Cons comp_def)
  next
    case False
    then have "pc_call p = Some (ty, i)" using Cons.prems by (auto dest: spec [of _ 0])
    then show ?thesis using False ls t by (simp add: counted_Cons comp_def)
  qed
qed

lemma parents_loop_0:
  assumes "\<forall>k < length ps. pc_count (ps ! k) \<noteq> 0 \<longrightarrow> pc_call (ps ! k) = Some (ty, k)"
  obtains ls where "parents_loop e name m dashed don 0 ps todo = Inr (ls, todo \<union> (set (counted ps) - don))"
    "edges ls = map (\<lambda>k. (cd_name (calls_of ty e ! k), name, dashed)) (counted ps)"
  using parents_loop_ok [of ps ty 0 e name m dashed don todo] assms by (auto simp: entry_call_def)

section \<open>The search\<close>

definition nodes :: "nat set \<Rightarrow> nat set \<Rightarrow> node set" where
  "nodes es os = Pair ECALL ` es \<union> Pair OCALL ` os"

abbreviation "done_nodes g \<equiv> nodes (done_ecalls g) (done_ocalls g)"
abbreviation "todo_nodes g \<equiv> nodes (todo_ecalls g) (todo_ocalls g)"

definition g_inv :: "enclave_data \<Rightarrow> nat \<Rightarrow> gsearch \<Rightarrow> bool" where
  "g_inv e s g \<longleftrightarrow> done_nodes g \<inter> todo_nodes g = {} \<and> (ECALL, s) \<in> done_nodes g \<union> todo_nodes g \<and>
     done_nodes g \<union> todo_nodes g \<subseteq> origins e s \<and> (\<forall>v \<in> done_nodes g. callers e v \<subseteq> done_nodes g \<union> todo_nodes g) \<and>
     mset (edges (g_lines g)) = (\<Sum>v \<in> done_nodes g. mset (edges_to e v))"

text \<open>A round takes a call from those to do and adds its callers.\<close>

definition g_round :: "enclave_data \<Rightarrow> node \<Rightarrow> gsearch \<Rightarrow> gsearch \<Rightarrow> bool" where
  "g_round e v g h \<longleftrightarrow> done_nodes h = insert v (done_nodes g) \<and> todo_nodes h = (todo_nodes g \<union> (callers e v - done_nodes g)) - {v} \<and>
     mset (edges (g_lines h)) = mset (edges (g_lines g)) + mset (edges_to e v)"

lemma g_round_inv:
  assumes "g_inv e s g" "v \<in> todo_nodes g" "g_round e v g h" "finite (done_nodes g)"
  shows "g_inv e s h"
proof -
  have v: "v \<notin> done_nodes g" "v \<in> origins e s" using assms(1,2) by (auto simp: g_inv_def)
  have "callers e v \<subseteq> origins e s" using v(2) by (auto simp: origins_def intro: rtrancl_into_rtrancl)
  then show ?thesis using assms v unfolding g_inv_def g_round_def by auto
qed

lemma nodes_simps [simp]:
  "(ECALL, i) \<in> nodes es os \<longleftrightarrow> i \<in> es" "(OCALL, i) \<in> nodes es os \<longleftrightarrow> i \<in> os" "(UNDEF, i) \<notin> nodes es os"
  "finite es \<Longrightarrow> finite os \<Longrightarrow> finite (nodes es os)"
  by (auto simp: nodes_def)

lemma nodes_eqI: "(\<And>i. (ECALL, i) \<in> A \<longleftrightarrow> i \<in> es) \<Longrightarrow> (\<And>i. (OCALL, i) \<in> A \<longleftrightarrow> i \<in> os) \<Longrightarrow> (\<And>i. (UNDEF, i) \<notin> A) \<Longrightarrow> nodes es os = A"
proof (rule set_eqI)
  fix v :: node
  assume a: "\<And>i. (ECALL, i) \<in> A \<longleftrightarrow> i \<in> es" "\<And>i. (OCALL, i) \<in> A \<longleftrightarrow> i \<in> os" "\<And>i. (UNDEF, i) \<notin> A"
  obtain ty i where "v = (ty, i)" by (cases v)
  with a show "v \<in> nodes es os \<longleftrightarrow> v \<in> A" by (cases ty) auto
qed

lemma callers_type:
  "(ECALL, k) \<in> callers e (ECALL, i) \<longleftrightarrow> k \<in> set (counted (indirect_parents_data (ecalls e ! i)))"
  "(OCALL, k) \<in> callers e (ECALL, i) \<longleftrightarrow> k \<in> set (counted (direct_parents_data (ecalls e ! i)))"
  "(OCALL, k) \<in> callers e (OCALL, i) \<longleftrightarrow> k \<in> set (counted (indirect_parents_data (ocalls e ! i)))"
  "(ECALL, k) \<in> callers e (OCALL, i) \<longleftrightarrow> k \<in> set (counted (direct_parents_data (ocalls e ! i)))"
  "(UNDEF, k) \<notin> callers e (ECALL, i)" "(UNDEF, k) \<notin> callers e (OCALL, i)"
  by (auto simp: callers_def entry_call_def)

lemma edges_to_type:
  "edges_to e (ECALL, i) = map (\<lambda>k. (cd_name (ecalls e ! k), cd_name (ecalls e ! i), True)) (counted (indirect_parents_data (ecalls e ! i))) @
     map (\<lambda>k. (cd_name (ocalls e ! k), cd_name (ecalls e ! i), False)) (counted (direct_parents_data (ecalls e ! i)))"
  "edges_to e (OCALL, i) = map (\<lambda>k. (cd_name (ocalls e ! k), cd_name (ocalls e ! i), True)) (counted (indirect_parents_data (ocalls e ! i))) @
     map (\<lambda>k. (cd_name (ecalls e ! k), cd_name (ocalls e ! i), False)) (counted (direct_parents_data (ocalls e ! i)))"
  by (simp_all add: edges_to_def entry_call_def Let_def)

lemma linked_entries:
  assumes "linked e (ty, i)" "ty \<noteq> UNDEF"
  defines "c \<equiv> calls_of ty e ! i"
  shows "\<forall>k < length (indirect_parents_data c). pc_count (indirect_parents_data c ! k) \<noteq> 0 \<longrightarrow> pc_call (indirect_parents_data c ! k) = Some (ty, k)"
    "\<forall>k < length (direct_parents_data c). pc_count (direct_parents_data c ! k) \<noteq> 0 \<longrightarrow> pc_call (direct_parents_data c ! k) = Some (other_type ty, k)"
    "\<not> has_indirect_parents c \<Longrightarrow> counted (indirect_parents_data c) = []" "\<not> has_direct_parents c \<Longrightarrow> counted (direct_parents_data c) = []"
  using assms by (auto simp: linked_def entries_ok_def entry_call_def Let_def intro: counted_0)

lemma ocall_step_ok:
  assumes "linked e (OCALL, Min (todo_ocalls g))" "Min (todo_ocalls g) < length (ocalls e)" "done_nodes g \<inter> todo_nodes g = {}"
  shows "\<exists>h. ocall_step e m g = Inr h \<and> g_round e (OCALL, Min (todo_ocalls g)) g h \<and> done_ecalls h = done_ecalls g \<and>
    done_ocalls h = insert (Min (todo_ocalls g)) (done_ocalls g)"
proof -
  let ?i = "Min (todo_ocalls g)" let ?c = "ocalls e ! Min (todo_ocalls g)"
  note L = linked_entries [OF assms(1), simplified]
  show ?thesis
  proof (cases "\<not> has_indirect_parents ?c \<and> \<not> has_direct_parents ?c")
    case True
    then have "callers e (OCALL, ?i) = {}" "edges_to e (OCALL, ?i) = []" using L
      by (simp_all add: callers_def edges_to_type entry_call_def)
    then show ?thesis using True assms(2) by (auto simp: ocall_step_def Let_def g_round_def nodes_def)
  next
    case False
    from parents_loop_0 [OF L(1)] obtain l1 where
      1: "parents_loop e (cd_name ?c) (st_calls (all_stats ?c)) True (done_ocalls g) 0 (indirect_parents_data ?c) (todo_ocalls g) =
           Inr (l1, todo_ocalls g \<union> (set (counted (indirect_parents_data ?c)) - done_ocalls g))"
        "edges l1 = map (\<lambda>k. (cd_name (calls_of OCALL e ! k), cd_name ?c, True)) (counted (indirect_parents_data ?c))" .
    from parents_loop_0 [OF L(2)] obtain l2 where
      2: "parents_loop e (cd_name ?c) m False (done_ecalls g) 0 (direct_parents_data ?c) (todo_ecalls g) =
           Inr (l2, todo_ecalls g \<union> (set (counted (direct_parents_data ?c)) - done_ecalls g))"
        "edges l2 = map (\<lambda>k. (cd_name (calls_of ECALL e ! k), cd_name ?c, False)) (counted (direct_parents_data ?c))" .
    let ?h = "g\<lparr>g_lines := g_lines g @ l1 @ l2, todo_ecalls := todo_ecalls g \<union> (set (counted (direct_parents_data ?c)) - done_ecalls g),
      todo_ocalls := todo_ocalls g \<union> (set (counted (indirect_parents_data ?c)) - done_ocalls g) - {?i}, done_ocalls := insert ?i (done_ocalls g)\<rparr>"
    have run: "ocall_step e m g = Inr ?h"
      using False assms(2) 1(1) 2(1) by (auto simp: ocall_step_def Let_def fbind_def)
    have "g_round e (OCALL, ?i) g ?h"
      unfolding g_round_def
    proof (intro conjI)
      show "mset (edges (g_lines ?h)) = mset (edges (g_lines g)) + mset (edges_to e (OCALL, ?i))"
        using 1(2) 2(2) by (simp add: edges_to_type)
      show "done_nodes ?h = insert (OCALL, ?i) (done_nodes g)" by (auto simp: nodes_def)
      show "todo_nodes ?h = todo_nodes g \<union> (callers e (OCALL, ?i) - done_nodes g) - {(OCALL, ?i)}"
        by (rule nodes_eqI) (auto simp: callers_type)
    qed
    with run show ?thesis by auto
  qed
qed

lemma ecall_step_ok:
  assumes "linked e (ECALL, i)" "i \<in> todo_ecalls g" "done_nodes g \<inter> todo_nodes g = {}"
  shows "\<exists>h. ecall_step e i g = Inr h \<and> g_round e (ECALL, i) g h \<and> done_ecalls h = insert i (done_ecalls g) \<and>
    done_ocalls h = done_ocalls g"
proof -
  let ?c = "ecalls e ! i"
  note L = linked_entries [OF assms(1), simplified]
  from parents_loop_0 [OF L(1)] obtain l1 where
    1: "parents_loop e (cd_name ?c) (st_calls (all_stats ?c)) True (done_ecalls g) 0 (indirect_parents_data ?c) (todo_ecalls g) =
         Inr (l1, todo_ecalls g \<union> (set (counted (indirect_parents_data ?c)) - done_ecalls g))"
      "edges l1 = map (\<lambda>k. (cd_name (calls_of ECALL e ! k), cd_name ?c, True)) (counted (indirect_parents_data ?c))" .
  from parents_loop_0 [OF L(2)] obtain l2 where
    2: "parents_loop e (cd_name ?c) (st_calls (all_stats ?c)) False (done_ocalls g) 0 (direct_parents_data ?c) (todo_ocalls g) =
         Inr (l2, todo_ocalls g \<union> (set (counted (direct_parents_data ?c)) - done_ocalls g))"
      "edges l2 = map (\<lambda>k. (cd_name (calls_of OCALL e ! k), cd_name ?c, False)) (counted (direct_parents_data ?c))" .
  let ?h = "g\<lparr>g_lines := g_lines g @ GBox (cd_name ?c) # l1 @ l2, done_ecalls := insert i (done_ecalls g),
    todo_ecalls := todo_ecalls g \<union> (set (counted (indirect_parents_data ?c)) - done_ecalls g) - {i},
    todo_ocalls := todo_ocalls g \<union> (set (counted (direct_parents_data ?c)) - done_ocalls g)\<rparr>"
  have run: "ecall_step e i g = Inr ?h" using 1(1) 2(1) by (simp add: ecall_step_def Let_def fbind_def)
  have "g_round e (ECALL, i) g ?h"
    unfolding g_round_def
  proof (intro conjI)
    show "mset (edges (g_lines ?h)) = mset (edges (g_lines g)) + mset (edges_to e (ECALL, i))"
      using 1(2) 2(2) by (simp add: edges_to_type)
    show "done_nodes ?h = insert (ECALL, i) (done_nodes g)" by (auto simp: nodes_def)
    show "todo_nodes ?h = todo_nodes g \<union> (callers e (ECALL, i) - done_nodes g) - {(ECALL, i)}"
      by (rule nodes_eqI) (auto simp: callers_type)
  qed
  with run show ?thesis by auto
qed

section \<open>The loops\<close>

text \<open>What the rounds rely on: the graph and where the search started.\<close>

definition g_good :: "enclave_data \<Rightarrow> nat \<Rightarrow> gsearch \<Rightarrow> bool" where
  "g_good e s g \<longleftrightarrow> graph_wf e \<and> s < length (ecalls e) \<and> g_inv e s g"

lemma g_good_bounds:
  assumes "g_good e s g"
  shows "done_ecalls g \<union> todo_ecalls g \<subseteq> {..<length (ecalls e)}" "done_ocalls g \<union> todo_ocalls g \<subseteq> {..<length (ocalls e)}"
proof -
  have "done_nodes g \<union> todo_nodes g \<subseteq> calls_in e"
    using assms origins_in [of e s] by (auto simp: g_good_def g_inv_def)
  then show "done_ecalls g \<union> todo_ecalls g \<subseteq> {..<length (ecalls e)}" "done_ocalls g \<union> todo_ocalls g \<subseteq> {..<length (ocalls e)}"
    by (auto simp: nodes_def calls_in_def image_subset_iff)
qed

lemma g_good_finite: "g_good e s g \<Longrightarrow> finite (done_nodes g)" "g_good e s g \<Longrightarrow> finite (todo_ecalls g)" "g_good e s g \<Longrightarrow> finite (todo_ocalls g)"
  by (meson g_good_bounds finite_subset finite_lessThan Un_subset_iff nodes_simps(4))+

lemma g_good_round: "g_good e s g \<Longrightarrow> v \<in> todo_nodes g \<Longrightarrow> g_round e v g h \<Longrightarrow> g_good e s h"
  using g_round_inv g_good_finite(1) unfolding g_good_def by blast

lemma linked_todo:
  "g_good e s g \<Longrightarrow> i \<in> todo_ecalls g \<Longrightarrow> i < length (ecalls e) \<and> linked e (ECALL, i)"
  "g_good e s g \<Longrightarrow> i \<in> todo_ocalls g \<Longrightarrow> i < length (ocalls e) \<and> linked e (OCALL, i)"
  using g_good_bounds [of e s g] by (auto simp: g_good_def graph_wf_def calls_in_def)

lemma fewer_left: "i < n \<Longrightarrow> i \<notin> D \<Longrightarrow> card ({..<n} - insert i D) < card ({..<n :: nat} - D)"
  by (rule psubset_card_mono) auto

lemma ocall_loop_ok:
  assumes "g_good e s g" "card ({..<length (ocalls e)} - done_ocalls g) < k"
  shows "\<exists>h. ocall_loop k e m g = Inr h \<and> g_good e s h \<and> todo_ocalls h = {} \<and> done_ecalls h = done_ecalls g"
  using assms
proof (induction k arbitrary: g)
  case (Suc k)
  show ?case
  proof (cases "todo_ocalls g = {}")
    case False
    let ?i = "Min (todo_ocalls g)"
    have i: "?i \<in> todo_ocalls g" using False g_good_finite(3) [OF Suc.prems(1)] by simp
    have dis: "done_nodes g \<inter> todo_nodes g = {}" using Suc.prems(1) by (simp add: g_good_def g_inv_def)
    have "?i \<notin> done_ocalls g" using i dis by (auto simp: nodes_def)
    obtain h where h: "ocall_step e m g = Inr h" "g_round e (OCALL, ?i) g h" "done_ecalls h = done_ecalls g" "done_ocalls h = insert ?i (done_ocalls g)"
      using ocall_step_ok [of e g m] linked_todo(2) [OF Suc.prems(1) i] dis by blast
    have "g_good e s h" using g_good_round [OF Suc.prems(1) _ h(2)] i by simp
    moreover have "card ({..<length (ocalls e)} - done_ocalls h) < k"
      using fewer_left [of ?i "length (ocalls e)" "done_ocalls g"] linked_todo(2) [OF Suc.prems(1) i] \<open>?i \<notin> done_ocalls g\<close> Suc.prems(2) h(4) by simp
    ultimately show ?thesis using Suc.IH [of h] False h(1,3) by (auto simp: fbind_def)
  qed (use Suc.prems in auto)
qed simp

lemma ecall_loop_ok:
  assumes "g_good e s g" "card ({..<length (ecalls e)} - done_ecalls g) < n" "length (ocalls e) < k" "todo_ocalls g = {}"
  shows "\<exists>h. ecall_loop n k e g = Inr h \<and> g_good e s h \<and> todo_ecalls h = {} \<and> todo_ocalls h = {}"
  using assms
proof (induction n arbitrary: g)
  case (Suc n)
  show ?case
  proof (cases "todo_ecalls g = {}")
    case False
    let ?i = "Min (todo_ecalls g)" let ?c = "ecalls e ! Min (todo_ecalls g)"
    have i: "?i \<in> todo_ecalls g" using False g_good_finite(2) [OF Suc.prems(1)] by simp
    have dis: "done_nodes g \<inter> todo_nodes g = {}" using Suc.prems(1) by (simp add: g_good_def g_inv_def)
    have nd: "?i \<notin> done_ecalls g" using i dis by (auto simp: nodes_def)
    have li: "?i < length (ecalls e)" "linked e (ECALL, ?i)" using linked_todo(1) [OF Suc.prems(1) i] by simp_all
    have less: "card ({..<length (ecalls e)} - insert ?i (done_ecalls g)) < n"
      using fewer_left [OF li(1) nd] Suc.prems(2) by simp
    show ?thesis
    proof (cases "\<not> has_indirect_parents ?c \<and> \<not> has_direct_parents ?c")
      case True
      let ?h = "g\<lparr>done_ecalls := insert ?i (done_ecalls g), todo_ecalls := todo_ecalls g - {?i}\<rparr>"
      have "callers e (ECALL, ?i) = {}" "edges_to e (ECALL, ?i) = []"
        using linked_entries(3,4) [OF li(2), simplified] True by (simp_all add: callers_def edges_to_type entry_call_def)
      then have "g_round e (ECALL, ?i) g ?h" by (auto simp: g_round_def nodes_def)
      then have "g_good e s ?h" using g_good_round [OF Suc.prems(1), of "(ECALL, ?i)" ?h] i by simp
      then show ?thesis using Suc.IH [of ?h] less Suc.prems(3,4) False True li(1) by (simp add: Let_def)
    next
      case nf: False
      obtain h where h: "ecall_step e ?i g = Inr h" "g_round e (ECALL, ?i) g h" "done_ecalls h = insert ?i (done_ecalls g)"
        using ecall_step_ok [OF li(2) i dis] by blast
      have gh: "g_good e s h" using g_good_round [OF Suc.prems(1) _ h(2)] i by simp
      have "card ({..<length (ocalls e)} - done_ocalls h) < k"
        using card_mono [of "{..<length (ocalls e)}" "{..<length (ocalls e)} - done_ocalls h"] Suc.prems(3) by simp
      from ocall_loop_ok [OF gh this, of "st_calls (all_stats ?c)"] obtain h' where
        h': "ocall_loop k e (st_calls (all_stats ?c)) h = Inr h'" "g_good e s h'" "todo_ocalls h' = {}" "done_ecalls h' = done_ecalls h" by blast
      then show ?thesis using Suc.IH [OF h'(2)] less h(1,3) Suc.prems(3) False nf li(1) by (auto simp: fbind_def Let_def)
    qed
  qed (use Suc.prems in auto)
qed simp

lemma dot_ecall_graph_complete:
  assumes "graph_wf e" "start < length (ecalls e)" "length (ecalls e) < n" "length (ocalls e) < k"
  shows "\<exists>ls. dot_ecall_graph n k e start = Inr ls \<and> mset (edges ls) = (\<Sum>v \<in> origins e start. mset (edges_to e v))"
proof -
  let ?g = "\<lparr>g_lines = [GDigraphOf (cd_name (ecalls e ! start))], done_ecalls = {}, done_ocalls = {}, todo_ecalls = {start}, todo_ocalls = {}\<rparr>"
  have "g_good e start ?g" using assms(1,2) by (simp add: g_good_def g_inv_def nodes_def origins_def)
  from ecall_loop_ok [OF this _ assms(4), of n] assms(3) obtain h where
    h: "ecall_loop n k e ?g = Inr h" "g_good e start h" "todo_ecalls h = {}" "todo_ocalls h = {}" by auto
  have I: "(ECALL, start) \<in> done_nodes h" "done_nodes h \<subseteq> origins e start" "\<forall>v \<in> done_nodes h. callers e v \<subseteq> done_nodes h"
    "mset (edges (g_lines h)) = (\<Sum>v \<in> done_nodes h. mset (edges_to e v))"
    using h(2-4) by (auto simp: g_good_def g_inv_def nodes_def)
  have "u \<in> done_nodes h" if "((ECALL, start), u) \<in> {(v, u). u \<in> callers e v}\<^sup>*" for u
    using that by induction (use I(1,3) in auto)
  then have "origins e start = done_nodes h" using I(2) by (auto simp: origins_def)
  then show ?thesis using h(1) assms(2) I(4) by (simp add: dot_ecall_graph_def fbind_def)
qed

end
