(* ===== verification/GraphLoad.thy ===== *)
theory GraphLoad
  imports GraphOk
begin

text \<open>
  The tables the graphs and the security hints work on: what loading the calls and computing the statistics leave in them.
\<close>

section \<open>Loading sets the flags\<close>

definition flags_ok :: "call_data \<Rightarrow> bool" where
  "flags_ok c \<longleftrightarrow> (\<not> has_indirect_parents c \<longrightarrow> (\<forall>p \<in> set (indirect_parents_data c). pc_count p = 0)) \<and>
     (\<not> has_direct_parents c \<longrightarrow> (\<forall>p \<in> set (direct_parents_data c). pc_count p = 0))"

definition all_flags :: "analysis \<Rightarrow> bool" where
  "all_flags a \<longleftrightarrow> (\<forall>eid. \<forall>c \<in> set (ecalls (encl_of a eid)) \<union> set (ocalls (encl_of a eid)). flags_ok c)"

lemma all_flags_nth:
  assumes "all_flags a" "ty \<noteq> UNDEF" "i < length (calls_of ty (encl_of a eid))"
  shows "flags_ok (calls_of ty (encl_of a eid) ! i)"
proof -
  have "calls_of ty (encl_of a eid) ! i \<in> set (ecalls (encl_of a eid)) \<union> set (ocalls (encl_of a eid))"
    using assms(2,3) nth_mem [OF assms(3)] by (cases ty) auto
  then show ?thesis using assms(1) unfolding all_flags_def by blast
qed

lemma relate_call_flags:
  "relate_call ty r t c = Inr (c', t') \<Longrightarrow> flags_ok c \<Longrightarrow> flags_ok c'"
  by (auto simp: relate_call_def fbind_def note_direct_def note_indirect_def at_upd_def flags_ok_def Let_def
      split: sum.splits option.splits if_splits)

lemma flags_ok_add [simp]: "flags_ok (add_exectime r c) = flags_ok c" "flags_ok (add_aex r c) = flags_ok c"
  by (simp_all add: flags_ok_def add_exectime_def add_aex_def split: option.split)

lemma all_flags_upd:
  assumes "all_flags a" "set (ecalls (f (encl_of a eid))) \<union> set (ocalls (f (encl_of a eid))) \<subseteq> insert c (set (ecalls (encl_of a eid)) \<union> set (ocalls (encl_of a eid)))"
    "flags_ok c"
  shows "all_flags (upd_athread tid g (upd_encl eid f a))"
  using assms unfolding all_flags_def by (auto split: if_splits)

lemma callback_flags:
  assumes r: "call_data_callback r a = Inr b" and fl: "all_flags a"
  shows "all_flags b"
proof -
  let ?e = "encl_of a (cr_eid r)" and ?i = "unat (cr_call_id r)" and ?t = "thread_of a (cr_thread r)"
  consider (e) c t' where "cr_type r = 15" "?i < length (ecalls ?e)" "relate_call ECALL r ?t (add_exectime r (add_aex r (ecalls ?e ! ?i))) = Inr (c, t')"
  | (o) c t' where "cr_type r = 17" "?i < length (ocalls ?e)" "relate_call OCALL r ?t (add_exectime r (ocalls ?e ! ?i)) = Inr (c, t')"
  | (n) "b = a"
    using r by (auto simp: call_data_callback_def Let_def fbind_def not_le split: if_splits sum.splits)
  then show ?thesis
  proof cases
    case e
    have c: "flags_ok c" using relate_call_flags [OF e(3)] all_flags_nth [OF fl, of ECALL] e(2) by simp
    show ?thesis
      using r e unfolding call_data_callback_def
      by (auto simp: Let_def fbind_def intro!: all_flags_upd [OF fl _ c] dest!: set_update_subset_insert [THEN subsetD])
  next
    case o
    have c: "flags_ok c" using relate_call_flags [OF o(3)] all_flags_nth [OF fl, of OCALL] o(2) by simp
    show ?thesis
      using r o unfolding call_data_callback_def
      by (auto simp: Let_def fbind_def intro!: all_flags_upd [OF fl _ c] dest!: set_update_subset_insert [THEN subsetD])
  qed (use fl in simp)
qed

lemma load_calls_flags: "load_calls rows a = Inr b \<Longrightarrow> all_flags a \<Longrightarrow> all_flags b"
proof (induction rows arbitrary: a)
  case (Cons r rows)
  then show ?case using callback_flags by (auto simp: fbind_def split: sum.splits)
qed simp

lemma direct_pcd_call: "pc_count (direct_pcd ty k ps) \<noteq> 0 \<Longrightarrow> pc_call (direct_pcd ty k ps) = Some (ty, k)"
  by (cases ps rule: rev_cases) (auto simp: direct_pcd_def zero_pcd_def bump_direct_def Let_def)

lemma indirect_pcd_call: "pc_count (indirect_pcd ty k ps) \<noteq> 0 \<Longrightarrow> pc_call (indirect_pcd ty k ps) = Some (ty, k)"
  by (cases ps rule: rev_cases) (auto simp: indirect_pcd_def zero_pcd_def bump_indirect_def Let_def)

lemma cd_ok_entries:
  assumes "cd_ok nd ni rows eid ty i c"
  shows "entries_ok ty ni (indirect_parents_data c)" "entries_ok (other_type ty) nd (direct_parents_data c)"
  using assms by (auto simp: cd_ok_def entries_ok_def direct_pcd_call indirect_pcd_call)

lemma loaded_graph_wf:
  assumes "load_tables gs es os ts = Inr a0" "good_rows a0 rows" "load_calls rows a0 = Inr a"
  shows "graph_wf (encl_of a eid)"
proof -
  have inv0: "load_inv [] a0 a0" by (rule load_tables_inv [OF assms(1)])
  have inv: "load_inv rows a0 a" using load_calls_inv [OF inv0 assms(2)] assms(3) by auto
  have z: "\<forall>c \<in> set (calls_of ty (encl_of a0 eid)). flags_ok c" if "ty \<noteq> UNDEF" for ty eid
  proof
    fix c assume "c \<in> set (calls_of ty (encl_of a0 eid))"
    then obtain i where i: "i < length (calls_of ty (encl_of a0 eid))" "c = call_of a0 eid ty i" by (auto simp: in_set_conv_nth call_of_def)
    from load_inv_call [OF inv0 that i(1)] i(2) show "flags_ok c"
      by (auto simp: cd_ok_def flags_ok_def pairs_for_def direct_pcd_def indirect_pcd_def zero_pcd_def)
  qed
  have "all_flags a0" using z [of ECALL] z [of OCALL] by (auto simp: all_flags_def)
  then have fl: "all_flags a" by (rule load_calls_flags [OF assms(3)])
  have "linked (encl_of a eid) (ty, i)" if ty: "ty \<noteq> UNDEF" and i: "i < length (calls_of ty (encl_of a eid))" for ty i
  proof -
    have l: "length (calls_of t (encl_of a eid)) = length (calls_of t (encl_of a0 eid))" if "t \<noteq> UNDEF" for t
      using inv that by (simp add: load_inv_def)
    have "flags_ok (call_of a eid ty i)"
      using all_flags_nth [OF fl ty i] by (simp add: call_of_def)
    then show ?thesis
      using cd_ok_entries [OF load_inv_call [OF inv ty]] i l [OF ty] l [of "other_type ty"]
      by (simp add: linked_def Let_def entry_call_def call_of_def flags_ok_def)
  qed
  then show ?thesis by (auto simp: graph_wf_def calls_in_def)
qed

section \<open>Statistics keep the graph\<close>

definition same_links :: "call_data \<Rightarrow> call_data \<Rightarrow> bool" where
  "same_links c d \<longleftrightarrow> cd_name d = cd_name c \<and> cd_call_id d = cd_call_id c \<and> direct_parents_data d = direct_parents_data c \<and>
     indirect_parents_data d = indirect_parents_data c \<and> has_direct_parents d = has_direct_parents c \<and>
     has_indirect_parents d = has_indirect_parents c"

lemma map_sum_Inr: "map_sum id f m = Inr y \<longleftrightarrow> (\<exists>x. m = Inr x \<and> y = f x)"
  by (cases m) auto

lemma stats_links: "ecall_stats c = Inr d \<Longrightarrow> same_links c d" "ocall_stats c = Inr d \<Longrightarrow> same_links c d"
  by (auto simp: ecall_stats_def ocall_stats_def stats_all_def stats_95_def fbind_def Let_def same_links_def map_sum_Inr split: sum.splits)

lemma parallel_blocks_concat: "concat (parallel_blocks hw xs) = xs"
  by (simp add: parallel_blocks_def Let_def concat_split_blocks)

lemma map_fault_all2: "map_fault f xs = Inr ys \<Longrightarrow> list_all2 (\<lambda>x y. f x = Inr y) xs ys"
  by (induction xs arbitrary: ys) (auto simp: fbind_def map_sum_Inr split: sum.splits)

lemma parallel_all2: "parallel_for_each hw f xs = Inr ys \<Longrightarrow> list_all2 (\<lambda>x y. f x = Inr y) xs ys"
  using map_fault_concat [of f "parallel_blocks hw xs"] by (simp add: parallel_for_each_def parallel_blocks_concat map_fault_all2)

definition same_calls :: "enclave_data \<Rightarrow> enclave_data \<Rightarrow> bool" where
  "same_calls e f \<longleftrightarrow> list_all2 same_links (ecalls e) (ecalls f) \<and> list_all2 same_links (ocalls e) (ocalls f)"

lemma enclave_stats_links: "enclave_stats hw e = Inr f \<Longrightarrow> same_calls e f"
  by (auto simp: enclave_stats_def fbind_def same_calls_def stats_links split: sum.splits dest!: parallel_all2 elim!: list_all2_mono)

lemma map_of_all2:
  "list_all2 (\<lambda>x y. map_sum id (Pair (fst x)) (f (snd x)) = Inr y) xs ys \<Longrightarrow>
    (case map_of xs k of None \<Rightarrow> map_of ys k = None | Some v \<Rightarrow> \<exists>w. f v = Inr w \<and> map_of ys k = Some w)"
proof (induction rule: list_all2_induct)
  case (Cons x xs y ys)
  then show ?case by (cases x; cases "f (snd x)"; cases "map_of xs k") auto
qed simp

lemma generate_stats_links:
  assumes "generate_stats hw a = Inr b"
  shows "same_calls (encl_of a eid) (encl_of b eid)"
proof -
  obtain es where es: "parallel_for_each hw (\<lambda>(k, e). map_sum id (Pair k) (enclave_stats hw e)) (encls a) = Inr es" "b = a\<lparr>encls := es\<rparr>"
    using assms unfolding generate_stats_def by (cases "parallel_for_each hw (\<lambda>(k, e). map_sum id (Pair k) (enclave_stats hw e)) (encls a)") auto
  have "list_all2 (\<lambda>x y. map_sum id (Pair (fst x)) (enclave_stats hw (snd x)) = Inr y) (encls a) es"
    using parallel_all2 [OF es(1)] by (simp add: case_prod_beta)
  from map_of_all2 [OF this, of eid] show ?thesis
    using enclave_stats_links by (auto simp: encl_of_def amap_get_def es(2) same_calls_def new_enclave_data_def split: option.splits)
qed

lemma same_calls_graph:
  assumes "same_calls e f" "graph_wf e"
  shows "graph_wf f"
proof -
  have len: "length (calls_of ty f) = length (calls_of ty e)" for ty
    using assms(1) by (auto simp: same_calls_def calls_of_def list_all2_lengthD)
  have nth: "same_links (entry_call e (ty, i)) (entry_call f (ty, i))" if "i < length (calls_of ty e)" for ty i
    using assms(1) that by (auto simp: same_calls_def calls_of_def entry_call_def list_all2_conv_all_nth)
  have "linked f v" if v: "v \<in> calls_in f" for v
  proof -
    obtain ty i where ty: "v = (ty, i)" "ty \<noteq> UNDEF" "i < length (calls_of ty f)" using v by (auto simp: calls_in_def)
    then have "v \<in> calls_in e" using len [of ty] by (cases ty) (auto simp: calls_in_def)
    then have "linked e (ty, i)" using assms(2) ty by (simp add: graph_wf_def)
    then show ?thesis using nth [of i ty] ty len by (simp add: linked_def Let_def same_links_def)
  qed
  then show ?thesis by (simp add: graph_wf_def)
qed

section \<open>Statistics do not fault\<close>

lemma stats_95_total:
  assumes "length (exectimes c) < 2 ^ 53"
  shows "\<exists>d. stats_95 c = Inr d"
proof -
  let ?w = "of_nat (length (exectimes c)) :: u64"
  have w: "unat ?w = length (exectimes c)" using assms by (intro unat_of_nat_u64) simp
  have "unat (percentile_idx (lit (95 / 100)) ?w) \<le> length (exectimes c)"
  proof (cases "exectimes c = []")
    case False
    then show ?thesis using percentile_idx_eq [of ?w "rnd (95 / 100)"] w assms unfolding lit_def by simp
  qed (simp add: lit_def)
  then show ?thesis
    using calc_stats_total [of "(stats_95th c)\<lparr>st_sum := sum_list (take (unat (percentile_idx (lit (95 / 100)) ?w)) (exectimes c)),
      st_calls := percentile_idx (lit (95 / 100)) ?w\<rparr>" "exectimes c"]
    by (auto simp: stats_95_def Let_def)
qed

lemma stats_all_total:
  assumes "length (exectimes c) < 2 ^ 53"
  shows "\<exists>d. stats_all c = Inr d \<and> length (exectimes d) = length (exectimes c)"
proof -
  have "unat (of_nat (length (exectimes c)) :: u64) = length (exectimes c)" using assms by (intro unat_of_nat_u64) simp
  then show ?thesis
    using calc_stats_total [of "(all_stats c)\<lparr>st_calls := of_nat (length (exectimes c))\<rparr>" "sort (exectimes c)"]
    by (auto simp: stats_all_def Let_def)
qed

lemma stats_total:
  assumes "length (exectimes c) < 2 ^ 53"
  shows "\<exists>d. ecall_stats c = Inr d" "\<exists>d. ocall_stats c = Inr d"
proof -
  obtain d where d: "stats_all c = Inr d" "length (exectimes d) = length (exectimes c)" using stats_all_total [OF assms] by blast
  show "\<exists>d. ecall_stats c = Inr d" "\<exists>d. ocall_stats c = Inr d"
    using d stats_95_total [of d] stats_95_total [of "d\<lparr>aex_stats := calc_aex_stats (aex_stats d) (aex_counts d)\<rparr>"] assms
    by (simp_all add: ecall_stats_def ocall_stats_def fbind_def)
qed

lemma map_fault_total: "(\<forall>x \<in> set xs. \<exists>y. f x = Inr y) \<Longrightarrow> \<exists>ys. map_fault f xs = Inr ys"
  by (induction xs) (auto simp: fbind_def)

lemma parallel_total: "(\<forall>x \<in> set xs. \<exists>y. f x = Inr y) \<Longrightarrow> \<exists>ys. parallel_for_each hw f xs = Inr ys"
  using map_fault_concat [of f "parallel_blocks hw xs"] map_fault_total [of xs f] by (auto simp: parallel_for_each_def parallel_blocks_concat)

definition few_calls :: "nat \<Rightarrow> analysis \<Rightarrow> bool" where
  "few_calls n a \<longleftrightarrow> list_all (\<lambda>(eid, e). list_all (\<lambda>c. length (exectimes c) < n) (ecalls e @ ocalls e)) (encls a)"

lemma generate_stats_total: "few_calls n a \<Longrightarrow> n \<le> 2 ^ 53 \<Longrightarrow> \<exists>b. generate_stats hw a = Inr b"
proof -
  assume c: "few_calls n a" and n: "n \<le> 2 ^ 53"
  have "\<exists>f. enclave_stats hw e = Inr f" if "(eid, e) \<in> set (encls a)" for eid e
  proof -
    have "\<forall>c \<in> set (ecalls e @ ocalls e). length (exectimes c) < n" using c that by (auto simp: few_calls_def list_all_iff)
    then have "\<forall>c \<in> set (ecalls e @ ocalls e). length (exectimes c) < 2 ^ 53" using n less_le_trans by blast
    then have "\<forall>c \<in> set (ecalls e). \<exists>d. ecall_stats c = Inr d" "\<forall>c \<in> set (ocalls e). \<exists>d. ocall_stats c = Inr d" using stats_total by auto
    then obtain es os where "parallel_for_each hw ecall_stats (ecalls e) = Inr es" "parallel_for_each hw ocall_stats (ocalls e) = Inr os"
      using parallel_total by meson
    then show ?thesis by (simp add: enclave_stats_def fbind_def)
  qed
  then have "\<forall>x \<in> set (encls a). \<exists>y. (case x of (k, e) \<Rightarrow> map_sum id (Pair k) (enclave_stats hw e)) = Inr y"
    by (fastforce simp: map_sum_Inr)
  from parallel_total [OF this, of hw] show ?thesis by (auto simp: generate_stats_def)
qed

section \<open>The claim\<close>

text \<open>C25: After the calls have been loaded and their statistics computed, the search for the graph of an ecall ends after at most one round per
  ecall, and one per ocall in each of them, without a fault; the edges it shows are exactly those that end at the ecall or at
  a call from which it can be reached, each of them once.\<close>

theorem ecall_graph_complete:
  assumes "load_tables gs es os ts = Inr a0" "good_rows a0 rows" "load_calls rows a0 = Inr a" "generate_stats hw a = Inr b"
    and "start < length (ecalls (encl_of b eid))" "length (ecalls (encl_of b eid)) < n" "length (ocalls (encl_of b eid)) < k"
  shows "\<exists>ls. dot_ecall_graph n k (encl_of b eid) start = Inr ls \<and>
    mset (edges ls) = (\<Sum>v \<in> origins (encl_of b eid) start. mset (edges_to (encl_of b eid) v))"
  using dot_ecall_graph_complete [OF same_calls_graph [OF generate_stats_links [OF assms(4)] loaded_graph_wf [OF assms(1-3)]] assms(5-)] .

definition ex_loaded :: analysis where
  "ex_loaded = projr (load_calls ex_rows ex_tables)"

lemma ex_loaded_eq: "load_calls ex_rows ex_tables = Inr ex_loaded" "few_calls 10 ex_loaded"
  "length (ecalls (encl_of ex_loaded 2)) = 2" "length (ocalls (encl_of ex_loaded 2)) = 1"
  by code_simp+

theorem ecall_graph_complete_witness:
  "\<exists>b ls. generate_stats 1 ex_loaded = Inr b \<and> dot_ecall_graph 3 2 (encl_of b 2) 1 = Inr ls \<and>
    mset (edges ls) = (\<Sum>v \<in> origins (encl_of b 2) 1. mset (edges_to (encl_of b 2) v))"
proof -
  obtain b where b: "generate_stats 1 ex_loaded = Inr b" using generate_stats_total [OF ex_loaded_eq(2)] by auto
  have "length (ecalls (encl_of b 2)) = 2" "length (ocalls (encl_of b 2)) = 1"
    using generate_stats_links [OF b, of 2] ex_loaded_eq(3,4) by (auto simp: same_calls_def dest!: list_all2_lengthD)
  with ecall_graph_complete [OF ex_tables_loaded(1,2) ex_loaded_eq(1) b, of 1 2 3 2] b show ?thesis by auto
qed

end
