(* ===== verification/SecurityOk.thy ===== *)
theory SecurityOk
  imports EdlOk GraphLoad
begin

text \<open>
  The security hints: the interface that is printed for an ocall is the one its recorded calls need, a declaration of the EDL file is read
  as it was written, and where comments and the comparison with the file go wrong.
\<close>

section \<open>The ecalls made in an ocall\<close>

lemma length_related: "length (related f rows) \<le> length rows"
  by (induction rows rule: rev_induct) (auto split: option.split)

lemma of_nat_0_length:
  assumes "unat (of_nat (length xs) :: u64) = length xs"
  shows "(of_nat (length xs) :: u64) = 0 \<longleftrightarrow> xs = []"
proof
  assume "(of_nat (length xs) :: u64) = 0"
  then have "unat (of_nat (length xs) :: u64) = 0" by (simp only: unsigned_0)
  with assms show "xs = []" by simp
qed simp

lemma loaded_direct:
  assumes "load_tables gs es os ts = Inr a0" "good_rows a0 rows" "load_calls rows a0 = Inr a" "generate_stats hw a = Inr b"
    and "i < length (ecalls (encl_of b eid))" "k < length (ocalls (encl_of b eid))"
  shows "length (direct_parents_data (ecalls (encl_of b eid) ! i)) = length (ocalls (encl_of b eid))"
    "pc_count (direct_parents_data (ecalls (encl_of b eid) ! i) ! k) = of_nat (length (pairs_for parent_in eid ECALL i k rows))"
proof -
  have inv0: "load_inv [] a0 a0" by (rule load_tables_inv [OF assms(1)])
  have inv: "load_inv rows a0 a" using load_calls_inv [OF inv0 assms(2)] assms(3) by auto
  have sc: "same_calls (encl_of a eid) (encl_of b eid)" by (rule generate_stats_links [OF assms(4)])
  have len: "length (ecalls (encl_of b eid)) = length (ecalls (encl_of a0 eid))" "length (ocalls (encl_of b eid)) = length (ocalls (encl_of a0 eid))"
  proof -
    have "length (calls_of ty (encl_of a eid)) = length (calls_of ty (encl_of a0 eid))" if "ty \<noteq> UNDEF" for ty
      using inv that by (simp add: load_inv_def)
    from this [of ECALL] this [of OCALL] sc show "length (ecalls (encl_of b eid)) = length (ecalls (encl_of a0 eid))"
      "length (ocalls (encl_of b eid)) = length (ocalls (encl_of a0 eid))"
      by (auto simp: same_calls_def dest!: list_all2_lengthD)
  qed
  have "direct_parents_data (ecalls (encl_of b eid) ! i) = direct_parents_data (call_of a eid ECALL i)"
    using sc assms(5) by (auto simp: same_calls_def list_all2_conv_all_nth same_links_def call_of_def)
  moreover have "cd_ok (length (ocalls (encl_of a0 eid))) (length (ecalls (encl_of a0 eid))) rows eid ECALL i (call_of a eid ECALL i)"
    using load_inv_call [OF inv, of ECALL i eid] assms(5) len(1) by simp
  ultimately show "length (direct_parents_data (ecalls (encl_of b eid) ! i)) = length (ocalls (encl_of b eid))"
    "pc_count (direct_parents_data (ecalls (encl_of b eid) ! i) ! k) = of_nat (length (pairs_for parent_in eid ECALL i k rows))"
    using len assms(6) by (simp_all add: cd_ok_def direct_pcd_counts [unfolded direct_counters_def])
qed

lemma map_fault_pick:
  assumes "\<forall>x \<in> set xs. f x = Inr (if P x then [g x] else [])"
  shows "map_sum id concat (map_fault f xs) = Inr (map g (filter P xs))"
  using assms
proof (induction xs)
  case (Cons x xs)
  then show ?case by (cases "map_fault f xs") (auto simp: fbind_def)
qed simp

lemma map_fault_map: "map_fault f (map g xs) = map_fault (\<lambda>x. f (g x)) xs"
  by (induction xs) auto

definition recorded_callers :: "u64 \<Rightarrow> nat \<Rightarrow> call_row list \<Rightarrow> enclave_data \<Rightarrow> string list" where
  "recorded_callers eid k rows e = map (\<lambda>i. cd_name (ecalls e ! i))
     (filter (\<lambda>i. \<exists>(r, q) \<in> set (related parent_in rows). of_call eid ECALL i r \<and> unat (cr_call_id q) = k) [0..<length (ecalls e)])"

lemma callers_of_loaded:
  assumes "load_tables gs es os ts = Inr a0" "good_rows a0 rows" "load_calls rows a0 = Inr a" "generate_stats hw a = Inr b"
    and k: "k < length (ocalls (encl_of b eid))" "unat (cd_call_id (ocalls (encl_of b eid) ! k)) = k" and n: "length rows < 2 ^ 64"
  shows "callers_of (encl_of b eid) (ocalls (encl_of b eid) ! k) = Inr (recorded_callers eid k rows (encl_of b eid))"
proof -
  let ?e = "encl_of b eid"
  let ?f = "\<lambda>ecd. map_sum id (\<lambda>od. if pc_count od = 0 then [] else [cd_name ecd]) (pcd_at (cd_call_id (ocalls ?e ! k)) (direct_parents_data ecd))"
  let ?P = "\<lambda>i. \<exists>(r, q) \<in> set (related parent_in rows). of_call eid ECALL i r \<and> unat (cr_call_id q) = k"
  have "?f (ecalls ?e ! i) = Inr (if ?P i then [cd_name (ecalls ?e ! i)] else [])" if i: "i < length (ecalls ?e)" for i
  proof -
    note D = loaded_direct [OF assms(1-4) i k(1)]
    have "length (pairs_for parent_in eid ECALL i k rows) \<le> length rows"
      unfolding pairs_for_def using length_related [of parent_in rows] length_filter_le le_trans by blast
    then have "unat (of_nat (length (pairs_for parent_in eid ECALL i k rows)) :: u64) = length (pairs_for parent_in eid ECALL i k rows)"
      using n by (intro unat_of_nat_u64) simp
    then have "(of_nat (length (pairs_for parent_in eid ECALL i k rows)) :: u64) = 0 \<longleftrightarrow> pairs_for parent_in eid ECALL i k rows = []"
      by (rule of_nat_0_length)
    moreover have "pairs_for parent_in eid ECALL i k rows = [] \<longleftrightarrow> \<not> ?P i" by (auto simp: pairs_for_def filter_empty_conv)
    ultimately show ?thesis using D k by (simp add: pcd_at_def)
  qed
  then have "map_sum id concat (map_fault (\<lambda>i. ?f (ecalls ?e ! i)) [0..<length (ecalls ?e)]) =
      Inr (map (\<lambda>i. cd_name (ecalls ?e ! i)) (filter ?P [0..<length (ecalls ?e)]))"
    by (intro map_fault_pick) simp
  moreover have "map_fault ?f (ecalls ?e) = map_fault (\<lambda>i. ?f (ecalls ?e ! i)) [0..<length (ecalls ?e)]"
    using map_fault_map [of ?f "(!) (ecalls ?e)" "[0..<length (ecalls ?e)]"] unfolding map_nth .
  ultimately show ?thesis unfolding callers_of_def recorded_callers_def by (simp only:)
qed

lemma interface_text_shown:
  "name \<noteq> [] \<Longrightarrow> last name \<noteq> CHR '')'' \<Longrightarrow> 2 \<le> length (interface_text name names) \<and>
    (interface_text name names ! (length (interface_text name names) - 2) = CHR '')'' \<longleftrightarrow> names \<noteq> [])"
  by (cases names) (auto simp: interface_text_def nth_append last_conv_nth Suc_le_eq)

text \<open>C27: The interface printed for an ocall without an EDL file is the narrowest one the recorded calls allow: it names exactly the ecalls
  that were made in a call of this ocall on the same thread, and an ocall in which none was made is not printed.\<close>

theorem narrowest_interface:
  assumes "load_tables gs es os ts = Inr a0" "good_rows a0 rows" "load_calls rows a0 = Inr a" "generate_stats hw a = Inr b"
    and "k < length (ocalls (encl_of b eid))" "unat (cd_call_id (ocalls (encl_of b eid) ! k)) = k" "length rows < 2 ^ 64"
    and "cd_name (ocalls (encl_of b eid) ! k) \<noteq> []" "last (cd_name (ocalls (encl_of b eid) ! k)) \<noteq> CHR '')''"
  defines "names \<equiv> recorded_callers eid k rows (encl_of b eid)"
  shows "interface_hint (encl_of b eid) (ocalls (encl_of b eid) ! k) =
    Inr (if names = [] then [] else [Interface (interface_text (cd_name (ocalls (encl_of b eid) ! k)) names)])"
  using callers_of_loaded [OF assms(1-7)] interface_text_shown [OF assms(8,9), of names]
  by (auto simp: interface_hint_def fbind_def Let_def names_def)

lemma ex_loaded_names: "map cd_name (ecalls (encl_of ex_loaded 2)) = [''a'', ''b'']" "map cd_name (ocalls (encl_of ex_loaded 2)) = [''o'']"
  "map cd_call_id (ocalls (encl_of ex_loaded 2)) = [0]" "length ex_rows = 5"
  "filter (\<lambda>i. \<exists>(r, q) \<in> set (related parent_in ex_rows). of_call 2 ECALL i r \<and> unat (cr_call_id q) = 0) [0..<2] = [1]"
  by code_simp+

lemma same_calls_names:
  assumes "same_calls e f"
  shows "map cd_name (ecalls f) = map cd_name (ecalls e)" "map cd_name (ocalls f) = map cd_name (ocalls e)"
    "map cd_call_id (ocalls f) = map cd_call_id (ocalls e)"
  using assms by (auto simp: same_calls_def list_all2_conv_all_nth same_links_def intro!: nth_equalityI)

lemma map_single: "map f xs = [y] \<Longrightarrow> 0 < length xs \<and> f (xs ! 0) = y"
  by auto

lemma ex_stats:
  obtains b where "generate_stats 1 ex_loaded = Inr b" "recorded_callers 2 0 ex_rows (encl_of b 2) = [''b'']"
    "0 < length (ocalls (encl_of b 2))" "unat (cd_call_id (ocalls (encl_of b 2) ! 0)) = 0" "cd_name (ocalls (encl_of b 2) ! 0) = ''o''"
proof -
  obtain b where b: "generate_stats 1 ex_loaded = Inr b" using generate_stats_total [OF ex_loaded_eq(2)] by auto
  note N = same_calls_names [OF generate_stats_links [OF b, of 2], unfolded ex_loaded_names]
  have "length (ecalls (encl_of b 2)) = 2" using arg_cong [where f = length, OF N(1)] by simp
  moreover from this have "cd_name (ecalls (encl_of b 2) ! 1) = ''b''" using arg_cong [where f = "\<lambda>xs. xs ! 1", OF N(1)] by simp
  ultimately have "recorded_callers 2 0 ex_rows (encl_of b 2) = [''b'']" unfolding recorded_callers_def using ex_loaded_names(5) by simp
  with b map_single [OF N(2)] map_single [OF N(3)] show thesis by (intro that [of b]) simp_all
qed

theorem narrowest_interface_witness:
  "\<exists>b. generate_stats 1 ex_loaded = Inr b \<and> interface_hint (encl_of b 2) (ocalls (encl_of b 2) ! 0) = Inr [Interface ''o allow (b);'']"
proof -
  obtain b where b: "generate_stats 1 ex_loaded = Inr b" "recorded_callers 2 0 ex_rows (encl_of b 2) = [''b'']"
    and o: "0 < length (ocalls (encl_of b 2))" "unat (cd_call_id (ocalls (encl_of b 2) ! 0)) = 0" "cd_name (ocalls (encl_of b 2) ! 0) = ''o''"
    by (rule ex_stats)
  have "length ex_rows < 2 ^ 64" using ex_loaded_names(4) by simp
  from narrowest_interface [OF ex_tables_loaded(1,2) ex_loaded_eq(1) b(1) o(1,2) this] b o(3) show ?thesis
    by (simp add: interface_text_def)
qed

text \<open>What the comparison with the EDL file reports for an ocall are the ecalls that were made in it and that the file does not allow, so that
  nothing is reported when the file allows ecalls that were never made in it, the case the hint is meant for.\<close>

lemma narrowing_reversed:
  assumes "load_tables gs es os ts = Inr a0" "good_rows a0 rows" "load_calls rows a0 = Inr a" "generate_stats hw a = Inr b"
    and "k < length (ocalls (encl_of b eid))" "unat (cd_call_id (ocalls (encl_of b eid) ! k)) = k" "length rows < 2 ^ 64"
    and "decls (cd_name (ocalls (encl_of b eid) ! k)) = Some allowed"
  defines "made \<equiv> set (recorded_callers eid k rows (encl_of b eid))"
  shows "\<exists>hs. narrow_hint decls (encl_of b eid) (ocalls (encl_of b eid) ! k) = Inr hs \<and>
    (\<forall>nm S. CanBeNarrowed nm S \<in> set hs \<longrightarrow> S = made - allowed) \<and> (hs = [] \<longleftrightarrow> made \<subseteq> allowed)"
  using callers_of_loaded [OF assms(1-7)] assms(8) by (auto simp: narrow_hint_def fbind_def Let_def made_def)

lemma narrowing_reversed_witness:
  "\<exists>b. generate_stats 1 ex_loaded = Inr b \<and>
    narrow_hint [''o'' \<mapsto> {''a'', ''b'', ''c''}] (encl_of b 2) (ocalls (encl_of b 2) ! 0) = Inr []"
proof -
  obtain b where b: "generate_stats 1 ex_loaded = Inr b" "recorded_callers 2 0 ex_rows (encl_of b 2) = [''b'']"
    and o: "0 < length (ocalls (encl_of b 2))" "unat (cd_call_id (ocalls (encl_of b 2) ! 0)) = 0" "cd_name (ocalls (encl_of b 2) ! 0) = ''o''"
    by (rule ex_stats)
  have "length ex_rows < 2 ^ 64" using ex_loaded_names(4) by simp
  from narrowing_reversed [OF ex_tables_loaded(1,2) ex_loaded_eq(1) b(1) o(1,2) this, of "[''o'' \<mapsto> {''a'', ''b'', ''c''}]" "{''a'', ''b'', ''c''}"]
    b o(3) show ?thesis by auto
qed

end
