(* ===== verification/Events.thy ===== *)
theory Events
  imports SgxPrelude
begin

text \<open>
  The event classes of \<^verbatim>\<open>src/logger/src/events.h\<close>: the type numbers, the objects with their
  base-class fields, how each class binds itself to the insert statement of the
  \<open>events\<close> table, and the recursive insertion of the events an event refers to.

  Objects live in a list; a pointer is an index. An event is never freed, so a pointer stays
  valid. The \<open>events\<close> table is the list of its rows: the row with id \<open>k + 1\<close> is element \<open>k\<close>,
  as the autoincrement key numbers them.
\<close>

section \<open>Event types\<close>

datatype event_type =
    Event | SignalEvent | ThreadEvent | ThreadCreationEvent | ThreadCreatorEvent
  | ThreadDestructionEvent | ThreadSetNameEvent | EnclaveEvent | EnclaveCreationEvent
  | EnclaveDestructionEvent | EnclavePagingEvent | EnclavePageOutEvent | EnclavePageInEvent
  | EnclaveCallEvent | EnclaveECallEvent | EnclaveECallReturnEvent | EnclaveOCallEvent
  | EnclaveOCallReturnEvent | EnclaveSyncWaitEvent | EnclaveSyncSetEvent | EnclaveAEXEvent

definition event_types :: "event_type list" where
  "event_types =
     [Event, SignalEvent, ThreadEvent, ThreadCreationEvent, ThreadCreatorEvent,
      ThreadDestructionEvent, ThreadSetNameEvent, EnclaveEvent, EnclaveCreationEvent,
      EnclaveDestructionEvent, EnclavePagingEvent, EnclavePageOutEvent, EnclavePageInEvent,
      EnclaveCallEvent, EnclaveECallEvent, EnclaveECallReturnEvent, EnclaveOCallEvent,
      EnclaveOCallReturnEvent, EnclaveSyncWaitEvent, EnclaveSyncSetEvent, EnclaveAEXEvent]"

fun type_id :: "event_type \<Rightarrow> nat" where
  "type_id Event = 0"
| "type_id SignalEvent = 1"
| "type_id ThreadEvent = 2"
| "type_id ThreadCreationEvent = 3"
| "type_id ThreadCreatorEvent = 4"
| "type_id ThreadDestructionEvent = 5"
| "type_id ThreadSetNameEvent = 6"
| "type_id EnclaveEvent = 7"
| "type_id EnclaveCreationEvent = 8"
| "type_id EnclaveDestructionEvent = 9"
| "type_id EnclavePagingEvent = 10"
| "type_id EnclavePageOutEvent = 11"
| "type_id EnclavePageInEvent = 12"
| "type_id EnclaveCallEvent = 13"
| "type_id EnclaveECallEvent = 14"
| "type_id EnclaveECallReturnEvent = 15"
| "type_id EnclaveOCallEvent = 16"
| "type_id EnclaveOCallReturnEvent = 17"
| "type_id EnclaveSyncWaitEvent = 18"
| "type_id EnclaveSyncSetEvent = 19"
| "type_id EnclaveAEXEvent = 20"

section \<open>Objects\<close>

type_synonym ev_ptr = nat

datatype thread_sub =
    ThreadPlain
  | ThreadCreation (tc_arg: u64)
  | ThreadCreator (tc_start_function: u64) (tc_ret: u32)
  | ThreadDestruction (td_ret: u64)
  | ThreadSetName (ts_name: string) (ts_ret: u32)

datatype paging_kind = PagingPlain | PageOut | PageIn

datatype call_kind = CallPlain | ECallKind (aex_counter: u64) | OCallKind

datatype enclave_sub =
    EnclavePlain
  | EnclaveCreation (ec_file_name: string) (ec_ret: u32) (ec_start: u64) (ec_end: u64)
  | EnclaveDestruction (ed_ret: u32)
  | EnclavePaging (pg_address: u64) (pg_kind: paging_kind)
  | EnclaveCall (call_id: u32) (call_arg: u64) (previous_call: "ev_ptr option") (call_kind: call_kind)
  | ECallReturn (er_ecall: ev_ptr) (er_ret: u32) (er_aex_count: u64)
  | OCallReturn (or_ocall: ev_ptr) (or_ret: u32)
  | SyncWait (sw_ocall: ev_ptr)
  | SyncSet (ss_ocall: ev_ptr) (ss_wait: ev_ptr)
  | AEX (ax_ecall: ev_ptr)

datatype ev_body =
    SignalB (sig_num: u32) (sig_fault_addr: u64) (sig_code: u32)
  | ThreadB (other_thread: u64) (other_thread_id: u64) (thread_sub: thread_sub)
  | EnclaveB (ev_eid: u64) (enclave_sub: enclave_sub)

record event =
  ev_time :: u64
  ev_thread :: u64
  ev_thread_id :: u64
  ev_sql_id :: u64
  ev_core :: u32
  ev_body :: ev_body

type_synonym heap = "event list"

fun timespec_ns :: "u64 \<times> u64 \<Rightarrow> u64" where
  "timespec_ns (tv_sec, tv_nsec) = tv_nsec + tv_sec * 1000000000"

definition new_event :: "u64 \<Rightarrow> u64 \<times> u64 \<Rightarrow> u32 \<Rightarrow> ev_body \<Rightarrow> event" where
  "new_event self now cpu b =
     \<lparr>ev_time = timespec_ns now, ev_thread = self, ev_thread_id = UINT64_MAX,
      ev_sql_id = UINT64_MAX, ev_core = cpu, ev_body = b\<rparr>"

fun thread_sub_type :: "thread_sub \<Rightarrow> event_type" where
  "thread_sub_type ThreadPlain = ThreadEvent"
| "thread_sub_type (ThreadCreation arg) = ThreadCreationEvent"
| "thread_sub_type (ThreadCreator f ret) = ThreadCreatorEvent"
| "thread_sub_type (ThreadDestruction ret) = ThreadDestructionEvent"
| "thread_sub_type (ThreadSetName name ret) = ThreadSetNameEvent"

fun paging_type :: "paging_kind \<Rightarrow> event_type" where
  "paging_type PagingPlain = EnclavePagingEvent"
| "paging_type PageOut = EnclavePageOutEvent"
| "paging_type PageIn = EnclavePageInEvent"

fun call_type :: "call_kind \<Rightarrow> event_type" where
  "call_type CallPlain = EnclaveCallEvent"
| "call_type (ECallKind n) = EnclaveECallEvent"
| "call_type OCallKind = EnclaveOCallEvent"

fun enclave_sub_type :: "enclave_sub \<Rightarrow> event_type" where
  "enclave_sub_type EnclavePlain = EnclaveEvent"
| "enclave_sub_type (EnclaveCreation f r a b) = EnclaveCreationEvent"
| "enclave_sub_type (EnclaveDestruction r) = EnclaveDestructionEvent"
| "enclave_sub_type (EnclavePaging a k) = paging_type k"
| "enclave_sub_type (EnclaveCall c a p k) = call_type k"
| "enclave_sub_type (ECallReturn e r n) = EnclaveECallReturnEvent"
| "enclave_sub_type (OCallReturn e r) = EnclaveOCallReturnEvent"
| "enclave_sub_type (SyncWait e) = EnclaveSyncWaitEvent"
| "enclave_sub_type (SyncSet e w) = EnclaveSyncSetEvent"
| "enclave_sub_type (AEX e) = EnclaveAEXEvent"

fun get_type :: "ev_body \<Rightarrow> event_type" where
  "get_type (SignalB n a c) = SignalEvent"
| "get_type (ThreadB t i b) = thread_sub_type b"
| "get_type (EnclaveB e b) = enclave_sub_type b"

section \<open>Binding to the insert statement\<close>

text \<open>
  A parameter of a prepared statement is bound by name: \<open>sqlite3_bind_parameter_index\<close> gives 0 for a
  name the statement does not have, and binding index 0 changes nothing (the callers ignore the
  error code). A parameter that is not bound is NULL. \<open>SReal n\<close> is the floating point number nearest
  to \<open>n\<close>, as which an integer literal beyond 64 bits signed is read.
\<close>

datatype param =
    P_type | P_time | P_involved_thread | P_core | P_other_thread | P_arg | P_start_function
  | P_return_value | P_name | P_eid | P_file_name | P_enclave_start | P_enclave_end | P_call_id
  | P_call_event | P_aex_count | P_start_address

datatype sql_val = SInt (sql_int: int) | SReal (sql_real: int) | SText (sql_text: string)

type_synonym row = "param \<rightharpoonup> sql_val"

text \<open>The parameters of the insert statement that \<open>create_summary\<close> prepares.\<close>

definition insert_params :: "param list" where
  "insert_params =
     [P_type, P_time, P_involved_thread, P_core, P_other_thread, P_arg, P_start_function,
      P_return_value, P_name, P_eid, P_file_name, P_enclave_start, P_enclave_end, P_call_id,
      P_call_event, P_aex_count]"

definition bind_val :: "param \<Rightarrow> sql_val \<Rightarrow> row \<Rightarrow> row" where
  "bind_val p v r = (if p \<in> set insert_params then r(p \<mapsto> v) else r)"

definition bind_int :: "param \<Rightarrow> u32 \<Rightarrow> row \<Rightarrow> row" where
  "bind_int p v = bind_val p (SInt (sint v))"

definition bind_int64 :: "param \<Rightarrow> u64 \<Rightarrow> row \<Rightarrow> row" where
  "bind_int64 p v = bind_val p (SInt (sint v))"

definition bind_text :: "param \<Rightarrow> string \<Rightarrow> row \<Rightarrow> row" where
  "bind_text p v = bind_val p (SText v)"

definition get_sql_id :: "heap \<Rightarrow> ev_ptr \<Rightarrow> u64" where
  "get_sql_id h p = ev_sql_id (h ! p)"

fun thread_binds :: "thread_sub \<Rightarrow> row \<Rightarrow> row" where
  "thread_binds ThreadPlain r = r"
| "thread_binds (ThreadCreation arg) r = bind_int64 P_arg arg r"
| "thread_binds (ThreadCreator f ret) r =
     bind_int P_return_value ret (bind_int64 P_start_function f r)"
| "thread_binds (ThreadDestruction ret) r = bind_int64 P_return_value ret r"
| "thread_binds (ThreadSetName name ret) r =
     bind_int P_return_value ret (bind_text P_name name r)"

fun enclave_binds :: "heap \<Rightarrow> enclave_sub \<Rightarrow> row \<Rightarrow> row" where
  "enclave_binds h EnclavePlain r = r"
| "enclave_binds h (EnclaveCreation f ret a b) r =
     bind_int64 P_enclave_end b (bind_int64 P_enclave_start a
       (bind_int P_return_value ret (bind_text P_file_name f r)))"
| "enclave_binds h (EnclaveDestruction ret) r = bind_int64 P_return_value (ucast ret) r"
| "enclave_binds h (EnclavePaging a k) r = bind_int64 P_arg a r"
| "enclave_binds h (EnclaveCall c a prev k) r =
     (let r' = bind_int64 P_arg a (bind_int P_call_id c r)
      in case prev of
           None \<Rightarrow> r'
         | Some p \<Rightarrow> bind_int64 P_call_event (get_sql_id h p) r')"
| "enclave_binds h (ECallReturn e ret n) r =
     bind_int64 P_aex_count n (bind_int P_return_value ret
       (bind_int64 P_call_event (get_sql_id h e) r))"
| "enclave_binds h (OCallReturn e ret) r =
     bind_int P_return_value ret (bind_int64 P_call_event (get_sql_id h e) r)"
| "enclave_binds h (SyncWait e) r = bind_int64 P_call_event (get_sql_id h e) r"
| "enclave_binds h (SyncSet e w) r =
     bind_int64 P_arg (get_sql_id h w) (bind_int64 P_call_event (get_sql_id h e) r)"
| "enclave_binds h (AEX e) r = bind_int64 P_call_event (get_sql_id h e) r"

fun add_binds :: "heap \<Rightarrow> ev_body \<Rightarrow> row \<Rightarrow> row" where
  "add_binds h (SignalB num addr code) r =
     bind_int P_return_value code (bind_int64 P_start_address addr (bind_int P_arg num r))"
| "add_binds h (ThreadB t i b) r = thread_binds b (bind_int64 P_other_thread i r)"
| "add_binds h (EnclaveB e b) r = enclave_binds h b (bind_int64 P_eid e r)"

definition sql_bind :: "heap \<Rightarrow> event \<Rightarrow> row" where
  "sql_bind h e =
     add_binds h (ev_body e)
       (bind_int P_core (ev_core e)
         (bind_int P_type (of_nat (type_id (get_type (ev_body e))))
           (bind_int64 P_involved_thread (ev_thread_id e)
             (bind_int64 P_time (ev_time e) Map.empty))))"

section \<open>Inserting an event and what it refers to\<close>

text \<open>The events that \<open>pre_insert\<close> of each class inserts first, in the order it does.\<close>

fun sub_refs :: "enclave_sub \<Rightarrow> ev_ptr list" where
  "sub_refs (EnclaveCall c a prev k) = (case prev of None \<Rightarrow> [] | Some p \<Rightarrow> [p])"
| "sub_refs (ECallReturn e ret n) = [e]"
| "sub_refs (OCallReturn e ret) = [e]"
| "sub_refs (SyncWait e) = [e]"
| "sub_refs (SyncSet e w) = [e, w]"
| "sub_refs (AEX e) = [e]"
| "sub_refs _ = []"

fun ev_refs :: "ev_body \<Rightarrow> ev_ptr list" where
  "ev_refs (EnclaveB e b) = sub_refs b"
| "ev_refs _ = []"

type_synonym ser = "heap \<times> row list"

definition is_inserted :: "heap \<Rightarrow> ev_ptr \<Rightarrow> bool" where
  "is_inserted h p \<longleftrightarrow> get_sql_id h p \<noteq> UINT64_MAX"

text \<open>\<open>sql_bind\<close>, \<open>sqlite3_step\<close> and \<open>set_sql_id\<close> of the row's id.\<close>

fun insert_row :: "ev_ptr \<Rightarrow> ser \<Rightarrow> ser" where
  "insert_row p (h, rows) =
     (h[p := (h ! p)\<lparr>ev_sql_id := of_nat (Suc (length rows))\<rparr>], rows @ [sql_bind h (h ! p)])"

fun insert_refs :: "(ev_ptr \<Rightarrow> ser \<Rightarrow> ser option) \<Rightarrow> ev_ptr list \<Rightarrow> ser \<Rightarrow> ser option" where
  "insert_refs rec [] s = Some s"
| "insert_refs rec (p # ps) s =
     (if is_inserted (fst s) p then insert_refs rec ps s
      else case rec p s of None \<Rightarrow> None | Some s' \<Rightarrow> insert_refs rec ps (insert_row p s'))"

text \<open>
  \<open>pre_insert\<close> recurses along the pointers; the fuel bounds its depth, and running out of it
  stands for a recursion that does not end.
\<close>

fun pre_insert :: "nat \<Rightarrow> ev_ptr \<Rightarrow> ser \<Rightarrow> ser option" where
  "pre_insert 0 p s = None"
| "pre_insert (Suc n) p s = insert_refs (pre_insert n) (ev_refs (ev_body (fst s ! p))) s"

end
