(* ===== verification/Synchro.thy ===== *)
theory Synchro
  imports CallsReport Events
begin

text \<open>
  The analysis of the synchronisation calls, \<^verbatim>\<open>src/analyzer/src/synchro.cpp\<close>. The tables of the database are arguments: the rows of the
  events table, with the ids 1, 2, \<dots>, and the results of the queries on names.
\<close>

section \<open>The queries\<close>

definition hasEnding :: "string \<Rightarrow> string \<Rightarrow> bool" where
  "hasEnding full ending \<longleftrightarrow> length ending \<le> length full \<and> drop (length full - length ending) full = ending"

record sync_ids =
  wait_ocall_id :: u64
  set_ocall_id :: u64
  setwait_ocall_id :: u64
  setmult_ocall_id :: u64
  wait_event_id :: u64
  set_event_id :: u64
  has_sync_ocalls :: bool

definition ocall_id_callback :: "u64 \<times> string \<Rightarrow> sync_ids \<Rightarrow> sync_ids" where
  "ocall_id_callback r s =
     (let i = fst r; n = snd r;
          s = (if hasEnding n ''sgx_thread_wait_untrusted_event_ocall'' then s\<lparr>wait_ocall_id := i\<rparr>
               else if hasEnding n ''sgx_thread_set_untrusted_event_ocall'' then s\<lparr>set_ocall_id := i\<rparr>
               else if hasEnding n ''sgx_thread_setwait_untrusted_events_ocall'' then s\<lparr>setwait_ocall_id := i\<rparr>
               else if hasEnding n ''sgx_thread_set_multiple_untrusted_events_ocall'' then s\<lparr>setmult_ocall_id := i\<rparr> else s)
      in s\<lparr>has_sync_ocalls := True\<rparr>)"

definition event_id_callback :: "u64 \<times> string \<Rightarrow> sync_ids \<Rightarrow> sync_ids" where
  "event_id_callback r s =
     (if hasEnding (snd r) ''EnclaveSyncWaitEvent'' then s\<lparr>wait_event_id := fst r\<rparr>
      else if hasEnding (snd r) ''EnclaveSyncSetEvent'' then s\<lparr>set_event_id := fst r\<rparr> else s)"

definition found_sync_ocalls :: "u64 \<Rightarrow> sync_ids \<Rightarrow> row list \<Rightarrow> u64" where
  "found_sync_ocalls ocall_event s rows = of_nat (length (filter (\<lambda>r. r P_type = Some (SInt (uint ocall_event)) \<and>
     (\<exists>i \<in> {wait_ocall_id s, set_ocall_id s, setwait_ocall_id s, setmult_ocall_id s}. r P_call_id = Some (SInt (uint i)))) rows))"

text \<open>The row whose id a column holds.\<close>

definition row_with_id :: "row list \<Rightarrow> sql_val option \<Rightarrow> row option" where
  "row_with_id rows v =
     (case v of Some (SInt i) \<Rightarrow> if 1 \<le> i \<and> i \<le> int (length rows) then Some (rows ! (nat i - 1)) else None | _ \<Rightarrow> None)"

text \<open>A row of the result: the wait event, the ecall it was made in, and what the left joins find: an event whose \<open>arg\<close> is the id
  of the wait event, of whatever type, the event it was made in, and the one that was made in.\<close>

type_synonym wait_row = "row \<times> row \<times> row option \<times> row option \<times> row option"

definition wait_rows :: "row list \<Rightarrow> nat \<Rightarrow> wait_row list" where
  "wait_rows rows k =
     (let w = rows ! k
      in case row_with_id rows (w P_call_event) of
           None \<Rightarrow> []
         | Some ocallwait \<Rightarrow>
             case row_with_id rows (ocallwait P_call_event) of
               None \<Rightarrow> []
             | Some ecallwait \<Rightarrow>
                 (let sets = filter (\<lambda>s. s P_arg = Some (SInt (int k + 1))) rows
                  in map (\<lambda>s. let os = Option.bind s (\<lambda>s. row_with_id rows (s P_call_event));
                                  es = Option.bind os (\<lambda>os. row_with_id rows (os P_call_event))
                              in (w, ecallwait, s, os, es))
                       (if sets = [] then [None] else map Some sets)))"

definition wait_query :: "u64 \<Rightarrow> row list \<Rightarrow> wait_row list" where
  "wait_query wait_event rows =
     concat (map (wait_rows rows) (filter (\<lambda>k. (rows ! k) P_type = Some (SInt (uint wait_event))) [0..<length rows]))"

section \<open>The wait events\<close>

record sync_event =
  se_wait_parent_id :: u64
  se_wait_thread_id :: u64
  se_wait_eid :: u64
  se_has_set :: bool
  se_set_parent_id :: u64
  se_set_thread_id :: u64
  se_set_eid :: u64
  se_time :: u64

text \<open>\<open>strtoul\<close> of a column: a NULL is dereferenced; a negative number wraps.\<close>

definition column :: "sql_val option \<Rightarrow> fault + u64" where
  "column v = (case v of None \<Rightarrow> Inl NullDeref | Some (SInt i) \<Rightarrow> Inr (of_int i) | Some (SReal i) \<Rightarrow> Inr (of_int i) | Some (SText t) \<Rightarrow> Inr 0)"

definition col :: "row option \<Rightarrow> param \<Rightarrow> sql_val option" where
  "col r p = Option.bind r (\<lambda>r. r p)"

definition minus_col :: "sql_val option \<Rightarrow> sql_val option \<Rightarrow> sql_val option" where
  "minus_col a b = (case (a, b) of (Some (SInt i), Some (SInt j)) \<Rightarrow> Some (SInt (i - j)) | _ \<Rightarrow> None)"

definition wait_event_callback :: "wait_row \<Rightarrow> fault + sync_event" where
  "wait_event_callback d =
     (case d of (w, ew, s, os, es) \<Rightarrow>
        fbind (column (ew P_call_id)) (\<lambda>wp. fbind (column (w P_involved_thread)) (\<lambda>wt. fbind (column (w P_eid)) (\<lambda>we.
          let se = \<lparr>se_wait_parent_id = wp, se_wait_thread_id = wt, se_wait_eid = we, se_has_set = col os P_involved_thread \<noteq> None,
                 se_set_parent_id = 0, se_set_thread_id = 0, se_set_eid = 0, se_time = 0\<rparr>
          in if \<not> se_has_set se then Inr se
             else fbind (column (col es P_call_id)) (\<lambda>sp. fbind (column (col os P_involved_thread)) (\<lambda>st. fbind (column (col es P_eid)) (\<lambda>sd.
               fbind (column (minus_col (col s P_time) (w P_time))) (\<lambda>t.
                 Inr (se\<lparr>se_set_parent_id := sp, se_set_thread_id := st, se_set_eid := sd, se_time := t\<rparr>)))))))))"

text \<open>\<open>encls[eid].ecalls[id]\<close>, without a check of the index.\<close>

definition ecall_of :: "analysis \<Rightarrow> u64 \<Rightarrow> u64 \<Rightarrow> fault + call_data" where
  "ecall_of a eid i = (if unat i < length (ecalls (encl_of a eid)) then Inr (ecalls (encl_of a eid) ! unat i) else Inl OutOfRange)"

record resolve_counts =
  rc_1us :: u64
  rc_5us :: u64
  rc_10us :: u64
  rc_20us :: u64
  rc_100us :: u64

definition no_counts :: resolve_counts where
  "no_counts = \<lparr>rc_1us = 0, rc_5us = 0, rc_10us = 0, rc_20us = 0, rc_100us = 0\<rparr>"

definition count_time :: "u64 \<Rightarrow> resolve_counts \<Rightarrow> resolve_counts" where
  "count_time t c =
     (if t < 1000 then c\<lparr>rc_1us := rc_1us c + 1\<rparr>
      else if t < 5000 then c\<lparr>rc_5us := rc_5us c + 1\<rparr>
      else if t < 10000 then c\<lparr>rc_10us := rc_10us c + 1\<rparr>
      else if t < 20000 then c\<lparr>rc_20us := rc_20us c + 1\<rparr>
      else if t < 100000 then c\<lparr>rc_100us := rc_100us c + 1\<rparr> else c)"

text \<open>Both calls are looked up by the ids of the waiting call.\<close>

definition count_event :: "analysis \<Rightarrow> sync_event \<Rightarrow> resolve_counts \<Rightarrow> fault + resolve_counts" where
  "count_event a se c =
     fbind (ecall_of a (se_wait_eid se) (se_wait_parent_id se)) (\<lambda>wcd.
       if \<not> se_has_set se then Inr c
       else fbind (ecall_of a (se_wait_eid se) (se_wait_parent_id se)) (\<lambda>scd. Inr (count_time (se_time se) c)))"

definition count_events :: "analysis \<Rightarrow> sync_event list \<Rightarrow> fault + resolve_counts" where
  "count_events a ses = fold_fault (count_event a) ses no_counts"

definition ocall_percentile :: "dbl \<Rightarrow> u64 list \<Rightarrow> fault + u64" where
  "ocall_percentile p ts =
     (let i = unat (percentile_idx p (of_nat (length ts))) in if i < length ts then Inr (ts ! i) else Inl OutOfRange)"

datatype sync_line = NoSyncOcalls | FoundSync u64 | WaitEvents u64 | Resolved u64 count_text

definition sync_lines :: "u64 \<Rightarrow> resolve_counts \<Rightarrow> sync_line list" where
  "sync_lines n c = [Resolved 1 (countformat (rc_1us c) n True), Resolved 5 (countformat (rc_5us c) n True),
     Resolved 10 (countformat (rc_10us c) n True), Resolved 20 (countformat (rc_20us c) n True), Resolved 100 (countformat (rc_100us c) n True)]"

text \<open>\<open>names\<close> are the ocalls whose name is like one of a synchronisation ocall, \<open>event_map\<close> the names of the event types.\<close>

definition analyze_synchro :: "(u64 \<times> string) list \<Rightarrow> (u64 \<times> string) list \<Rightarrow> u64 \<Rightarrow> row list \<Rightarrow> analysis \<Rightarrow> fault + sync_line list" where
  "analyze_synchro names event_map ocall_event rows a =
     (let s0 = \<lparr>wait_ocall_id = 0, set_ocall_id = 0, setwait_ocall_id = 0, setmult_ocall_id = 0, wait_event_id = 0, set_event_id = 0,
            has_sync_ocalls = False\<rparr>;
          s1 = fold ocall_id_callback names s0
      in if \<not> has_sync_ocalls s1 then Inr [NoSyncOcalls]
         else let n = found_sync_ocalls ocall_event s1 rows
              in if n = 0 then Inr [FoundSync n]
                 else let s2 = fold event_id_callback event_map s1
                      in fbind (map_fault wait_event_callback (wait_query (wait_event_id s2) rows)) (\<lambda>ses.
                           fbind (count_events a ses) (\<lambda>c.
                             Inr (FoundSync n # WaitEvents (of_nat (length ses)) # sync_lines (of_nat (length ses)) c))))"

end
