(* ===== verification/SynchroOk.thy ===== *)
theory SynchroOk
  imports Synchro
begin

text \<open>
  What the analysis of the synchronisation calls reports: each wait once, by the time until it was resolved, if no other event carries the
  number of its row as an argument.
\<close>

section \<open>The wait events\<close>

definition waits :: "u64 \<Rightarrow> row list \<Rightarrow> nat list" where
  "waits wid rows = filter (\<lambda>k. (rows ! k) P_type = Some (SInt (uint wid))) [0..<length rows]"

definition answers :: "row list \<Rightarrow> nat \<Rightarrow> row list" where
  "answers rows k = filter (\<lambda>s. s P_arg = Some (SInt (int k + 1))) rows"

text \<open>The calls a row was made in: the event of its call, and the one that was made in.\<close>

definition call_path :: "row list \<Rightarrow> row \<Rightarrow> (row \<times> row) option" where
  "call_path rows r = Option.bind (row_with_id rows (r P_call_event)) (\<lambda>o'.
     Option.bind (row_with_id rows (o' P_call_event)) (\<lambda>e'. Some (o', e')))"

definition is_int :: "sql_val option \<Rightarrow> bool" where
  "is_int v \<longleftrightarrow> (case v of Some (SInt i) \<Rightarrow> True | _ \<Rightarrow> False)"

definition as_int :: "sql_val option \<Rightarrow> int" where
  "as_int v = sql_int (the v)"

text \<open>A table in which a wait is made in an ocall of a known ecall, and is answered at most once, from an ocall as well.\<close>

definition made_ok :: "analysis \<Rightarrow> row list \<Rightarrow> row \<Rightarrow> bool" where
  "made_ok a rows w \<longleftrightarrow> is_int (w P_involved_thread) \<and> is_int (w P_time) \<and> is_int (w P_eid) \<and>
     (case call_path rows w of None \<Rightarrow> False | Some (o', e') \<Rightarrow> is_int (e' P_call_id) \<and>
        unat (of_int (as_int (e' P_call_id)) :: u64) < length (ecalls (encl_of a (of_int (as_int (w P_eid))))))"

definition answer_ok :: "row list \<Rightarrow> row \<Rightarrow> bool" where
  "answer_ok rows s \<longleftrightarrow> is_int (s P_time) \<and>
     (case call_path rows s of None \<Rightarrow> False | Some (o', e') \<Rightarrow> is_int (o' P_involved_thread) \<and> is_int (e' P_eid) \<and> is_int (e' P_call_id))"

definition wait_ok :: "analysis \<Rightarrow> row list \<Rightarrow> nat \<Rightarrow> bool" where
  "wait_ok a rows k \<longleftrightarrow> made_ok a rows (rows ! k) \<and> (case answers rows k of [] \<Rightarrow> True | [s] \<Rightarrow> answer_ok rows s | _ \<Rightarrow> False)"

lemma is_int_cases: "is_int v \<Longrightarrow> \<exists>i. v = Some (SInt i) \<and> as_int v = i"
  by (auto simp: is_int_def as_int_def split: option.splits sql_val.splits)

definition resolve_time :: "row list \<Rightarrow> nat \<Rightarrow> u64 option" where
  "resolve_time rows k =
     (case answers rows k of
        [s] \<Rightarrow> (case minus_col (s P_time) ((rows ! k) P_time) of Some (SInt t) \<Rightarrow> Some (of_int t) | _ \<Rightarrow> None)
      | _ \<Rightarrow> None)"

definition resolved_in :: "row list \<Rightarrow> nat list \<Rightarrow> u64 \<Rightarrow> u64 \<Rightarrow> u64" where
  "resolved_in rows ks a b = of_nat (length (filter (\<lambda>k. \<exists>t. resolve_time rows k = Some t \<and> a \<le> t \<and> t < b) ks))"

lemma wait_row_one:
  assumes "wait_ok a rows k"
  obtains d se where "wait_rows rows k = [d]" "wait_event_callback d = Inr se"
    "\<exists>c. ecall_of a (se_wait_eid se) (se_wait_parent_id se) = Inr c"
    "(if se_has_set se then Some (se_time se) else None) = resolve_time rows k"
proof -
  let ?w = "rows ! k"
  have m: "made_ok a rows ?w" using assms by (simp add: wait_ok_def)
  then obtain o' e' where path: "call_path rows ?w = Some (o', e')" by (auto simp: made_ok_def split: option.splits)
  with m have ints: "is_int (?w P_involved_thread)" "is_int (?w P_time)" "is_int (?w P_eid)" "is_int (e' P_call_id)"
    "unat (of_int (as_int (e' P_call_id)) :: u64) < length (ecalls (encl_of a (of_int (as_int (?w P_eid)))))"
    by (simp_all add: made_ok_def)
  then obtain eid i wt tw where w: "call_path rows ?w = Some (o', e')" "?w P_eid = Some (SInt eid)" "e' P_call_id = Some (SInt i)"
    "unat (of_int i :: u64) < length (ecalls (encl_of a (of_int eid)))" "?w P_involved_thread = Some (SInt wt)" "?w P_time = Some (SInt tw)"
    using path ints(1-4) [THEN is_int_cases] by auto
  have p: "row_with_id rows (?w P_call_event) = Some o'" "row_with_id rows (o' P_call_event) = Some e'"
    using w(1) by (auto simp: call_path_def bind_eq_Some_conv)
  consider "answers rows k = []" | s os es st so eo ci where "answers rows k = [s]" "call_path rows s = Some (os, es)" "s P_time = Some (SInt st)"
    "os P_involved_thread = Some (SInt so)" "es P_eid = Some (SInt eo)" "es P_call_id = Some (SInt ci)"
  proof (cases "answers rows k")
    case (Cons s ss)
    then have s: "answers rows k = [s]" "answer_ok rows s" using assms by (auto simp: wait_ok_def split: list.splits)
    then obtain os es where "call_path rows s = Some (os, es)" "is_int (s P_time)" "is_int (os P_involved_thread)" "is_int (es P_eid)" "is_int (es P_call_id)"
      by (auto simp: answer_ok_def split: option.splits)
    then show thesis using that(2) [OF s(1)] by (auto dest!: is_int_cases)
  qed (use that in blast)
  then show thesis
  proof cases
    case 1
    let ?d = "(?w, e', None, None, None)"
    have d: "wait_rows rows k = [?d]" using p 1 by (simp add: wait_rows_def Let_def answers_def)
    show thesis
      by (rule that [OF d, of "\<lparr>se_wait_parent_id = of_int i, se_wait_thread_id = of_int wt, se_wait_eid = of_int eid, se_has_set = False,
            se_set_parent_id = 0, se_set_thread_id = 0, se_set_eid = 0, se_time = 0\<rparr>"])
        (use w 1 in \<open>simp_all add: wait_event_callback_def column_def fbind_def Let_def col_def ecall_of_def resolve_time_def\<close>)
  next
    case 2
    let ?d = "(?w, e', Some s, Some os, Some es)"
    have q: "row_with_id rows (s P_call_event) = Some os" "row_with_id rows (os P_call_event) = Some es"
      using 2(2) by (auto simp: call_path_def bind_eq_Some_conv)
    have d: "wait_rows rows k = [?d]" using p q 2(1) by (simp add: wait_rows_def Let_def answers_def)
    show thesis
      by (rule that [OF d, of "\<lparr>se_wait_parent_id = of_int i, se_wait_thread_id = of_int wt, se_wait_eid = of_int eid, se_has_set = True,
            se_set_parent_id = of_int ci, se_set_thread_id = of_int so, se_set_eid = of_int eo, se_time = of_int (st - tw)\<rparr>"])
        (use w 2 in \<open>simp_all add: wait_event_callback_def column_def fbind_def Let_def col_def ecall_of_def resolve_time_def minus_col_def\<close>)
  qed
qed

section \<open>Counting\<close>

definition bucket :: "u64 \<Rightarrow> u64 \<Rightarrow> sync_event \<Rightarrow> bool" where
  "bucket a b se \<longleftrightarrow> se_has_set se \<and> a \<le> se_time se \<and> se_time se < b"

definition bucket_count :: "u64 \<Rightarrow> u64 \<Rightarrow> sync_event list \<Rightarrow> u64" where
  "bucket_count a b ses = of_nat (length (filter (bucket a b) ses))"

lemma bucket_count_Cons:
  "bucket_count a b (se # ses) = (if bucket a b se then 1 else 0) + bucket_count a b ses" "bucket_count a b [] = 0"
  by (simp_all add: bucket_count_def)

lemma count_step:
  assumes "ecall_of a (se_wait_eid se) (se_wait_parent_id se) = Inr x"
  shows "\<exists>d. count_event a se c = Inr d \<and> rc_1us d = rc_1us c + (if bucket 0 1000 se then 1 else 0) \<and>
    rc_5us d = rc_5us c + (if bucket 1000 5000 se then 1 else 0) \<and> rc_10us d = rc_10us c + (if bucket 5000 10000 se then 1 else 0) \<and>
    rc_20us d = rc_20us c + (if bucket 10000 20000 se then 1 else 0) \<and> rc_100us d = rc_100us c + (if bucket 20000 100000 se then 1 else 0)"
proof (cases "se_has_set se")
  case True
  then show ?thesis using assms by (auto simp: count_event_def fbind_def count_time_def bucket_def not_less word_less_nat_alt word_le_nat_alt)
next
  case False
  then show ?thesis using assms by (simp add: count_event_def fbind_def bucket_def)
qed

lemma count_all:
  assumes "\<forall>se \<in> set ses. \<exists>x. ecall_of a (se_wait_eid se) (se_wait_parent_id se) = Inr x"
  shows "\<exists>d. fold_fault (count_event a) ses c = Inr d \<and> rc_1us d = rc_1us c + bucket_count 0 1000 ses \<and>
    rc_5us d = rc_5us c + bucket_count 1000 5000 ses \<and> rc_10us d = rc_10us c + bucket_count 5000 10000 ses \<and>
    rc_20us d = rc_20us c + bucket_count 10000 20000 ses \<and> rc_100us d = rc_100us c + bucket_count 20000 100000 ses"
  using assms
proof (induction ses arbitrary: c)
  case (Cons se ses)
  obtain d where d: "count_event a se c = Inr d" "rc_1us d = rc_1us c + (if bucket 0 1000 se then 1 else 0)"
    "rc_5us d = rc_5us c + (if bucket 1000 5000 se then 1 else 0)" "rc_10us d = rc_10us c + (if bucket 5000 10000 se then 1 else 0)"
    "rc_20us d = rc_20us c + (if bucket 10000 20000 se then 1 else 0)" "rc_100us d = rc_100us c + (if bucket 20000 100000 se then 1 else 0)"
    using Cons.prems count_step [of a se _ c] by auto
  from Cons.IH [of d] Cons.prems obtain h where "fold_fault (count_event a) ses d = Inr h" "rc_1us h = rc_1us d + bucket_count 0 1000 ses"
    "rc_5us h = rc_5us d + bucket_count 1000 5000 ses" "rc_10us h = rc_10us d + bucket_count 5000 10000 ses"
    "rc_20us h = rc_20us d + bucket_count 10000 20000 ses" "rc_100us h = rc_100us d + bucket_count 20000 100000 ses" by auto
  then show ?case unfolding bucket_count_Cons using d by (intro exI [of _ h]) (simp add: fbind_def add.assoc)
qed (simp add: bucket_count_Cons)

lemma map_fault_singletons:
  assumes "\<forall>k \<in> set ks. f k = [g k]" "\<forall>k \<in> set ks. h (g k) = Inr (r k)"
  shows "map_fault h (concat (map f ks)) = Inr (map r ks)"
  using assms by (induction ks) (auto simp: fbind_def)

text \<open>C28: In a table in which every wait was made in an ocall of a known ecall and no two events have the number of its row as their argument, each wait is
  reported once, and the figures are the numbers of waits that were resolved within a microsecond, between one and
  five, five and ten, ten and twenty, and twenty and a hundred.\<close>

theorem sync_waits_counted:
  assumes "\<forall>k \<in> set (waits wid rows). wait_ok a rows k"
  shows "\<exists>ses c. map_fault wait_event_callback (wait_query wid rows) = Inr ses \<and> length ses = length (waits wid rows) \<and>
    count_events a ses = Inr c \<and> rc_1us c = resolved_in rows (waits wid rows) 0 1000 \<and> rc_5us c = resolved_in rows (waits wid rows) 1000 5000 \<and>
    rc_10us c = resolved_in rows (waits wid rows) 5000 10000 \<and> rc_20us c = resolved_in rows (waits wid rows) 10000 20000 \<and>
    rc_100us c = resolved_in rows (waits wid rows) 20000 100000"
proof -
  let ?ks = "waits wid rows"
  have "\<forall>k \<in> set ?ks. \<exists>d se. wait_rows rows k = [d] \<and> wait_event_callback d = Inr se \<and>
      (\<exists>c. ecall_of a (se_wait_eid se) (se_wait_parent_id se) = Inr c) \<and> (if se_has_set se then Some (se_time se) else None) = resolve_time rows k"
    using assms wait_row_one by metis
  then obtain g r where g: "\<forall>k \<in> set ?ks. wait_rows rows k = [g k]" "\<forall>k \<in> set ?ks. wait_event_callback (g k) = Inr (r k)"
    and r: "\<forall>k \<in> set ?ks. \<exists>c. ecall_of a (se_wait_eid (r k)) (se_wait_parent_id (r k)) = Inr c"
      "\<forall>k \<in> set ?ks. (if se_has_set (r k) then Some (se_time (r k)) else None) = resolve_time rows k"
    by metis
  have q: "map_fault wait_event_callback (wait_query wid rows) = Inr (map r ?ks)"
    using map_fault_singletons [OF g] by (simp add: wait_query_def waits_def)
  have b: "bucket_count x y (map r ?ks) = resolved_in rows ?ks x y" for x y
  proof -
    have "filter (bucket x y \<circ> r) ?ks = filter (\<lambda>k. \<exists>t. resolve_time rows k = Some t \<and> x \<le> t \<and> t < y) ?ks"
    proof (rule filter_cong)
      fix k assume "k \<in> set ?ks"
      from bspec [OF r(2) this, symmetric] show "(bucket x y \<circ> r) k = (\<exists>t. resolve_time rows k = Some t \<and> x \<le> t \<and> t < y)"
        by (auto simp: bucket_def)
    qed simp
    then show ?thesis by (simp add: bucket_count_def resolved_in_def filter_map)
  qed
  from count_all [of "map r ?ks" a no_counts] r(1) obtain c where "count_events a (map r ?ks) = Inr c" "rc_1us c = bucket_count 0 1000 (map r ?ks)"
    "rc_5us c = bucket_count 1000 5000 (map r ?ks)" "rc_10us c = bucket_count 5000 10000 (map r ?ks)"
    "rc_20us c = bucket_count 10000 20000 (map r ?ks)" "rc_100us c = bucket_count 20000 100000 (map r ?ks)"
    by (auto simp: count_events_def no_counts_def)
  with q b show ?thesis by (intro exI [of _ "map r ?ks"] exI [of _ c]) simp
qed

text \<open>A thread waits in an ocall; another one sets the event two microseconds later.\<close>

definition ex_ev :: "nat \<Rightarrow> ev_body \<Rightarrow> event" where
  "ex_ev k b = \<lparr>ev_time = of_nat k * 1000, ev_thread = 7, ev_thread_id = 1, ev_sql_id = of_nat k + 1, ev_core = 0, ev_body = b\<rparr>"

definition ex_events :: heap where
  "ex_events = [ex_ev 0 (EnclaveB 2 (EnclaveCall 0 0 None (ECallKind 0))), ex_ev 1 (EnclaveB 2 (EnclaveCall 3 0 (Some 0) OCallKind)),
     ex_ev 2 (EnclaveB 2 (SyncWait 1)), ex_ev 3 (EnclaveB 2 (EnclaveCall 1 0 (Some 1) OCallKind)), ex_ev 4 (EnclaveB 2 (SyncSet 1 2))]"

definition ex_signals :: heap where
  "ex_signals = ex_events @ [ex_ev 5 (SignalB 3 0 0)]"

definition ex_encls :: analysis where
  "ex_encls = new_analysis\<lparr>encls := [(2, new_enclave_data\<lparr>ecalls := [new_call_data ECALL 0 ''e'']\<rparr>)]\<rparr>"

definition ex_table :: "row list" where
  "ex_table = map (sql_bind ex_events) ex_events"

theorem sync_waits_counted_witness:
  "\<exists>ses c. map_fault wait_event_callback (wait_query 18 ex_table) = Inr ses \<and> length ses = 1 \<and> count_events ex_encls ses = Inr c \<and> rc_5us c = 1"
proof -
  have w: "waits 18 ex_table = [2]" "resolve_time ex_table 2 = Some 2000" "length (answers ex_table 2) = 1"
    by code_simp+
  have "wait_ok ex_encls ex_table 2" by code_simp
  then show ?thesis using sync_waits_counted [of 18 ex_table ex_encls] w by (auto simp: resolved_in_def)
qed

lemma length_wait_rows: "call_path rows (rows ! k) \<noteq> None \<Longrightarrow> length (wait_rows rows k) = max 1 (length (answers rows k))"
  by (cases "answers rows k") (auto simp: wait_rows_def call_path_def answers_def Let_def bind_eq_Some_conv split: option.splits)

text \<open>The query does not ask whether the event that has the number of a wait as its argument is one that sets it: a wait is reported once for every
  event of any kind with this argument, such as a signal with this number.\<close>

lemma sync_wait_per_match:
  assumes "\<forall>k \<in> set (waits wid rows). call_path rows (rows ! k) \<noteq> None"
  shows "length (wait_query wid rows) = (\<Sum>k \<leftarrow> waits wid rows. max 1 (length (filter (\<lambda>s. s P_arg = Some (SInt (int k + 1))) rows)))"
proof -
  have "map (length \<circ> wait_rows rows) (waits wid rows) = map (\<lambda>k. max 1 (length (answers rows k))) (waits wid rows)"
    by (rule map_cong) (use assms length_wait_rows in auto)
  then show ?thesis by (simp add: wait_query_def waits_def [symmetric] length_concat answers_def comp_def del: map_eq_conv)
qed

definition ex_signal_table :: "row list" where
  "ex_signal_table = map (sql_bind ex_signals) ex_signals"

lemma sync_wait_per_match_witness:
  "length (waits 18 ex_signal_table) = 1 \<and> length (wait_query 18 ex_signal_table) = 2"
proof -
  have w: "waits 18 ex_signal_table = [2]" "length (filter (\<lambda>s. s P_arg = Some (SInt (int 2 + 1))) ex_signal_table) = 2"
    "list_all (\<lambda>k. call_path ex_signal_table (ex_signal_table ! k) \<noteq> None) [2]"
    by code_simp+
  then show ?thesis using sync_wait_per_match [of 18 ex_signal_table] by simp
qed

end
