(* ===== verification/AnalyzerMain.thy ===== *)
theory AnalyzerMain
  imports SecurityOk SynchroOk
begin

text \<open>
  The program of the analyzer, \<^verbatim>\<open>src/analyzer/src/main.cpp\<close>: its options, and the phases it runs. \<open>getopt\<close> is an argument, as the list of the
  options it returns with their arguments and the words that are left; so is what \<open>strtoul\<close> and \<open>strtol\<close> make of a text.
\<close>

section \<open>The configuration\<close>

record config_t =
  ecall_call_minimum :: u64
  ocall_call_minimum :: u64
  ph_calls :: bool
  ph_sync :: bool
  ph_sec :: bool
  cfg_ecall_set :: "u64 set"
  cfg_ocall_set :: "u64 set"
  cfg_graph :: string
  cfg_call_data_filename :: string
  edl_path :: string

definition default_config :: config_t where
  "default_config = \<lparr>ecall_call_minimum = 0, ocall_call_minimum = 0, ph_calls = True, ph_sync = True, ph_sec = True, cfg_ecall_set = {},
     cfg_ocall_set = {}, cfg_graph = [], cfg_call_data_filename = [], edl_path = []\<rparr>"

text \<open>The default weights, in the order duplication, reordering, merging and batching.\<close>

definition mk_weights :: "rat \<Rightarrow> rat \<Rightarrow> rat \<Rightarrow> rat \<Rightarrow> rat \<Rightarrow> rat \<Rightarrow> weights_t" where
  "mk_weights al be ga de ep la = \<lparr>w_alpha = lit al, w_beta = lit be, w_gamma = lit ga, w_delta = lit de, w_epsilon = lit ep, w_lambda = lit la\<rparr>"

definition default_weights :: "weights_t list" where
  "default_weights = [mk_weights (35 / 100) (50 / 100) (65 / 100) 0 0 0, mk_weights 1 (75 / 100) (5 / 10) 0 0 0,
     mk_weights 1 (75 / 100) (50 / 100) (25 / 100) (35 / 100) (35 / 100), mk_weights 1 (75 / 100) (50 / 100) (25 / 100) (35 / 100) (35 / 100)]"

section \<open>The options\<close>

record conv =
  strtoul :: "string \<Rightarrow> u64"
  strtol :: "string \<Rightarrow> int"

definition phases_option :: "string \<Rightarrow> config_t \<Rightarrow> config_t" where
  "phases_option s c =
     (let c = c\<lparr>ph_calls := False, ph_sync := False, ph_sec := False\<rparr>
      in if str_find ''c'' s \<noteq> None then c\<lparr>ph_calls := True\<rparr>
         else if str_find ''s'' s \<noteq> None then c\<lparr>ph_sync := True\<rparr>
         else if str_find ''i'' s \<noteq> None then c\<lparr>ph_calls := True, ph_sec := True\<rparr> else c)"

definition id_token :: "conv \<Rightarrow> string \<Rightarrow> config_t \<Rightarrow> config_t" where
  "id_token F tok c =
     (let c = (if char_at tok 0 = CHR ''e'' then c\<lparr>cfg_ecall_set := insert (strtoul F (drop 1 tok)) (cfg_ecall_set c)\<rparr> else c)
      in if char_at tok 0 = CHR ''o'' then c\<lparr>cfg_ocall_set := insert (strtoul F (drop 1 tok)) (cfg_ocall_set c)\<rparr> else c)"

text \<open>The loop over the commas of the list; what follows the last of them is not looked at.\<close>

function ids_option :: "conv \<Rightarrow> string \<Rightarrow> config_t \<Rightarrow> config_t" where
  "ids_option F s c =
     (case str_find '','' s of
        None \<Rightarrow> c
      | Some pos \<Rightarrow> ids_option F (drop (pos + 1) s) (id_token F (take pos s) c))"
  by auto
termination
proof (relation "measure (\<lambda>(F, s, c). length s)")
  show "str_find '','' s = Some pos \<Longrightarrow> ((F, drop (pos + 1) s, id_token F (take pos s) c), (F, s, c)) \<in> measure (\<lambda>(F, s, c). length s)" for F s c pos
    by (cases s) auto
qed simp

declare ids_option.simps [simp del]

definition limit_option :: "conv \<Rightarrow> string \<Rightarrow> fault + u64" where
  "limit_option F s = (if strtol F s < 0 then Inl (Exit 1) else Inr (of_int (strtol F s)))"

definition option_step :: "conv \<Rightarrow> char \<times> string \<Rightarrow> config_t \<Rightarrow> fault + config_t" where
  "option_step F opt c =
     (let ch = fst opt; optarg = snd opt
      in if ch = CHR ''e'' then map_sum id (\<lambda>n. c\<lparr>ecall_call_minimum := n\<rparr>) (limit_option F optarg)
         else if ch = CHR ''o'' then map_sum id (\<lambda>n. c\<lparr>ocall_call_minimum := n\<rparr>) (limit_option F optarg)
         else Inr (if ch = CHR ''p'' then phases_option optarg c
                   else if ch = CHR ''g'' then ids_option F optarg c
                   else if ch = CHR ''f'' then c\<lparr>cfg_call_data_filename := [], cfg_graph := optarg, ph_calls := True\<rparr>
                   else if ch = CHR ''d'' then c\<lparr>cfg_graph := [], cfg_call_data_filename := optarg, ph_calls := True\<rparr>
                   else if ch = CHR ''l'' then c\<lparr>edl_path := optarg, ph_calls := True, ph_sec := True\<rparr>
                   else c))"

definition options :: "conv \<Rightarrow> (char \<times> string) list \<Rightarrow> fault + config_t" where
  "options F opts = fold_fault (option_step F) opts default_config"

section \<open>The program\<close>

record event_ids =
  EnclaveOCallEventId :: u64
  EnclaveOCallReturnEventId :: u64

definition event_callback :: "u64 \<times> string \<Rightarrow> event_ids \<Rightarrow> event_ids" where
  "event_callback r s =
     (if snd r = ''EnclaveOCallEvent'' then s\<lparr>EnclaveOCallEventId := fst r\<rparr>
      else if snd r = ''EnclaveOCallReturnEvent'' then s\<lparr>EnclaveOCallReturnEventId := fst r\<rparr> else s)"

definition get_event_ids :: "(u64 \<times> string) list \<Rightarrow> event_ids" where
  "get_event_ids event_map = fold event_callback event_map \<lparr>EnclaveOCallEventId = 0, EnclaveOCallReturnEventId = 0\<rparr>"

datatype phase = Calls_phase | Sync_phase | Sec_phase | Graph_phase

text \<open>\<open>args\<close> are the words of the command line, \<open>rest\<close> those that are no options, \<open>opened\<close> whether the database can be opened: the phases that are
  run, with the configuration.\<close>

definition analyzer_main :: "conv \<Rightarrow> nat \<Rightarrow> (char \<times> string) list \<Rightarrow> string list \<Rightarrow> (string \<Rightarrow> bool) \<Rightarrow> fault + config_t \<times> phase list" where
  "analyzer_main F argc opts rest opened =
     (if argc = 1 then Inl (Exit (-1))
      else fbind (options F opts) (\<lambda>c.
        case rest of
          [] \<Rightarrow> Inl NullDeref
        | dbfile # _ \<Rightarrow>
            if \<not> opened dbfile then Inl (Exit (-1))
            else Inr (c, (if ph_calls c then [Calls_phase] else []) @ (if ph_sync c then [Sync_phase] else []) @
                   (if ph_sec c then [Sec_phase] else []) @ (if cfg_graph c \<noteq> [] then [Graph_phase] else []))))"

section \<open>The id lists\<close>

definition id_text :: "char \<Rightarrow> string \<Rightarrow> string" where
  "id_text k n = k # n @ '',''"

lemma ids_option_token: "CHR '','' \<notin> set tok \<Longrightarrow> ids_option F (tok @ '','' @ s) c = ids_option F s (id_token F tok c)"
  using str_find_char(1) [of "CHR '',''" tok s] by (subst ids_option.simps) simp

text \<open>The list of ids in the form its usage shows, where each id is followed by a comma, selects exactly the ecalls and ocalls
  it names, in addition to those selected before; what follows the last comma is ignored.\<close>

lemma ids_option_selects:
  assumes "\<forall>(k, n) \<in> set ids. k \<in> {CHR ''e'', CHR ''o''} \<and> CHR '','' \<notin> set n" "CHR '','' \<notin> set post"
  shows "ids_option F (concat (map (\<lambda>(k, n). id_text k n) ids) @ post) c =
    c\<lparr>cfg_ecall_set := cfg_ecall_set c \<union> strtoul F ` {n. (CHR ''e'', n) \<in> set ids},
      cfg_ocall_set := cfg_ocall_set c \<union> strtoul F ` {n. (CHR ''o'', n) \<in> set ids}\<rparr>"
  using assms(1)
proof (induction ids arbitrary: c)
  case Nil
  then show ?case using str_find_char(2) [OF assms(2)] by (simp add: ids_option.simps)
next
  case (Cons x ids)
  obtain k n where x: "x = (k, n)" by (cases x)
  have k: "k \<in> {CHR ''e'', CHR ''o''}" "CHR '','' \<notin> set (k # n)" using Cons.prems x by auto
  have "ids_option F (concat (map (\<lambda>(k, n). id_text k n) (x # ids)) @ post) c =
      ids_option F (concat (map (\<lambda>(k, n). id_text k n) ids) @ post) (id_token F (k # n) c)"
    using ids_option_token [OF k(2)] x by (simp add: id_text_def)
  also have "\<dots> = (id_token F (k # n) c)\<lparr>cfg_ecall_set := cfg_ecall_set (id_token F (k # n) c) \<union> strtoul F ` {n. (CHR ''e'', n) \<in> set ids},
      cfg_ocall_set := cfg_ocall_set (id_token F (k # n) c) \<union> strtoul F ` {n. (CHR ''o'', n) \<in> set ids}\<rparr>"
    by (rule Cons.IH) (use Cons.prems in auto)
  finally show ?case using k(1) x by (auto simp: id_token_def char_at_def intro!: config_t.equality)
qed

lemma ids_option_selects_witness:
  "ids_option \<lparr>strtoul = of_nat \<circ> length, strtol = int \<circ> length\<rparr> ''e1,o19,e54'' default_config =
     default_config\<lparr>cfg_ecall_set := {1}, cfg_ocall_set := {2}\<rparr>"
  using ids_option_selects [of "[(CHR ''e'', ''1''), (CHR ''o'', ''19'')]" "''e54''" "\<lparr>strtoul = of_nat \<circ> length, strtol = int \<circ> length\<rparr>" default_config]
  by (simp add: id_text_def default_config_def)

text \<open>Contrary to the usage text the option for the phases never selects the synchronisation and the call analysis together: of the letters given
  only the first in the order c, s, i counts.\<close>

lemma phases_option_one:
  assumes "set s \<subseteq> {CHR ''c'', CHR ''s'', CHR ''i''}" "s \<noteq> []"
  shows "(ph_calls (phases_option s c), ph_sync (phases_option s c), ph_sec (phases_option s c)) =
    (if CHR ''c'' \<in> set s then (True, False, False) else if CHR ''s'' \<in> set s then (False, True, False) else (True, False, True))"
proof -
  have f: "str_find [x] s = None \<longleftrightarrow> x \<notin> set s" for x by (induction s) auto
  obtain y where "y \<in> set s" using assms(2) by (cases s) auto
  with assms(1) have "CHR ''c'' \<notin> set s \<Longrightarrow> CHR ''s'' \<notin> set s \<Longrightarrow> CHR ''i'' \<in> set s" by auto
  then show ?thesis by (simp add: phases_option_def f Let_def)
qed

end
