(* ===== verification/RwlockTicket.thy ===== *)
theory RwlockTicket
  imports Main
begin

text \<open>
  The abstract specification of the reader-writer lock: tickets are natural numbers that never
  wrap around and every transition is atomic.
\<close>

datatype tk_pc = TIdle | TWait bool nat | TWrite nat | TRead nat

record tk_sys =
  t_next :: nat
  t_read :: nat
  t_write :: nat
  t_pcs :: "nat \<Rightarrow> tk_pc"

definition tk_init :: tk_sys where
  "tk_init = \<lparr>t_next = 0, t_read = 0, t_write = 0, t_pcs = (\<lambda>_. TIdle)\<rparr>"

fun ticket :: "tk_pc \<Rightarrow> nat option" where
  "ticket TIdle = None"
| "ticket (TWait b k) = Some k"
| "ticket (TWrite k) = Some k"
| "ticket (TRead k) = Some k"

fun is_read :: "tk_pc \<Rightarrow> bool" where
  "is_read (TRead k) = True"
| "is_read _ = False"

inductive tk_step :: "nat \<Rightarrow> tk_sys \<Rightarrow> nat \<Rightarrow> tk_sys \<Rightarrow> bool" for N where
  t_take: "\<lbrakk>i < N; t_pcs s i = TIdle\<rbrakk> \<Longrightarrow>
     tk_step N s i (s\<lparr>t_next := Suc (t_next s), t_pcs := (t_pcs s)(i := TWait b (t_next s))\<rparr>)"
| t_w_enter: "\<lbrakk>t_pcs s i = TWait True (t_write s)\<rbrakk> \<Longrightarrow>
     tk_step N s i (s\<lparr>t_pcs := (t_pcs s)(i := TWrite (t_write s))\<rparr>)"
| t_w_leave: "\<lbrakk>t_pcs s i = TWrite k\<rbrakk> \<Longrightarrow>
     tk_step N s i (s\<lparr>t_write := Suc (t_write s), t_read := Suc (t_read s),
       t_pcs := (t_pcs s)(i := TIdle)\<rparr>)"
| t_r_enter: "\<lbrakk>t_pcs s i = TWait False (t_read s)\<rbrakk> \<Longrightarrow>
     tk_step N s i (s\<lparr>t_read := Suc (t_read s), t_pcs := (t_pcs s)(i := TRead (t_read s))\<rparr>)"
| t_r_leave: "\<lbrakk>t_pcs s i = TRead k\<rbrakk> \<Longrightarrow>
     tk_step N s i (s\<lparr>t_write := Suc (t_write s), t_pcs := (t_pcs s)(i := TIdle)\<rparr>)"
| t_w_try: "\<lbrakk>i < N; t_pcs s i = TIdle; t_next s = t_write s\<rbrakk> \<Longrightarrow>
     tk_step N s i (s\<lparr>t_next := Suc (t_next s), t_pcs := (t_pcs s)(i := TWrite (t_next s))\<rparr>)"
| t_r_try: "\<lbrakk>i < N; t_pcs s i = TIdle; t_next s = t_read s\<rbrakk> \<Longrightarrow>
     tk_step N s i (s\<lparr>t_next := Suc (t_next s), t_read := Suc (t_read s),
       t_pcs := (t_pcs s)(i := TRead (t_next s))\<rparr>)"

inductive tk_reach :: "nat \<Rightarrow> tk_sys \<Rightarrow> bool" for N where
  tk_start: "tk_reach N tk_init"
| tk_next: "\<lbrakk>tk_reach N s; tk_step N s i s'\<rbrakk> \<Longrightarrow> tk_reach N s'"

text \<open>
  The order of the three counters; what each thread's ticket is worth; no ticket is held twice;
  every ticket from the read counter on is held; the readers inside are exactly the tickets the
  read counter has passed and the write counter has not; the threads with a ticket are exactly
  the tickets between the write counter and the next one.
\<close>

definition tk_order :: "tk_sys \<Rightarrow> bool" where
  "tk_order s \<longleftrightarrow> t_write s \<le> t_read s \<and> t_read s \<le> t_next s"

definition tk_worth :: "nat \<Rightarrow> tk_sys \<Rightarrow> nat \<Rightarrow> bool" where
  "tk_worth N s i \<longleftrightarrow>
     (case t_pcs s i of
        TIdle \<Rightarrow> True
      | TWait b k \<Rightarrow> i < N \<and> t_read s \<le> k \<and> k < t_next s
      | TWrite k \<Rightarrow> i < N \<and> k = t_read s \<and> k = t_write s \<and> k < t_next s
      | TRead k \<Rightarrow> i < N \<and> k < t_read s)"

definition tk_distinct :: "tk_sys \<Rightarrow> bool" where
  "tk_distinct s \<longleftrightarrow>
     (\<forall>i j k. ticket (t_pcs s i) = Some k \<longrightarrow> ticket (t_pcs s j) = Some k \<longrightarrow> i = j)"

definition tk_cover :: "tk_sys \<Rightarrow> bool" where
  "tk_cover s \<longleftrightarrow> (\<forall>k. t_read s \<le> k \<longrightarrow> k < t_next s \<longrightarrow> (\<exists>i. ticket (t_pcs s i) = Some k))"

definition tk_counts :: "tk_sys \<Rightarrow> bool" where
  "tk_counts s \<longleftrightarrow>
     card {i. is_read (t_pcs s i)} = t_read s - t_write s \<and>
     card {i. t_pcs s i \<noteq> TIdle} = t_next s - t_write s"

definition tk_inv :: "nat \<Rightarrow> tk_sys \<Rightarrow> bool" where
  "tk_inv N s \<longleftrightarrow> tk_order s \<and> (\<forall>i. tk_worth N s i) \<and> tk_distinct s \<and> tk_cover s \<and> tk_counts s"

lemmas tk_inv_defs = tk_order_def tk_worth_def tk_distinct_def tk_cover_def tk_counts_def

lemma tk_inv_init: "tk_inv N tk_init"
  by (simp add: tk_inv_def tk_inv_defs tk_init_def)

lemma tk_worth_bound: "tk_worth N s i \<Longrightarrow> t_pcs s i \<noteq> TIdle \<Longrightarrow> i < N"
  by (auto simp: tk_worth_def split: tk_pc.splits)

lemma fin_nonidle: "tk_inv N s \<Longrightarrow> finite {i. t_pcs s i \<noteq> TIdle}"
  by (rule finite_subset [of _ "{..<N}"]) (auto simp: tk_inv_def dest: tk_worth_bound)

lemma is_read_nonidle: "is_read p \<Longrightarrow> p \<noteq> TIdle"
  by (cases p) auto

lemma fin_read: "tk_inv N s \<Longrightarrow> finite {i. is_read (t_pcs s i)}"
  by (rule finite_subset [OF _ fin_nonidle]) (auto dest: is_read_nonidle)

text \<open>How the two counts move when one thread changes state.\<close>

lemma card_upd_in:
  assumes "finite {i. P (f i)}" "\<not> P (f i)" "P x"
  shows "card {j. P ((f(i := x)) j)} = Suc (card {j. P (f j)})"
proof -
  have "{j. P ((f(i := x)) j)} = insert i {j. P (f j)}" using assms by auto
  with assms show ?thesis by simp
qed

lemma card_upd_out:
  assumes "finite {i. P (f i)}" "P (f i)" "\<not> P x"
  shows "card {j. P ((f(i := x)) j)} = card {j. P (f j)} - 1"
proof -
  have "{j. P ((f(i := x)) j)} = {j. P (f j)} - {i}" using assms by auto
  with assms show ?thesis by simp
qed

lemma card_upd_same:
  assumes "P (f i) \<longleftrightarrow> P x"
  shows "card {j. P ((f(i := x)) j)} = card {j. P (f j)}"
  by (rule arg_cong [where f = card]) (use assms in auto)

lemma tk_worthD:
  assumes "tk_inv N s"
  shows "t_pcs s i = TWait b k \<Longrightarrow> i < N \<and> t_read s \<le> k \<and> k < t_next s"
    and "t_pcs s i = TWrite k \<Longrightarrow> i < N \<and> k = t_read s \<and> k = t_write s \<and> k < t_next s"
    and "t_pcs s i = TRead k \<Longrightarrow> i < N \<and> k < t_read s"
  using assms by (auto simp: tk_inv_def tk_worth_def dest: spec [of _ i] split: tk_pc.splits)

lemma tk_distinctD:
  "\<lbrakk>tk_inv N s; ticket (t_pcs s i) = Some k; ticket (t_pcs s j) = Some k\<rbrakk> \<Longrightarrow> i = j"
  by (auto simp: tk_inv_def tk_distinct_def)

lemma tk_orderD: "tk_inv N s \<Longrightarrow> t_write s \<le> t_read s \<and> t_read s \<le> t_next s"
  by (simp add: tk_inv_def tk_order_def)

lemma tk_ticket_bound: "tk_inv N s \<Longrightarrow> ticket (t_pcs s i) = Some k \<Longrightarrow> k < t_next s"
  using tk_orderD [of N s] tk_worthD [of N s i] by (cases "t_pcs s i") fastforce+

text \<open>A thread that holds for writing keeps every reader out.\<close>

lemma tk_no_reader:
  assumes "tk_inv N s" "t_read s = t_write s"
  shows "\<not> is_read (t_pcs s j)"
proof -
  from assms have "card {i. is_read (t_pcs s i)} = 0"
    by (simp add: tk_inv_def tk_counts_def)
  with fin_read [OF assms(1)] show ?thesis by auto
qed

lemma tk_read_lt:
  assumes "tk_inv N s" "t_pcs s i = TRead k"
  shows "t_write s < t_read s"
proof -
  have "\<not> t_read s = t_write s"
    using tk_no_reader [OF assms(1), of i] assms(2) by auto
  with tk_orderD [OF assms(1)] show ?thesis by simp
qed

text \<open>The parts of the invariant, one step at a time.\<close>

lemma tk_step_order:
  assumes "tk_step N s i s'" "tk_inv N s" shows "tk_order s'"
  using assms(1)
  by cases (use tk_orderD [OF assms(2)] tk_worthD [OF assms(2), of i] tk_read_lt [OF assms(2), of i] in
    \<open>force simp: tk_order_def\<close>)+

lemma tk_step_worth: 
  assumes st: "tk_step N s i s'" and inv: "tk_inv N s" shows "tk_worth N s' j"
proof -
  note D = tk_worthD [OF inv] tk_orderD [OF inv] tk_distinctD [OF inv]
  have old: "tk_worth N s j" using inv by (simp add: tk_inv_def)
  from st show ?thesis
  proof cases
    case (t_take b)
    then show ?thesis using old D(4) by (auto simp: tk_worth_def split: tk_pc.splits)
  next
    case t_w_enter
    then show ?thesis using old D(1) [of i True "t_write s"] D(4)
      by (auto simp: tk_worth_def split: tk_pc.splits)
  next
    case (t_w_leave k)
    have "j \<noteq> i \<Longrightarrow> ticket (t_pcs s j) \<noteq> Some k"
      using D(5) [of i k j] t_w_leave by auto
    with t_w_leave show ?thesis using old D(2) [of i k] 
      by (auto simp: tk_worth_def split: tk_pc.splits)
  next
    case t_r_enter
    have "j \<noteq> i \<Longrightarrow> ticket (t_pcs s j) \<noteq> Some (t_read s)"
      using D(5) [of i "t_read s" j] t_r_enter by auto
    with t_r_enter show ?thesis using old D(1) [of i False "t_read s"] 
      by (auto simp: tk_worth_def le_less split: tk_pc.splits)
  next
    case (t_r_leave k)
    with old D(3) [of i k] tk_read_lt [OF inv, of i k] show ?thesis
      by (auto simp: tk_worth_def split: tk_pc.splits)
  next
    case t_w_try
    then show ?thesis using old D(4) by (auto simp: tk_worth_def split: tk_pc.splits)
  next
    case t_r_try
    then show ?thesis using old D(4) by (auto simp: tk_worth_def split: tk_pc.splits)
  qed
qed

lemma ticket_distinct_upd:
  assumes inv: "tk_inv N s" and upd: "t_pcs s' = (t_pcs s)(i := x)"
    and x: "ticket x = ticket (t_pcs s i) \<or> ticket x = None \<or> ticket x = Some (t_next s)"
  shows "tk_distinct s'"
  unfolding tk_distinct_def upd
proof (intro allI impI)
  fix a b k
  assume a: "ticket (((t_pcs s)(i := x)) a) = Some k" and b: "ticket (((t_pcs s)(i := x)) b) = Some k"
  have "ticket (t_pcs s j) \<noteq> Some k" if "ticket x = Some k" "j \<noteq> i" for j
    using x that tk_distinctD [OF inv, of i k j] tk_ticket_bound [OF inv, of j k] by auto
  with a b tk_distinctD [OF inv, of a k b] show "a = b"
    by (cases "a = i"; cases "b = i") auto
qed

lemma tk_step_distinct:
  assumes st: "tk_step N s i s'" and inv: "tk_inv N s" shows "tk_distinct s'"
  using st by cases (rule ticket_distinct_upd [OF inv, of _ i], simp, simp)+

lemma tk_step_cover:
  assumes st: "tk_step N s i s'" and inv: "tk_inv N s" shows "tk_cover s'"
proof -
  have upd: "\<exists>a. ticket (((t_pcs s)(i := x)) a) = Some k"
    if "t_read s \<le> k" "k < t_next s" "ticket (t_pcs s i) = Some k \<Longrightarrow> ticket x = Some k" for x k
  proof -
    from inv that obtain a where "ticket (t_pcs s a) = Some k"
      by (auto simp: tk_inv_def tk_cover_def)
    with that(3) show ?thesis by (intro exI [of _ a]) auto
  qed
  have new: "\<exists>a. ticket (((t_pcs s)(i := x)) a) = Some k" if "ticket x = Some k" for x k
    using that by (intro exI [of _ i]) simp
  note D = tk_worthD [OF inv, of i] tk_orderD [OF inv]
  from st show ?thesis
  proof cases
    case (t_take b)
    then show ?thesis using upd new by (auto simp: tk_cover_def less_Suc_eq simp del: fun_upd_apply)
  next
    case t_w_enter
    then show ?thesis using upd by (auto simp: tk_cover_def simp del: fun_upd_apply)
  next
    case (t_w_leave k)
    then show ?thesis using upd D by (auto simp: tk_cover_def simp del: fun_upd_apply)
  next
    case t_r_enter
    then show ?thesis using upd by (auto simp: tk_cover_def simp del: fun_upd_apply)
  next
    case (t_r_leave k)
    then show ?thesis using upd D by (auto simp: tk_cover_def simp del: fun_upd_apply)
  next
    case t_w_try
    then show ?thesis using upd new by (auto simp: tk_cover_def less_Suc_eq simp del: fun_upd_apply)
  next
    case t_r_try
    then show ?thesis by (auto simp: tk_cover_def)
  qed
qed

lemma tk_step_counts:
  assumes st: "tk_step N s i s'" and inv: "tk_inv N s" shows "tk_counts s'"
proof -
  note F = fin_nonidle [OF inv] fin_read [OF inv]
  note D = tk_worthD [OF inv, of i] tk_orderD [OF inv] tk_read_lt [OF inv, of i]
  note U = card_upd_in [where P = is_read, OF F(2)] card_upd_out [where P = is_read, OF F(2)]
    card_upd_same [where P = is_read]
    card_upd_in [where P = "\<lambda>p. p \<noteq> TIdle", OF F(1)] card_upd_out [where P = "\<lambda>p. p \<noteq> TIdle", OF F(1)]
    card_upd_same [where P = "\<lambda>p. p \<noteq> TIdle"]
  have old: "card {i. is_read (t_pcs s i)} = t_read s - t_write s"
    "card {i. t_pcs s i \<noteq> TIdle} = t_next s - t_write s"
    using inv by (auto simp: tk_inv_def tk_counts_def)
  from st show ?thesis
    by cases (use D old in \<open>force simp: tk_counts_def U simp del: fun_upd_apply\<close>)+
qed

lemma tk_step_inv:
  assumes "tk_step N s i s'" "tk_inv N s" shows "tk_inv N s'"
  using tk_step_order [OF assms] tk_step_worth [OF assms] tk_step_distinct [OF assms]
    tk_step_cover [OF assms] tk_step_counts [OF assms]
  by (simp add: tk_inv_def)

lemma tk_reach_inv: "tk_reach N s \<Longrightarrow> tk_inv N s"
  by (induction rule: tk_reach.induct) (auto intro: tk_inv_init tk_step_inv)

text \<open>Exclusion and progress of the specification.\<close>

lemma tk_window: "tk_inv N s \<Longrightarrow> t_next s \<le> t_write s + N"
proof -
  assume inv: "tk_inv N s"
  have "card {i. t_pcs s i \<noteq> TIdle} \<le> card {..<N}"
    using inv by (intro card_mono) (auto simp: tk_inv_def dest: tk_worth_bound)
  with inv show ?thesis
    using tk_orderD [OF inv] by (auto simp: tk_inv_def tk_counts_def)
qed

lemma tk_window_idle:
  assumes inv: "tk_inv N s" and i: "i < N" "t_pcs s i = TIdle"
  shows "t_next s < t_write s + N"
proof -
  have "card {i. t_pcs s i \<noteq> TIdle} \<le> card ({..<N} - {i})"
    using inv i by (intro card_mono) (auto simp: tk_inv_def dest: tk_worth_bound)
  with inv i show ?thesis
    using tk_orderD [OF inv] by (auto simp: tk_inv_def tk_counts_def)
qed

lemma tk_exclusion_ww:
  "\<lbrakk>tk_inv N s; t_pcs s i = TWrite k; t_pcs s j = TWrite m\<rbrakk> \<Longrightarrow> i = j"
  using tk_worthD(2) [of N s i k] tk_worthD(2) [of N s j m] tk_distinctD [of N s i k j] by simp

lemma tk_exclusion_wr: "\<lbrakk>tk_inv N s; t_pcs s i = TWrite k\<rbrakk> \<Longrightarrow> t_pcs s j \<noteq> TRead m"
  using tk_worthD(2) [of N s i k] tk_no_reader [of N s j] by auto

end
