(* ===== verification/RwlockConc.thy ===== *)
theory RwlockConc
  imports Rwlock RwlockTicket
begin

text \<open>
  The lock of \<^verbatim>\<open>src/common/rwlock.cpp\<close> under any interleaving of up to 256 threads. Every
  access to the shared word is one step.
\<close>

section \<open>The interleaving semantics\<close>

datatype rw_pc =
    Idle
  | WSpin u8
  | WHeld
  | WStore rwlock_t
  | WTry u8
  | WCas u8 u8
  | RSpin u8
  | RLoad
  | RStore u8
  | RHeld
  | RTry u8
  | RCas u8 u8

record rw_sys =
  lock :: rwlock_t
  pcs :: "nat \<Rightarrow> rw_pc"

definition rw_init :: rw_sys where
  "rw_init = \<lparr>lock = rw_zero, pcs = (\<lambda>_. Idle)\<rparr>"

inductive rw_step :: "nat \<Rightarrow> rw_sys \<Rightarrow> nat \<Rightarrow> rw_sys \<Rightarrow> bool" for N where
  w_take: "\<lbrakk>i < N; pcs s i = Idle; take_ticket (lock s) = (val, l')\<rbrakk> \<Longrightarrow>
     rw_step N s i (s\<lparr>lock := l', pcs := (pcs s)(i := WSpin val)\<rparr>)"
| w_enter: "\<lbrakk>pcs s i = WSpin val; val = rw_write (lock s)\<rbrakk> \<Longrightarrow>
     rw_step N s i (s\<lparr>pcs := (pcs s)(i := WHeld)\<rparr>)"
| w_copy: "pcs s i = WHeld \<Longrightarrow> rw_step N s i (s\<lparr>pcs := (pcs s)(i := WStore (lock s))\<rparr>)"
| w_store: "pcs s i = WStore t \<Longrightarrow>
     rw_step N s i (s\<lparr>lock := rw_set_us (rw_us (write_incr t)) (lock s),
       pcs := (pcs s)(i := Idle)\<rparr>)"
| w_try_users: "\<lbrakk>i < N; pcs s i = Idle\<rbrakk> \<Longrightarrow>
     rw_step N s i (s\<lparr>pcs := (pcs s)(i := WTry (rw_users (lock s)))\<rparr>)"
| w_try_read: "pcs s i = WTry me \<Longrightarrow>
     rw_step N s i (s\<lparr>pcs := (pcs s)(i := WCas me (rw_read (lock s)))\<rparr>)"
| w_try_cas: "\<lbrakk>pcs s i = WCas me rd;
      write_trylock_cas (ucast me) (push_bit 8 (ucast rd)) (lock s) = (ret, l')\<rbrakk> \<Longrightarrow>
     rw_step N s i (s\<lparr>lock := l', pcs := (pcs s)(i := if ret = 0 then WHeld else Idle)\<rparr>)"
| r_take: "\<lbrakk>i < N; pcs s i = Idle; take_ticket (lock s) = (val, l')\<rbrakk> \<Longrightarrow>
     rw_step N s i (s\<lparr>lock := l', pcs := (pcs s)(i := RSpin val)\<rparr>)"
| r_enter: "\<lbrakk>pcs s i = RSpin val; val = rw_read (lock s)\<rbrakk> \<Longrightarrow>
     rw_step N s i (s\<lparr>pcs := (pcs s)(i := RLoad)\<rparr>)"
| r_load: "pcs s i = RLoad \<Longrightarrow>
     rw_step N s i (s\<lparr>pcs := (pcs s)(i := RStore (rw_read (lock s)))\<rparr>)"
| r_store: "pcs s i = RStore b \<Longrightarrow>
     rw_step N s i (s\<lparr>lock := (lock s)\<lparr>rw_read := b + 1\<rparr>, pcs := (pcs s)(i := RHeld)\<rparr>)"
| r_leave: "pcs s i = RHeld \<Longrightarrow>
     rw_step N s i (s\<lparr>lock := read_unlock (lock s), pcs := (pcs s)(i := Idle)\<rparr>)"
| r_try_users: "\<lbrakk>i < N; pcs s i = Idle\<rbrakk> \<Longrightarrow>
     rw_step N s i (s\<lparr>pcs := (pcs s)(i := RTry (rw_users (lock s)))\<rparr>)"
| r_try_write: "pcs s i = RTry me \<Longrightarrow>
     rw_step N s i (s\<lparr>pcs := (pcs s)(i := RCas me (rw_write (lock s)))\<rparr>)"
| r_try_cas: "\<lbrakk>pcs s i = RCas me wr;
      read_trylock_cas (ucast me) (ucast wr) (lock s) = (ret, l')\<rbrakk> \<Longrightarrow>
     rw_step N s i (s\<lparr>lock := l', pcs := (pcs s)(i := if ret = 0 then RHeld else Idle)\<rparr>)"

inductive rw_reach :: "nat \<Rightarrow> rw_sys \<Rightarrow> bool" for N where
  rw_start: "rw_reach N rw_init"
| rw_next: "\<lbrakk>rw_reach N s; rw_step N s i s'\<rbrakk> \<Longrightarrow> rw_reach N s'"

definition writing :: "rw_sys \<Rightarrow> nat \<Rightarrow> bool" where
  "writing s i \<longleftrightarrow> (case pcs s i of WHeld \<Rightarrow> True | WStore t \<Rightarrow> True | _ \<Rightarrow> False)"

definition reading :: "rw_sys \<Rightarrow> nat \<Rightarrow> bool" where
  "reading s i \<longleftrightarrow> pcs s i = RHeld"

section \<open>Simulation by the ticket specification\<close>

definition pc_rel :: "nat \<Rightarrow> tk_sys \<Rightarrow> nat \<Rightarrow> rw_pc \<Rightarrow> bool" where
  "pc_rel N a i p \<longleftrightarrow>
     (case p of
        Idle \<Rightarrow> t_pcs a i = TIdle
      | WSpin v \<Rightarrow> (\<exists>k. t_pcs a i = TWait True k \<and> v = of_nat k)
      | WHeld \<Rightarrow> (\<exists>k. t_pcs a i = TWrite k)
      | WStore t \<Rightarrow> (\<exists>k. t_pcs a i = TWrite k) \<and> rw_write t = of_nat (t_write a) \<and>
          rw_read t = of_nat (t_read a)
      | WTry me \<Rightarrow> i < N \<and> t_pcs a i = TIdle
      | WCas me rd \<Rightarrow> i < N \<and> t_pcs a i = TIdle
      | RSpin v \<Rightarrow> (\<exists>k. t_pcs a i = TWait False k \<and> v = of_nat k)
      | RLoad \<Rightarrow> t_pcs a i = TWait False (t_read a)
      | RStore b \<Rightarrow> t_pcs a i = TWait False (t_read a) \<and> b = of_nat (t_read a)
      | RHeld \<Rightarrow> (\<exists>k. t_pcs a i = TRead k)
      | RTry me \<Rightarrow> i < N \<and> t_pcs a i = TIdle
      | RCas me wr \<Rightarrow> i < N \<and> t_pcs a i = TIdle)"

definition lock_rel :: "rwlock_t \<Rightarrow> tk_sys \<Rightarrow> bool" where
  "lock_rel l a \<longleftrightarrow> rw_users l = of_nat (t_next a) \<and> rw_read l = of_nat (t_read a) \<and>
     rw_write l = of_nat (t_write a)"

definition rw_sim :: "nat \<Rightarrow> rw_sys \<Rightarrow> tk_sys \<Rightarrow> bool" where
  "rw_sim N s a \<longleftrightarrow> tk_reach N a \<and> lock_rel (lock s) a \<and> (\<forall>i. pc_rel N a i (pcs s i))"

lemma rw_sim_init: "rw_sim N rw_init tk_init"
  unfolding rw_sim_def
  by (intro conjI tk_start) (simp_all add: rw_init_def tk_init_def lock_rel_def pc_rel_def rw_zero_def)

text \<open>Where two related counters are equal as bytes they are equal as numbers.\<close>

lemma sim_write_ticket:
  assumes "tk_inv N a" "N \<le> 256" "t_pcs a i = TWait b k" "(of_nat k :: u8) = of_nat (t_write a)"
  shows "k = t_write a"
proof -
  have "t_write a \<le> k" "k < t_write a + 256"
    using tk_worthD(1) [OF assms(1,3)] tk_orderD [OF assms(1)] tk_window [OF assms(1)] assms(2)
    by linarith+
  with assms(4) show ?thesis using of_nat_u8_eq_iff [of "t_write a" k] by simp
qed

lemma sim_read_ticket:
  assumes "tk_inv N a" "N \<le> 256" "t_pcs a i = TWait b k" "(of_nat k :: u8) = of_nat (t_read a)"
  shows "k = t_read a"
proof -
  have "t_read a \<le> k" "k < t_read a + 256"
    using tk_worthD(1) [OF assms(1,3)] tk_orderD [OF assms(1)] tk_window [OF assms(1)] assms(2)
    by linarith+
  with assms(4) show ?thesis using of_nat_u8_eq_iff [of "t_read a" k] by simp
qed

lemma sim_free:
  assumes "tk_inv N a" "N \<le> 256" "i < N" "t_pcs a i = TIdle"
    "(of_nat (t_next a) :: u8) = of_nat c" "c = t_write a \<or> c = t_read a"
  shows "t_next a = c"
proof -
  have "c \<le> t_next a" "t_next a < c + 256"
    using assms(2,6) tk_orderD [OF assms(1)] tk_window_idle [OF assms(1,3,4)] by linarith+
  with assms(5) show ?thesis using of_nat_u8_eq_iff [of c "t_next a"] by simp
qed

text \<open>A step of one thread leaves the others related.\<close>

lemma pc_rel_frame:
  assumes "tk_inv N a" "pc_rel N a j p" "t_pcs a' j = t_pcs a j"
    and "t_read a' = t_read a \<or> ticket (t_pcs a j) \<noteq> Some (t_read a)"
    and "t_write a' = t_write a \<or> (\<forall>k. t_pcs a j \<noteq> TWrite k)"
  shows "pc_rel N a' j p"
proof (cases p)
  case (WStore t)
  with assms(2) obtain k where k: "t_pcs a j = TWrite k" by (auto simp: pc_rel_def)
  with tk_worthD(2) [OF assms(1) this] assms(4,5) have "t_read a' = t_read a" "t_write a' = t_write a"
    by auto
  with WStore assms(2,3) show ?thesis by (simp add: pc_rel_def)
qed (use assms(2-4) in \<open>auto simp: pc_rel_def\<close>)

lemma rw_simI:
  assumes sim: "rw_sim N s a" and st: "tk_step N a i a'" and l: "lock_rel l' a'"
    and p: "pc_rel N a' i p"
    and fr: "\<And>j. j \<noteq> i \<Longrightarrow> t_pcs a' j = t_pcs a j \<and>
      (t_read a' = t_read a \<or> ticket (t_pcs a j) \<noteq> Some (t_read a)) \<and>
      (t_write a' = t_write a \<or> (\<forall>k. t_pcs a j \<noteq> TWrite k))"
  shows "\<exists>a'. (a' = a \<or> tk_step N a i a') \<and> rw_sim N (s\<lparr>lock := l', pcs := (pcs s)(i := p)\<rparr>) a'"
proof -
  have inv: "tk_inv N a" and reach: "tk_reach N a'"
    using sim st by (auto simp: rw_sim_def intro: tk_reach_inv tk_next)
  have rel: "pc_rel N a j (pcs s j)" for j
    using sim unfolding rw_sim_def by blast
  have "pc_rel N a' j (((pcs s)(i := p)) j)" for j
  proof (cases "j = i")
    case True
    with p show ?thesis by simp
  next
    case False
    have "pc_rel N a' j (pcs s j)"
      using fr [OF False] by (intro pc_rel_frame [OF inv rel]) blast+
    with False show ?thesis by simp
  qed
  then have "rw_sim N (s\<lparr>lock := l', pcs := (pcs s)(i := p)\<rparr>) a'"
    using l reach by (simp add: rw_sim_def del: fun_upd_apply)
  with st show ?thesis by blast
qed

lemma rw_sim_stutter:
  assumes "rw_sim N s a" "pc_rel N a i p"
  shows "\<exists>a'. (a' = a \<or> tk_step N a i a') \<and> rw_sim N (s\<lparr>pcs := (pcs s)(i := p)\<rparr>) a'"
  using assms by (intro exI [of _ a]) (auto simp: rw_sim_def)

lemma rw_simD:
  assumes "rw_sim N s a"
  shows "tk_inv N a" "lock_rel (lock s) a" "pc_rel N a i (pcs s i)"
  using assms by (auto simp: rw_sim_def intro: tk_reach_inv)

lemma of_nat_u8_Suc: "(of_nat (Suc n) :: u8) = of_nat n + 1"
  by simp

lemma rw_step_simulates:
  assumes st: "rw_step N s i s'" and N: "N \<le> 256" and sim: "rw_sim N s a"
  shows "\<exists>a'. (a' = a \<or> tk_step N a i a') \<and> rw_sim N s' a'"
proof -
  note inv = rw_simD(1) [OF sim] and lr = rw_simD(2) [OF sim, unfolded lock_rel_def]
    and pr = rw_simD(3) [OF sim, of i, unfolded pc_rel_def]
  note D = tk_worthD [OF inv] tk_distinctD [OF inv, of i]
  from st show ?thesis
  proof cases
    case (w_take val l')
    show ?thesis unfolding w_take(1)
      by (rule rw_simI [OF sim t_take [of i N a True]])
        (use w_take(2-4) pr lr in \<open>auto simp: lock_rel_def pc_rel_def take_ticket_eq\<close>)
  next
    case (w_enter val)
    with pr obtain k where k: "t_pcs a i = TWait True k" "val = of_nat k" by auto
    with w_enter(3) lr have "k = t_write a" using sim_write_ticket [OF inv N k(1)] by simp
    then have tw: "t_pcs a i = TWait True (t_write a)" using k by simp
    have "s' = s\<lparr>lock := lock s, pcs := (pcs s)(i := WHeld)\<rparr>" using w_enter(1) by simp
    then show ?thesis
      using rw_simI [OF sim t_w_enter [OF tw], of "lock s" WHeld] lr by (auto simp: lock_rel_def pc_rel_def)
  next
    case w_copy
    then show ?thesis using pr lr by (auto intro!: rw_sim_stutter [OF sim] simp: pc_rel_def)
  next
    case (w_store t)
    with pr obtain k where k: "t_pcs a i = TWrite k" by auto
    have o: "ticket (t_pcs a j) \<noteq> Some (t_read a)" "t_pcs a j \<noteq> TWrite m" if "j \<noteq> i" for j m
      using D(2) [OF k] D(4) [of "t_read a" j] k that tk_exclusion_ww [OF inv k, of j m] by auto
    show ?thesis unfolding w_store(1)
      by (rule rw_simI [OF sim t_w_leave [OF k]])
        (use w_store(2) pr lr o in \<open>auto simp: lock_rel_def pc_rel_def write_incr_def\<close>)
  next
    case w_try_users
    then show ?thesis using pr by (auto intro!: rw_sim_stutter [OF sim] simp: pc_rel_def)
  next
    case (w_try_read me)
    then show ?thesis using pr by (auto intro!: rw_sim_stutter [OF sim] simp: pc_rel_def)
  next
    case (w_try_cas me rd ret l')
    with pr have i: "i < N" "t_pcs a i = TIdle" by auto
    show ?thesis
    proof (cases "ret = 0")
      case True
      with w_try_cas(3) have ok: "rw_write (lock s) = me" "rw_users (lock s) = me" "l' = (lock s)\<lparr>rw_users := me + 1\<rparr>"
        by (auto simp: write_trylock_cas_eq EBUSY_def split: if_splits)
      then have "t_next a = t_write a" using sim_free [OF inv N i, of "t_write a"] lr by simp
      show ?thesis unfolding w_try_cas(1)
        by (rule rw_simI [OF sim t_w_try [OF i \<open>t_next a = t_write a\<close>]])
          (use True ok lr in \<open>auto simp: lock_rel_def pc_rel_def\<close>)
    next
      case False
      with w_try_cas(3) have "l' = lock s"
        by (auto simp: write_trylock_cas_eq split: if_splits)
      with False w_try_cas(1) i show ?thesis
        using rw_sim_stutter [OF sim, of i Idle] by (simp add: pc_rel_def)
    qed
  next
    case (r_take val l')
    show ?thesis unfolding r_take(1)
      by (rule rw_simI [OF sim t_take [of i N a False]])
        (use r_take(2-4) pr lr in \<open>auto simp: lock_rel_def pc_rel_def take_ticket_eq\<close>)
  next
    case (r_enter val)
    with pr obtain k where k: "t_pcs a i = TWait False k" "val = of_nat k" by auto
    with r_enter(3) lr have "k = t_read a" using sim_read_ticket [OF inv N k(1)] by simp
    with k r_enter show ?thesis by (auto intro!: rw_sim_stutter [OF sim] simp: pc_rel_def)
  next
    case r_load
    then show ?thesis using pr lr by (auto intro!: rw_sim_stutter [OF sim] simp: pc_rel_def)
  next
    case (r_store b)
    with pr have k: "t_pcs a i = TWait False (t_read a)" and b: "b = of_nat (t_read a)" by auto
    have o: "ticket (t_pcs a j) \<noteq> Some (t_read a)" if "j \<noteq> i" for j
      using D(4) [of "t_read a" j] k that by auto
    show ?thesis unfolding r_store(1)
      by (rule rw_simI [OF sim t_r_enter [OF k]])
        (use b lr o in \<open>auto simp: lock_rel_def pc_rel_def\<close>)
  next
    case r_leave
    with pr obtain k where k: "t_pcs a i = TRead k" by auto
    show ?thesis unfolding r_leave(1)
      by (rule rw_simI [OF sim t_r_leave [OF k]])
        (use k lr tk_exclusion_wr [OF inv, of _ _ i k] in
          \<open>auto simp: lock_rel_def pc_rel_def read_unlock_def\<close>)
  next
    case r_try_users
    then show ?thesis using pr by (auto intro!: rw_sim_stutter [OF sim] simp: pc_rel_def)
  next
    case (r_try_write me)
    then show ?thesis using pr by (auto intro!: rw_sim_stutter [OF sim] simp: pc_rel_def)
  next
    case (r_try_cas me wr ret l')
    with pr have i: "i < N" "t_pcs a i = TIdle" by auto
    show ?thesis
    proof (cases "ret = 0")
      case True
      with r_try_cas(3) have ok: "rw_read (lock s) = me" "rw_users (lock s) = me"
        "l' = (lock s)\<lparr>rw_users := me + 1, rw_read := me + 1\<rparr>"
        by (auto simp: read_trylock_cas_eq EBUSY_def split: if_splits)
      then have nr: "t_next a = t_read a" using sim_free [OF inv N i, of "t_read a"] lr by simp
      have o: "ticket (t_pcs a j) \<noteq> Some (t_read a)" for j
        using tk_ticket_bound [OF inv, of j "t_read a"] nr by auto
      show ?thesis unfolding r_try_cas(1)
        by (rule rw_simI [OF sim t_r_try [OF i nr]])
          (use True ok lr o nr in \<open>auto simp: lock_rel_def pc_rel_def\<close>)
    next
      case False
      with r_try_cas(3) have "l' = lock s"
        by (auto simp: read_trylock_cas_eq split: if_splits)
      with False r_try_cas(1) i show ?thesis
        using rw_sim_stutter [OF sim, of i Idle] by (simp add: pc_rel_def)
    qed
  qed
qed

lemma rw_reach_sim: "rw_reach N s \<Longrightarrow> N \<le> 256 \<Longrightarrow> \<exists>a. rw_sim N s a"
proof (induction rule: rw_reach.induct)
  case rw_start
  show ?case using rw_sim_init by blast
next
  case (rw_next s i s')
  then show ?case using rw_step_simulates by blast
qed

section \<open>The contract of the lock\<close>

text \<open>
  What a client of a reader-writer lock relies on, and what follows for the data it guards: two
  threads inside at the same time are both readers.
\<close>

locale rw_exclusion =
  fixes reach :: "'s \<Rightarrow> bool"
    and writer :: "'s \<Rightarrow> nat \<Rightarrow> bool"
    and reader :: "'s \<Rightarrow> nat \<Rightarrow> bool"
  assumes writer_unique: "\<lbrakk>reach s; writer s i; writer s j\<rbrakk> \<Longrightarrow> i = j"
    and writer_alone: "\<lbrakk>reach s; writer s i\<rbrakk> \<Longrightarrow> \<not> reader s j"
begin

lemma inside_together:
  "\<lbrakk>reach s; i \<noteq> j; writer s i \<or> reader s i; writer s j \<or> reader s j\<rbrakk> \<Longrightarrow>
   reader s i \<and> reader s j \<and> (\<forall>m. \<not> writer s m)"
  using writer_unique writer_alone by blast

end

interpretation tk: rw_exclusion "tk_reach N" "\<lambda>s i. \<exists>k. t_pcs s i = TWrite k"
  "\<lambda>s i. \<exists>k. t_pcs s i = TRead k" for N
  by unfold_locales (auto dest: tk_reach_inv intro: tk_exclusion_ww dest!: tk_exclusion_wr)

lemma writing_abs: "rw_sim N s a \<Longrightarrow> writing s i \<longleftrightarrow> (\<exists>k. t_pcs a i = TWrite k)"
  using rw_simD(3) [of N s a i] by (auto simp: writing_def pc_rel_def split: rw_pc.splits)

lemma reading_abs: "rw_sim N s a \<Longrightarrow> reading s i \<longleftrightarrow> (\<exists>k. t_pcs a i = TRead k)"
  using rw_simD(3) [of N s a i] by (auto simp: reading_def pc_rel_def split: rw_pc.splits)

lemma rw_sim_reach: "rw_sim N s a \<Longrightarrow> tk_reach N a"
  by (simp add: rw_sim_def)

interpretation rw: rw_exclusion "\<lambda>s. \<exists>N \<le> 256. rw_reach N s" writing reading
proof
  fix s i j
  assume "\<exists>N \<le> 256. rw_reach N s" and w: "writing s i"
  then obtain N a where sim: "rw_sim N s a" using rw_reach_sim by blast
  note abs = writing_abs [OF sim] reading_abs [OF sim]
  show "writing s j \<Longrightarrow> i = j"
    using tk.writer_unique [OF rw_sim_reach [OF sim]] w by (simp add: abs)
  show "\<not> reading s j"
    using tk.writer_alone [OF rw_sim_reach [OF sim]] w by (simp add: abs)
qed

section \<open>Properties\<close>

text \<open>C21: in every state that up to 256 threads can reach by any interleaving of the lock's
  operations, a thread that holds the lock for writing is the only writer, and no thread holds
  it for reading.\<close>

theorem rw_mutual_exclusion:
  assumes "rw_reach N s" and "N \<le> 256" and "writing s i"
  shows "(writing s j \<longrightarrow> j = i) \<and> \<not> reading s j"
  using assms rw.writer_unique [of s j i] rw.writer_alone [of s i j] by blast

lemma rw_reach_two_steps:
  "rw_reach 2 (rw_init\<lparr>lock := snd (take_ticket rw_zero), pcs := (pcs rw_init)(0 := WHeld)\<rparr>)"
proof -
  let ?s = "rw_init\<lparr>lock := snd (take_ticket rw_zero), pcs := (pcs rw_init)(0 := WSpin 0)\<rparr>"
  have "rw_step 2 rw_init 0 ?s"
    by (rule w_take) (simp_all add: rw_init_def take_ticket_eq rw_zero_def)
  then have "rw_reach 2 ?s" by (rule rw_next [OF rw_start])
  moreover have "rw_step 2 ?s 0 (?s\<lparr>pcs := (pcs ?s)(0 := WHeld)\<rparr>)"
    by (rule w_enter) (simp_all add: take_ticket_eq rw_zero_def)
  ultimately have "rw_reach 2 (?s\<lparr>pcs := (pcs ?s)(0 := WHeld)\<rparr>)" by (rule rw_next)
  then show ?thesis by simp
qed

theorem rw_mutual_exclusion_witness:
  "\<exists>s. rw_reach 2 s \<and> writing s 0 \<and> \<not> writing s 1 \<and> \<not> reading s 1"
proof -
  let ?s = "rw_init\<lparr>lock := snd (take_ticket rw_zero), pcs := (pcs rw_init)(0 := WHeld)\<rparr>"
  have "writing ?s 0" by (simp add: writing_def)
  then show ?thesis
    using rw_mutual_exclusion [OF rw_reach_two_steps, of 0 1] rw_reach_two_steps by force
qed

text \<open>Only a thread that spins on an unequal byte, or that has nothing to do, cannot move.\<close>

lemma not_enabled:
  assumes "\<And>s'. \<not> rw_step N s i s'" "i < N \<or> pcs s i \<noteq> Idle"
  shows "(\<exists>v. pcs s i = WSpin v \<and> v \<noteq> rw_write (lock s)) \<or>
    (\<exists>v. pcs s i = RSpin v \<and> v \<noteq> rw_read (lock s))"
proof (cases "pcs s i")
  case Idle
  then show ?thesis using assms w_try_users [of i N s] by blast
next
  case (WSpin v)
  then show ?thesis using assms(1) w_enter [of s i v N] by blast
next
  case WHeld
  then show ?thesis using assms(1) w_copy [of s i N] by blast
next
  case (WStore t)
  then show ?thesis using assms(1) w_store [of s i t N] by blast
next
  case (WTry me)
  then show ?thesis using assms(1) w_try_read [of s i me N] by blast
next
  case (WCas me rd)
  then show ?thesis using assms(1) w_try_cas [OF WCas surjective_pairing, of N] by blast
next
  case (RSpin v)
  then show ?thesis using assms(1) r_enter [of s i v N] by blast
next
  case RLoad
  then show ?thesis using assms(1) r_load [of s i N] by blast
next
  case (RStore b)
  then show ?thesis using assms(1) r_store [of s i b N] by blast
next
  case RHeld
  then show ?thesis using assms(1) r_leave [of s i N] by blast
next
  case (RTry me)
  then show ?thesis using assms(1) r_try_write [of s i me N] by blast
next
  case (RCas me wr)
  then show ?thesis using assms(1) r_try_cas [OF RCas surjective_pairing, of N] by blast
qed

text \<open>C23: the lock never deadlocks: as long as a thread holds the lock, waits for it or is in the
  middle of an operation, some such thread can take its next step.\<close>

theorem rw_progress:
  assumes reach: "rw_reach N s" and N: "N \<le> 256" and busy: "pcs s i \<noteq> Idle"
  shows "\<exists>j s'. pcs s j \<noteq> Idle \<and> rw_step N s j s'"
proof (rule ccontr)
  assume "\<not> ?thesis"
  then have stuck: "pcs s j = Idle \<or> (\<exists>v. pcs s j = WSpin v \<and> v \<noteq> rw_write (lock s)) \<or>
    (\<exists>v. pcs s j = RSpin v \<and> v \<noteq> rw_read (lock s))" for j
    using not_enabled [of N s j] by blast
  from rw_reach_sim [OF reach N] obtain a where sim: "rw_sim N s a" by blast
  note inv = rw_simD(1) [OF sim] and lr = rw_simD(2) [OF sim, unfolded lock_rel_def]
    and pr = rw_simD(3) [OF sim, unfolded pc_rel_def]
  have nr: "\<not> is_read (t_pcs a j)" for j
    using stuck [of j] pr [of j] by auto
  then have eq: "t_read a = t_write a"
    using inv tk_orderD [OF inv] by (simp add: tk_inv_def tk_counts_def)
  from busy stuck [of i] pr [of i] obtain b k where "t_pcs a i = TWait b k" by auto
  then have "t_read a < t_next a" using tk_worthD(1) [OF inv] by fastforce
  then obtain j where j: "ticket (t_pcs a j) = Some (t_read a)"
    using inv by (auto simp: tk_inv_def tk_cover_def)
  then show False
    using stuck [of j] pr [of j] lr eq by auto
qed

theorem rw_progress_witness:
  "\<exists>s. rw_reach 2 s \<and> pcs s 0 = WHeld \<and> (\<exists>j s'. pcs s j \<noteq> Idle \<and> rw_step 2 s j s')"
proof -
  let ?s = "rw_init\<lparr>lock := snd (take_ticket rw_zero), pcs := (pcs rw_init)(0 := WHeld)\<rparr>"
  have "pcs ?s 0 = WHeld" by simp
  then show ?thesis
    using rw_progress [OF rw_reach_two_steps, of 0] rw_reach_two_steps by force
qed

end
