(* ===== verification/EventsSer.thy ===== *)
theory EventsSer
  imports Events "HOL-Library.Sublist"
begin

text \<open>Correctness of the recursive insertion: what a serialised heap looks like.\<close>

section \<open>Serialised heaps\<close>

definition wf_heap :: "heap \<Rightarrow> bool" where
  "wf_heap h \<longleftrightarrow> (\<forall>p < length h. \<forall>q \<in> set (ev_refs (ev_body (h ! p))). q < p)"

definition ins :: "heap \<Rightarrow> ev_ptr set" where
  "ins h = {p. p < length h \<and> is_inserted h p}"

definition row_of :: "heap \<Rightarrow> ev_ptr \<Rightarrow> nat" where
  "row_of h p = unat (get_sql_id h p) - 1"

text \<open>
  The ids number the rows one to one; the row of an inserted event is what the event binds; and
  everything it refers to is in an earlier row.
\<close>

definition ser_inv :: "ser \<Rightarrow> bool" where
  "ser_inv s \<longleftrightarrow> (case s of (h, rows) \<Rightarrow>
     wf_heap h \<and> length h < 2 ^ 63 \<and>
     bij_betw (row_of h) (ins h) {..<length rows} \<and>
     (\<forall>p \<in> ins h. get_sql_id h p = of_nat (Suc (row_of h p)) \<and>
        rows ! row_of h p = sql_bind h (h ! p)) \<and>
     (\<forall>p \<in> ins h. \<forall>q \<in> set (ev_refs (ev_body (h ! p))). q \<in> ins h \<and> row_of h q < row_of h p))"

text \<open>How a serialisation step may change heap and table: rows are only appended, of an event only
  the id changes, and an id is set once.\<close>

definition ser_le :: "ser \<Rightarrow> ser \<Rightarrow> bool" where
  "ser_le s t \<longleftrightarrow> length (fst t) = length (fst s) \<and>
     (\<forall>p. p < length (fst s) \<longrightarrow>
        fst t ! p = (fst s ! p)\<lparr>ev_sql_id := get_sql_id (fst t) p\<rparr>) \<and>
     (\<forall>p \<in> ins (fst s). fst t ! p = fst s ! p) \<and> prefix (snd s) (snd t)"

lemma ser_le_refl [simp]: "ser_le s s"
  by (simp add: ser_le_def get_sql_id_def)

lemma ser_le_ins: "ser_le s t \<Longrightarrow> p \<in> ins (fst s) \<Longrightarrow> p \<in> ins (fst t)"
  by (auto simp: ser_le_def ins_def is_inserted_def get_sql_id_def)

lemma ser_le_body:
  assumes "ser_le s t" "p < length (fst s)"
  shows "ev_body (fst t ! p) = ev_body (fst s ! p)"
proof -
  have "fst t ! p = (fst s ! p)\<lparr>ev_sql_id := get_sql_id (fst t) p\<rparr>"
    using assms by (simp add: ser_le_def)
  then have "ev_body (fst t ! p) = ev_body ((fst s ! p)\<lparr>ev_sql_id := get_sql_id (fst t) p\<rparr>)"
    by (rule arg_cong)
  then show ?thesis by simp
qed

lemma ser_le_trans: 
  assumes st: "ser_le s t" and tu: "ser_le t u" shows "ser_le s u"
  unfolding ser_le_def
proof (intro conjI allI impI ballI)
  show "length (fst u) = length (fst s)" using assms by (simp add: ser_le_def)
  show "prefix (snd s) (snd u)" using assms by (auto simp: ser_le_def)
next
  fix p assume p: "p \<in> ins (fst s)"
  with ser_le_ins [OF st] show "fst u ! p = fst s ! p" using st tu by (simp add: ser_le_def)
next
  fix p assume p: "p < length (fst s)"
  have 1: "fst t ! p = (fst s ! p)\<lparr>ev_sql_id := get_sql_id (fst t) p\<rparr>" using p st by (simp add: ser_le_def)
  have 2: "fst u ! p = (fst t ! p)\<lparr>ev_sql_id := get_sql_id (fst u) p\<rparr>" using p st tu by (simp add: ser_le_def)
  show "fst u ! p = (fst s ! p)\<lparr>ev_sql_id := get_sql_id (fst u) p\<rparr>"
    by (subst 2, subst 1) simp
qed

text \<open>What an event binds depends on the ids of what it refers to, not on its own id.\<close>

lemma enclave_binds_cong:
  "(\<And>q. q \<in> set (sub_refs b) \<Longrightarrow> get_sql_id h q = get_sql_id h' q) \<Longrightarrow>
   enclave_binds h b r = enclave_binds h' b r"
  by (cases b) (auto simp: Let_def split: option.splits)

lemma sql_bind_cong:
  assumes "\<And>q. q \<in> set (ev_refs (ev_body e)) \<Longrightarrow> get_sql_id h q = get_sql_id h' q"
  shows "sql_bind h e = sql_bind h' e"
  using assms by (cases "ev_body e") (auto simp: sql_bind_def intro: enclave_binds_cong)

lemma sql_bind_sql_id [simp]: "sql_bind h (e\<lparr>ev_sql_id := i\<rparr>) = sql_bind h e"
  by (simp add: sql_bind_def)

section \<open>One insertion\<close>

lemma ser_inv_card:
  assumes "ser_inv (h, rows)"
  shows "card (ins h) = length rows"
  using assms bij_betw_same_card [of "row_of h" "ins h" "{..<length rows}"]
  by (simp add: ser_inv_def)

lemma fin_ins [simp]: "finite (ins h)"
  by (rule finite_subset [of _ "{..<length h}"]) (auto simp: ins_def)

lemma rows_lt_heap:
  assumes "ser_inv (h, rows)" "p < length h" "\<not> is_inserted h p"
  shows "length rows < length h"
proof -
  have "ins h \<subset> {..<length h}" using assms(2,3) by (auto simp: ins_def)
  then have "card (ins h) < length h" using psubset_card_mono [of "{..<length h}"] by simp
  with ser_inv_card [OF assms(1)] show ?thesis by simp
qed

lemma new_id:
  assumes "ser_inv (h, rows)" "p < length h" "\<not> is_inserted h p"
  shows "(of_nat (Suc (length rows)) :: u64) \<noteq> UINT64_MAX"
    "unat (of_nat (Suc (length rows)) :: u64) = Suc (length rows)"
proof -
  have "length rows < length h" using assms by (rule rows_lt_heap)
  moreover have "length h < 2 ^ 63" using assms(1) by (simp add: ser_inv_def)
  ultimately have b: "Suc (length rows) < 2 ^ 63" by linarith
  then show u: "unat (of_nat (Suc (length rows)) :: u64) = Suc (length rows)"
    by (subst unat_of_nat) (simp add: mod_less)
  show "(of_nat (Suc (length rows)) :: u64) \<noteq> UINT64_MAX"
  proof
    assume "(of_nat (Suc (length rows)) :: u64) = UINT64_MAX"
    with u have "Suc (length rows) = 2 ^ 64 - 1" by (simp only: unat_UINT64_MAX)
    with b show False by simp
  qed
qed

lemma insert_row_inv:
  assumes inv: "ser_inv (h, rows)" and p: "p < length h" "\<not> is_inserted h p"
    and refs: "\<forall>q \<in> set (ev_refs (ev_body (h ! p))). q \<in> ins h"
  shows "ser_inv (insert_row p (h, rows))" "ser_le (h, rows) (insert_row p (h, rows))"
    "ins (fst (insert_row p (h, rows))) = insert p (ins h)"
  supply of_nat_Suc [simp del]
proof -
  let ?n = "length rows"
  let ?h = "h[p := (h ! p)\<lparr>ev_sql_id := of_nat (Suc ?n)\<rparr>]"
  note id = new_id [OF inv p]
  have sid: "get_sql_id ?h q = (if q = p then of_nat (Suc ?n) else get_sql_id h q)" for q
    using p by (simp add: get_sql_id_def)
  have isn: "is_inserted ?h q \<longleftrightarrow> q = p \<or> is_inserted h q" for q
    using id by (simp add: is_inserted_def sid)
  show I: "ins (fst (insert_row p (h, rows))) = insert p (ins h)"
    using p by (auto simp: ins_def isn)
  have ro: "row_of ?h q = (if q = p then ?n else row_of h q)" for q
    using id by (simp add: row_of_def sid)
  have pni: "p \<notin> ins h" using p by (simp add: ins_def)
  have body: "ev_body (?h ! q) = ev_body (h ! q)" for q
    by (cases "q = p"; cases "p < length h") (simp_all add: list_update_beyond)
  have bind: "sql_bind ?h (?h ! q) = sql_bind h (h ! q)" if "q = p \<or> q \<in> ins h" for q
  proof -
    have "p \<notin> set (ev_refs (ev_body (h ! q)))"
      using that refs pni inv by (auto simp: ser_inv_def)
    then have "sql_bind ?h (h ! q) = sql_bind h (h ! q)"
      by (intro sql_bind_cong) (auto simp: sid)
    moreover have "sql_bind ?h (?h ! q) = sql_bind ?h (h ! q)"
      using p by (cases "q = p") simp_all
    ultimately show ?thesis by simp
  qed
  have bij: "bij_betw (row_of ?h) (insert p (ins h)) {..<Suc ?n}"
  proof -
    have "bij_betw (row_of ?h) (ins h) {..<?n} \<longleftrightarrow> bij_betw (row_of h) (ins h) {..<?n}"
      by (rule bij_betw_cong) (use pni in \<open>auto simp: ro\<close>)
    then have "bij_betw (row_of ?h) (ins h) {..<?n}" using inv by (simp add: ser_inv_def)
    then have "bij_betw (row_of ?h) (ins h \<union> {p}) ({..<?n} \<union> {row_of ?h p})"
      using pni by (intro notIn_Un_bij_betw) (simp_all add: ro)
    then show ?thesis by (simp add: ro lessThan_Suc)
  qed
  have rlt: "row_of h q < ?n" if "q \<in> ins h" for q
    using inv that by (auto simp: ser_inv_def bij_betw_def)
  show "ser_inv (insert_row p (h, rows))"
    unfolding ser_inv_def insert_row.simps prod.case
  proof (intro conjI)
    show "wf_heap ?h" using inv by (simp add: ser_inv_def wf_heap_def body)
    show "length ?h < 2 ^ 63" using inv by (simp add: ser_inv_def)
    show "bij_betw (row_of ?h) (ins ?h) {..<length (rows @ [sql_bind h (h ! p)])}"
      using bij I by simp
    show "\<forall>q \<in> ins ?h. get_sql_id ?h q = of_nat (Suc (row_of ?h q)) \<and>
        (rows @ [sql_bind h (h ! p)]) ! row_of ?h q = sql_bind ?h (?h ! q)"
    proof
      fix q assume "q \<in> ins ?h"
      then have q: "q = p \<or> q \<in> ins h" using I by simp
      show "get_sql_id ?h q = of_nat (Suc (row_of ?h q)) \<and>
        (rows @ [sql_bind h (h ! p)]) ! row_of ?h q = sql_bind ?h (?h ! q)"
        using q bind [OF q] inv rlt [of q] pni
        by (auto simp: sid ro ser_inv_def nth_append)
    qed
    show "\<forall>q \<in> ins ?h. \<forall>r \<in> set (ev_refs (ev_body (?h ! q))). r \<in> ins ?h \<and> row_of ?h r < row_of ?h q"
      using I refs inv rlt pni by (auto simp: body ro ser_inv_def)
  qed
  show "ser_le (h, rows) (insert_row p (h, rows))"
    using p pni by (auto simp: ser_le_def get_sql_id_def nth_list_update)
qed

section \<open>Recursive insertion\<close>

lemma refs_lt:
  "ser_inv s \<Longrightarrow> p < length (fst s) \<Longrightarrow> q \<in> set (ev_refs (ev_body (fst s ! p))) \<Longrightarrow> q < p"
  by (cases s) (auto simp: ser_inv_def wf_heap_def)

text \<open>The guarantee of one level of the recursion, for every pointer below a bound.\<close>

definition rec_ok :: "nat \<Rightarrow> (ev_ptr \<Rightarrow> ser \<Rightarrow> ser option) \<Rightarrow> bool" where
  "rec_ok b rec \<longleftrightarrow> (\<forall>p s. p < b \<longrightarrow> ser_inv s \<longrightarrow> p < length (fst s) \<longrightarrow>
     (\<exists>t. rec p s = Some t \<and> ser_inv t \<and> ser_le s t \<and>
        (\<forall>q \<in> set (ev_refs (ev_body (fst s ! p))). q \<in> ins (fst t)) \<and>
        ins (fst t) \<subseteq> ins (fst s) \<union> {..<p}))"

lemma insert_refs_ok:
  assumes rec: "rec_ok b rec"
  shows "\<lbrakk>\<forall>p \<in> set ps. p < b; ser_inv s; \<forall>p \<in> set ps. p < length (fst s)\<rbrakk> \<Longrightarrow>
    \<exists>t. insert_refs rec ps s = Some t \<and> ser_inv t \<and> ser_le s t \<and> set ps \<subseteq> ins (fst t) \<and>
      ins (fst t) \<subseteq> ins (fst s) \<union> {..<b}"
proof (induction ps arbitrary: s)
  case Nil
  then show ?case by simp
next
  case (Cons p ps)
  show ?case
  proof (cases "is_inserted (fst s) p")
    case True
    with Cons.prems have p: "p \<in> ins (fst s)" by (simp add: ins_def)
    from Cons.IH [of s] Cons.prems obtain t where
      t: "insert_refs rec ps s = Some t" "ser_inv t" "ser_le s t" "set ps \<subseteq> ins (fst t)"
      "ins (fst t) \<subseteq> ins (fst s) \<union> {..<b}" by auto
    with True p show ?thesis by (auto intro: ser_le_ins)
  next
    case False
    have pb: "p < b" "p < length (fst s)" using Cons.prems by simp_all
    then obtain t where t: "rec p s = Some t" "ser_inv t" "ser_le s t"
      "\<forall>q \<in> set (ev_refs (ev_body (fst s ! p))). q \<in> ins (fst t)"
      "ins (fst t) \<subseteq> ins (fst s) \<union> {..<p}"
      using rec Cons.prems(2) unfolding rec_ok_def by blast
    obtain h rows where tp: "t = (h, rows)" by force
    have len: "length h = length (fst s)" using t(3) tp by (simp add: ser_le_def)
    have np: "\<not> is_inserted h p" using t(5) False pb tp len by (auto simp: ins_def)
    have refs: "\<forall>q \<in> set (ev_refs (ev_body (h ! p))). q \<in> ins h"
      using t(4) ser_le_body [OF t(3) pb(2)] tp by simp
    note I = insert_row_inv [of h rows p, folded tp, OF t(2) _ np refs, unfolded len, OF pb(2)]
    have le: "ser_le s (insert_row p t)" using ser_le_trans [OF t(3) I(2)] .
    then have len': "length (fst (insert_row p t)) = length (fst s)" by (simp add: ser_le_def)
    from Cons.IH [OF _ I(1)] Cons.prems len' obtain u where
      u: "insert_refs rec ps (insert_row p t) = Some u" "ser_inv u" "ser_le (insert_row p t) u"
      "set ps \<subseteq> ins (fst u)" "ins (fst u) \<subseteq> ins (fst (insert_row p t)) \<union> {..<b}" by auto
    have "p \<in> ins (fst u)" using ser_le_ins [OF u(3)] I(3) by blast
    moreover have "ins (fst u) \<subseteq> ins (fst s) \<union> {..<b}"
      using u(5) I(3) t(5) pb(1) tp by fastforce
    ultimately show ?thesis
      using False t(1) u ser_le_trans [OF le u(3)] by auto
  qed
qed

lemma pre_insert_rec_ok: "rec_ok n (pre_insert n)"
proof (induction n)
  case 0
  show ?case by (simp add: rec_ok_def)
next
  case (Suc n)
  show ?case
    unfolding rec_ok_def
  proof (intro allI impI)
    fix p s
    assume p: "p < Suc n" and inv: "ser_inv s" and len: "p < length (fst s)"
    have lt: "\<forall>q \<in> set (ev_refs (ev_body (fst s ! p))). q < p" using refs_lt [OF inv len] by blast
    have "rec_ok p (pre_insert n)" using Suc p unfolding rec_ok_def by simp
    from insert_refs_ok [OF this lt inv] lt len obtain t where
      "insert_refs (pre_insert n) (ev_refs (ev_body (fst s ! p))) s = Some t" "ser_inv t" "ser_le s t"
      "set (ev_refs (ev_body (fst s ! p))) \<subseteq> ins (fst t)" "ins (fst t) \<subseteq> ins (fst s) \<union> {..<p}"
      by force
    then show "\<exists>t. pre_insert (Suc n) p s = Some t \<and> ser_inv t \<and> ser_le s t \<and>
        (\<forall>q \<in> set (ev_refs (ev_body (fst s ! p))). q \<in> ins (fst t)) \<and>
        ins (fst t) \<subseteq> ins (fst s) \<union> {..<p}" by auto
  qed
qed

lemmas pre_insert_ok = pre_insert_rec_ok [unfolded rec_ok_def, rule_format]

section \<open>References between rows\<close>

lemma bind_val_other [simp]: "p \<noteq> q \<Longrightarrow> bind_val q v r p = r p"
  by (simp add: bind_val_def)

lemmas bind_defs = bind_int_def bind_int64_def bind_text_def

lemma thread_binds_call_event [simp]: "thread_binds b r P_call_event = r P_call_event"
  by (cases b) (simp_all add: bind_defs)

lemma enclave_binds_call_event:
  assumes "enclave_binds h b r P_call_event = Some v" "r P_call_event = None"
  shows "\<exists>q \<in> set (sub_refs b). v = SInt (sint (get_sql_id h q))"
  using assms
  by (cases b) (auto simp: bind_defs bind_val_def insert_params_def Let_def split: option.splits)

lemma sql_bind_call_event:
  assumes "sql_bind h e P_call_event = Some v"
  shows "\<exists>q \<in> set (ev_refs (ev_body e)). v = SInt (sint (get_sql_id h q))"
proof (cases "ev_body e")
  case (EnclaveB i b)
  with assms show ?thesis
    by (auto simp: sql_bind_def bind_defs dest!: enclave_binds_call_event)
qed (use assms in \<open>simp_all add: sql_bind_def bind_defs\<close>)

lemma sint_small_id: "n < 2 ^ 63 \<Longrightarrow> sint (of_nat n :: u64) = int n"
  by (simp add: signed_of_nat signed_take_bit_int_eq_self)

lemma ser_inv_row:
  assumes "ser_inv (h, rows)" "k < length rows"
  obtains p where "p \<in> ins h" "row_of h p = k" "rows ! k = sql_bind h (h ! p)"
proof -
  from assms have "k \<in> row_of h ` ins h" by (simp add: ser_inv_def bij_betw_def)
  with assms(1) that show ?thesis by (auto simp: ser_inv_def)
qed

lemma ser_inv_id:
  assumes "ser_inv (h, rows)" "p \<in> ins h"
  shows "sint (get_sql_id h p) = int (Suc (row_of h p))" "row_of h p < length rows"
proof -
  from assms show r: "row_of h p < length rows" by (auto simp: ser_inv_def bij_betw_def)
  have "length rows \<le> length h"
    using ser_inv_card [OF assms(1)] card_mono [of "{..<length h}" "ins h"] by (auto simp: ins_def)
  with r assms(1) have "Suc (row_of h p) < 2 ^ 63" by (simp add: ser_inv_def)
  with assms show "sint (get_sql_id h p) = int (Suc (row_of h p))"
    by (simp add: ser_inv_def sint_small_id del: of_nat_Suc)
qed

text \<open>The call an inserted event refers to is in an earlier row.\<close>

lemma call_event_earlier:
  assumes "ser_inv (h, rows)" and "k < length rows" and "(rows ! k) P_call_event = Some v"
  shows "\<exists>c < k. v = SInt (int (Suc c))"
proof -
  from ser_inv_row [OF assms(1,2)] obtain p where
    p: "p \<in> ins h" "row_of h p = k" "rows ! k = sql_bind h (h ! p)" .
  with assms(3) obtain q where q: "q \<in> set (ev_refs (ev_body (h ! p)))" "v = SInt (sint (get_sql_id h q))"
    using sql_bind_call_event by fastforce
  with p assms(1) have "q \<in> ins h" "row_of h q < k" by (auto simp: ser_inv_def)
  with q ser_inv_id [OF assms(1)] show ?thesis by auto
qed

end
