(* ===== verification/Store.thy ===== *)
theory Store
  imports LockField EventsSer
begin

text \<open>
  The event store of the logger, \<^verbatim>\<open>src/logger/src/store.h\<close> and \<^verbatim>\<open>store.cpp\<close>: enclave and
  thread objects, the maps with their locks, insertion of events, finalisation and
  serialisation.
\<close>

section \<open>Objects and state\<close>

record ocall_table =
  ot_count :: u32
  ot_table :: "u64 list"

record enclave =
  en_eid :: u64
  en_start :: u64
  en_end :: u64
  en_size :: u64
  en_orig_table :: "ocall_table option"
  en_subst_table :: "ocall_table option"
  en_creation_time :: u64
  en_destruction_time :: u64

definition new_enclave :: "u64 \<Rightarrow> u64 \<Rightarrow> u64 \<Rightarrow> enclave" where
  "new_enclave eid start sz =
     \<lparr>en_eid = eid, en_start = start, en_end = start + sz, en_size = sz, en_orig_table = None,
      en_subst_table = None, en_creation_time = 0, en_destruction_time = UINT64_MAX\<rparr>"

definition is_within_enclave :: "enclave \<Rightarrow> u64 \<Rightarrow> bool" where
  "is_within_enclave e addr \<longleftrightarrow> en_start e \<le> addr \<and> addr \<le> en_end e"

definition is_within_lifetime :: "enclave \<Rightarrow> u64 \<Rightarrow> bool" where
  "is_within_lifetime e t \<longleftrightarrow> en_creation_time e \<le> t \<and> t \<le> en_destruction_time e"

type_synonym th_ptr = nat
type_synonym en_ptr = nat

record thread =
  th_id :: u64
  th_sql_id :: u64
  th_current_call :: "ev_ptr option"
  th_last_enclave :: "en_ptr option"
  th_name :: string
  th_events :: "ev_ptr list"

definition new_thread :: "u64 \<Rightarrow> u64 \<Rightarrow> thread" where
  "new_thread i uid =
     \<lparr>th_id = i, th_sql_id = uid, th_current_call = None, th_last_enclave = None, th_name = [],
      th_events = []\<rparr>"

text \<open>
  \<open>events\<close>, \<open>threads\<close> and \<open>enclaves\<close> are the heap; \<open>current_thread\<close> is the thread-local variable
  of that name, per thread. The unordered maps are association lists in their iteration order.
\<close>

record store =
  events :: heap
  threads :: "thread list"
  enclaves :: "enclave list"
  enclave_map_lock :: rwlock_t
  enclave_map :: "(u64 \<times> en_ptr option) list"
  tcs_map_lock :: rwlock_t
  tcs_map :: "u64 \<rightharpoonup> ev_ptr"
  thread_id :: u64
  thread_events_lock :: rwlock_t
  thread_events :: "(u64 \<times> th_ptr) list"
  finished_thread_events :: "th_ptr list"
  finalized :: bool
  end_time :: u64
  main_thread :: "th_ptr option"
  start_time :: u64
  current_thread :: "u64 \<rightharpoonup> th_ptr"

definition EventStore :: "u64 \<times> u64 \<Rightarrow> store" where
  "EventStore now =
     \<lparr>events = [], threads = [], enclaves = [], enclave_map_lock = rw_zero, enclave_map = [],
      tcs_map_lock = rw_zero, tcs_map = Map.empty, thread_id = 0, thread_events_lock = rw_zero,
      thread_events = [], finished_thread_events = [], finalized = False, end_time = 0,
      main_thread = None, start_time = timespec_ns now, current_thread = Map.empty\<rparr>"

section \<open>Locking and allocation\<close>

abbreviation te_read_lock :: "(store, unit) comp" where
  "te_read_lock \<equiv> acquire thread_events_lock (\<lambda>l. thread_events_lock_update (\<lambda>_. l)) read_lock"

abbreviation te_read_unlock :: "(store, unit) comp" where
  "te_read_unlock \<equiv> release thread_events_lock (\<lambda>l. thread_events_lock_update (\<lambda>_. l)) read_unlock"

abbreviation te_write_lock :: "(store, unit) comp" where
  "te_write_lock \<equiv> acquire thread_events_lock (\<lambda>l. thread_events_lock_update (\<lambda>_. l)) write_lock"

abbreviation te_write_unlock :: "(store, unit) comp" where
  "te_write_unlock \<equiv> release thread_events_lock (\<lambda>l. thread_events_lock_update (\<lambda>_. l)) write_unlock"

definition alloc_event :: "event \<Rightarrow> (store, ev_ptr) comp" where
  "alloc_event e s = (Inr (length (events s)), s\<lparr>events := events s @ [e]\<rparr>)"

definition upd_event :: "ev_ptr \<Rightarrow> (event \<Rightarrow> event) \<Rightarrow> (store, unit) comp" where
  "upd_event p f = c_upd (\<lambda>s. s\<lparr>events := (events s)[p := f (events s ! p)]\<rparr>)"

definition upd_thread :: "th_ptr \<Rightarrow> (thread \<Rightarrow> thread) \<Rightarrow> (store, unit) comp" where
  "upd_thread t f = c_upd (\<lambda>s. s\<lparr>threads := (threads s)[t := f (threads s ! t)]\<rparr>)"

text \<open>
  \<open>new Thread(id, thread_id++)\<close> and its insertion into \<open>thread_events\<close>: the pointer of the new
  object, and the map entry, which an existing one takes precedence over.
\<close>

definition add_thread :: "u64 \<Rightarrow> (store, th_ptr \<times> th_ptr) comp" where
  "add_thread i s =
     (let t = length (threads s);
          s' = s\<lparr>threads := threads s @ [new_thread i (thread_id s)], thread_id := thread_id s + 1\<rparr>
      in case map_of (thread_events s) i of
           Some u \<Rightarrow> (Inr (t, u), s')
         | None \<Rightarrow> (Inr (t, t), s'\<lparr>thread_events := thread_events s @ [(i, t)]\<rparr>))"

section \<open>Inserting an event\<close>

text \<open>The lookup of the inserting thread: thread-local storage first, then the map.\<close>

definition find_current :: "u64 \<Rightarrow> u64 \<Rightarrow> (store, th_ptr) comp" where
  "find_current self involved s =
     (case current_thread s self of
        Some t \<Rightarrow> (Inr t, s)
      | None \<Rightarrow>
          c_then te_read_lock
            (c_bind (c_get (\<lambda>s. map_of (thread_events s) involved)) (\<lambda>it.
              c_bind
                (case it of
                   None \<Rightarrow>
                     c_then te_read_unlock (c_then te_write_lock (c_bind (add_thread involved) (\<lambda>(new, t).
                       c_then (c_upd (\<lambda>s. if main_thread s = None then s\<lparr>main_thread := Some new\<rparr> else s))
                         (c_then te_write_unlock (c_ret t)))))
                 | Some t \<Rightarrow> c_then te_read_unlock (c_ret t))
                (\<lambda>t. c_then (c_upd (\<lambda>s. s\<lparr>current_thread := (current_thread s)(self \<mapsto> t)\<rparr>))
                       (c_ret t)))) s)"

text \<open>The object of a created thread.\<close>

definition add_created :: "u64 \<Rightarrow> (store, unit) comp" where
  "add_created other =
     c_then te_read_lock
       (c_bind (c_get (\<lambda>s. map_of (thread_events s) other)) (\<lambda>oit.
         case oit of
           None \<Rightarrow> c_then te_read_unlock (c_then te_write_lock (c_bind (add_thread other) (\<lambda>_.
             te_write_unlock)))
         | Some t \<Rightarrow> te_read_unlock))"

text \<open>The events that involve another thread. The exception leaves the lock held for reading.\<close>

definition thread_event_special :: "u64 \<Rightarrow> ev_ptr \<Rightarrow> th_ptr \<Rightarrow> th_ptr \<Rightarrow> (store, unit) comp" where
  "thread_event_special involved p cur othread =
     c_bind (c_get (\<lambda>s. ev_body (events s ! p))) (\<lambda>b.
       case get_type b of
         ThreadDestructionEvent \<Rightarrow>
           c_then te_write_lock
             (c_then (c_upd (\<lambda>s. s\<lparr>thread_events := filter (\<lambda>kv. fst kv \<noteq> involved) (thread_events s),
                finished_thread_events := finished_thread_events s @ [cur]\<rparr>))
               te_write_unlock)
       | ThreadSetNameEvent \<Rightarrow> upd_thread othread (\<lambda>t. t\<lparr>th_name := ts_name (thread_sub b)\<rparr>)
       | _ \<Rightarrow> c_ret ())"

definition set_other_id :: "u64 \<Rightarrow> ev_body \<Rightarrow> ev_body" where
  "set_other_id i b = (case b of ThreadB t _ sub \<Rightarrow> ThreadB t i sub | _ \<Rightarrow> b)"

definition thread_event_part :: "u64 \<Rightarrow> ev_ptr \<Rightarrow> th_ptr \<Rightarrow> u64 \<Rightarrow> (store, unit) comp" where
  "thread_event_part involved p cur other =
     c_then te_read_lock
       (c_bind (c_get (\<lambda>s. map_of (thread_events s) other)) (\<lambda>oit.
         case oit of
           None \<Rightarrow> c_fail StdException
         | Some othread \<Rightarrow>
             c_then te_read_unlock
               (c_bind (c_get (\<lambda>s. th_sql_id (threads s ! othread))) (\<lambda>oid.
                 c_then (upd_event p (\<lambda>e. e\<lparr>ev_body := set_other_id oid (ev_body e)\<rparr>))
                   (thread_event_special involved p cur othread)))))"

definition insert_event :: "u64 \<Rightarrow> u64 \<Rightarrow> ev_ptr \<Rightarrow> (store, unit) comp" where
  "insert_event self involved p s =
     (if finalized s then (Inr (), s)
      else c_bind (find_current self involved) (\<lambda>cur.
        c_then (upd_thread cur (\<lambda>t. t\<lparr>th_events := th_events t @ [p]\<rparr>))
          (c_bind (c_get (\<lambda>s. th_sql_id (threads s ! cur))) (\<lambda>tid.
            c_then (upd_event p (\<lambda>e. e\<lparr>ev_thread_id := tid\<rparr>))
              (c_bind (c_get (\<lambda>s. ev_body (events s ! p))) (\<lambda>b.
                c_then (case b of ThreadB other _ (ThreadCreator f r) \<Rightarrow> add_created other | _ \<Rightarrow> c_ret ())
                  (case b of ThreadB other _ _ \<Rightarrow> thread_event_part involved p cur other
                   | _ \<Rightarrow> c_ret ())))))) s)"

definition get_thread :: "u64 \<Rightarrow> (store, th_ptr option) comp" where
  "get_thread self s =
     (case current_thread s self of
        Some t \<Rightarrow> (Inr (Some t), s)
      | None \<Rightarrow>
          c_then te_read_lock
            (c_bind (c_get (\<lambda>s. map_of (thread_events s) self)) (\<lambda>it.
              case it of
                None \<Rightarrow> c_then te_read_unlock (c_ret None)
              | Some t \<Rightarrow> c_then te_read_unlock
                  (c_then (c_upd (\<lambda>s. s\<lparr>current_thread := (current_thread s)(self \<mapsto> t)\<rparr>))
                    (c_ret (Some t))))) s)"

section \<open>Finalisation\<close>

text \<open>
  The open calls of a thread are closed along their \<open>previous_call\<close> chain with return events
  stamped with the end time; the fuel bounds the length of the chain.
\<close>

definition return_body :: "event \<Rightarrow> ev_ptr \<Rightarrow> ev_body option" where
  "return_body c p =
     (case ev_body c of
        EnclaveB eid (EnclaveCall cid arg prev (ECallKind n)) \<Rightarrow> Some (EnclaveB eid (ECallReturn p 0 n))
      | EnclaveB eid (EnclaveCall cid arg prev OCallKind) \<Rightarrow> Some (EnclaveB eid (OCallReturn p 0))
      | _ \<Rightarrow> None)"

definition get_previous_call :: "event \<Rightarrow> ev_ptr option" where
  "get_previous_call c =
     (case ev_body c of EnclaveB eid (EnclaveCall cid arg prev k) \<Rightarrow> prev | _ \<Rightarrow> None)"

definition close_call :: "u64 \<Rightarrow> u64 \<times> u64 \<Rightarrow> u32 \<Rightarrow> th_ptr \<Rightarrow> ev_ptr \<Rightarrow> store \<Rightarrow> store" where
  "close_call self now cpu t p s =
     (let c = events s ! p;
          s' = (case return_body c p of
                  None \<Rightarrow> s
                | Some b \<Rightarrow> s\<lparr>events := events s @
                      [(new_event self now cpu b)\<lparr>ev_thread_id := ev_thread_id c, ev_time := end_time s\<rparr>],
                    threads := (threads s)[t := (threads s ! t)\<lparr>th_events :=
                      th_events (threads s ! t) @ [length (events s)]\<rparr>]\<rparr>)
      in s'\<lparr>threads := (threads s')[t := (threads s' ! t)\<lparr>th_current_call := get_previous_call c\<rparr>]\<rparr>)"

fun close_calls :: "nat \<Rightarrow> u64 \<Rightarrow> u64 \<times> u64 \<Rightarrow> u32 \<Rightarrow> th_ptr \<Rightarrow> store \<Rightarrow> store option" where
  "close_calls 0 self now cpu t s = None"
| "close_calls (Suc n) self now cpu t s =
     (case th_current_call (threads s ! t) of
        None \<Rightarrow> Some s
      | Some p \<Rightarrow> close_calls n self now cpu t (close_call self now cpu t p s))"

fun finalize_threads :: "u64 \<Rightarrow> u64 \<times> u64 \<Rightarrow> u32 \<Rightarrow> th_ptr list \<Rightarrow> store \<Rightarrow> store option" where
  "finalize_threads self now cpu [] s = Some s"
| "finalize_threads self now cpu (t # ts) s =
     (case close_calls (Suc (length (events s))) self now cpu t s of
        None \<Rightarrow> None
      | Some s' \<Rightarrow> finalize_threads self now cpu ts
          (s'\<lparr>finished_thread_events := finished_thread_events s' @ [t]\<rparr>))"

definition finalize :: "u64 \<Rightarrow> u64 \<times> u64 \<Rightarrow> u32 \<Rightarrow> store \<Rightarrow> store option" where
  "finalize self now cpu s =
     map_option (\<lambda>s. s\<lparr>thread_events := []\<rparr>)
       (finalize_threads self now cpu (map snd (thread_events s))
         (s\<lparr>finalized := True, end_time := timespec_ns now\<rparr>))"

end
