(* ===== verification/StoreInv.thy ===== *)
theory StoreInv
  imports Store "HOL-Library.Multiset"
begin

text \<open>
  What the event store keeps invariant: the thread table, the map of running threads, the queues
  and the lock; what every insertion does to them, the error path included.
\<close>

interpretation te: lock_field thread_events_lock "\<lambda>l. thread_events_lock_update (\<lambda>_. l)"
  by unfold_locales simp_all

interpretation em: lock_field enclave_map_lock "\<lambda>l. enclave_map_lock_update (\<lambda>_. l)"
  by unfold_locales simp_all

interpretation tm: lock_field tcs_map_lock "\<lambda>l. tcs_map_lock_update (\<lambda>_. l)"
  by unfold_locales simp_all

lemmas te_lock_simps = te.acquire_read te.acquire_write te.release_eq

section \<open>Finding the current thread\<close>

text \<open>The insertion of a thread object, without locks.\<close>

definition new_entry :: "u64 \<Rightarrow> store \<Rightarrow> store" where
  "new_entry i s = s\<lparr>threads := threads s @ [new_thread i (thread_id s)], thread_id := thread_id s + 1,
     thread_events := thread_events s @ [(i, length (threads s))]\<rparr>"

definition cur_of :: "u64 \<Rightarrow> u64 \<Rightarrow> store \<Rightarrow> th_ptr" where
  "cur_of self i s = (case current_thread s self of Some t \<Rightarrow> t | None \<Rightarrow>
     (case map_of (thread_events s) i of Some t \<Rightarrow> t | None \<Rightarrow> length (threads s)))"

definition cur_state :: "u64 \<Rightarrow> u64 \<Rightarrow> store \<Rightarrow> store" where
  "cur_state self i s = (case current_thread s self of Some t \<Rightarrow> s | None \<Rightarrow>
     (case map_of (thread_events s) i of
        Some t \<Rightarrow> s\<lparr>current_thread := (current_thread s)(self \<mapsto> t)\<rparr>
      | None \<Rightarrow> (new_entry i s)\<lparr>main_thread := (if main_thread s = None then Some (length (threads s)) else main_thread s),
            current_thread := (current_thread s)(self \<mapsto> length (threads s))\<rparr>))"

lemma find_current_eq:
  assumes "rw_free (thread_events_lock s)"
  shows "\<exists>l. rw_free l \<and> find_current self i s = (Inr (cur_of self i s), (cur_state self i s)\<lparr>thread_events_lock := l\<rparr>)"
proof (cases "current_thread s self")
  case None
  show ?thesis
  proof (cases "map_of (thread_events s) i")
    case None': None
    let ?l = "read_unlock (rd_held (thread_events_lock s))"
    have "rw_free ?l" using assms by simp
    then have "find_current self i s = (Inr (cur_of self i s),
        (cur_state self i s)\<lparr>thread_events_lock := write_unlock (wr_held ?l)\<rparr>)"
      using assms None None'
      by (simp add: find_current_def c_then_def c_bind_def te_lock_simps add_thread_def Let_def
          cur_of_def cur_state_def new_entry_def)
    with \<open>rw_free ?l\<close> show ?thesis by (metis wr_cycle_free)
  next
    case (Some t)
    with None assms have "find_current self i s = (Inr (cur_of self i s),
        (cur_state self i s)\<lparr>thread_events_lock := read_unlock (rd_held (thread_events_lock s))\<rparr>)"
      by (simp add: find_current_def c_then_def c_bind_def te_lock_simps cur_of_def cur_state_def)
    with assms show ?thesis by (metis rd_cycle_free)
  qed
next
  case (Some t)
  with assms show ?thesis
    by (intro exI [of _ "thread_events_lock s"]) (simp add: find_current_def cur_of_def cur_state_def)
qed

lemma add_created_eq:
  assumes "rw_free (thread_events_lock s)"
  shows "\<exists>l. rw_free l \<and> add_created i s =
    (Inr (), (if map_of (thread_events s) i = None then new_entry i s else s)\<lparr>thread_events_lock := l\<rparr>)"
proof (cases "map_of (thread_events s) i")
  case None
  let ?l = "read_unlock (rd_held (thread_events_lock s))"
  have "rw_free ?l" using assms by simp
  then have "add_created i s = (Inr (), (new_entry i s)\<lparr>thread_events_lock := write_unlock (wr_held ?l)\<rparr>)"
    using assms None
    by (simp add: add_created_def c_then_def c_bind_def te_lock_simps add_thread_def Let_def new_entry_def)
  with None \<open>rw_free ?l\<close> show ?thesis by (auto intro: exI [of _ "write_unlock (wr_held ?l)"])
next
  case (Some t)
  with assms have "add_created i s = (Inr (), s\<lparr>thread_events_lock := read_unlock (rd_held (thread_events_lock s))\<rparr>)"
    by (simp add: add_created_def c_then_def c_bind_def te_lock_simps)
  with Some assms show ?thesis by (auto intro: exI [of _ "read_unlock (rd_held (thread_events_lock s))"])
qed

section \<open>Insertion against a specification without locks\<close>

definition queue_event :: "th_ptr \<Rightarrow> ev_ptr \<Rightarrow> store \<Rightarrow> store" where
  "queue_event cur p s =
     s\<lparr>threads := (threads s)[cur := (threads s ! cur)\<lparr>th_events := th_events (threads s ! cur) @ [p]\<rparr>],
       events := (events s)[p := (events s ! p)\<lparr>ev_thread_id := th_sql_id (threads s ! cur)\<rparr>]\<rparr>"

definition link_other :: "ev_ptr \<Rightarrow> th_ptr \<Rightarrow> store \<Rightarrow> store" where
  "link_other p o' s = s\<lparr>events := (events s)[p := (events s ! p)\<lparr>ev_body :=
     set_other_id (th_sql_id (threads s ! o')) (ev_body (events s ! p))\<rparr>]\<rparr>"

fun special :: "thread_sub \<Rightarrow> u64 \<Rightarrow> th_ptr \<Rightarrow> th_ptr \<Rightarrow> store \<Rightarrow> store" where
  "special (ThreadDestruction r) i cur o' s =
     s\<lparr>thread_events := filter (\<lambda>kv. fst kv \<noteq> i) (thread_events s),
       finished_thread_events := finished_thread_events s @ [cur]\<rparr>"
| "special (ThreadSetName n r) i cur o' s =
     s\<lparr>threads := (threads s)[o' := (threads s ! o')\<lparr>th_name := n\<rparr>]\<rparr>"
| "special _ i cur o' s = s"

fun created :: "thread_sub \<Rightarrow> u64 \<Rightarrow> store \<Rightarrow> store" where
  "created (ThreadCreator f r) i s = (if map_of (thread_events s) i = None then new_entry i s else s)"
| "created _ i s = s"

definition insert_spec :: "u64 \<Rightarrow> u64 \<Rightarrow> ev_ptr \<Rightarrow> store \<Rightarrow> (fault + unit) \<times> store" where
  "insert_spec self i p s =
     (let cur = cur_of self i s; s1 = queue_event cur p (cur_state self i s)
      in case ev_body (events s ! p) of
           ThreadB other x sub \<Rightarrow>
             (let s2 = created sub other s1
              in case map_of (thread_events s2) other of
                   None \<Rightarrow> (Inl StdException, s2)
                 | Some o' \<Rightarrow> (Inr (), special sub i cur o' (link_other p o' s2)))
         | _ \<Rightarrow> (Inr (), s1))"

lemma lock_indep [simp]:
  "queue_event cur p (s\<lparr>thread_events_lock := l\<rparr>) = (queue_event cur p s)\<lparr>thread_events_lock := l\<rparr>"
  "link_other p t (s\<lparr>thread_events_lock := l\<rparr>) = (link_other p t s)\<lparr>thread_events_lock := l\<rparr>"
  "new_entry i (s\<lparr>thread_events_lock := l\<rparr>) = (new_entry i s)\<lparr>thread_events_lock := l\<rparr>"
  "special b i cur t (s\<lparr>thread_events_lock := l\<rparr>) = (special b i cur t s)\<lparr>thread_events_lock := l\<rparr>"
  "created b i (s\<lparr>thread_events_lock := l\<rparr>) = (created b i s)\<lparr>thread_events_lock := l\<rparr>"
  by (simp_all add: queue_event_def link_other_def new_entry_def)
    (cases b; simp add: new_entry_def)+

lemma lock_kept [simp]:
  "thread_events_lock (queue_event cur p s) = thread_events_lock s"
  "thread_events_lock (link_other p t s) = thread_events_lock s"
  "thread_events_lock (new_entry i s) = thread_events_lock s"
  "thread_events_lock (cur_state self i s) = thread_events_lock s"
  by (simp_all add: queue_event_def link_other_def new_entry_def cur_state_def split: option.splits)

lemma finalized_kept [simp]:
  "finalized (queue_event cur p s) = finalized s"
  "finalized (link_other p t s) = finalized s"
  "finalized (new_entry i s) = finalized s"
  "finalized (cur_state self i s) = finalized s"
  "finalized (special b i cur t s) = finalized s"
  "finalized (created b i s) = finalized s"
  by (simp_all add: queue_event_def link_other_def new_entry_def cur_state_def split: option.splits)
    (cases b; simp add: new_entry_def)+

lemma body_kept [simp]:
  "ev_body (events (queue_event cur p s) ! q) = ev_body (events s ! q)"
  "events (new_entry i s) = events s"
  "events (cur_state self i s) = events s"
  by (cases "p = q"; cases "p < length (events s)")
    (simp_all add: queue_event_def new_entry_def cur_state_def list_update_beyond split: option.splits)

lemma created_events [simp]: "events (created sub i s) = events s"
  by (cases sub) simp_all

lemma created_lock [simp]: "thread_events_lock (created sub i s) = thread_events_lock s"
  by (cases sub) simp_all

lemma thread_event_special_eq:
  assumes "rw_free (thread_events_lock s)" and "ev_body (events s ! p) = ThreadB t x sub"
  shows "\<exists>l. rw_free l \<and> thread_event_special i p cur o' s
    = (Inr (), (special sub i cur o' s)\<lparr>thread_events_lock := l\<rparr>)"
proof (cases sub)
  case (ThreadDestruction r)
  with assms show ?thesis
    by (intro exI [of _ "write_unlock (wr_held (thread_events_lock s))"])
      (simp add: thread_event_special_def c_then_def c_bind_def te_lock_simps)
qed (use assms in \<open>auto simp: thread_event_special_def c_then_def c_bind_def upd_thread_def
       intro!: exI [of _ "thread_events_lock s"]\<close>)

lemma thread_event_part_eq:
  assumes "rw_free (thread_events_lock s)" and "ev_body (events s ! p) = ThreadB other x sub" and "p < length (events s)"
  shows "case map_of (thread_events s) other of
      None \<Rightarrow> thread_event_part i p cur other s
        = (Inl StdException, s\<lparr>thread_events_lock := rd_held (thread_events_lock s)\<rparr>)
    | Some o' \<Rightarrow> \<exists>l. rw_free l \<and> thread_event_part i p cur other s
        = (Inr (), (special sub i cur o' (link_other p o' s))\<lparr>thread_events_lock := l\<rparr>)"
proof (cases "map_of (thread_events s) other")
  case None
  with assms(1) show ?thesis
    by (simp add: thread_event_part_def c_then_def c_bind_def te_lock_simps)
next
  case (Some o')
  let ?s = "link_other p o' (s\<lparr>thread_events_lock := read_unlock (rd_held (thread_events_lock s))\<rparr>)"
  have b: "ev_body (events ?s ! p) = ThreadB other (th_sql_id (threads s ! o')) sub"
    using assms(2,3) by (simp add: link_other_def set_other_id_def)
  obtain l where "rw_free l" "thread_event_special i p cur o' ?s = (Inr (), (special sub i cur o' ?s)\<lparr>thread_events_lock := l\<rparr>)"
    using thread_event_special_eq [OF _ b] assms(1) by force
  moreover have "thread_event_part i p cur other s = thread_event_special i p cur o' ?s"
    using Some assms(1)
    by (simp add: thread_event_part_def c_then_def c_bind_def te_lock_simps upd_event_def link_other_def
        del: lock_indep)
  ultimately show ?thesis using Some by auto
qed

lemma queue_event_steps:
  "c_then (upd_thread cur (\<lambda>t. t\<lparr>th_events := th_events t @ [p]\<rparr>))
     (c_bind (c_get (\<lambda>s. th_sql_id (threads s ! cur))) (\<lambda>tid.
        c_then (upd_event p (\<lambda>e. e\<lparr>ev_thread_id := tid\<rparr>)) k)) s = k (queue_event cur p s)"
proof -
  have "th_sql_id ((threads s)[cur := (threads s ! cur)\<lparr>th_events := x\<rparr>] ! cur) = th_sql_id (threads s ! cur)" for x
    by (cases "cur < length (threads s)") (simp_all add: list_update_beyond)
  then show ?thesis
    by (simp add: c_then_def c_bind_def upd_thread_def upd_event_def queue_event_def)
qed

lemma insert_event_eq:
  assumes "rw_free (thread_events_lock s)" and "\<not> finalized s" and "p < length (events s)"
  shows "case insert_spec self i p s of
      (Inr u, s') \<Rightarrow> \<exists>l. rw_free l \<and> insert_event self i p s = (Inr u, s'\<lparr>thread_events_lock := l\<rparr>)
    | (Inl e, s') \<Rightarrow> \<exists>l. rw_free l \<and> insert_event self i p s = (Inl e, s'\<lparr>thread_events_lock := rd_held l\<rparr>)"
proof -
  let ?cur = "cur_of self i s"
  obtain l where l: "rw_free l" "find_current self i s = (Inr ?cur, (cur_state self i s)\<lparr>thread_events_lock := l\<rparr>)"
    using find_current_eq [OF assms(1)] by blast
  let ?s1 = "(queue_event ?cur p (cur_state self i s))\<lparr>thread_events_lock := l\<rparr>"
  let ?k1 = "\<lambda>b. case b of ThreadB other x (ThreadCreator f r) \<Rightarrow> add_created other | _ \<Rightarrow> c_ret ()"
  let ?k2 = "\<lambda>b. case b of ThreadB other x sub \<Rightarrow> thread_event_part i p ?cur other | _ \<Rightarrow> c_ret ()"
  have "insert_event self i p s = c_bind (c_get (\<lambda>s. ev_body (events s ! p))) (\<lambda>b. c_then (?k1 b) (?k2 b))
      (queue_event ?cur p ((cur_state self i s)\<lparr>thread_events_lock := l\<rparr>))"
    using assms(2) l(2) by (simp only: insert_event_def c_bind_eq queue_event_steps if_False)
  then have ins: "insert_event self i p s =
      c_then (?k1 (ev_body (events s ! p))) (?k2 (ev_body (events s ! p))) ?s1"
    by (simp add: c_bind_def)
  show ?thesis
  proof (cases "ev_body (events s ! p)")
    case (ThreadB other x sub)
    let ?s2 = "created sub other (queue_event ?cur p (cur_state self i s))"
    obtain l2 where l2: "rw_free l2" "?k1 (ev_body (events s ! p)) ?s1 = (Inr (), ?s2\<lparr>thread_events_lock := l2\<rparr>)"
      using add_created_eq [of ?s1 other] l(1) ThreadB by (cases sub) force+
    let ?s3 = "?s2\<lparr>thread_events_lock := l2\<rparr>"
    have b: "ev_body (events ?s3 ! p) = ThreadB other x sub" "p < length (events ?s3)"
      using ThreadB assms(3) by (simp_all add: queue_event_def)
    have "insert_event self i p s = thread_event_part i p ?cur other ?s3"
      using ins l2(2) ThreadB by (simp add: c_then_eq)
    then show ?thesis
      using thread_event_part_eq [OF _ b, of i ?cur] l2(1) ThreadB
      by (auto simp: insert_spec_def Let_def split: option.splits)
  qed (use ins l in \<open>auto simp: insert_spec_def Let_def c_then_def c_bind_def\<close>)
qed

section \<open>The invariant\<close>

text \<open>All queues, in the order of the thread objects.\<close>

definition queued :: "store \<Rightarrow> ev_ptr list" where
  "queued s = concat (map th_events (threads s))"

definition store_inv :: "store \<Rightarrow> bool" where
  "store_inv s \<longleftrightarrow>
     thread_id s = of_nat (length (threads s)) \<and>
     (\<forall>t < length (threads s). th_sql_id (threads s ! t) = of_nat t) \<and>
     distinct (map fst (thread_events s)) \<and>
     (\<forall>(k, t) \<in> set (thread_events s). t < length (threads s) \<and> th_id (threads s ! t) = k) \<and>
     (\<forall>u t. current_thread s u = Some t \<longrightarrow> t < length (threads s)) \<and>
     set (finished_thread_events s) \<subseteq> {..<length (threads s)} \<and>
     (\<forall>t. main_thread s = Some t \<longrightarrow> t < length (threads s)) \<and>
     (\<forall>t < length (threads s). \<forall>p \<in> set (th_events (threads s ! t)).
        p < length (events s) \<and> ev_thread_id (events s ! p) = of_nat t)"

lemma store_inv_lock [simp]: "store_inv (s\<lparr>thread_events_lock := l\<rparr>) \<longleftrightarrow> store_inv s"
  by (simp add: store_inv_def)

lemma queued_lock [simp]: "queued (s\<lparr>thread_events_lock := l\<rparr>) = queued s"
  by (simp add: queued_def)

lemma map_of_thread_events:
  "store_inv s \<Longrightarrow> map_of (thread_events s) i = Some t \<Longrightarrow> t < length (threads s)"
  by (auto simp: store_inv_def dest: map_of_SomeD)

lemma new_entry_inv:
  assumes "store_inv s" and "map_of (thread_events s) i = None"
  shows "store_inv (new_entry i s)" "queued (new_entry i s) = queued s"
proof -
  have "i \<notin> fst ` set (thread_events s)" using assms(2) by (simp add: map_of_eq_None_iff)
  then show "store_inv (new_entry i s)"
    using assms(1)
    by (auto simp: store_inv_def new_entry_def nth_append less_Suc_eq new_thread_def less_SucI)
  show "queued (new_entry i s) = queued s" by (simp add: queued_def new_entry_def new_thread_def)
qed

lemma cur_state_inv:
  assumes "store_inv s"
  shows "store_inv (cur_state self i s)" "queued (cur_state self i s) = queued s"
    "cur_of self i s < length (threads (cur_state self i s))"
proof -
  have "store_inv (cur_state self i s) \<and> queued (cur_state self i s) = queued s \<and>
    cur_of self i s < length (threads (cur_state self i s))"
  proof (cases "current_thread s self")
    case None
    show ?thesis
    proof (cases "map_of (thread_events s) i")
      case None': None
      note n = new_entry_inv [OF assms None']
      with None None' show ?thesis
        by (auto simp: cur_state_def cur_of_def store_inv_def queued_def new_entry_def)
    next
      case (Some t)
      with map_of_thread_events [OF assms Some] None assms show ?thesis
        by (auto simp: cur_state_def cur_of_def store_inv_def queued_def)
    qed
  next
    case (Some t)
    with assms show ?thesis by (auto simp: cur_state_def cur_of_def store_inv_def)
  qed
  then show "store_inv (cur_state self i s)" "queued (cur_state self i s) = queued s"
    "cur_of self i s < length (threads (cur_state self i s))" by simp_all
qed

lemma mset_concat_update:
  "c < length ts \<Longrightarrow> th_events t' = th_events (ts ! c) @ [p] \<Longrightarrow>
   mset (concat (map th_events (ts[c := t']))) = add_mset p (mset (concat (map th_events ts)))"
  by (induction ts arbitrary: c) (auto split: nat.splits)

lemma queue_event_inv:
  assumes "store_inv s" and "cur < length (threads s)" and "p < length (events s)" and "p \<notin> set (queued s)"
  shows "store_inv (queue_event cur p s)" "mset (queued (queue_event cur p s)) = add_mset p (mset (queued s))"
proof -
  have np: "p \<notin> set (th_events (threads s ! t))" if "t < length (threads s)" for t
    using assms(4) that by (auto simp: queued_def)
  show "store_inv (queue_event cur p s)"
    using assms(1,2,3) np
    by (auto simp: store_inv_def queue_event_def nth_list_update)
  show "mset (queued (queue_event cur p s)) = add_mset p (mset (queued s))"
    using assms(2) by (simp add: queued_def queue_event_def mset_concat_update)
qed

lemma queued_upd_name:
  "concat (map th_events (ts[t := (ts ! t)\<lparr>th_name := n\<rparr>])) = concat (map th_events ts)"
proof -
  have "map th_events (ts[t := (ts ! t)\<lparr>th_name := n\<rparr>]) = map th_events ts"
    by (cases "t < length ts") (auto simp: nth_list_update list_update_beyond intro: nth_equalityI)
  then show ?thesis by simp
qed

lemma link_other_inv:
  assumes "store_inv s" "p < length (events s)"
  shows "store_inv (link_other p t s)" "queued (link_other p t s) = queued s"
  using assms by (auto simp: store_inv_def link_other_def queued_def nth_list_update)

lemma special_inv:
  assumes "store_inv s" "cur < length (threads s)" "t < length (threads s)"
  shows "store_inv (special sub i cur t s)" "queued (special sub i cur t s) = queued s"
proof -
  have "distinct (map fst (filter P xs))" if "distinct (map fst xs)" for P and xs :: "(u64 \<times> th_ptr) list"
    using that by (rule distinct_map_filter)
  with assms show "store_inv (special sub i cur t s)"
    by (cases sub) (auto simp: store_inv_def nth_list_update)
  show "queued (special sub i cur t s) = queued s"
    by (cases sub) (simp_all add: queued_def queued_upd_name)
qed

lemma created_inv:
  assumes "store_inv s"
  shows "store_inv (created sub i s)" "queued (created sub i s) = queued s"
    "length (threads s) \<le> length (threads (created sub i s))"
  using new_entry_inv [OF assms] assms by (cases sub; simp add: new_entry_def)+

lemma insert_spec_inv:
  assumes inv: "store_inv s" and p: "p < length (events s)" "p \<notin> set (queued s)"
  shows "store_inv (snd (insert_spec self i p s))"
    "mset (queued (snd (insert_spec self i p s))) = add_mset p (mset (queued s))"
proof -
  note c = cur_state_inv [OF inv, of self i]
  let ?s1 = "queue_event (cur_of self i s) p (cur_state self i s)"
  have p': "p < length (events (cur_state self i s))" "p \<notin> set (queued (cur_state self i s))"
    using p c(2) by simp_all
  note q = queue_event_inv [OF c(1,3) p']
  have len: "length (threads ?s1) = length (threads (cur_state self i s))"
    "length (events ?s1) = length (events s)" by (simp_all add: queue_event_def)
  have "store_inv (snd (insert_spec self i p s)) \<and>
    mset (queued (snd (insert_spec self i p s))) = add_mset p (mset (queued s))"
  proof (cases "ev_body (events s ! p)")
    case (ThreadB other x sub)
    note cr = created_inv [OF q(1), of sub other]
    show ?thesis
    proof (cases "map_of (thread_events (created sub other ?s1)) other")
      case None
      with ThreadB cr q c show ?thesis by (simp add: insert_spec_def Let_def)
    next
      case (Some o')
      note o = map_of_thread_events [OF cr(1) Some]
      have pl: "p < length (events (created sub other ?s1))" using p len by simp
      note lo = link_other_inv [OF cr(1) pl, of o']
      have "length (threads (link_other p o' (created sub other ?s1))) = length (threads (created sub other ?s1))"
        by (simp add: link_other_def)
      with special_inv [OF lo(1), of "cur_of self i s" o' sub i] Some ThreadB cr q c o len lo(2)
      show ?thesis by (simp add: insert_spec_def Let_def)
    qed
  qed (use q c in \<open>simp_all add: insert_spec_def Let_def\<close>)
  then show "store_inv (snd (insert_spec self i p s))"
    "mset (queued (snd (insert_spec self i p s))) = add_mset p (mset (queued s))" by simp_all
qed

section \<open>Properties of insertion\<close>

text \<open>Whether the event names a thread the store does not know.\<close>

definition unknown_other :: "u64 \<Rightarrow> u64 \<Rightarrow> ev_ptr \<Rightarrow> store \<Rightarrow> bool" where
  "unknown_other self i p s \<longleftrightarrow> (case ev_body (events s ! p) of
     ThreadB other x sub \<Rightarrow> thread_sub_type sub \<noteq> ThreadCreatorEvent \<and>
       map_of (thread_events (cur_state self i s)) other = None
   | _ \<Rightarrow> False)"

lemma queue_event_map [simp]: "thread_events (queue_event cur p s) = thread_events s"
  by (simp add: queue_event_def)

lemma created_map:
  "map_of (thread_events (created sub i s)) i = None \<longleftrightarrow>
     thread_sub_type sub \<noteq> ThreadCreatorEvent \<and> map_of (thread_events s) i = None"
  by (cases sub) (auto simp: new_entry_def map_add_def)

lemma insert_spec_result:
  "fst (insert_spec self i p s) = (if unknown_other self i p s then Inl StdException else Inr ())"
proof (cases "ev_body (events s ! p)")
  case (ThreadB other x sub)
  then show ?thesis
    using created_map [of sub other "queue_event (cur_of self i s) p (cur_state self i s)"]
    by (auto simp: insert_spec_def Let_def unknown_other_def split: option.splits)
qed (simp_all add: insert_spec_def Let_def unknown_other_def)

text \<open>A store with an event of an unknown thread and a signal.\<close>

definition ex_store :: store where
  "ex_store = (EventStore (3, 5))\<lparr>events := [new_event 7 (3, 6) 0 (ThreadB 9 UINT64_MAX (ThreadCreation 0)),
     new_event 7 (3, 7) 1 (SignalB 11 4096 1)]\<rparr>"

lemma ex_store_inv: "store_inv ex_store" "rw_free (thread_events_lock ex_store)" "\<not> finalized ex_store"
  by (simp_all add: ex_store_def EventStore_def store_inv_def)

text \<open>C9: an insertion into a store that accepts events puts the event into exactly one queue, the
  one of the thread whose id it is stamped with, and keeps the thread table, the map of running
  threads and the numbering of threads consistent. It ends with the lock free, or, when the event
  names a thread the store does not know, with an exception and the lock held for reading.\<close>

theorem insert_event_correct:
  assumes "store_inv s" and "rw_free (thread_events_lock s)" and "\<not> finalized s"
    and "p < length (events s)" and "p \<notin> set (queued s)"
  shows "\<exists>s' l. insert_event self i p s =
      (if unknown_other self i p s then (Inl StdException, s'\<lparr>thread_events_lock := rd_held l\<rparr>)
       else (Inr (), s'\<lparr>thread_events_lock := l\<rparr>)) \<and> rw_free l \<and>
    store_inv s' \<and> mset (queued s') = add_mset p (mset (queued s))"
proof -
  obtain r s' where spec: "insert_spec self i p s = (r, s')" by force
  have "store_inv s'" "mset (queued s') = add_mset p (mset (queued s))"
    using insert_spec_inv [OF assms(1,4,5), of self i] spec by simp_all
  moreover have "r = (if unknown_other self i p s then Inl StdException else Inr ())"
    using insert_spec_result [of self i p s] spec by simp
  ultimately show ?thesis
    using insert_event_eq [OF assms(2,3,4), of self i] spec by (auto split: if_splits)
qed

theorem insert_event_correct_witness:
  "\<exists>s' l. insert_event 7 7 1 ex_store = (Inr (), s'\<lparr>thread_events_lock := l\<rparr>) \<and> rw_free l \<and>
    store_inv s' \<and> mset (queued s') = {#1#}"
proof -
  have "\<not> unknown_other 7 7 1 ex_store" "queued ex_store = []" "1 < length (events ex_store)"
    by (simp_all add: unknown_other_def ex_store_def new_event_def queued_def EventStore_def)
  then show ?thesis using insert_event_correct [OF ex_store_inv, of 1 7 7] by simp
qed

lemma read_under_read_then_write:
  assumes "rw_free l"
  shows "\<exists>l'. read_lock (rd_held l) = Some l' \<and> write_lock (read_unlock l') = None"
  using assms by (simp add: rd_held_def rw_free_def rw_seq_defs)

text \<open>C34: the exception of an insertion leaves \<open>thread_events_lock\<close> held for reading, so the next
  thread that has to be added to the store waits for the lock forever.\<close>

theorem insert_after_exception_spins:
  assumes "rw_free (thread_events_lock s)" and "\<not> finalized s" and "p < length (events s)"
    and "insert_event self i p s = (Inl e, s')"
    and "current_thread s' other = None" and "map_of (thread_events s') j = None"
  shows "e = StdException \<and> fst (insert_event other j q s') = Inl Spin"
proof -
  obtain r t where spec: "insert_spec self i p s = (r, t)" by force
  with insert_event_eq [OF assms(1,2,3), of self i] assms(4) have r: "r = Inl e" and "\<exists>l. rw_free l \<and> s' = t\<lparr>thread_events_lock := rd_held l\<rparr>"
    by (auto split: sum.splits)
  then obtain l where l: "rw_free l" "thread_events_lock s' = rd_held l" "finalized s' = finalized t" by auto
  have e: "e = StdException" using insert_spec_result [of self i p s] spec r by (simp split: if_splits)
  have "finalized (snd (insert_spec self i p s)) = finalized s"
    by (simp add: insert_spec_def Let_def split: ev_body.split option.split)
  with l(3) spec assms(2) have nf: "\<not> finalized s'" by simp
  obtain l' where l': "read_lock (rd_held l) = Some l'" "write_lock (read_unlock l') = None"
    using read_under_read_then_write [OF l(1)] by blast
  with nf l(2) assms(5,6) e show ?thesis
    by (simp add: insert_event_def find_current_def c_then_def c_bind_def acquire_def release_def)
qed

lemma ex_store_throws:
  "fst (insert_event 7 7 0 ex_store) = Inl StdException"
  "current_thread (snd (insert_event 7 7 0 ex_store)) 8 = None"
  "map_of (thread_events (snd (insert_event 7 7 0 ex_store))) 8 = None"
  by code_simp+

theorem insert_after_exception_spins_witness:
  "fst (insert_event 8 8 1 (snd (insert_event 7 7 0 ex_store))) = Inl Spin"
  using insert_after_exception_spins [OF ex_store_inv(2,3), of 0 7 7 StdException
      "snd (insert_event 7 7 0 ex_store)" 8 8 1] ex_store_throws
  by (simp add: ex_store_def prod_eq_iff)

end
