(* ===== verification/StoreFin.thy ===== *)
theory StoreFin
  imports StoreInv
begin

text \<open>Finalisation: every call that is still open is closed, and the loop that does it ends.\<close>

section \<open>Open calls\<close>

fun open_calls :: "heap \<Rightarrow> ev_ptr \<Rightarrow> ev_ptr list" where
  "open_calls h p =
     p # (case get_previous_call (h ! p) of
            None \<Rightarrow> []
          | Some q \<Rightarrow> if q < p then open_calls h q else [])"

declare open_calls.simps [simp del]

text \<open>The return event that closes a call.\<close>

definition closing :: "u64 \<Rightarrow> u64 \<times> u64 \<Rightarrow> u32 \<Rightarrow> u64 \<Rightarrow> heap \<Rightarrow> ev_ptr \<Rightarrow> event option" where
  "closing self now cpu et h p =
     map_option (\<lambda>b. (new_event self now cpu b)\<lparr>ev_thread_id := ev_thread_id (h ! p), ev_time := et\<rparr>)
       (return_body (h ! p) p)"

lemma prev_in_refs: "get_previous_call e = Some q \<Longrightarrow> q \<in> set (ev_refs (ev_body e))"
  by (auto simp: get_previous_call_def split: ev_body.splits enclave_sub.splits option.splits)

lemma wf_prev: "wf_heap h \<Longrightarrow> p < length h \<Longrightarrow> get_previous_call (h ! p) = Some q \<Longrightarrow> q < p"
  using prev_in_refs by (auto simp: wf_heap_def)

lemma open_calls_append: "p < length h \<Longrightarrow> open_calls (h @ es) p = open_calls h p"
proof (induction p rule: less_induct)
  case (less p)
  show ?case
    by (subst (1 2) open_calls.simps) (use less in \<open>auto simp: nth_append split: option.splits\<close>)
qed

lemma open_calls_le: "q \<in> set (open_calls h p) \<Longrightarrow> q \<le> p"
proof (induction p rule: less_induct)
  case (less p)
  from less.prems have "q = p \<or> (\<exists>r < p. q \<in> set (open_calls h r))"
    by (subst (asm) open_calls.simps) (auto split: option.splits if_splits)
  with less.IH show ?case by fastforce
qed

lemma length_open_calls: "length (open_calls h p) \<le> Suc p"
proof (induction p rule: less_induct)
  case (less p)
  then show ?case
    by (subst open_calls.simps) (fastforce split: option.splits)
qed

lemma closing_append: "p < length h \<Longrightarrow> closing self now cpu et (h @ es) p = closing self now cpu et h p"
  by (simp add: closing_def nth_append)

lemma map_filter_cong: "(\<And>x. x \<in> set xs \<Longrightarrow> f x = g x) \<Longrightarrow> List.map_filter f xs = List.map_filter g xs"
  by (induction xs) (simp_all add: List.map_filter_simps split: option.split)

definition closings :: "u64 \<Rightarrow> u64 \<times> u64 \<Rightarrow> u32 \<Rightarrow> u64 \<Rightarrow> heap \<Rightarrow> ev_ptr option \<Rightarrow> event list" where
  "closings self now cpu et h c = (case c of None \<Rightarrow> [] | Some p \<Rightarrow>
     List.map_filter (closing self now cpu et h) (open_calls h p))"

lemma closings_append:
  "(\<And>p. c = Some p \<Longrightarrow> p < length h) \<Longrightarrow> closings self now cpu et (h @ es) c = closings self now cpu et h c"
  by (auto simp: closings_def open_calls_append split: option.splits
      intro!: map_filter_cong closing_append dest!: open_calls_le)

text \<open>A thread whose calls are closed: the return events are at the end of its queue.\<close>

definition closed_thread :: "thread \<Rightarrow> ev_ptr list \<Rightarrow> thread" where
  "closed_thread t ps = t\<lparr>th_current_call := None, th_events := th_events t @ ps\<rparr>"

lemma return_body_refs: "return_body e p = Some b \<Longrightarrow> ev_refs b = [p]"
  by (auto simp: return_body_def split: ev_body.splits enclave_sub.splits call_kind.splits)

lemma wf_heap_append:
  assumes "wf_heap h" "\<forall>e \<in> set es. \<forall>q \<in> set (ev_refs (ev_body e)). q < length h"
  shows "wf_heap (h @ es)"
  unfolding wf_heap_def
proof (intro allI impI ballI)
  fix p q
  assume p: "p < length (h @ es)" and q: "q \<in> set (ev_refs (ev_body ((h @ es) ! p)))"
  show "q < p"
  proof (cases "p < length h")
    case False
    then have "(h @ es) ! p \<in> set es" using p by (simp add: nth_append)
    with assms(2) q have "q < length h" by blast
    with False show ?thesis by simp
  qed (use assms(1) q in \<open>simp add: wf_heap_def nth_append\<close>)
qed

lemma closing_refs: "closing self now cpu et h p = Some e \<Longrightarrow> ev_refs (ev_body e) = [p]"
  by (auto simp: closing_def new_event_def dest: return_body_refs)

lemma closings_refs:
  "e \<in> set (closings self now cpu et h (Some p)) \<Longrightarrow> \<exists>q \<le> p. ev_refs (ev_body e) = [q]"
proof -
  assume "e \<in> set (closings self now cpu et h (Some p))"
  then obtain q where "q \<in> set (open_calls h p)" "closing self now cpu et h q = Some e"
    by (auto simp: closings_def List.map_filter_def)
  then show ?thesis using open_calls_le closing_refs by blast
qed

lemma closings_wf:
  assumes "wf_heap h" "\<forall>p. c = Some p \<longrightarrow> p < length h"
  shows "wf_heap (h @ closings self now cpu et h c)"
proof (cases c)
  case (Some p)
  with assms(2) show ?thesis
    by (intro wf_heap_append [OF assms(1)]) (auto dest!: closings_refs)
qed (use assms in \<open>simp add: closings_def\<close>)

lemma close_call_eq:
  assumes "t < length (threads s)"
  shows "close_call self now cpu t p s =
    (let new = (case closing self now cpu (end_time s) (events s) p of None \<Rightarrow> [] | Some e \<Rightarrow> [e])
     in s\<lparr>events := events s @ new, threads := (threads s)[t := (threads s ! t)
          \<lparr>th_events := th_events (threads s ! t) @ [length (events s)..<length (events s) + length new],
           th_current_call := get_previous_call (events s ! p)\<rparr>]\<rparr>)"
  using assms
  by (simp add: close_call_def closing_def Let_def split: option.split)

lemma close_calls_ok:
  assumes "wf_heap (events s)" and "t < length (threads s)" and "th_current_call (threads s ! t) = c"
    and "\<forall>p. c = Some p \<longrightarrow> p < length (events s) \<and> Suc p < n" and "0 < n"
  shows "close_calls n self now cpu t s =
      (let cl = closings self now cpu (end_time s) (events s) c
       in Some (s\<lparr>events := events s @ cl, threads := (threads s)[t := closed_thread (threads s ! t)
            [length (events s)..<length (events s) + length cl]]\<rparr>))"
  using assms
proof (induction n arbitrary: s c)
  case (Suc n)
  note 1 = Suc.prems
  show ?case
    proof (cases c)
      case None
      have "(threads s)[t := closed_thread (threads s ! t) []] = threads s"
        using None 1 by (cases "threads s ! t") (simp add: closed_thread_def list_update_same_conv)
      with None 1 show ?thesis by (simp add: closings_def Let_def)
    next
      case (Some p)
      define new where "new = (case closing self now cpu (end_time s) (events s) p of None \<Rightarrow> [] | Some e \<Rightarrow> [e])"
      define s' where "s' = close_call self now cpu t p s"
      have s': "s' = s\<lparr>events := events s @ new, threads := (threads s)[t := (threads s ! t)
          \<lparr>th_events := th_events (threads s ! t) @ [length (events s)..<length (events s) + length new],
           th_current_call := get_previous_call (events s ! p)\<rparr>]\<rparr>"
        using close_call_eq [OF 1(2), of self now cpu p] by (simp add: s'_def new_def Let_def)
      let ?c = "get_previous_call (events s ! p)"
      have p: "p < length (events s)" "Suc p < Suc n" using 1 Some by auto
      have prev: "?c = Some q \<Longrightarrow> q < p" for q using wf_prev [OF 1(1) p(1)] .
      have wf: "wf_heap (events s')"
        using wf_heap_append [OF 1(1), of new] p(1) by (auto simp: s' new_def closing_refs split: option.splits)
      have cls: "closings self now cpu (end_time s) (events s) c = new @ closings self now cpu (end_time s') (events s') ?c"
        using prev p Some
        by (subst s', subst s') (auto simp: closings_append closings_def open_calls.simps [of _ p]
            List.map_filter_simps new_def open_calls_append split: option.splits
            intro!: map_filter_cong closing_append [symmetric] dest!: open_calls_le)
      have len: "[length (events s)..<length (events s) + length new] @
          [length (events s')..<length (events s') + m] = [length (events s)..<length (events s) + length new + m]" for m
        by (simp add: s' upt_add_eq_append [symmetric])
      have t': "t < length (threads s')" "th_current_call (threads s' ! t) = ?c" using 1(2) by (simp_all add: s')
      have b': "\<forall>q. ?c = Some q \<longrightarrow> q < length (events s') \<and> Suc q < n" "0 < n"
        using prev p by (auto simp: s')
      have "closed_thread (threads s' ! t) [length (events s')..<length (events s') + m] =
          closed_thread (threads s ! t) [length (events s)..<length (events s) + length new + m]" for m
        using 1(2) by (simp add: closed_thread_def len [symmetric]) (simp add: s')
      then show ?thesis
        using Suc.IH [OF wf t' b'] 1 Some cls by (simp add: s'_def [symmetric] Let_def) (simp add: s' add.assoc)
    qed
qed simp_all

section \<open>All threads\<close>

definition call_ok :: "store \<Rightarrow> th_ptr \<Rightarrow> bool" where
  "call_ok s t \<longleftrightarrow> t < length (threads s) \<and>
     (\<forall>p. th_current_call (threads s ! t) = Some p \<longrightarrow> p < length (events s))"

text \<open>Thread \<open>t\<close> of \<open>s\<close> is closed in \<open>s'\<close>.\<close>

definition closed_in :: "u64 \<Rightarrow> u64 \<times> u64 \<Rightarrow> u32 \<Rightarrow> store \<Rightarrow> store \<Rightarrow> th_ptr \<Rightarrow> bool" where
  "closed_in self now cpu s s' t \<longleftrightarrow> (\<exists>ps. threads s' ! t = closed_thread (threads s ! t) ps \<and>
     set ps \<subseteq> {length (events s)..<length (events s')} \<and>
     map ((!) (events s')) ps = closings self now cpu (end_time s) (events s) (th_current_call (threads s ! t)))"

lemma finalize_threads_ok:
  assumes "wf_heap (events s)" and "distinct ts" and "\<forall>t \<in> set ts. call_ok s t"
  shows "\<exists>s' es. finalize_threads self now cpu ts s = Some s' \<and> events s' = events s @ es \<and>
    wf_heap (events s') \<and> length (threads s') = length (threads s) \<and>
    s' = s\<lparr>events := events s', threads := threads s', finished_thread_events := finished_thread_events s @ ts\<rparr> \<and>
    (\<forall>t. t \<notin> set ts \<longrightarrow> threads s' ! t = threads s ! t) \<and>
    (\<forall>t \<in> set ts. closed_in self now cpu s s' t)"
  using assms
proof (induction ts arbitrary: s)
  case Nil
  then show ?case by (intro exI [of _ s]) simp
next
  case (Cons t ts)
  let ?c = "th_current_call (threads s ! t)"
  let ?cl = "closings self now cpu (end_time s) (events s) ?c"
  let ?ps = "[length (events s)..<length (events s) + length ?cl]"
  let ?s1 = "s\<lparr>events := events s @ ?cl, threads := (threads s)[t := closed_thread (threads s ! t) ?ps],
     finished_thread_events := finished_thread_events s @ [t]\<rparr>"
  have t: "t < length (threads s)" "\<forall>p. ?c = Some p \<longrightarrow> p < length (events s)" "t \<notin> set ts"
    using Cons.prems by (auto simp: call_ok_def)
  have step: "finalize_threads self now cpu (t # ts) s = finalize_threads self now cpu ts ?s1"
    using close_calls_ok [OF Cons.prems(1) t(1) refl, of "Suc (length (events s))" self now cpu] t(2)
    by (simp add: Let_def)
  have ok: "\<forall>u \<in> set ts. call_ok ?s1 u"
    using Cons.prems t(3) by (auto simp: call_ok_def nth_list_update less_imp_le trans_less_add1)
  obtain s' es where s': "finalize_threads self now cpu ts ?s1 = Some s'" "events s' = events ?s1 @ es"
    "wf_heap (events s')" "length (threads s') = length (threads ?s1)"
    "s' = ?s1\<lparr>events := events s', threads := threads s', finished_thread_events := finished_thread_events ?s1 @ ts\<rparr>"
    "\<forall>t. t \<notin> set ts \<longrightarrow> threads s' ! t = threads ?s1 ! t" "\<forall>t \<in> set ts. closed_in self now cpu ?s1 s' t"
    using Cons.IH [of ?s1] closings_wf [OF Cons.prems(1) t(2)] Cons.prems(2) ok by auto
  have "map ((!) (events s')) ?ps = ?cl"
    by (rule nth_equalityI) (simp_all add: s'(2) nth_append)
  then have ct: "closed_in self now cpu s s' t"
    unfolding closed_in_def using s'(6) t by (intro exI [of _ ?ps]) (simp add: s'(2))
  have cu: "closed_in self now cpu s s' u" if uts: "u \<in> set ts" for u
  proof -
    have u: "u \<noteq> t" "\<forall>p. th_current_call (threads s ! u) = Some p \<longrightarrow> p < length (events s)"
      using uts t(3) Cons.prems by (auto simp: call_ok_def)
    obtain ps where "threads s' ! u = closed_thread (threads ?s1 ! u) ps"
      "set ps \<subseteq> {length (events ?s1)..<length (events s')}"
      "map ((!) (events s')) ps = closings self now cpu (end_time ?s1) (events ?s1) (th_current_call (threads ?s1 ! u))"
      using bspec [OF s'(7) uts] unfolding closed_in_def by blast
    with u show ?thesis
      unfolding closed_in_def by (intro exI [of _ ps]) (auto simp: closings_append)
  qed
  have "s' = s\<lparr>events := events s', threads := threads s', finished_thread_events := finished_thread_events s @ t # ts\<rparr>"
    by (subst s'(5)) simp
  moreover have "\<forall>u. u \<notin> set (t # ts) \<longrightarrow> threads s' ! u = threads s ! u" using s'(6) by simp
  ultimately show ?case
    unfolding step using s'(1-4) ct cu by (intro exI [of _ s'] exI [of _ "?cl @ es"]) simp
qed

lemma distinct_threads:
  assumes "store_inv s" shows "distinct (map snd (thread_events s))"
proof -
  have "inj_on snd (set (thread_events s))"
  proof (rule inj_onI)
    fix a b assume ab: "a \<in> set (thread_events s)" "b \<in> set (thread_events s)" "snd a = snd b"
    have "th_id (threads s ! snd x) = fst x" if "x \<in> set (thread_events s)" for x
      using assms that by (auto simp: store_inv_def)
    with ab show "a = b" by (metis prod_eqI)
  qed
  moreover have "distinct (thread_events s)" using assms by (simp add: store_inv_def distinct_map)
  ultimately show ?thesis by (simp add: distinct_map)
qed

text \<open>C7: finalising a store ends, stops the collection and empties the map of running threads;
  every one of them is then finished and outside any call, and its queue has grown by exactly one
  return event for each call it was in, innermost first, stamped with the end time and the id of
  the thread of the call.\<close>

theorem finalize_closes_calls:
  assumes "store_inv s" and "wf_heap (events s)" and "\<forall>kt \<in> set (thread_events s). call_ok s (snd kt)"
  shows "\<exists>s'. finalize self now cpu s = Some s' \<and> finalized s' \<and> end_time s' = timespec_ns now \<and>
    thread_events s' = [] \<and> wf_heap (events s') \<and>
    finished_thread_events s' = finished_thread_events s @ map snd (thread_events s) \<and>
    (\<forall>kt \<in> set (thread_events s).
       closed_in self now cpu (s\<lparr>end_time := timespec_ns now\<rparr>) s' (snd kt))"
proof -
  let ?s = "s\<lparr>finalized := True, end_time := timespec_ns now\<rparr>"
  have "\<forall>t \<in> set (map snd (thread_events s)). call_ok ?s t" using assms(3) by (auto simp: call_ok_def)
  with finalize_threads_ok [of ?s, OF _ distinct_threads [OF assms(1)], of self now cpu] assms(2)
  obtain s' es where s': "finalize_threads self now cpu (map snd (thread_events s)) ?s = Some s'"
    "wf_heap (events s')" "s' = ?s\<lparr>events := events s', threads := threads s',
       finished_thread_events := finished_thread_events s @ map snd (thread_events s)\<rparr>"
    "\<forall>t \<in> set (map snd (thread_events s)). closed_in self now cpu ?s s' t" by auto
  have "finalized s'" "end_time s' = timespec_ns now"
    "finished_thread_events s' = finished_thread_events s @ map snd (thread_events s)"
    by (subst s'(3), simp)+
  with s'(1,2,4) show ?thesis
    by (auto simp: finalize_def closed_in_def)
qed

text \<open>A thread in an ocall that an ecall made.\<close>

definition ex_open :: store where
  "ex_open = (EventStore (3, 5))\<lparr>
     events := [(new_event 7 (3, 6) 0 (EnclaveB 2 (EnclaveCall 4 0 None (ECallKind 3))))\<lparr>ev_thread_id := 0\<rparr>,
       (new_event 7 (3, 7) 1 (EnclaveB 2 (EnclaveCall 1 0 (Some 0) OCallKind)))\<lparr>ev_thread_id := 0\<rparr>],
     threads := [(new_thread 7 0)\<lparr>th_events := [0, 1], th_current_call := Some 1\<rparr>],
     thread_id := 1, thread_events := [(7, 0)], main_thread := Some 0\<rparr>"

lemma ex_open_ok:
  "store_inv ex_open" "wf_heap (events ex_open)" "\<forall>kt \<in> set (thread_events ex_open). call_ok ex_open (snd kt)"
  by (auto simp: ex_open_def EventStore_def store_inv_def new_thread_def new_event_def wf_heap_def
      call_ok_def less_Suc_eq numeral_2_eq_2)

theorem finalize_closes_calls_witness:
  "\<exists>s' ps. finalize 7 (9, 1) 0 ex_open = Some s' \<and> finalized s' \<and>
     threads s' ! 0 = closed_thread (threads ex_open ! 0) ps \<and>
     map (ev_body \<circ> (!) (events s')) ps = [EnclaveB 2 (OCallReturn 1 0), EnclaveB 2 (ECallReturn 0 0 3)]"
proof -
  obtain s' where s': "finalize 7 (9, 1) 0 ex_open = Some s'" "finalized s'"
    "closed_in 7 (9, 1) 0 (ex_open\<lparr>end_time := timespec_ns (9, 1)\<rparr>) s' 0"
    using finalize_closes_calls [OF ex_open_ok, of 7 "(9, 1)" 0] by (auto simp: ex_open_def)
  from s'(3) obtain ps where ps: "threads s' ! 0 = closed_thread (threads ex_open ! 0) ps"
    "map ((!) (events s')) ps = closings 7 (9, 1) 0 (timespec_ns (9, 1)) (events ex_open) (Some 1)"
    by (auto simp: closed_in_def ex_open_def)
  have "map ev_body (closings 7 (9, 1) 0 (timespec_ns (9, 1)) (events ex_open) (Some 1)) =
      [EnclaveB 2 (OCallReturn 1 0), EnclaveB 2 (ECallReturn 0 0 3)]"
    by (simp add: closings_def open_calls.simps ex_open_def new_event_def get_previous_call_def
        List.map_filter_simps closing_def return_body_def)
  with ps(2) have "map (ev_body \<circ> (!) (events s')) ps = [EnclaveB 2 (OCallReturn 1 0), EnclaveB 2 (ECallReturn 0 0 3)]"
    by (metis map_map)
  with s' ps(1) show ?thesis by (intro exI [of _ s'] exI [of _ ps]) simp
qed

end
