(* ===== verification/Summary.thy ===== *)
theory Summary
  imports StoreFin Elfparser
begin

text \<open>
  Serialisation of a finalised store, \<open>create_summary\<close> and \<open>write_summary\<close> of
  \<^verbatim>\<open>src/logger/src/store.cpp\<close>. The database is the contents of its tables; \<open>dladdr\<close> and what
  libelf says of a binary are arguments.
\<close>

section \<open>The database\<close>

record thread_row =
  tr_id :: u64
  tr_pthread_id :: sql_val
  tr_name :: string
  tr_start_address :: sql_val
  tr_start_symbol :: "string option"
  tr_file_name :: "string option"
  tr_normalized :: "sql_val option"

record ocall_row =
  or_id :: nat
  or_eid :: u64
  or_symbol_name :: "string option"
  or_file_name :: "string option"
  or_address :: "sql_val option"
  or_normalized :: "sql_val option"

record ecall_row =
  er_id :: nat
  er_eid :: u64
  er_address :: sql_val
  er_symbol_name :: string
  er_is_private :: bool

record database =
  db_event_map :: "(nat \<times> string) list"
  db_general :: "(string \<times> sql_val) list"
  db_threads :: "thread_row list"
  db_events :: "row list"
  db_ocalls :: "ocall_row list"
  db_ecalls :: "ecall_row list"

definition empty_db :: database where
  "empty_db = \<lparr>db_event_map = [], db_general = [], db_threads = [], db_events = [], db_ocalls = [],
     db_ecalls = []\<rparr>"

text \<open>\<open>create_database\<close>: the results of opening the database and of creating the tables.\<close>

definition create_database :: "bool \<Rightarrow> bool \<Rightarrow> int \<times> database option" where
  "create_database open_ok tables_ok =
     (if \<not> open_ok then (-1, None) else if \<not> tables_ok then (-1, None) else (0, Some empty_db))"

definition event_type_names :: "string list" where
  "event_type_names =
     [''Event'', ''SignalEvent'', ''ThreadEvent'', ''ThreadCreationEvent'', ''ThreadCreatorEvent'',
      ''ThreadDestructionEvent'', ''ThreadSetNameEvent'', ''EnclaveEvent'', ''EnclaveCreationEvent'',
      ''EnclaveDestructionEvent'', ''EnclavePagingEvent'', ''EnclavePageOutEvent'',
      ''EnclavePageInEvent'', ''EnclaveCallEvent'', ''EnclaveECallEvent'',
      ''EnclaveECallReturnEvent'', ''EnclaveOCallEvent'', ''EnclaveOCallReturnEvent'',
      ''EnclaveSyncWaitEvent'', ''EnclaveSyncSetEvent'', ''EnclaveAEXEvent'', '''']"

section \<open>Literals in statements\<close>

text \<open>
  Text is pasted between quotes into the statement. A quote in it ends the literal unless another
  one follows, which stands for one quote; \<open>None\<close> is a statement that is not the intended one.
\<close>

fun text_lit :: "string \<Rightarrow> string option" where
  "text_lit [] = Some []"
| "text_lit (c # cs) =
     (if c = CHR 0x27
      then (case cs of
              [] \<Rightarrow> None
            | d # ds \<Rightarrow> if d = CHR 0x27 then map_option (Cons (CHR 0x27)) (text_lit ds) else None)
      else map_option (Cons c) (text_lit cs))"

definition fits_int64 :: "u64 \<Rightarrow> bool" where
  "fits_int64 n \<longleftrightarrow> \<not> bit n 63"

definition num_lit :: "u64 \<Rightarrow> sql_val" where
  "num_lit n = (if fits_int64 n then SInt (uint n) else SReal (uint n))"

definition c_text :: "string \<Rightarrow> ('s, string) comp" where
  "c_text t = (case text_lit t of None \<Rightarrow> c_fail BadSql | Some v \<Rightarrow> c_ret v)"

section \<open>State of the serialisation\<close>

record summ =
  sm_heap :: heap
  sm_db :: database
  sm_fm :: file_map
  sm_enclave_files :: "(u64 \<times> string) list"
  sm_addresses :: "u64 list"

definition sm_upd_db :: "(database \<Rightarrow> database) \<Rightarrow> (summ, unit) comp" where
  "sm_upd_db f = c_upd (\<lambda>s. s\<lparr>sm_db := f (sm_db s)\<rparr>)"

text \<open>A statement that violates a key makes \<open>sql_exec\<close> exit.\<close>

definition sm_insert_thread :: "thread_row \<Rightarrow> (summ, unit) comp" where
  "sm_insert_thread r s =
     (if fits_int64 (tr_id r) \<and> tr_id r \<notin> tr_id ` set (db_threads (sm_db s))
      then sm_upd_db (\<lambda>d. d\<lparr>db_threads := db_threads d @ [r]\<rparr>) s else (Inl (Exit (-1)), s))"

definition sm_insert_ocall :: "ocall_row \<Rightarrow> (summ, unit) comp" where
  "sm_insert_ocall r s =
     (if (or_id r, or_eid r) \<notin> (\<lambda>r. (or_id r, or_eid r)) ` set (db_ocalls (sm_db s))
      then sm_upd_db (\<lambda>d. d\<lparr>db_ocalls := db_ocalls d @ [r]\<rparr>) s else (Inl (Exit (-1)), s))"

definition sm_insert_ecall :: "ecall_row \<Rightarrow> (summ, unit) comp" where
  "sm_insert_ecall r s =
     (if (er_id r, er_eid r) \<notin> (\<lambda>r. (er_id r, er_eid r)) ` set (db_ecalls (sm_db s))
      then sm_upd_db (\<lambda>d. d\<lparr>db_ecalls := db_ecalls d @ [r]\<rparr>) s else (Inl (Exit (-1)), s))"

definition sm_elf :: "(file_map, 'a) comp \<Rightarrow> (summ, 'a) comp" where
  "sm_elf m s = (case m (sm_fm s) of (r, fm) \<Rightarrow> (r, s\<lparr>sm_fm := fm\<rparr>))"

section \<open>General information, event names and threads\<close>

definition write_general :: "store \<Rightarrow> (summ, unit) comp" where
  "write_general st =
     c_bind (c_some (main_thread st)) (\<lambda>m.
       sm_upd_db (\<lambda>d. d\<lparr>db_general := db_general d @
         [(''version'', SInt 1), (''start_time'', num_lit (start_time st)),
          (''end_time'', num_lit (end_time st)), (''main_thread'', num_lit (th_sql_id (threads st ! m)))]\<rparr>))"

text \<open>The loop from \<open>First\<close> up to \<open>Last\<close>, and \<open>Last\<close> itself.\<close>

definition write_event_map :: "(summ, unit) comp" where
  "write_event_map =
     sm_upd_db (\<lambda>d. d\<lparr>db_event_map := db_event_map d @
       map (\<lambda>i. (i, event_type_names ! i)) [0..<type_id EnclaveAEXEvent] @
       [(type_id EnclaveAEXEvent, event_type_names ! type_id EnclaveAEXEvent)]\<rparr>)"

definition write_thread :: "thread \<Rightarrow> (summ, unit) comp" where
  "write_thread t =
     c_bind (c_text (th_name t)) (\<lambda>name.
       sm_insert_thread \<lparr>tr_id = th_sql_id t, tr_pthread_id = num_lit (th_id t), tr_name = name,
         tr_start_address = SInt 0, tr_start_symbol = None, tr_file_name = None, tr_normalized = None\<rparr>)"

section \<open>Events\<close>

definition sm_ser :: "(ser \<Rightarrow> ser option) \<Rightarrow> (summ, unit) comp" where
  "sm_ser f s = (case f (sm_heap s, db_events (sm_db s)) of
     None \<Rightarrow> (Inl Diverge, s)
   | Some (h, rows) \<Rightarrow> (Inr (), s\<lparr>sm_heap := h, sm_db := (sm_db s)\<lparr>db_events := rows\<rparr>\<rparr>))"

text \<open>The first enclave of the map that the paging event falls into.\<close>

fun find_enclave :: "enclave list \<Rightarrow> u64 \<Rightarrow> u64 \<Rightarrow> (u64 \<times> en_ptr option) list \<Rightarrow> fault + u64 option" where
  "find_enclave es addr t [] = Inr None"
| "find_enclave es addr t ((k, e) # m) =
     (case e of
        None \<Rightarrow> Inl NullDeref
      | Some p \<Rightarrow> if is_within_enclave (es ! p) addr \<and> is_within_lifetime (es ! p) t
                  then Inr (Some (en_eid (es ! p))) else find_enclave es addr t m)"

definition set_eid :: "u64 \<Rightarrow> event \<Rightarrow> event" where
  "set_eid i e = e\<lparr>ev_body := (case ev_body e of EnclaveB x b \<Rightarrow> EnclaveB i b | b \<Rightarrow> b)\<rparr>"

definition is_page_event :: "ev_body \<Rightarrow> bool" where
  "is_page_event b \<longleftrightarrow> get_type b = EnclavePageInEvent \<or> get_type b = EnclavePageOutEvent"

text \<open>\<open>True\<close> when the event is to be written, \<open>False\<close> for \<open>goto nextevent\<close>.\<close>

definition assign_enclave :: "store \<Rightarrow> ev_ptr \<Rightarrow> (summ, bool) comp" where
  "assign_enclave st p =
     c_bind (c_get (\<lambda>s. sm_heap s ! p)) (\<lambda>e.
       if is_page_event (ev_body e)
       then (case find_enclave (enclaves st) (pg_address (enclave_sub (ev_body e))) (ev_time e) (enclave_map st) of
               Inl f \<Rightarrow> c_fail f
             | Inr None \<Rightarrow> c_ret False
             | Inr (Some i) \<Rightarrow>
                 c_then (c_upd (\<lambda>s. s\<lparr>sm_heap := (sm_heap s)[p := set_eid i (sm_heap s ! p)]\<rparr>)) (c_ret True))
       else c_ret True)"

definition note_enclave_file :: "ev_body \<Rightarrow> (summ, unit) comp" where
  "note_enclave_file b =
     (case b of
        EnclaveB eid (EnclaveCreation f r x y) \<Rightarrow>
          c_upd (\<lambda>s. if map_of (sm_enclave_files s) eid = None
                     then s\<lparr>sm_enclave_files := insort_key fst (eid, f) (sm_enclave_files s)\<rparr> else s)
      | _ \<Rightarrow> c_ret ())"

definition note_thread_start :: "ev_body \<Rightarrow> (summ, unit) comp" where
  "note_thread_start b =
     (case b of
        ThreadB other oid (ThreadCreator f r) \<Rightarrow>
          c_then (c_upd (\<lambda>s. if f \<in> set (sm_addresses s) then s
                             else s\<lparr>sm_addresses := insort f (sm_addresses s)\<rparr>))
            (sm_upd_db (\<lambda>d. d\<lparr>db_threads := map (\<lambda>t. if tr_id t = oid then t\<lparr>tr_start_address := num_lit f\<rparr> else t)
               (db_threads d)\<rparr>))
      | _ \<Rightarrow> c_ret ())"

definition write_event :: "store \<Rightarrow> ev_ptr \<Rightarrow> (summ, unit) comp" where
  "write_event st p =
     c_bind (c_get (\<lambda>s. length (sm_heap s))) (\<lambda>n.
       c_then (sm_ser (pre_insert (Suc n) p))
         (c_bind (assign_enclave st p) (\<lambda>go.
           if \<not> go then c_ret ()
           else
             c_then (sm_ser (\<lambda>s. if is_inserted (fst s) p then Some s else Some (insert_row p s)))
               (c_bind (c_get (\<lambda>s. ev_body (sm_heap s ! p))) (\<lambda>b.
                 c_then (note_enclave_file b) (note_thread_start b))))))"

section \<open>Symbols\<close>

definition lookup_symbol :: "elf_env \<Rightarrow> string \<Rightarrow> u64 \<Rightarrow> u64 \<Rightarrow> (summ, string) comp" where
  "lookup_symbol env fname base addr =
     c_bind (sm_elf (getSymbolForAddress env fname (addr - base))) (\<lambda>info.
       if info = [] then sm_elf (getSymbolForAddress env fname addr) else c_ret info)"

definition map_thread_address :: "elf_env \<Rightarrow> (u64 \<rightharpoonup> string \<times> u64) \<Rightarrow> u64 \<Rightarrow> (summ, unit) comp" where
  "map_thread_address env dladdr a =
     (case dladdr a of
        None \<Rightarrow> c_ret ()
      | Some (fname, base) \<Rightarrow>
          c_bind (lookup_symbol env fname base a) (\<lambda>info.
            c_bind (c_text fname) (\<lambda>fl. c_bind (c_text info) (\<lambda>il.
              sm_upd_db (\<lambda>d. d\<lparr>db_threads := map (\<lambda>t.
                  if tr_start_address t = num_lit a
                  then t\<lparr>tr_file_name := Some fl, tr_normalized := Some (num_lit (a - base)),
                    tr_start_symbol := (if info = [] then tr_start_symbol t else Some il)\<rparr>
                  else t) (db_threads d)\<rparr>)))))"

text \<open>An address \<open>dladdr\<close> does not know ends the loop over this enclave's table.\<close>

fun map_ocalls :: "elf_env \<Rightarrow> (u64 \<rightharpoonup> string \<times> u64) \<Rightarrow> u64 \<Rightarrow> nat \<Rightarrow> u64 list \<Rightarrow> (summ, unit) comp" where
  "map_ocalls env dladdr eid i [] = c_ret ()"
| "map_ocalls env dladdr eid i (a # as) =
     (case dladdr a of
        None \<Rightarrow> sm_insert_ocall \<lparr>or_id = i, or_eid = eid, or_symbol_name = None, or_file_name = None,
                  or_address = None, or_normalized = None\<rparr>
      | Some (fname, base) \<Rightarrow>
          c_bind (lookup_symbol env fname base a) (\<lambda>info.
            c_bind (c_text info) (\<lambda>il. c_bind (c_text fname) (\<lambda>fl.
              c_then (sm_insert_ocall \<lparr>or_id = i, or_eid = eid, or_symbol_name = Some il, or_file_name = Some fl,
                  or_address = Some (num_lit a), or_normalized = Some (num_lit (a - base))\<rparr>)
                (map_ocalls env dladdr eid (Suc i) as)))))"

definition map_enclave_ocalls ::
  "elf_env \<Rightarrow> (u64 \<rightharpoonup> string \<times> u64) \<Rightarrow> store \<Rightarrow> u64 \<times> en_ptr option \<Rightarrow> (summ, unit) comp" where
  "map_enclave_ocalls env dladdr st kv =
     c_bind (c_some (snd kv)) (\<lambda>e.
       case en_orig_table (enclaves st ! e) of
         None \<Rightarrow> c_ret ()
       | Some t \<Rightarrow> if length (ot_table t) < unat (ot_count t) then c_fail OutOfRange
                   else map_ocalls env dladdr (fst kv) 0 (take (unat (ot_count t)) (ot_table t)))"

fun map_ecalls :: "elf_env \<Rightarrow> u64 \<Rightarrow> string \<Rightarrow> nat \<Rightarrow> ecall_entry list \<Rightarrow> (summ, unit) comp" where
  "map_ecalls env eid file i [] = c_ret ()"
| "map_ecalls env eid file i (e # es) =
     c_bind (sm_elf (getSymbolForAddress env file (ecall_addr e))) (\<lambda>info.
       c_bind (c_text info) (\<lambda>il.
         c_then (sm_insert_ecall \<lparr>er_id = i, er_eid = eid, er_address = num_lit (ecall_addr e),
             er_symbol_name = il, er_is_private = (is_priv e \<noteq> 0)\<rparr>)
           (map_ecalls env eid file (Suc i) es)))"

definition map_enclave_ecalls :: "elf_env \<Rightarrow> u64 \<times> string \<Rightarrow> (summ, unit) comp" where
  "map_enclave_ecalls env kv =
     c_bind (sm_elf (getECallTable env (snd kv))) (\<lambda>t.
       case t of None \<Rightarrow> c_ret () | Some es \<Rightarrow> map_ecalls env (fst kv) (snd kv) 0 es)"

section \<open>The summary\<close>

definition summary_events :: "store \<Rightarrow> (summ, unit) comp" where
  "summary_events st =
     c_each (\<lambda>t. c_each (write_event st) (th_events (threads st ! t))) (finished_thread_events st)"

definition summary_symbols :: "elf_env \<Rightarrow> (u64 \<rightharpoonup> string \<times> u64) \<Rightarrow> store \<Rightarrow> (summ, unit) comp" where
  "summary_symbols env dladdr st =
     c_then (c_bind (c_get sm_addresses) (c_each (map_thread_address env dladdr)))
       (c_then (c_each (map_enclave_ocalls env dladdr st) (enclave_map st))
         (c_bind (c_get sm_enclave_files) (c_each (map_enclave_ecalls env))))"

definition create_summary :: "bool \<Rightarrow> elf_env \<Rightarrow> (u64 \<rightharpoonup> string \<times> u64) \<Rightarrow> store \<Rightarrow> (summ, unit) comp" where
  "create_summary benchmark env dladdr st =
     (if benchmark then c_ret ()
      else if \<not> finalized st then c_fail StdException
      else c_then (write_general st)
        (c_then write_event_map
          (c_then (c_each (\<lambda>t. write_thread (threads st ! t)) (finished_thread_events st))
            (c_then (summary_events st)
              (c_then (summary_symbols env dladdr st)
                (sm_elf closeAllFiles))))))"

definition summ_init :: "store \<Rightarrow> database \<Rightarrow> summ" where
  "summ_init st db =
     \<lparr>sm_heap = events st, sm_db = db, sm_fm = [], sm_enclave_files = [], sm_addresses = []\<rparr>"

text \<open>The output of benchmark mode: the AEX counters of the ecalls of thread 0.\<close>

fun bench_find :: "thread list \<Rightarrow> th_ptr \<Rightarrow> th_ptr list \<Rightarrow> fault + th_ptr" where
  "bench_find ts cur [] = (if th_sql_id (ts ! cur) = 0 then Inr cur else Inl OutOfRange)"
| "bench_find ts cur (t # rest) = (if th_sql_id (ts ! cur) = 0 then Inr cur else bench_find ts t rest)"

definition bench_counter :: "ev_body \<Rightarrow> u64 option" where
  "bench_counter b = (case b of EnclaveB eid (EnclaveCall cid arg prev (ECallKind n)) \<Rightarrow> Some n | _ \<Rightarrow> None)"

definition bench_output :: "store \<Rightarrow> fault + u64 list" where
  "bench_output st =
     (case finished_thread_events st of
        [] \<Rightarrow> Inl OutOfRange
      | t # ts \<Rightarrow> (case bench_find (threads st) t (t # ts) of
          Inl f \<Rightarrow> Inl f
        | Inr u \<Rightarrow> Inr (List.map_filter (\<lambda>p. bench_counter (ev_body (events st ! p))) (th_events (threads st ! u)))))"

datatype summary_output = BenchCounters "u64 list" | SummaryFile database | NoSummary

definition write_summary ::
  "bool \<Rightarrow> bool \<Rightarrow> elf_env \<Rightarrow> (u64 \<rightharpoonup> string \<times> u64) \<Rightarrow> store \<Rightarrow> database \<Rightarrow> fault + summary_output" where
  "write_summary benchmark open_ok env dladdr st db =
     (if benchmark then map_sum id BenchCounters (bench_output st)
      else case create_summary benchmark env dladdr st (summ_init st db) of
             (Inr u, s) \<Rightarrow> Inr (if open_ok then SummaryFile (sm_db s) else NoSummary)
           | (Inl StdException, s) \<Rightarrow> Inr NoSummary
           | (Inl f, s) \<Rightarrow> Inl f)"

end
