(* ===== verification/Urts.thy ===== *)
theory Urts
  imports Summary
begin

text \<open>
  The interposed calls of the untrusted runtime, \<^verbatim>\<open>src/logger/src/urts_calls.cpp\<close>: creation and
  destruction of enclaves, ecalls with the substituted ocall table, the ocall bridge, the
  synchronisation ocalls and the counting of asynchronous exits. What the real runtime does is an
  argument: the status it returns, and for a call the computation that runs inside it.
  The clock and processor readings of the \<open>n\<close>-th event are \<open>clk n\<close>.
\<close>

type_synonym clock = "nat \<Rightarrow> (u64 \<times> u64) \<times> u32"

definition make_event :: "u64 \<Rightarrow> clock \<Rightarrow> ev_body \<Rightarrow> (store, ev_ptr) comp" where
  "make_event self clk b s =
     (let n = length (events s) in alloc_event (new_event self (fst (clk n)) (snd (clk n)) b) s)"

text \<open>\<open>event_store->insert_event(event)\<close>: the involved thread is the calling one.\<close>

definition log_event :: "u64 \<Rightarrow> clock \<Rightarrow> ev_body \<Rightarrow> (store, ev_ptr) comp" where
  "log_event self clk b =
     c_bind (make_event self clk b) (\<lambda>p. c_then (insert_event self self p) (c_ret p))"

abbreviation SGX_SUCCESS :: u32 where "SGX_SUCCESS \<equiv> 0"
abbreviation SGX_ERROR_INVALID_PARAMETER :: u32 where "SGX_ERROR_INVALID_PARAMETER \<equiv> 2"

abbreviation em_read_lock :: "(store, unit) comp" where
  "em_read_lock \<equiv> acquire enclave_map_lock (\<lambda>l. enclave_map_lock_update (\<lambda>_. l)) read_lock"

abbreviation em_read_unlock :: "(store, unit) comp" where
  "em_read_unlock \<equiv> release enclave_map_lock (\<lambda>l. enclave_map_lock_update (\<lambda>_. l)) read_unlock"

abbreviation em_write_lock :: "(store, unit) comp" where
  "em_write_lock \<equiv> acquire enclave_map_lock (\<lambda>l. enclave_map_lock_update (\<lambda>_. l)) write_lock"

abbreviation em_write_unlock :: "(store, unit) comp" where
  "em_write_unlock \<equiv> release enclave_map_lock (\<lambda>l. enclave_map_lock_update (\<lambda>_. l)) write_unlock"

abbreviation tm_write_lock :: "(store, unit) comp" where
  "tm_write_lock \<equiv> acquire tcs_map_lock (\<lambda>l. tcs_map_lock_update (\<lambda>_. l)) write_lock"

abbreviation tm_write_unlock :: "(store, unit) comp" where
  "tm_write_unlock \<equiv> release tcs_map_lock (\<lambda>l. tcs_map_lock_update (\<lambda>_. l)) write_unlock"

section \<open>Enclaves\<close>

definition put_enclave :: "u64 \<Rightarrow> en_ptr option \<Rightarrow> (u64 \<times> en_ptr option) list \<Rightarrow> (u64 \<times> en_ptr option) list" where
  "put_enclave eid e m =
     (if eid \<in> fst ` set m then map (\<lambda>kv. if fst kv = eid then (eid, e) else kv) m else m @ [(eid, e)])"

text \<open>\<open>enclave_map[eid]\<close> adds a null pointer for a key that is not there.\<close>

definition enclave_at :: "u64 \<Rightarrow> (store, en_ptr option) comp" where
  "enclave_at eid s =
     (case map_of (enclave_map s) eid of
        Some e \<Rightarrow> (Inr e, s)
      | None \<Rightarrow> (Inr None, s\<lparr>enclave_map := put_enclave eid None (enclave_map s)\<rparr>))"

definition alloc_enclave :: "enclave \<Rightarrow> (store, en_ptr) comp" where
  "alloc_enclave e s = (Inr (length (enclaves s)), s\<lparr>enclaves := enclaves s @ [e]\<rparr>)"

definition upd_enclave :: "en_ptr \<Rightarrow> (enclave \<Rightarrow> enclave) \<Rightarrow> (store, unit) comp" where
  "upd_enclave e f = c_upd (\<lambda>s. s\<lparr>enclaves := (enclaves s)[e := f (enclaves s ! e)]\<rparr>)"

text \<open>
  The real call has returned \<open>ret\<close> and left \<open>eid\<close> in \<open>*enclave_id\<close>; \<open>cencl\<close> is the start address and
  size of the \<open>CEnclave\<close> object the runtime's pool has for it, if any.
\<close>

definition sgx_create_enclave ::
  "u64 \<Rightarrow> clock \<Rightarrow> string \<Rightarrow> u32 \<Rightarrow> u64 \<Rightarrow> (u64 \<times> u64) option \<Rightarrow> (store, u32) comp" where
  "sgx_create_enclave self clk file ret eid cencl =
     (if ret \<noteq> SGX_SUCCESS
      then c_then (log_event self clk (EnclaveB eid (EnclaveCreation file ret 0 0))) (c_ret ret)
      else c_bind (c_some cencl) (\<lambda>(start, sz).
        c_bind (alloc_enclave (new_enclave eid start sz)) (\<lambda>encl.
          c_bind (make_event self clk (EnclaveB eid (EnclaveCreation file ret start (start + sz)))) (\<lambda>ece.
            c_bind (c_get (\<lambda>s. ev_time (events s ! ece))) (\<lambda>t.
              c_then (upd_enclave encl (\<lambda>e. e\<lparr>en_creation_time := t\<rparr>))
                (c_then em_write_lock
                  (c_then (c_upd (\<lambda>s. s\<lparr>enclave_map := put_enclave eid (Some encl) (enclave_map s)\<rparr>))
                    (c_then em_write_unlock
                      (c_then (insert_event self self ece) (c_ret ret))))))))))"

definition sgx_destroy_enclave :: "u64 \<Rightarrow> clock \<Rightarrow> u64 \<Rightarrow> u32 \<Rightarrow> (store, u32) comp" where
  "sgx_destroy_enclave self clk eid ret =
     c_bind (make_event self clk (EnclaveB eid (EnclaveDestruction ret))) (\<lambda>ede.
       c_bind (c_get (\<lambda>s. ev_time (events s ! ede))) (\<lambda>t.
         c_then em_read_lock
           (c_bind (enclave_at eid) (\<lambda>e. c_bind (c_some e) (\<lambda>encl.
             c_then (upd_enclave encl (\<lambda>e. e\<lparr>en_destruction_time := t\<rparr>))
               (c_then em_read_unlock
                 (c_then (insert_event self self ede) (c_ret ret))))))))"

section \<open>Calls\<close>

definition get_current_call :: "th_ptr \<Rightarrow> (store, ev_ptr option) comp" where
  "get_current_call t = c_get (\<lambda>s. th_current_call (threads s ! t))"

definition set_current_call :: "th_ptr \<Rightarrow> ev_ptr option \<Rightarrow> (store, unit) comp" where
  "set_current_call t c = upd_thread t (\<lambda>x. x\<lparr>th_current_call := c\<rparr>)"

text \<open>\<open>t->current_call = t->current_call->get_previous_call()\<close>\<close>

definition pop_call :: "th_ptr \<Rightarrow> (store, unit) comp" where
  "pop_call t =
     c_bind (get_current_call t) (\<lambda>c. c_bind (c_some c) (\<lambda>p.
       c_bind (c_get (\<lambda>s. get_previous_call (events s ! p))) (set_current_call t)))"

text \<open>The dynamic casts of a call event.\<close>

definition as_ecall :: "ev_body \<Rightarrow> u64 option" where
  "as_ecall b = (case b of EnclaveB eid (EnclaveCall cid arg prev (ECallKind n)) \<Rightarrow> Some n | _ \<Rightarrow> None)"

definition as_ocall :: "ev_body \<Rightarrow> bool" where
  "as_ocall b \<longleftrightarrow> (case b of EnclaveB eid (EnclaveCall cid arg prev OCallKind) \<Rightarrow> True | _ \<Rightarrow> False)"

definition orig_bridge :: "u64 \<Rightarrow> u32 \<Rightarrow> (store, u64) comp" where
  "orig_bridge eid ocall_id =
     c_bind (enclave_at eid) (\<lambda>e. c_bind (c_some e) (\<lambda>encl.
       c_bind (c_get (\<lambda>s. en_orig_table (enclaves s ! encl))) (\<lambda>t. c_bind (c_some t) (\<lambda>tbl.
         if unat ocall_id < length (ot_table tbl) then c_ret (ot_table tbl ! unat ocall_id)
         else c_fail OutOfRange))))"

text \<open>\<open>bridge\<close> is what the application's ocall at an address does.\<close>

definition ocall_bridge ::
  "u64 \<Rightarrow> clock \<Rightarrow> (u64 \<Rightarrow> u64 \<Rightarrow> (store, u32) comp) \<Rightarrow> u64 \<Rightarrow> u64 \<Rightarrow> u32 \<Rightarrow> (store, u32) comp" where
  "ocall_bridge self clk bridge arg eid ocall_id =
     c_then em_read_lock (c_bind (orig_bridge eid ocall_id) (\<lambda>addr. c_then em_read_unlock
       (c_bind (get_thread self) (\<lambda>ot. c_bind (c_some ot) (\<lambda>t.
         c_bind (get_current_call t) (\<lambda>prev.
           c_bind (log_event self clk (EnclaveB eid (EnclaveCall ocall_id arg prev OCallKind))) (\<lambda>ocall.
             c_then (set_current_call t (Some ocall))
               (c_bind (bridge addr arg) (\<lambda>ret.
                 c_bind (log_event self clk (EnclaveB eid (OCallReturn ocall ret))) (\<lambda>_.
                   c_then (pop_call t) (c_ret ret)))))))))))"

text \<open>The substituted table: entry \<open>i\<close> is the address of the code generated for ocall \<open>i\<close>.\<close>

definition subst_table :: "(nat \<Rightarrow> u64) \<Rightarrow> ocall_table \<Rightarrow> ocall_table" where
  "subst_table mm tbl = tbl\<lparr>ot_table := map mm [0..<unat (ot_count tbl)]\<rparr>"

definition install_table :: "(nat \<Rightarrow> u64) \<Rightarrow> ocall_table \<Rightarrow> enclave \<Rightarrow> enclave" where
  "install_table mm tbl e =
     (if en_orig_table e = None \<and> en_subst_table e = None
      then e\<lparr>en_orig_table := Some tbl, en_subst_table := Some (subst_table mm tbl)\<rparr> else e)"

definition ecall_aex_count :: "th_ptr \<Rightarrow> (store, u64) comp" where
  "ecall_aex_count t =
     c_bind (get_current_call t) (\<lambda>c. c_bind (c_some c) (\<lambda>p.
       c_bind (c_get (\<lambda>s. as_ecall (ev_body (events s ! p)))) c_some))"

text \<open>\<open>real\<close> is the real ecall, given the table it is passed.\<close>

definition sgx_ecall ::
  "u64 \<Rightarrow> clock \<Rightarrow> (nat \<Rightarrow> u64) \<Rightarrow> (ocall_table option \<Rightarrow> (store, u32) comp) \<Rightarrow>
   u64 \<Rightarrow> u32 \<Rightarrow> ocall_table \<Rightarrow> u64 \<Rightarrow> (store, u32) comp" where
  "sgx_ecall self clk mm real eid ecall_id tbl arg =
     c_then em_read_lock (c_bind (enclave_at eid) (\<lambda>e. c_then em_read_unlock
       (c_bind (c_some e) (\<lambda>encl.
         c_then (upd_enclave encl (install_table mm tbl))
           (c_bind (c_get (\<lambda>s. en_subst_table (enclaves s ! encl))) (\<lambda>table.
             c_bind (get_thread self) (\<lambda>ot. c_bind (c_some ot) (\<lambda>t.
               c_then (upd_thread t (\<lambda>x. x\<lparr>th_last_enclave := Some encl\<rparr>))
                 (c_bind (get_current_call t) (\<lambda>prev.
                   c_bind (log_event self clk (EnclaveB eid (EnclaveCall ecall_id arg prev (ECallKind 0)))) (\<lambda>ecall.
                     c_then (set_current_call t (Some ecall))
                       (c_bind (real table) (\<lambda>ret.
                         c_bind (ecall_aex_count t) (\<lambda>n.
                           c_bind (log_event self clk (EnclaveB eid (ECallReturn ecall ret n))) (\<lambda>_.
                             c_then (pop_call t) (c_ret ret))))))))))))))))"

section \<open>Asynchronous exits\<close>

definition bump_aex :: "ev_body \<Rightarrow> ev_body" where
  "bump_aex b =
     (case b of
        EnclaveB eid (EnclaveCall cid arg prev (ECallKind n)) \<Rightarrow> EnclaveB eid (EnclaveCall cid arg prev (ECallKind (n + 1)))
      | _ \<Rightarrow> b)"

definition really_new_aep :: "u64 \<Rightarrow> clock \<Rightarrow> bool \<Rightarrow> (store, unit) comp" where
  "really_new_aep self clk tracing =
     c_bind (get_thread self) (\<lambda>ot.
       case ot of
         None \<Rightarrow> c_ret ()
       | Some t \<Rightarrow>
           c_bind (get_current_call t) (\<lambda>c.
             case c of
               None \<Rightarrow> c_ret ()
             | Some p \<Rightarrow>
                 c_bind (c_get (\<lambda>s. ev_body (events s ! p))) (\<lambda>b.
                   if as_ecall b = None then c_ret ()
                   else
                     c_then (upd_event p (\<lambda>e. e\<lparr>ev_body := bump_aex (ev_body e)\<rparr>))
                       (if tracing then c_then (log_event self clk (EnclaveB (ev_eid b) (AEX p))) (c_ret ())
                        else c_ret ()))))"

section \<open>Synchronisation ocalls\<close>

text \<open>The current call of the calling thread, which has to be an ocall: the constructor of the wait
  event reads through the pointer, for a set event its serialisation does.\<close>

definition current_ocall :: "u64 \<Rightarrow> (store, ev_ptr) comp" where
  "current_ocall self =
     c_bind (get_thread self) (\<lambda>ot. c_bind (c_some ot) (\<lambda>t.
       c_bind (get_current_call t) (\<lambda>c. c_bind (c_some c) (\<lambda>p.
         c_bind (c_get (\<lambda>s. ev_body (events s ! p))) (\<lambda>b.
           if as_ocall b then c_ret p else c_fail NullDeref)))))"

definition tcs_insert :: "u64 \<Rightarrow> ev_ptr \<Rightarrow> store \<Rightarrow> store" where
  "tcs_insert k p s = (if tcs_map s k = None then s\<lparr>tcs_map := (tcs_map s)(k \<mapsto> p)\<rparr> else s)"

definition sgx_thread_wait :: "u64 \<Rightarrow> clock \<Rightarrow> (store, u32) comp \<Rightarrow> u64 \<Rightarrow> (store, u32) comp" where
  "sgx_thread_wait self clk real tcs =
     (if tcs = 0 then c_ret SGX_ERROR_INVALID_PARAMETER
      else c_bind (current_ocall self) (\<lambda>ocall.
        c_bind (c_get (\<lambda>s. ev_eid (ev_body (events s ! ocall)))) (\<lambda>eid.
          c_bind (make_event self clk (EnclaveB eid (SyncWait ocall))) (\<lambda>w.
            c_then tm_write_lock
              (c_then (c_upd (tcs_insert tcs w))
                (c_then tm_write_unlock
                  (c_then (insert_event self self w) real)))))))"

definition sgx_thread_set :: "u64 \<Rightarrow> clock \<Rightarrow> (u64 \<Rightarrow> (store, u32) comp) \<Rightarrow> u64 \<Rightarrow> (store, u32) comp" where
  "sgx_thread_set self clk real waiter =
     (if waiter = 0 then c_ret SGX_ERROR_INVALID_PARAMETER
      else c_bind (get_thread self) (\<lambda>_.
        c_then tm_write_lock
          (c_bind (c_get (\<lambda>s. tcs_map s waiter)) (\<lambda>w.
            c_then (c_upd (\<lambda>s. s\<lparr>tcs_map := (tcs_map s)(waiter := None)\<rparr>))
              (c_then tm_write_unlock
                (c_then
                  (case w of
                     None \<Rightarrow> c_ret ()
                   | Some p \<Rightarrow>
                       c_bind (current_ocall self) (\<lambda>ocall.
                         c_bind (c_get (\<lambda>s. ev_eid (ev_body (events s ! p)))) (\<lambda>eid.
                           c_then (log_event self clk (EnclaveB eid (SyncSet ocall p))) (c_ret ()))))
                  (real waiter)))))))"

fun set_each :: "u64 \<Rightarrow> clock \<Rightarrow> (u64 \<Rightarrow> (store, u32) comp) \<Rightarrow> nat \<Rightarrow> u64 list \<Rightarrow> (store, u32) comp" where
  "set_each self clk real 0 ws = c_ret SGX_SUCCESS"
| "set_each self clk real (Suc n) [] = c_fail OutOfRange"
| "set_each self clk real (Suc n) (w # ws) =
     c_bind (sgx_thread_set self clk real w) (\<lambda>ret.
       if ret \<noteq> SGX_SUCCESS then c_ret ret else set_each self clk real n ws)"

text \<open>\<open>waiters\<close> is the array, \<open>None\<close> for a null pointer; its first element is read whatever the number \<open>n\<close> of waiters is.\<close>

definition sgx_thread_set_multiple ::
  "u64 \<Rightarrow> clock \<Rightarrow> (u64 \<Rightarrow> (store, u32) comp) \<Rightarrow> u64 list option \<Rightarrow> nat \<Rightarrow> (store, u32) comp" where
  "sgx_thread_set_multiple self clk real waiters n =
     (case waiters of
        None \<Rightarrow> c_ret SGX_ERROR_INVALID_PARAMETER
      | Some [] \<Rightarrow> c_fail OutOfRange
      | Some (w # ws) \<Rightarrow>
          if w = 0 then c_ret SGX_ERROR_INVALID_PARAMETER else set_each self clk real n (w # ws))"

definition sgx_thread_setwait ::
  "u64 \<Rightarrow> clock \<Rightarrow> (u64 \<Rightarrow> (store, u32) comp) \<Rightarrow> (u64 \<Rightarrow> (store, u32) comp) \<Rightarrow> u64 \<Rightarrow> u64 \<Rightarrow> (store, u32) comp" where
  "sgx_thread_setwait self clk real_set real_wait waiter tcs =
     c_bind (sgx_thread_set self clk real_set waiter) (\<lambda>ret.
       if ret \<noteq> SGX_SUCCESS then c_ret ret else sgx_thread_wait self clk (real_wait tcs) tcs)"

end
