(* ===== verification/UrtsCode.thy ===== *)
theory UrtsCode
  imports Urts
begin

text \<open>
  The machine code \<^verbatim>\<open>src/logger/src/urts_calls.cpp\<close> writes: the bridge generated for each ocall, and the
  jump patched over the runtime's exit point; and the remaining helpers of the file. Of the
  processor only the instructions of the bridge are modelled.
\<close>

section \<open>The generated ocall bridge\<close>

definition ocall_bridge_caller_code :: "u8 list" where
  "ocall_bridge_caller_code =
     [0x55,
      0x48, 0x89, 0xe5,
      0x48, 0x83, 0xec, 0x10,
      0x48, 0x89, 0x7d, 0xf8,
      0x48, 0xb8, 0x00, 0x00, 0x00, 0x00, 0x00, 0x00, 0x00, 0x00,
      0x48, 0x8b, 0x4d, 0xf8,
      0xba, 0x00, 0x00, 0x00, 0x00,
      0x48, 0xbe, 0x00, 0x00, 0x00, 0x00, 0x00, 0x00, 0x00, 0x00,
      0x48, 0x89, 0xcf,
      0xff, 0xd0,
      0xc9,
      0xc3]"

fun set_bytes :: "nat \<Rightarrow> u8 list \<Rightarrow> u8 list \<Rightarrow> u8 list" where
  "set_bytes off [] code = code"
| "set_bytes off (b # bs) code = set_bytes (Suc off) bs (code[off := b])"

definition new_bridge :: "u64 \<Rightarrow> u32 \<Rightarrow> u64 \<Rightarrow> u8 list" where
  "new_bridge bridge i eid =
     set_bytes 0x21 (le_bytes 8 eid)
       (set_bytes 0x1b (le_bytes 4 (ucast i))
         (set_bytes 0x0e (le_bytes 8 bridge) ocall_bridge_caller_code))"

text \<open>The sizes of the copied table: what is allocated, and where its last entry ends.\<close>

definition table_data_size :: "u32 \<Rightarrow> nat" where
  "table_data_size n = 4 + unat n * 8"

definition table_end :: "u32 \<Rightarrow> nat" where
  "table_end n = 8 + unat n * 8"

section \<open>The instructions of the bridge\<close>

datatype instr =
    PushRbp | MovRspRbp | SubRsp u8 | StoreRdi | MovabsRax u64 | LoadRcx | MovEdx u64 | MovabsRsi u64
  | MovRcxRdi | CallRax | Leave | Ret

definition decode :: "u8 list \<Rightarrow> (instr \<times> u8 list) option" where
  "decode bs =
     (if take 1 bs = [0x55] then Some (PushRbp, drop 1 bs)
      else if take 3 bs = [0x48, 0x89, 0xe5] then Some (MovRspRbp, drop 3 bs)
      else if take 3 bs = [0x48, 0x83, 0xec] \<and> 3 < length bs then Some (SubRsp (bs ! 3), drop 4 bs)
      else if take 4 bs = [0x48, 0x89, 0x7d, 0xf8] then Some (StoreRdi, drop 4 bs)
      else if take 2 bs = [0x48, 0xb8] \<and> 10 \<le> length bs then Some (MovabsRax (le_word (take 8 (drop 2 bs))), drop 10 bs)
      else if take 4 bs = [0x48, 0x8b, 0x4d, 0xf8] then Some (LoadRcx, drop 4 bs)
      else if take 1 bs = [0xba] \<and> 5 \<le> length bs then Some (MovEdx (le_word (take 4 (drop 1 bs))), drop 5 bs)
      else if take 2 bs = [0x48, 0xbe] \<and> 10 \<le> length bs then Some (MovabsRsi (le_word (take 8 (drop 2 bs))), drop 10 bs)
      else if take 3 bs = [0x48, 0x89, 0xcf] then Some (MovRcxRdi, drop 3 bs)
      else if take 2 bs = [0xff, 0xd0] then Some (CallRax, drop 2 bs)
      else if take 1 bs = [0xc9] then Some (Leave, drop 1 bs)
      else if take 1 bs = [0xc3] then Some (Ret, drop 1 bs)
      else None)"

fun decode_n :: "nat \<Rightarrow> u8 list \<Rightarrow> instr list option" where
  "decode_n 0 bs = (if bs = [] then Some [] else None)"
| "decode_n (Suc n) bs = (case decode bs of None \<Rightarrow> None | Some (i, rest) \<Rightarrow> map_option (Cons i) (decode_n n rest))"

record cpu =
  rax :: u64
  rcx :: u64
  rdx :: u64
  rdi :: u64
  rsi :: u64
  rsp :: u64
  rbp :: u64
  mem :: "u64 \<Rightarrow> u64"

text \<open>One instruction; \<open>callee\<close> is what the called function does, from the state in which it is entered to the
  state after its return. A function is entered at the address in \<open>rax\<close>. \<open>Ret\<close> pops the return address.\<close>

fun exec :: "(u64 \<Rightarrow> cpu \<Rightarrow> cpu) \<Rightarrow> instr \<Rightarrow> cpu \<Rightarrow> cpu" where
  "exec callee PushRbp c = c\<lparr>rsp := rsp c - 8, mem := (mem c)(rsp c - 8 := rbp c)\<rparr>"
| "exec callee MovRspRbp c = c\<lparr>rbp := rsp c\<rparr>"
| "exec callee (SubRsp n) c = c\<lparr>rsp := rsp c - scast n\<rparr>"
| "exec callee StoreRdi c = c\<lparr>mem := (mem c)(rbp c - 8 := rdi c)\<rparr>"
| "exec callee (MovabsRax w) c = c\<lparr>rax := w\<rparr>"
| "exec callee LoadRcx c = c\<lparr>rcx := mem c (rbp c - 8)\<rparr>"
| "exec callee (MovEdx w) c = c\<lparr>rdx := w\<rparr>"
| "exec callee (MovabsRsi w) c = c\<lparr>rsi := w\<rparr>"
| "exec callee MovRcxRdi c = c\<lparr>rdi := rcx c\<rparr>"
| "exec callee CallRax c = callee (rax c) c"
| "exec callee Leave c = c\<lparr>rsp := rbp c + 8, rbp := mem c (rbp c)\<rparr>"
| "exec callee Ret c = c\<lparr>rsp := rsp c + 8\<rparr>"

definition exec_all :: "(u64 \<Rightarrow> cpu \<Rightarrow> cpu) \<Rightarrow> instr list \<Rightarrow> cpu \<Rightarrow> cpu" where
  "exec_all callee is c = fold (exec callee) is c"

definition bridge_instrs :: "u64 \<Rightarrow> u32 \<Rightarrow> u64 \<Rightarrow> instr list" where
  "bridge_instrs bridge i eid =
     [PushRbp, MovRspRbp, SubRsp 0x10, StoreRdi, MovabsRax bridge, LoadRcx, MovEdx (ucast i), MovabsRsi eid,
      MovRcxRdi, CallRax, Leave, Ret]"

lemma set_bytes_append:
  "length pre = off \<Longrightarrow> length old = length bs \<Longrightarrow> set_bytes off bs (pre @ old @ post) = pre @ bs @ post"
proof (induction off bs "pre @ old @ post" arbitrary: pre old rule: set_bytes.induct)
  case (2 off b bs)
  then obtain x old' where o: "old = x # old'" by (cases old) auto
  have "(pre @ old @ post)[off := b] = (pre @ [b]) @ old' @ post" using 2(2) o by (simp add: list_update_append)
  with 2(1) [of "pre @ [b]" old'] 2(2,3) o show ?case by simp
qed simp

lemma new_bridge_eq:
  "new_bridge bridge i eid =
     [0x55, 0x48, 0x89, 0xe5, 0x48, 0x83, 0xec, 0x10, 0x48, 0x89, 0x7d, 0xf8, 0x48, 0xb8] @ le_bytes 8 bridge @
     [0x48, 0x8b, 0x4d, 0xf8, 0xba] @ le_bytes 4 (ucast i) @ [0x48, 0xbe] @ le_bytes 8 eid @
     [0x48, 0x89, 0xcf, 0xff, 0xd0, 0xc9, 0xc3]"
proof -
  let ?a = "[0x55, 0x48, 0x89, 0xe5, 0x48, 0x83, 0xec, 0x10, 0x48, 0x89, 0x7d, 0xf8, 0x48, 0xb8] :: u8 list"
  let ?b = "[0x48, 0x8b, 0x4d, 0xf8, 0xba] :: u8 list" let ?c = "[0x48, 0xbe] :: u8 list"
  let ?d = "[0x48, 0x89, 0xcf, 0xff, 0xd0, 0xc9, 0xc3] :: u8 list"
  let ?z = "\<lambda>n. replicate n (0 :: u8)"
  have code: "ocall_bridge_caller_code = ?a @ ?z 8 @ ?b @ ?z 4 @ ?c @ ?z 8 @ ?d"
    by (simp add: ocall_bridge_caller_code_def eval_nat_numeral)
  have 1: "set_bytes 0x0e (le_bytes 8 bridge) (?a @ ?z 8 @ ?b @ ?z 4 @ ?c @ ?z 8 @ ?d) =
      (?a @ le_bytes 8 bridge @ ?b) @ ?z 4 @ ?c @ ?z 8 @ ?d"
    by (subst set_bytes_append) simp_all
  have 2: "set_bytes 0x1b (le_bytes 4 (ucast i)) ((?a @ le_bytes 8 bridge @ ?b) @ ?z 4 @ ?c @ ?z 8 @ ?d) =
      (?a @ le_bytes 8 bridge @ ?b @ le_bytes 4 (ucast i) @ ?c) @ ?z 8 @ ?d"
    by (subst set_bytes_append) simp_all
  have 3: "set_bytes 0x21 (le_bytes 8 eid) ((?a @ le_bytes 8 bridge @ ?b @ le_bytes 4 (ucast i) @ ?c) @ ?z 8 @ ?d) =
      (?a @ le_bytes 8 bridge @ ?b @ le_bytes 4 (ucast i) @ ?c) @ le_bytes 8 eid @ ?d"
    by (subst set_bytes_append) simp_all
  show ?thesis unfolding new_bridge_def code 1 2 3 by simp
qed

lemma le_word_u32: "le_word (le_bytes 4 (ucast (i :: u32))) = ucast i"
  by (simp add: le_word_bytes) (rule bit_word_eqI, auto simp: bit_simps dest: bit_imp_le_length)

lemma decode_eqs:
  "decode (0x55 # r) = Some (PushRbp, r)" "decode (0x48 # 0x89 # 0xe5 # r) = Some (MovRspRbp, r)"
  "decode (0x48 # 0x83 # 0xec # n # r) = Some (SubRsp n, r)" "decode (0x48 # 0x89 # 0x7d # 0xf8 # r) = Some (StoreRdi, r)"
  "decode (0x48 # 0xb8 # le_bytes 8 w @ r) = Some (MovabsRax w, r)" "decode (0x48 # 0x8b # 0x4d # 0xf8 # r) = Some (LoadRcx, r)"
  "decode (0xba # le_bytes 4 (ucast (i :: u32)) @ r) = Some (MovEdx (ucast i), r)"
  "decode (0x48 # 0xbe # le_bytes 8 w @ r) = Some (MovabsRsi w, r)" "decode (0x48 # 0x89 # 0xcf # r) = Some (MovRcxRdi, r)"
  "decode (0xff # 0xd0 # r) = Some (CallRax, r)" "decode (0xc9 # r) = Some (Leave, r)" "decode (0xc3 # r) = Some (Ret, r)"
  by (simp_all add: decode_def le_word_u32)

lemma decode_bridge: "decode_n 12 (new_bridge bridge i eid) = Some (bridge_instrs bridge i eid)"
proof -
  have "(12 :: nat) = Suc (Suc (Suc (Suc (Suc (Suc (Suc (Suc (Suc (Suc (Suc (Suc 0)))))))))))" by simp
  then show ?thesis
    unfolding new_bridge_eq by (simp only: decode_n.simps append.simps decode_eqs option.case prod.case)
      (simp add: bridge_instrs_def)
qed

lemma sub_word_neq: "(x :: u64) - 16 \<noteq> x - 8"
  by simp

text \<open>C12: the code generated for ocall \<open>i\<close> of enclave \<open>eid\<close> decodes to the instructions intended, and running it
  with an argument calls \<open>__ocall_bridge\<close> with that argument, the enclave and the ocall number, then
  returns to its caller with stack and frame pointer restored and the result of the call.\<close>

theorem bridge_calls_with_ids:
  assumes "\<And>a c. rsp (callee a c) = rsp c \<and> rbp (callee a c) = rbp c \<and> mem (callee a c) (rbp c) = mem c (rbp c)"
  shows "\<exists>is cc. decode_n 12 (new_bridge bridge i eid) = Some is \<and>
    rdi cc = rdi c \<and> rsi cc = eid \<and> rdx cc = ucast i \<and>
    exec_all callee is c = (callee bridge cc)\<lparr>rbp := rbp c, rsp := rsp c + 8\<rparr>"
proof -
  let ?m = "(mem c)(rsp c - 8 := rbp c, rsp c - 16 := rdi c)"
  let ?cc = "c\<lparr>rbp := rsp c - 8, rsp := rsp c - 24, mem := ?m, rax := bridge, rcx := rdi c, rdx := ucast i, rsi := eid\<rparr>"
  have "exec_all callee (bridge_instrs bridge i eid) c = (callee bridge ?cc)\<lparr>rbp := rbp c, rsp := rsp c + 8\<rparr>"
    using assms [of bridge ?cc]
    by (simp add: exec_all_def bridge_instrs_def diff_diff_eq sub_word_neq)
  then show ?thesis
    using decode_bridge by (intro exI [of _ "bridge_instrs bridge i eid"] exI [of _ ?cc]) simp
qed

theorem bridge_calls_with_ids_witness:
  "\<exists>is cc. decode_n 12 (new_bridge 0x7f0011223344 5 2) = Some is \<and> rdi cc = 77 \<and> rsi cc = 2 \<and> rdx cc = 5 \<and>
     exec_all (\<lambda>_ c. c\<lparr>rax := 0\<rparr>) is
       \<lparr>rax = 1, rcx = 2, rdx = 3, rdi = 77, rsi = 4, rsp = 4096, rbp = 8192, mem = (\<lambda>_. 0)\<rparr> =
     cc\<lparr>rax := 0, rbp := 8192, rsp := 4104\<rparr>"
  using bridge_calls_with_ids [of "\<lambda>_ c. c\<lparr>rax := 0\<rparr>" "0x7f0011223344" 5 2
      "\<lparr>rax = 1, rcx = 2, rdx = 3, rdi = 77, rsi = 4, rsp = 4096, rbp = 8192, mem = (\<lambda>_. 0)\<rparr>"]
  by simp

section \<open>Patching the exit point\<close>

fun is_enclu :: "u8 list \<Rightarrow> bool" where
  "is_enclu (a # b # c # bs) \<longleftrightarrow> a = 0x0f \<and> b = 0x01 \<and> c = 0xd7"
| "is_enclu _ \<longleftrightarrow> False"

text \<open>The search runs on until it finds the instruction or leaves the image.\<close>

fun find_enclu :: "u8 list \<Rightarrow> nat option" where
  "find_enclu [] = None"
| "find_enclu (b # bs) = (if is_enclu (b # bs) then Some 0 else map_option Suc (find_enclu bs))"

definition second_enclu :: "u8 list \<Rightarrow> nat option" where
  "second_enclu img =
     (case find_enclu img of
        None \<Rightarrow> None
      | Some f \<Rightarrow> map_option (\<lambda>k. f + 3 + k) (find_enclu (drop (f + 3) img)))"

definition jmp_target :: "u64 \<Rightarrow> u64 \<Rightarrow> u32" where
  "jmp_target enclu aep =
     (if aep < enclu then ucast (NOT (enclu - aep) + 1) + 0x09 else ucast (aep - enclu) - 0x09)"

definition patch_bytes :: "u32 \<Rightarrow> u8 list" where
  "patch_bytes jmptarget =
     [0x90, 0x90, 0x90, 0x90, 0xe9,
      ucast (jmptarget AND 0x000000ff), ucast (drop_bit 8 (jmptarget AND 0x0000ff00)),
      ucast (drop_bit 16 (jmptarget AND 0x00ff0000)), ucast (drop_bit 24 (jmptarget AND 0xff000000)),
      0x0f, 0x0b]"

text \<open>The image is at address \<open>fbase\<close>; only the page of the instruction is made writable.\<close>

definition patch_aep :: "u64 \<Rightarrow> u64 \<Rightarrow> u8 list \<Rightarrow> fault + u8 list" where
  "patch_aep fbase aep img =
     (case second_enclu img of
        None \<Rightarrow> Inl OutOfRange
      | Some k \<Rightarrow>
          (let enclu = fbase + of_nat k
           in if length img < k + 11 \<or> 0x1000 < unat (enclu AND 0xfff) + 11 then Inl OutOfRange
              else Inr (set_bytes k (patch_bytes (jmp_target enclu aep)) img)))"

text \<open>Where the patched jump, five bytes from offset 4, goes: its operand is relative to its end.\<close>

definition jump_lands :: "u64 \<Rightarrow> u8 list \<Rightarrow> nat \<Rightarrow> u64" where
  "jump_lands fbase img k =
     fbase + of_nat k + 9 + scast (ucast (le_word (take 4 (drop (k + 5) img))) :: u32)"

lemma ucast_add_u32: "(ucast (x + y :: u64) :: u32) = ucast x + ucast y"
  by (rule word_uint_eqI) (simp add: unsigned_ucast_eq uint_word_ariths take_bit_eq_mod mod_simps mod_mod_cancel)

lemma ucast_minus_u32: "(ucast (x - y :: u64) :: u32) = ucast x - ucast y"
  by (rule word_uint_eqI) (simp add: unsigned_ucast_eq uint_word_ariths take_bit_eq_mod mod_simps mod_mod_cancel)

lemma scast_ucast_u32:
  assumes "- (2 ^ 31) \<le> sint (x :: u64)" "sint x < 2 ^ 31"
  shows "scast (ucast x :: u32) = x"
proof -
  have "sint (ucast x :: u32) = signed_take_bit 31 (uint x)"
    by (simp add: sint_uint unsigned_ucast_eq signed_take_bit_take_bit)
  also have "\<dots> = signed_take_bit 31 (sint x)"
    by (simp add: sint_uint signed_take_bit_signed_take_bit)
  also have "\<dots> = sint x" using assms by (simp add: signed_take_bit_int_eq_self)
  finally show ?thesis by (simp add: scast_eq)
qed

lemma jmp_target_eq:
  "jmp_target enclu aep = (if aep < enclu then ucast (aep - enclu + 9) else ucast (aep - enclu - 9))"
proof -
  have "NOT (enclu - aep) + 1 = aep - enclu" by (simp add: not_eq_complement)
  then show ?thesis by (simp add: jmp_target_def ucast_add_u32 ucast_minus_u32)
qed

lemma masked_byte:
  "(ucast (drop_bit n ((w :: u32) AND push_bit n (mask 8))) :: u8) = ucast (drop_bit n w)"
  by (rule bit_word_eqI) (auto simp: bit_simps dest: bit_imp_le_length)

lemma byte_masks:
  "(0x000000ff :: u32) = push_bit 0 (mask 8)" "(0x0000ff00 :: u32) = push_bit 8 (mask 8)"
  "(0x00ff0000 :: u32) = push_bit 16 (mask 8)" "(0xff000000 :: u32) = push_bit 24 (mask 8)"
  by (simp_all add: mask_numeral push_bit_eq_mult)

lemma ucast_drop_u32: "(ucast (drop_bit n (ucast (w :: u32) :: u64)) :: u8) = ucast (drop_bit n w)"
  by (rule bit_word_eqI) (auto simp: bit_simps dest: bit_imp_le_length)

lemma ucast_up_down [simp]: "(ucast (ucast (w :: u32) :: u64) :: u8) = ucast w" "(ucast (ucast (w :: u32) :: u64) :: u32) = w"
  by (rule bit_word_eqI, auto simp: bit_simps dest: bit_imp_le_length)+

lemma masked_bytes:
  "(ucast ((w :: u32) AND 0x000000ff) :: u8) = ucast w" "(ucast (drop_bit 8 (w AND 0x0000ff00)) :: u8) = ucast (drop_bit 8 w)"
  "(ucast (drop_bit 16 (w AND 0x00ff0000)) :: u8) = ucast (drop_bit 16 w)"
  "(ucast (drop_bit 24 (w AND 0xff000000)) :: u8) = ucast (drop_bit 24 w)"
  unfolding byte_masks using masked_byte [of 0 w] masked_byte [of 8 w] masked_byte [of 16 w] masked_byte [of 24 w]
  by simp_all

lemma le_bytes_4: "le_bytes 4 w = [ucast w, ucast (drop_bit 8 w), ucast (drop_bit 16 w), ucast (drop_bit 24 w)]"
proof -
  have "(4 :: nat) = Suc (Suc (Suc (Suc 0)))" by simp
  then show ?thesis by (simp only: le_bytes.simps drop_bit_drop_bit) simp
qed

lemma patch_bytes_eq: "patch_bytes w = [0x90, 0x90, 0x90, 0x90, 0xe9] @ le_bytes 4 (ucast w) @ [0x0f, 0x0b]"
  by (simp only: patch_bytes_def le_bytes_4 masked_bytes ucast_drop_u32) simp

text \<open>C37: the patched image differs from the original only in the eleven bytes at the second \<open>enclu\<close>, and, when the
  distance fits a 32-bit displacement, the jump written there goes to the new exit point when that lies
  behind the instruction, and 18 bytes past it when it lies before the instruction.\<close>

theorem patch_aep_lands:
  assumes "patch_aep fbase aep img = Inr img'" and "second_enclu img = Some k" and "enclu = fbase + of_nat k"
    and "- (2 ^ 31) \<le> sint (aep - enclu - 9)" and "sint (aep - enclu - 9) < 2 ^ 31"
    and "- (2 ^ 31) \<le> sint (aep - enclu + 9)" and "sint (aep - enclu + 9) < 2 ^ 31"
  shows "length img' = length img \<and> take k img' = take k img \<and> drop (k + 11) img' = drop (k + 11) img \<and>
    img' ! (k + 4) = 0xe9 \<and> jump_lands fbase img' k = (if aep < enclu then aep + 18 else aep)"
proof -
  let ?w = "jmp_target enclu aep"
  have k: "k + 11 \<le> length img" and img': "img' = set_bytes k (patch_bytes ?w) img"
    using assms(1-3) by (auto simp: patch_aep_def Let_def split: if_splits)
  have split: "img = take k img @ take 11 (drop k img) @ drop (k + 11) img"
    by (metis append_take_drop_id drop_drop add.commute)
  have len: "length (patch_bytes ?w) = 11" by (simp add: patch_bytes_def)
  have eq: "img' = take k img @ patch_bytes ?w @ drop (k + 11) img"
    unfolding img' by (subst split, rule set_bytes_append) (use k len in simp_all)
  have tk: "length (take k img) = k" using k by simp
  have opnd: "take 4 (drop (k + 5) img') = le_bytes 4 (ucast ?w)"
    unfolding eq patch_bytes_eq using tk by simp
  have w: "scast ?w = (if aep < enclu then aep - enclu + 9 else aep - enclu - 9)"
    using assms(4-7) by (simp add: jmp_target_eq scast_ucast_u32)
  have "jump_lands fbase img' k = enclu + 9 + scast ?w"
    unfolding jump_lands_def opnd le_word_u32 by (simp add: assms(3))
  then have "jump_lands fbase img' k = (if aep < enclu then aep + 18 else aep)"
    by (simp add: w)
  moreover have "img' ! (k + 4) = 0xe9" unfolding eq patch_bytes_eq using tk by (simp add: nth_append)
  moreover have "length img' = length img" unfolding eq using k len by simp
  moreover have "take k img' = take k img" "drop (k + 11) img' = drop (k + 11) img" unfolding eq using tk len by simp_all
  ultimately show ?thesis by simp
qed

text \<open>An image whose second \<open>enclu\<close> is at offset 6, with the new exit point before and behind it.\<close>

definition ex_image :: "u8 list" where
  "ex_image = [0x90, 0x0f, 0x01, 0xd7, 0x90, 0x90, 0x0f, 0x01, 0xd7] @ replicate 12 0x90"

lemma ex_image_enclu: "second_enclu ex_image = Some 6"
  by code_simp

theorem patch_aep_lands_witness:
  "\<exists>img. patch_aep 0x10000 0x5000 ex_image = Inr img \<and> jump_lands 0x10000 img 6 = 0x5012"
proof -
  obtain img where img: "patch_aep 0x10000 0x5000 ex_image = Inr img"
    using ex_image_enclu by (auto simp: patch_aep_def ex_image_def)
  have "jump_lands 0x10000 img 6 = 0x5012"
    using patch_aep_lands [OF img ex_image_enclu refl] by simp
  with img show ?thesis by blast
qed

section \<open>Reading enclave memory\<close>

text \<open>\<open>opened\<close> is what \<open>open\<close> returns, \<open>seek_ok\<close> and \<open>len\<close> what seeking and reading come to; the result is the return value,
  what \<open>*read_nr\<close> is set to, if at all, and the descriptor kept for the next call.\<close>

definition read_from_enclave :: "int \<Rightarrow> int \<Rightarrow> bool \<Rightarrow> int \<Rightarrow> bool \<times> nat option \<times> int" where
  "read_from_enclave fd opened seek_ok len =
     (if fd = 0 \<and> opened = -1 then (False, None, 0)
      else if \<not> seek_ok then (True, None, 0)
      else if len < 0 then (True, None, 0)
      else (True, Some (nat len), 0))"

text \<open>Once the memory file is open the function reports success whether or not seeking and reading
  succeed, contrary to its description.\<close>

lemma read_from_enclave_always_true:
  "fst (read_from_enclave fd opened seek_ok len) \<longleftrightarrow> fd \<noteq> 0 \<or> opened \<noteq> -1"
  by (simp add: read_from_enclave_def)

section \<open>Initialisation\<close>

record urts_syms =
  us_pool_instance :: u64
  us_pool_get_event :: u64
  us_pool_get_enclave :: u64
  us_patched :: bool

text \<open>
  The addresses \<open>dlsym\<close> finds (0 for none), the file and load address \<open>dladdr\<close> gives for the runtime, and
  the symbols of that file. The result is the return value and what has been found; \<open>patch_ok\<close> is whether
  the patch of the exit point goes through.
\<close>

definition initialize_urts_calls ::
  "(string \<Rightarrow> u64) \<Rightarrow> bool \<Rightarrow> bool \<Rightarrow> bool \<Rightarrow> string \<Rightarrow> u64 \<Rightarrow> elf_env \<Rightarrow> (file_map, int \<times> urts_syms option) comp" where
  "initialize_urts_calls dlsym hw_mode aex_counting patch_ok bin fbase env =
     (if dlsym ''sgx_create_enclave'' = 0 \<or> dlsym ''sgx_destroy_enclave'' = 0 \<or> dlsym ''sgx_ecall'' = 0 \<or>
         dlsym ''sgx_thread_wait_untrusted_event_ocall'' = 0 \<or> dlsym ''sgx_thread_set_untrusted_event_ocall'' = 0
      then c_ret (-1, None)
      else if hw_mode \<and> aex_counting \<and> \<not> patch_ok then c_fail OutOfRange
      else c_bind (get_address_for_symbol env bin ''_ZN12CEnclavePool8instanceEv'') (\<lambda>i.
        if i = 0 then c_ret (-1, None)
        else c_bind (get_address_for_symbol env bin ''_ZN12CEnclavePool9get_eventEPKv'') (\<lambda>v.
          if v = 0 then c_ret (-1, None)
          else c_bind (get_address_for_symbol env bin ''_ZN12CEnclavePool11get_enclaveEm'') (\<lambda>e.
            if e = 0 then c_ret (-1, None)
            else c_ret (0, Some \<lparr>us_pool_instance = fbase + i, us_pool_get_event = fbase + v,
                   us_pool_get_enclave = fbase + e, us_patched = (hw_mode \<and> aex_counting)\<rparr>)))))"

end
