(* ===== verification/Ini.thy ===== *)
theory Ini
  imports SgxPrelude
begin

text \<open>
  The reader of INI files, \<^verbatim>\<open>src/common/ini.h\<close>, with which the logger reads its configuration. The arrays of sections and properties
  have slots beyond those in use; what memory from \<open>malloc\<close> holds before it is written is an argument, as \<open>ini_find_property\<close>
  reads it. Names and values that are too long for the array in the structure are blocks of their own, kept in \<open>in_heap\<close>; a
  freed block is \<open>None\<close>. A C string is the list of its characters up to the terminating zero. The pointers to the object and to
  the names that are passed are not null, and the counts stay below \<open>2 ^ 31\<close>.
\<close>

section \<open>Data\<close>

text \<open>A name or value: the array inside the structure, and the pointer to the block that replaces it.\<close>

record itext =
  tx_small :: string
  tx_large :: "nat option"

record iprop =
  pr_section :: int
  pr_name :: itext
  pr_value :: itext

record ini =
  in_sections :: "itext list"
  in_section_count :: nat
  in_properties :: "iprop list"
  in_property_count :: nat
  in_heap :: "string option list"

text \<open>What a new array of the given capacity holds.\<close>

record ini_mem =
  mem_section :: "nat \<Rightarrow> nat \<Rightarrow> itext"
  mem_property :: "nat \<Rightarrow> nat \<Rightarrow> iprop"

abbreviation (input) "INITIAL_CAPACITY \<equiv> 256 :: nat"
abbreviation (input) "INI_NOT_FOUND \<equiv> - 1 :: int"
abbreviation (input) "NAME_SIZE \<equiv> 32 :: nat"
abbreviation (input) "VALUE_SIZE \<equiv> 64 :: nat"

section \<open>The C library\<close>

text \<open>A comparison \<open>c <= ' '\<close>: \<open>char\<close> is signed, so the upper half of the characters is negative.\<close>

definition blank :: "char \<Rightarrow> bool" where
  "blank c \<longleftrightarrow> (of_char c :: nat) \<le> 32 \<or> 128 \<le> (of_char c :: nat)"

definition lower :: "char \<Rightarrow> char" where
  "lower c = (if 65 \<le> (of_char c :: nat) \<and> (of_char c :: nat) \<le> 90 then char_of ((of_char c :: nat) + 32) else c)"

abbreviation "NUL \<equiv> CHR 0x00"
abbreviation "NL \<equiv> CHR 0x0A"

definition c_string :: "string \<Rightarrow> string" where
  "c_string data = takeWhile (\<lambda>c. c \<noteq> NUL) data"

text \<open>\<open>strncasecmp\<close> returns zero.\<close>

definition strncasecmp_eq :: "string \<Rightarrow> string \<Rightarrow> nat \<Rightarrow> bool" where
  "strncasecmp_eq a b n \<longleftrightarrow> map lower (take n (a @ [NUL])) = map lower (take n (b @ [NUL]))"

definition ini_malloc :: "string \<Rightarrow> (ini, nat) comp" where
  "ini_malloc s = c_bind (c_get (\<lambda>i. length (in_heap i))) (\<lambda>p. c_then (c_upd (\<lambda>i. i\<lparr>in_heap := in_heap i @ [Some s]\<rparr>)) (c_ret p))"

definition ini_free :: "nat option \<Rightarrow> (ini, unit) comp" where
  "ini_free q = (case q of
     None \<Rightarrow> c_ret ()
   | Some p \<Rightarrow> c_bind (c_get in_heap) (\<lambda>h.
       if p < length h \<and> h ! p \<noteq> None then c_upd (\<lambda>i. i\<lparr>in_heap := h[p := None]\<rparr>) else c_fail UseAfterFree))"

section \<open>Texts\<close>

definition read_text :: "string option list \<Rightarrow> itext \<Rightarrow> fault + string" where
  "read_text h t = (case tx_large t of
     None \<Rightarrow> Inr (tx_small t)
   | Some p \<Rightarrow> if p < length h then (case h ! p of None \<Rightarrow> Inl UseAfterFree | Some s \<Rightarrow> Inr s) else Inl UseAfterFree)"

definition ini_text :: "itext \<Rightarrow> (ini, string) comp" where
  "ini_text t i = (read_text (in_heap i) t, i)"

definition the_length :: "string \<Rightarrow> int \<Rightarrow> nat" where
  "the_length s len = (if len \<le> 0 then length s else nat len)"

text \<open>Storing \<open>len\<close> characters of \<open>s\<close> in a structure whose array has \<open>room\<close> characters.\<close>

definition store_text :: "nat \<Rightarrow> string \<Rightarrow> nat \<Rightarrow> itext \<Rightarrow> (ini, itext) comp" where
  "store_text room s len t =
     (if room \<le> len + 1 then c_bind (ini_malloc (take len s)) (\<lambda>p. c_ret (t\<lparr>tx_large := Some p\<rparr>))
      else c_ret (t\<lparr>tx_small := take len s\<rparr>))"

section \<open>Lookup\<close>

definition valid_section :: "ini \<Rightarrow> int \<Rightarrow> bool" where
  "valid_section i s \<longleftrightarrow> 0 \<le> s \<and> s < int (in_section_count i)"

text \<open>The loop over the properties, from index \<open>k\<close> on, with \<open>p\<close> still to pass.\<close>

fun index_loop :: "iprop list \<Rightarrow> int \<Rightarrow> int \<Rightarrow> int \<Rightarrow> int \<Rightarrow> int" where
  "index_loop [] s k p property = INI_NOT_FOUND"
| "index_loop (x # xs) s k p property =
     (if pr_section x = s then if p = property then k else index_loop xs s (k + 1) (p + 1) property
      else index_loop xs s (k + 1) p property)"

definition ini_internal_property_index :: "ini \<Rightarrow> int \<Rightarrow> int \<Rightarrow> int" where
  "ini_internal_property_index i s property =
     (if valid_section i s then index_loop (take (in_property_count i) (in_properties i)) s 0 0 property else INI_NOT_FOUND)"

definition ini_section_count :: "ini \<Rightarrow> int" where
  "ini_section_count i = int (in_section_count i)"

definition ini_section_name :: "int \<Rightarrow> (ini, string option) comp" where
  "ini_section_name s = c_bind (c_get id) (\<lambda>i.
     if valid_section i s then c_bind (ini_text (in_sections i ! nat s)) (\<lambda>n. c_ret (Some n)) else c_ret None)"

definition ini_property_count :: "ini \<Rightarrow> int \<Rightarrow> int" where
  "ini_property_count i s = int (length (filter (\<lambda>p. pr_section p = s) (take (in_property_count i) (in_properties i))))"

definition ini_property_name :: "int \<Rightarrow> int \<Rightarrow> (ini, string option) comp" where
  "ini_property_name s property = c_bind (c_get id) (\<lambda>i.
     if valid_section i s
     then let p = ini_internal_property_index i s property
          in if p \<noteq> INI_NOT_FOUND then c_bind (ini_text (pr_name (in_properties i ! nat p))) (\<lambda>n. c_ret (Some n)) else c_ret None
     else c_ret None)"

definition ini_property_value :: "int \<Rightarrow> int \<Rightarrow> (ini, string option) comp" where
  "ini_property_value s property = c_bind (c_get id) (\<lambda>i.
     if valid_section i s
     then let p = ini_internal_property_index i s property
          in if p \<noteq> INI_NOT_FOUND then c_bind (ini_text (pr_value (in_properties i ! nat p))) (\<lambda>n. c_ret (Some n)) else c_ret None
     else c_ret None)"

fun find_section_loop :: "string option list \<Rightarrow> string \<Rightarrow> nat \<Rightarrow> int \<Rightarrow> itext list \<Rightarrow> fault + int" where
  "find_section_loop h name n k [] = Inr INI_NOT_FOUND"
| "find_section_loop h name n k (t # ts) =
     (case read_text h t of
        Inl f \<Rightarrow> Inl f
      | Inr other \<Rightarrow> if strncasecmp_eq name other n then Inr k else find_section_loop h name n (k + 1) ts)"

definition ini_find_section :: "string \<Rightarrow> int \<Rightarrow> (ini, int) comp" where
  "ini_find_section name len i =
     (find_section_loop (in_heap i) name (the_length name len) 0 (take (in_section_count i) (in_sections i)), i)"

text \<open>The loop over the properties, with \<open>c\<close> of the section passed; it goes to the capacity of the array.\<close>

fun find_property_loop :: "string option list \<Rightarrow> int \<Rightarrow> string \<Rightarrow> nat \<Rightarrow> int \<Rightarrow> iprop list \<Rightarrow> fault + int" where
  "find_property_loop h s name n c [] = Inr INI_NOT_FOUND"
| "find_property_loop h s name n c (p # ps) =
     (if pr_section p = s
      then case read_text h (pr_name p) of
             Inl f \<Rightarrow> Inl f
           | Inr other \<Rightarrow> if strncasecmp_eq name other n then Inr c else find_property_loop h s name n (c + 1) ps
      else find_property_loop h s name n c ps)"

definition ini_find_property :: "int \<Rightarrow> string \<Rightarrow> int \<Rightarrow> (ini, int) comp" where
  "ini_find_property s name len i =
     (if valid_section i s then find_property_loop (in_heap i) s name (the_length name len) 0 (in_properties i)
      else Inr INI_NOT_FOUND, i)"

section \<open>Adding\<close>

definition new_array :: "(nat \<Rightarrow> nat \<Rightarrow> 'a) \<Rightarrow> nat \<Rightarrow> 'a list" where
  "new_array mem n = map (mem n) [0..<n]"

definition ini_create :: "ini_mem \<Rightarrow> ini" where
  "ini_create mem = \<lparr>
     in_sections = (new_array (mem_section mem) INITIAL_CAPACITY)[0 := \<lparr>tx_small = '''', tx_large = None\<rparr>],
     in_section_count = 1,
     in_properties = new_array (mem_property mem) INITIAL_CAPACITY,
     in_property_count = 0,
     in_heap = []\<rparr>"

text \<open>The array of double capacity with the entries in use copied.\<close>

definition grow :: "(nat \<Rightarrow> nat \<Rightarrow> 'a) \<Rightarrow> nat \<Rightarrow> 'a list \<Rightarrow> 'a list" where
  "grow mem n xs = (if length xs \<le> n then take n xs @ drop n (new_array mem (2 * length xs)) else xs)"

definition ini_section_add :: "ini_mem \<Rightarrow> string \<Rightarrow> int \<Rightarrow> (ini, int) comp" where
  "ini_section_add mem name len =
     c_then (c_upd (\<lambda>i. i\<lparr>in_sections := grow (mem_section mem) (in_section_count i) (in_sections i)\<rparr>))
       (c_bind (c_get id) (\<lambda>i. let n = in_section_count i in
         c_bind (store_text NAME_SIZE name (the_length name len) ((in_sections i ! n)\<lparr>tx_large := None\<rparr>)) (\<lambda>t.
           c_then (c_upd (\<lambda>i. i\<lparr>in_sections := (in_sections i)[n := t], in_section_count := n + 1\<rparr>)) (c_ret (int n)))))"

definition ini_property_add :: "ini_mem \<Rightarrow> int \<Rightarrow> string \<Rightarrow> int \<Rightarrow> string \<Rightarrow> int \<Rightarrow> (ini, unit) comp" where
  "ini_property_add mem s name name_len value value_len =
     c_bind (c_get id) (\<lambda>i. if \<not> valid_section i s then c_ret () else
       c_then (c_upd (\<lambda>i. i\<lparr>in_properties := grow (mem_property mem) (in_property_count i) (in_properties i)\<rparr>))
         (c_bind (c_get id) (\<lambda>i. let n = in_property_count i; q = in_properties i ! n in
           c_bind (store_text NAME_SIZE name (the_length name name_len) ((pr_name q)\<lparr>tx_large := None\<rparr>)) (\<lambda>t.
             c_bind (store_text VALUE_SIZE value (the_length value value_len) ((pr_value q)\<lparr>tx_large := None\<rparr>)) (\<lambda>v.
               c_upd (\<lambda>i. i\<lparr>in_properties := (in_properties i)[n := \<lparr>pr_section = s, pr_name = t, pr_value = v\<rparr>], in_property_count := n + 1\<rparr>))))))"

section \<open>Reading a file\<close>

text \<open>What one round of the loop finds: nothing to keep, the name of a section or the name and the value of a property, each as the rest of the file from its
  first character and its length.\<close>

datatype item = I_none | I_section string int | I_property string int string int

definition trim_end :: "string \<Rightarrow> string" where
  "trim_end s = rev (dropWhile blank (rev s))"

text \<open>The text after the equals sign: the length of the value and where the reader stops. Going back from the end of the
  line it stops at the equals sign at the latest, which may be before the start of the value.\<close>

definition ini_value :: "string \<Rightarrow> string \<times> int \<times> string" where
  "ini_value rest =
     (let skipped = takeWhile (\<lambda>c. blank c \<and> c \<noteq> NL) rest;
          start2 = dropWhile (\<lambda>c. blank c \<and> c \<noteq> NL) rest;
          kept = trim_end (skipped @ takeWhile (\<lambda>c. c \<noteq> NL) start2)
      in (start2, int (length kept) - int (length skipped), drop (length kept) rest))"

definition ini_item :: "string \<Rightarrow> item \<times> string" where
  "ini_item p =
     (if hd p = CHR '';'' then (I_none, dropWhile (\<lambda>c. c \<noteq> NL) p)
      else if hd p = CHR ''['' then
        let start = tl p; r = dropWhile (\<lambda>c. c \<noteq> CHR '']'' \<and> c \<noteq> NL) start
        in if r \<noteq> [] \<and> hd r = CHR '']'' then (I_section start (int (length start) - int (length r)), tl r) else (I_none, r)
      else
        let r = dropWhile (\<lambda>c. c \<noteq> CHR ''='' \<and> c \<noteq> NL) p
        in if r \<noteq> [] \<and> hd r = CHR ''=''
           then case ini_value (tl r) of (start2, l2, r') \<Rightarrow> (I_property p (int (length p) - int (length r)) start2 l2, r')
           else (I_none, r))"

text \<open>The section that following properties belong to is the result.\<close>

definition ini_do :: "ini_mem \<Rightarrow> int \<Rightarrow> item \<Rightarrow> (ini, int) comp" where
  "ini_do mem s it = (case it of
     I_none \<Rightarrow> c_ret s
   | I_section start l \<Rightarrow> ini_section_add mem start l
   | I_property start l start2 l2 \<Rightarrow> c_then (ini_property_add mem s start l start2 l2) (c_ret s))"

lemma ini_item_shorter:
  assumes "p \<noteq> []" "\<not> blank (hd p)"
  shows "length (snd (ini_item p)) < length p"
proof -
  obtain c cs where p: "p = c # cs" using assms(1) by (cases p) auto
  have c: "c \<noteq> NL" using assms(2) p by (auto simp: blank_def)
  have drop: "length (dropWhile P p) < length p" if "P c" for P using that by (simp add: p le_imp_less_Suc length_dropWhile_le)
  have val: "length (snd (snd (ini_value r))) \<le> length r" for r by (simp add: ini_value_def Let_def)
  let ?q = "dropWhile (\<lambda>c. c \<noteq> CHR '']'' \<and> c \<noteq> NL) (tl p)" and ?r = "dropWhile (\<lambda>c. c \<noteq> CHR ''='' \<and> c \<noteq> NL) p"
  have q: "length ?q < length p" "length (tl ?q) < length p"
    using length_dropWhile_le [of _ cs] by (simp_all add: p le_imp_less_Suc less_Suc_eq_le le_diff_conv le_SucI)
  have r: "?r = [] \<or> hd ?r \<noteq> CHR ''='' \<longrightarrow> length ?r < length p"
    using drop [of "\<lambda>c. c \<noteq> CHR ''='' \<and> c \<noteq> NL"] c by (cases "c = CHR ''=''") (simp_all add: p)
  have "length (tl ?r) < length p" using length_dropWhile_le [of "\<lambda>c. c \<noteq> CHR ''='' \<and> c \<noteq> NL" p] by (simp add: p del: dropWhile.simps)
  then have v: "length (snd (snd (ini_value (tl ?r)))) < length p" using val le_less_trans by blast
  show ?thesis
    using q r v drop [of "\<lambda>c. c \<noteq> NL"] c unfolding ini_item_def Let_def by (simp add: p case_prod_beta)
qed

function ini_loop :: "ini_mem \<Rightarrow> int \<Rightarrow> string \<Rightarrow> (ini, unit) comp" where
  "ini_loop mem s ptr =
     (let p = dropWhile blank ptr
      in if p = [] then c_ret () else c_bind (ini_do mem s (fst (ini_item p))) (\<lambda>s'. ini_loop mem s' (snd (ini_item p))))"
  by pat_completeness auto
termination
proof (relation "measure (\<lambda>(mem, s, ptr). length ptr)", goal_cases)
  case (2 mem s ptr p s')
  then have "length (snd (ini_item p)) < length p" using ini_item_shorter hd_dropWhile by blast
  then show ?case using 2 length_dropWhile_le [of blank ptr] by simp
qed simp

declare ini_loop.simps [simp del]

definition ini_load :: "ini_mem \<Rightarrow> string \<Rightarrow> fault + ini" where
  "ini_load mem data = (case ini_loop mem 0 (c_string data) (ini_create mem) of (Inl f, _) \<Rightarrow> Inl f | (Inr _, i) \<Rightarrow> Inr i)"

section \<open>Writing a file\<close>

text \<open>The buffer, if there is one, and the position.\<close>

type_synonym saver = "string option \<times> nat"

definition emit :: "nat \<Rightarrow> char \<Rightarrow> saver \<Rightarrow> saver" where
  "emit room c st = (case st of (data, pos) \<Rightarrow>
     (case data of None \<Rightarrow> None | Some d \<Rightarrow> Some (if pos < room then d[pos := c] else d), pos + 1))"

definition emits :: "nat \<Rightarrow> string \<Rightarrow> (saver, unit) comp" where
  "emits room cs = c_upd (fold (emit room) cs)"

definition lift_fault :: "fault + 'a \<Rightarrow> ('s, 'a) comp" where
  "lift_fault r = (case r of Inl f \<Rightarrow> c_fail f | Inr x \<Rightarrow> c_ret x)"

definition save_property :: "ini \<Rightarrow> nat \<Rightarrow> int \<Rightarrow> iprop \<Rightarrow> (saver, unit) comp" where
  "save_property i room s p =
     (if pr_section p = s
      then c_bind (lift_fault (read_text (in_heap i) (pr_name p))) (\<lambda>n.
        c_then (emits room (n @ ''='')) (c_bind (lift_fault (read_text (in_heap i) (pr_value p))) (\<lambda>v. emits room (v @ [NL]))))
      else c_ret ())"

definition save_section :: "ini \<Rightarrow> nat \<Rightarrow> nat \<Rightarrow> (saver, unit) comp" where
  "save_section i room s =
     c_bind (lift_fault (read_text (in_heap i) (in_sections i ! s))) (\<lambda>n.
       c_then (if n \<noteq> [] then emits room (''['' @ n @ '']'' @ [NL]) else c_ret ())
         (c_then (c_each (save_property i room (int s)) (take (in_property_count i) (in_properties i)))
           (c_bind (c_get snd) (\<lambda>pos. if pos > 0 then emits room [NL] else c_ret ()))))"

definition ini_save :: "ini \<Rightarrow> string option \<Rightarrow> nat \<Rightarrow> (fault + nat) \<times> string option" where
  "ini_save i data room =
     (case c_then (c_each (save_section i room) [0..<in_section_count i]) (c_then (emits room [NUL]) (c_get snd)) (data, 0) of
        (r, (data', _)) \<Rightarrow> (r, data'))"

section \<open>Removing and changing\<close>

definition free_property :: "iprop \<Rightarrow> (ini, unit) comp" where
  "free_property p = c_then (ini_free (tx_large (pr_value p))) (ini_free (tx_large (pr_name p)))"

definition ini_destroy :: "(ini, unit) comp" where
  "ini_destroy =
     c_bind (c_get id) (\<lambda>i.
       c_then (c_each free_property (take (in_property_count i) (in_properties i)))
         (c_each (\<lambda>t. ini_free (tx_large t)) (take (in_section_count i) (in_sections i))))"

text \<open>The last property takes the place of the removed one.\<close>

definition drop_property :: "nat \<Rightarrow> (ini, unit) comp" where
  "drop_property p =
     c_bind (c_get (\<lambda>i. in_properties i ! p)) (\<lambda>q.
       c_then (free_property q)
         (c_upd (\<lambda>i. i\<lparr>in_property_count := in_property_count i - 1,
            in_properties := (in_properties i)[p := in_properties i ! (in_property_count i - 1)]\<rparr>)))"

fun remove_loop :: "int \<Rightarrow> nat \<Rightarrow> (ini, unit) comp" where
  "remove_loop s 0 = c_ret ()"
| "remove_loop s (Suc p) =
     c_bind (c_get (\<lambda>i. pr_section (in_properties i ! p))) (\<lambda>t.
       c_then (if t = s then drop_property p else c_ret ()) (remove_loop s p))"

definition renumber :: "nat \<Rightarrow> int \<Rightarrow> int \<Rightarrow> iprop list \<Rightarrow> iprop list" where
  "renumber n old new ps = map (\<lambda>p. if pr_section p = old then p\<lparr>pr_section := new\<rparr> else p) (take n ps) @ drop n ps"

definition ini_section_remove :: "int \<Rightarrow> (ini, unit) comp" where
  "ini_section_remove s =
     c_bind (c_get id) (\<lambda>i. if \<not> valid_section i s then c_ret () else
       c_then (ini_free (tx_large (in_sections i ! nat s)))
         (c_then (remove_loop s (in_property_count i))
           (c_then (c_upd (\<lambda>i. i\<lparr>in_section_count := in_section_count i - 1,
                in_sections := (in_sections i)[nat s := in_sections i ! (in_section_count i - 1)]\<rparr>))
             (c_upd (\<lambda>i. i\<lparr>in_properties := renumber (in_property_count i) (int (in_section_count i)) s (in_properties i)\<rparr>)))))"

definition ini_property_remove :: "int \<Rightarrow> int \<Rightarrow> (ini, unit) comp" where
  "ini_property_remove s property =
     c_bind (c_get id) (\<lambda>i. if \<not> valid_section i s then c_ret () else
       let p = ini_internal_property_index i s property
       in if p \<noteq> INI_NOT_FOUND then drop_property (nat p) else c_ret ())"

definition ini_section_name_set :: "int \<Rightarrow> string \<Rightarrow> int \<Rightarrow> (ini, unit) comp" where
  "ini_section_name_set s name len =
     c_bind (c_get id) (\<lambda>i. if \<not> valid_section i s then c_ret () else
       c_then (ini_free (tx_large (in_sections i ! nat s)))
         (c_bind (store_text NAME_SIZE name (the_length name len) ((in_sections i ! nat s)\<lparr>tx_large := None\<rparr>)) (\<lambda>t.
           c_upd (\<lambda>i. i\<lparr>in_sections := (in_sections i)[nat s := t]\<rparr>))))"

text \<open>An assignment to a field of the slot behind the last property, which need not exist.\<close>

definition upd_slot :: "nat \<Rightarrow> (iprop \<Rightarrow> iprop) \<Rightarrow> (ini, unit) comp" where
  "upd_slot n f =
     c_bind (c_get (\<lambda>i. n < length (in_properties i))) (\<lambda>ok.
       if ok then c_upd (\<lambda>i. i\<lparr>in_properties := (in_properties i)[n := f (in_properties i ! n)]\<rparr>) else c_fail OutOfRange)"

text \<open>The pointer that is reset is that of the slot behind the last property, not that of the property itself.\<close>

definition ini_property_name_set :: "int \<Rightarrow> int \<Rightarrow> string \<Rightarrow> int \<Rightarrow> (ini, unit) comp" where
  "ini_property_name_set s property name len =
     c_bind (c_get id) (\<lambda>i. if \<not> valid_section i s then c_ret () else
       let p = ini_internal_property_index i s property; q = in_properties i ! nat p
       in if p = INI_NOT_FOUND then c_ret () else
         c_then (ini_free (tx_large (pr_name q)))
           (c_then (upd_slot (in_property_count i) (\<lambda>x. x\<lparr>pr_name := (pr_name x)\<lparr>tx_large := None\<rparr>\<rparr>))
             (c_bind (store_text NAME_SIZE name (the_length name len) (pr_name q)) (\<lambda>t. upd_slot (nat p) (\<lambda>x. x\<lparr>pr_name := t\<rparr>)))))"

definition ini_property_value_set :: "int \<Rightarrow> int \<Rightarrow> string \<Rightarrow> int \<Rightarrow> (ini, unit) comp" where
  "ini_property_value_set s property val len =
     c_bind (c_get id) (\<lambda>i. if \<not> valid_section i s then c_ret () else
       let p = ini_internal_property_index i s property; q = in_properties i ! nat p
       in if p = INI_NOT_FOUND then c_ret () else
         c_then (ini_free (tx_large (pr_value q)))
           (c_then (upd_slot (in_property_count i) (\<lambda>x. x\<lparr>pr_value := (pr_value x)\<lparr>tx_large := None\<rparr>\<rparr>))
             (c_bind (store_text VALUE_SIZE val (the_length val len) (pr_value q)) (\<lambda>t. upd_slot (nat p) (\<lambda>x. x\<lparr>pr_value := t\<rparr>)))))"

end
