(* ===== verification/IniOk.thy ===== *)
theory IniOk
  imports Ini "HOL-Library.Multiset"
begin

text \<open>
  What the operations on an INI object do to its content: the names of its sections, and its properties with section, name and value. The
  invariant \<open>ini_ok\<close> says that the object owns each block of the heap exactly once.
\<close>

section \<open>Content and invariant\<close>

definition text_of :: "string option list \<Rightarrow> itext \<Rightarrow> string" where
  "text_of h t = (case read_text h t of Inl _ \<Rightarrow> [] | Inr s \<Rightarrow> s)"

definition used_sections :: "ini \<Rightarrow> itext list" where
  "used_sections i = take (in_section_count i) (in_sections i)"

definition used_properties :: "ini \<Rightarrow> iprop list" where
  "used_properties i = take (in_property_count i) (in_properties i)"

type_synonym aprop = "int \<times> string \<times> string"

definition aprop :: "string option list \<Rightarrow> iprop \<Rightarrow> aprop" where
  "aprop h p = (pr_section p, text_of h (pr_name p), text_of h (pr_value p))"

definition sections_of :: "ini \<Rightarrow> string list" where
  "sections_of i = map (text_of (in_heap i)) (used_sections i)"

definition props_of :: "ini \<Rightarrow> aprop list" where
  "props_of i = map (aprop (in_heap i)) (used_properties i)"

definition large :: "itext \<Rightarrow> nat multiset" where
  "large t = (case tx_large t of None \<Rightarrow> {#} | Some p \<Rightarrow> {#p#})"

definition plarge :: "iprop \<Rightarrow> nat multiset" where
  "plarge p = large (pr_value p) + large (pr_name p)"

definition live :: "string option list \<Rightarrow> nat multiset" where
  "live h = mset_set {p. p < length h \<and> h ! p \<noteq> None}"

definition owned :: "itext list \<Rightarrow> iprop list \<Rightarrow> nat multiset" where
  "owned ts ps = sum_list (map large ts) + sum_list (map plarge ps)"

definition ini_ok :: "ini \<Rightarrow> bool" where
  "ini_ok i \<longleftrightarrow> in_section_count i \<le> length (in_sections i) \<and> in_sections i \<noteq> [] \<and>
     in_property_count i \<le> length (in_properties i) \<and> in_properties i \<noteq> [] \<and>
     (\<forall>p \<in> set (used_properties i). valid_section i (pr_section p)) \<and>
     owned (used_sections i) (used_properties i) = live (in_heap i)"

section \<open>The heap\<close>

lemma in_live: "p \<in># live h \<longleftrightarrow> p < length h \<and> h ! p \<noteq> None"
  by (auto simp: live_def)

lemma count_live: "count (live h) p = (if p < length h \<and> h ! p \<noteq> None then 1 else 0)"
  by (simp add: live_def)

lemma live_malloc: "live (h @ [Some s]) = add_mset (length h) (live h)"
  by (rule multiset_eqI) (auto simp: count_live nth_append)

lemma live_free: "live (h[p := None]) = live h - {#p#}"
  by (rule multiset_eqI) (auto simp: count_live nth_list_update)

lemma read_text_append: "large t \<subseteq># live h \<Longrightarrow> read_text (h @ ys) t = read_text h t"
  by (auto simp: read_text_def large_def in_live nth_append split: option.splits)

lemma text_of_append: "large t \<subseteq># live h \<Longrightarrow> text_of (h @ ys) t = text_of h t"
  by (simp add: text_of_def read_text_append)

lemma text_of_free: "add_mset p (large t) \<subseteq># live h \<Longrightarrow> text_of (h[p := None]) t = text_of h t"
proof -
  assume *: "add_mset p (large t) \<subseteq># live h"
  have "tx_large t \<noteq> Some p"
  proof
    assume "tx_large t = Some p"
    then have "count (add_mset p (large t)) p = 2" by (simp add: large_def)
    then have "2 \<le> count (live h) p" using mset_subset_eq_count [OF *, of p] by simp
    then show False by (simp add: count_live split: if_splits)
  qed
  then show ?thesis by (auto simp: text_of_def read_text_def split: option.splits)
qed

lemma read_text_live: "large t \<subseteq># live h \<Longrightarrow> read_text h t = Inr (text_of h t)"
  by (auto simp: text_of_def read_text_def large_def in_live split: option.splits)

text \<open>Every text an object uses is alive.\<close>

lemma plus_subsetD: "a + b \<subseteq># m \<Longrightarrow> a \<subseteq># m \<and> b \<subseteq># m"
  by (auto simp: subseteq_mset_def) (meson add_leD1 add_leD2)+

lemma plus_subset_diff: "a + b \<subseteq># m \<Longrightarrow> b \<subseteq># m - a"
  unfolding subseteq_mset_def
proof
  fix x
  assume "\<forall>x. count (a + b) x \<le> count m x"
  then have "count a x + count b x \<le> count m x" by simp
  then show "count b x \<le> count (m - a) x" by (simp add: le_diff_conv2)
qed

lemma sum_list_member: "sum_list (map f xs) \<subseteq># m \<Longrightarrow> x \<in> set xs \<Longrightarrow> f x \<subseteq># m"
  by (induction xs) (auto dest: plus_subsetD)

lemma owned_text:
  assumes "owned ts ps \<subseteq># m"
  shows "t \<in> set ts \<Longrightarrow> large t \<subseteq># m" "p \<in> set ps \<Longrightarrow> large (pr_name p) \<subseteq># m" "p \<in> set ps \<Longrightarrow> large (pr_value p) \<subseteq># m"
proof -
  have 1: "sum_list (map large ts) \<subseteq># m" "sum_list (map plarge ps) \<subseteq># m"
    using plus_subsetD [OF assms [unfolded owned_def]] by simp_all
  show "t \<in> set ts \<Longrightarrow> large t \<subseteq># m" by (rule sum_list_member [OF 1(1)])
  show "p \<in> set ps \<Longrightarrow> large (pr_name p) \<subseteq># m" "p \<in> set ps \<Longrightarrow> large (pr_value p) \<subseteq># m"
    using plus_subsetD [OF sum_list_member [OF 1(2), of p, unfolded plarge_def]] by simp_all
qed

text \<open>The texts do not change when a block they do not use is freed, or one is allocated.\<close>

lemma content_append:
  assumes "owned ts ps \<subseteq># live h"
  shows "map (text_of (h @ ys)) ts = map (text_of h) ts" "map (aprop (h @ ys)) ps = map (aprop h) ps"
  using owned_text [OF assms] by (auto simp: text_of_append aprop_def)

lemma content_free:
  assumes "add_mset p (owned ts ps) \<subseteq># live h"
  shows "map (text_of (h[p := None])) ts = map (text_of h) ts" "map (aprop (h[p := None])) ps = map (aprop h) ps"
proof -
  have p: "p \<in># live h" and ow: "owned ts ps \<subseteq># live h - {#p#}"
    using assms by (auto simp: insert_subset_eq_iff)
  have "add_mset p (large t) \<subseteq># live h" if "large t \<subseteq># live h - {#p#}" for t
    using that p by (simp add: insert_subset_eq_iff)
  then show "map (text_of (h[p := None])) ts = map (text_of h) ts" "map (aprop (h[p := None])) ps = map (aprop h) ps"
    using owned_text [OF ow] by (auto simp: text_of_free aprop_def)
qed

section \<open>Adding\<close>

lemma store_text_ok:
  assumes "tx_large t = None"
  obtains t' ys where "store_text room s len t i = (Inr t', i\<lparr>in_heap := in_heap i @ ys\<rparr>)" "text_of (in_heap i @ ys) t' = take len s"
    "live (in_heap i @ ys) = live (in_heap i) + large t'"
proof (cases "room \<le> len + 1")
  case True
  then show thesis
    by (intro that [of "t\<lparr>tx_large := Some (length (in_heap i))\<rparr>" "[Some (take len s)]"])
      (simp_all add: store_text_def ini_malloc_def c_bind_def c_then_def text_of_def read_text_def large_def live_malloc)
next
  case False
  then show thesis
    using assms by (intro that [of "t\<lparr>tx_small := take len s\<rparr>" "[]"]) (simp_all add: store_text_def text_of_def read_text_def large_def)
qed

lemma grow_ok:
  assumes "n \<le> length xs" "xs \<noteq> []"
  shows "take n (grow mem n xs) = take n xs" "n < length (grow mem n xs)"
    "k < length (grow mem n xs) \<Longrightarrow> n \<le> k \<Longrightarrow> (k < length xs \<and> grow mem n xs ! k = xs ! k) \<or> grow mem n xs ! k = mem (2 * length xs) k"
  using assms by (auto simp: grow_def new_array_def nth_append)

lemma take_Suc_update: "n < length xs \<Longrightarrow> take (Suc n) (xs[n := x]) = take n xs @ [x]"
  by (simp add: take_Suc_conv_app_nth)

lemma ini_section_add_ok:
  assumes "ini_ok i"
  obtains i' where "ini_section_add mem name len i = (Inr (int (in_section_count i)), i')" "ini_ok i'"
    "sections_of i' = sections_of i @ [take (the_length name len) name]" "props_of i' = props_of i"
    "in_properties i' = in_properties i" "in_property_count i' = in_property_count i" "in_section_count i' = in_section_count i + 1"
proof -
  let ?n = "in_section_count i" and ?xs = "grow (mem_section mem) (in_section_count i) (in_sections i)"
  have n: "?n \<le> length (in_sections i)" "in_sections i \<noteq> []" and ow: "owned (used_sections i) (used_properties i) = live (in_heap i)"
    using assms by (simp_all add: ini_ok_def)
  note g = grow_ok [OF n, where mem = "mem_section mem"]
  obtain t ys where t: "store_text NAME_SIZE name (the_length name len) ((?xs ! ?n)\<lparr>tx_large := None\<rparr>) (i\<lparr>in_sections := ?xs\<rparr>)
      = (Inr t, i\<lparr>in_sections := ?xs, in_heap := in_heap i @ ys\<rparr>)"
    "text_of (in_heap i @ ys) t = take (the_length name len) name" "live (in_heap i @ ys) = live (in_heap i) + large t"
    using store_text_ok [of "(?xs ! ?n)\<lparr>tx_large := None\<rparr>" NAME_SIZE name "the_length name len" "i\<lparr>in_sections := ?xs\<rparr>"] by auto
  let ?i = "i\<lparr>in_sections := ?xs[?n := t], in_section_count := ?n + 1, in_heap := in_heap i @ ys\<rparr>"
  have u: "used_sections ?i = used_sections i @ [t]" "used_properties ?i = used_properties i"
    using g by (simp_all add: used_sections_def used_properties_def take_Suc_update)
  note c = content_append [OF subset_mset.eq_refl [OF ow], of ys]
  show thesis
  proof (rule that [of ?i])
    show "ini_section_add mem name len i = (Inr (int ?n), ?i)"
      using t(1) by (simp add: ini_section_add_def c_then_def c_bind_def Let_def)
    show "ini_ok ?i" using assms g u t(3) ow by (auto simp: ini_ok_def owned_def valid_section_def)
    show "sections_of ?i = sections_of i @ [take (the_length name len) name]" "props_of ?i = props_of i"
      using u c t(2) by (simp_all add: sections_of_def props_of_def)
  qed simp_all
qed

text \<open>What the slots behind the last property hold.\<close>

definition tail_all :: "(iprop \<Rightarrow> bool) \<Rightarrow> ini \<Rightarrow> bool" where
  "tail_all Q i \<longleftrightarrow> (\<forall>k. in_property_count i \<le> k \<longrightarrow> k < length (in_properties i) \<longrightarrow> Q (in_properties i ! k))"

lemma ini_property_add_ok:
  assumes "ini_ok i" "valid_section i s"
  obtains i' where "ini_property_add mem s name name_len val val_len i = (Inr (), i')" "ini_ok i'" "sections_of i' = sections_of i"
    "props_of i' = props_of i @ [(s, take (the_length name name_len) name, take (the_length val val_len) val)]"
    "in_section_count i' = in_section_count i"
    "(\<forall>c k. Q (mem_property mem c k)) \<longrightarrow> tail_all Q i \<longrightarrow> tail_all Q i'"
proof -
  let ?n = "in_property_count i" and ?xs = "grow (mem_property mem) (in_property_count i) (in_properties i)"
  have n: "?n \<le> length (in_properties i)" "in_properties i \<noteq> []" and ow: "owned (used_sections i) (used_properties i) = live (in_heap i)"
    using assms by (simp_all add: ini_ok_def)
  note g = grow_ok [OF n, where mem = "mem_property mem"]
  let ?i0 = "i\<lparr>in_properties := ?xs\<rparr>"
  obtain t ys where t: "store_text NAME_SIZE name (the_length name name_len) ((pr_name (?xs ! ?n))\<lparr>tx_large := None\<rparr>) ?i0
      = (Inr t, ?i0\<lparr>in_heap := in_heap i @ ys\<rparr>)"
    "text_of (in_heap i @ ys) t = take (the_length name name_len) name" "live (in_heap i @ ys) = live (in_heap i) + large t"
    using store_text_ok [of "(pr_name (?xs ! ?n))\<lparr>tx_large := None\<rparr>" NAME_SIZE name "the_length name name_len" ?i0] by auto
  let ?i1 = "?i0\<lparr>in_heap := in_heap i @ ys\<rparr>"
  obtain v zs where v: "store_text VALUE_SIZE val (the_length val val_len) ((pr_value (?xs ! ?n))\<lparr>tx_large := None\<rparr>) ?i1
      = (Inr v, ?i1\<lparr>in_heap := in_heap i @ ys @ zs\<rparr>)"
    "text_of (in_heap i @ ys @ zs) v = take (the_length val val_len) val" "live (in_heap i @ ys @ zs) = live (in_heap i @ ys) + large v"
    using store_text_ok [of "(pr_value (?xs ! ?n))\<lparr>tx_large := None\<rparr>" VALUE_SIZE val "the_length val val_len" ?i1] by auto
  let ?p = "\<lparr>pr_section = s, pr_name = t, pr_value = v\<rparr>"
  let ?i = "i\<lparr>in_properties := ?xs[?n := ?p], in_property_count := ?n + 1, in_heap := in_heap i @ ys @ zs\<rparr>"
  have u: "used_sections ?i = used_sections i" "used_properties ?i = used_properties i @ [?p]"
    using g by (simp_all add: used_sections_def used_properties_def take_Suc_update)
  have t2: "text_of (in_heap i @ ys @ zs) t = take (the_length name name_len) name"
    using text_of_append [of t "in_heap i @ ys" zs] t(2,3) by simp
  note c = content_append [OF subset_mset.eq_refl [OF ow], of "ys @ zs"]
  show thesis
  proof (rule that [of ?i])
    show "ini_property_add mem s name name_len val val_len i = (Inr (), ?i)"
      using t(1) v(1) assms(2) by (simp add: ini_property_add_def c_then_def c_bind_def Let_def)
    show "ini_ok ?i" using assms g u t(3) v(3) ow by (auto simp: ini_ok_def owned_def valid_section_def plarge_def)
    show "sections_of ?i = sections_of i" using u c by (simp add: sections_of_def)
    show "props_of ?i = props_of i @ [(s, take (the_length name name_len) name, take (the_length val val_len) val)]"
      using u c t2 v(2) by (simp add: props_of_def aprop_def)
    show "(\<forall>c k. Q (mem_property mem c k)) \<longrightarrow> tail_all Q i \<longrightarrow> tail_all Q ?i"
    proof (intro impI)
      assume Q: "\<forall>c k. Q (mem_property mem c k)" and tl: "tail_all Q i"
      have "Q (?xs ! k)" if "Suc ?n \<le> k" "k < length ?xs" for k
        using g(3) [of k] that Q tl by (auto simp: tail_all_def)
      then show "tail_all Q ?i" by (simp add: tail_all_def)
    qed
  qed simp_all
qed

lemma ini_create_ok: "ini_ok (ini_create mem)" "sections_of (ini_create mem) = ['''']" "props_of (ini_create mem) = []"
  by (simp_all add: ini_ok_def ini_create_def used_sections_def used_properties_def sections_of_def props_of_def owned_def new_array_def
      live_def text_of_def read_text_def large_def take_Suc hd_conv_nth)

section \<open>Removing\<close>

text \<open>The last element takes the place of the removed one.\<close>

definition swap_out :: "nat \<Rightarrow> 'a list \<Rightarrow> 'a list" where
  "swap_out p xs = butlast (xs[p := last xs])"

lemma swap_out_map: "xs \<noteq> [] \<Longrightarrow> map f (swap_out p xs) = swap_out p (map f xs)"
  by (simp add: swap_out_def map_butlast map_update last_map)

lemma mset_swap_out:
  assumes "p < length xs"
  shows "mset xs = add_mset (xs ! p) (mset (swap_out p xs))"
proof -
  obtain ys y where xs: "xs = ys @ [y]" using assms by (cases xs rule: rev_cases) auto
  show ?thesis
  proof (cases "p = length ys")
    case False
    then have "p < length ys" using assms xs by simp
    then show ?thesis by (simp add: xs swap_out_def list_update_append1 butlast_append nth_append mset_update)
  qed (simp add: xs swap_out_def)
qed

lemma set_swap_out: "p < length xs \<Longrightarrow> set (swap_out p xs) \<subseteq> set xs"
  using mset_swap_out [of p xs] by (metis set_mset_add_mset_insert set_mset_mset subset_insertI)

lemma take_swap_out:
  assumes "p < n" "n \<le> length xs"
  shows "take (n - 1) (xs[p := xs ! (n - 1)]) = swap_out p (take n xs)"
proof -
  have "take n xs \<noteq> []" using assms by auto
  then have "last (take n xs) = xs ! (n - 1)" using assms by (simp add: last_conv_nth min_def)
  then show ?thesis using assms by (simp add: swap_out_def butlast_conv_take take_update_swap min_def)
qed

lemma sum_list_image_mset: "sum_list (map f xs) = sum_mset (image_mset f (mset xs))" for f :: "'a \<Rightarrow> 'b multiset"
  by (induction xs) simp_all

lemma ini_free_ok:
  assumes "large t + owned ts ps \<subseteq># live (in_heap i)"
  obtains h where "ini_free (tx_large t) i = (Inr (), i\<lparr>in_heap := h\<rparr>)" "live h = live (in_heap i) - large t"
    "map (text_of h) ts = map (text_of (in_heap i)) ts" "map (aprop h) ps = map (aprop (in_heap i)) ps"
proof (cases "tx_large t")
  case None
  then show thesis by (intro that [of "in_heap i"]) (simp_all add: ini_free_def large_def)
next
  case (Some p)
  then have "add_mset p (owned ts ps) \<subseteq># live (in_heap i)" using assms by (simp add: large_def)
  moreover from this have "p \<in># live (in_heap i)" by (auto dest: mset_subset_eqD)
  ultimately show thesis
    using Some content_free [of p ts ps "in_heap i"]
    by (intro that [of "(in_heap i)[p := None]"]) (auto simp: ini_free_def large_def live_free in_live c_bind_def)
qed

lemma free_property_ok:
  assumes "plarge q + owned ts ps \<subseteq># live (in_heap i)"
  obtains h where "free_property q i = (Inr (), i\<lparr>in_heap := h\<rparr>)" "live h = live (in_heap i) - plarge q"
    "map (text_of h) ts = map (text_of (in_heap i)) ts" "map (aprop h) ps = map (aprop (in_heap i)) ps"
proof -
  have "large (pr_value q) + owned (pr_name q # ts) ps \<subseteq># live (in_heap i)" using assms by (simp add: plarge_def owned_def add.assoc)
  then obtain h where h: "ini_free (tx_large (pr_value q)) i = (Inr (), i\<lparr>in_heap := h\<rparr>)"
    "live h = live (in_heap i) - large (pr_value q)" "map (text_of h) ts = map (text_of (in_heap i)) ts" "map (aprop h) ps = map (aprop (in_heap i)) ps"
    by (rule ini_free_ok) simp
  have "large (pr_name q) + owned ts ps \<subseteq># live h"
    using assms unfolding h(2) plarge_def add.assoc by (rule plus_subset_diff)
  then obtain g where
    "ini_free (tx_large (pr_name q)) (i\<lparr>in_heap := h\<rparr>) = (Inr (), i\<lparr>in_heap := g\<rparr>)" "live g = live h - large (pr_name q)"
    "map (text_of g) ts = map (text_of h) ts" "map (aprop g) ps = map (aprop h) ps"
    by (rule ini_free_ok [of "pr_name q" ts ps "i\<lparr>in_heap := h\<rparr>", simplified]) auto
  then show thesis using h by (intro that [of g]) (simp_all add: free_property_def c_then_def c_bind_def plarge_def diff_diff_add_mset)
qed

text \<open>The object owns the given texts beside its properties.\<close>

definition owns :: "itext list \<Rightarrow> ini \<Rightarrow> bool" where
  "owns ts i \<longleftrightarrow> in_property_count i \<le> length (in_properties i) \<and> owned ts (used_properties i) = live (in_heap i)"

lemma drop_property_ok:
  assumes "owns ts i" "p < in_property_count i"
  obtains i' where "drop_property p i = (Inr (), i')" "owns ts i'" "props_of i' = swap_out p (props_of i)"
    "map (text_of (in_heap i')) ts = map (text_of (in_heap i)) ts" "used_properties i' = swap_out p (used_properties i)"
    "in_sections i' = in_sections i" "in_section_count i' = in_section_count i" "length (in_properties i') = length (in_properties i)"
    "in_property_count i' = in_property_count i - 1"
proof -
  let ?us = "used_properties i" and ?q = "in_properties i ! p"
  have len: "p < length ?us" "?us ! p = ?q" "?us \<noteq> []" using assms by (auto simp: owns_def used_properties_def)
  have "mset ?us = add_mset ?q (mset (swap_out p ?us))" using mset_swap_out [OF len(1)] len(2) by simp
  then have "sum_list (map plarge ?us) = plarge ?q + sum_list (map plarge (swap_out p ?us))" by (simp add: sum_list_image_mset)
  then have own: "plarge ?q + owned ts (swap_out p ?us) = live (in_heap i)" using assms(1) by (simp add: owns_def owned_def ac_simps)
  obtain h where h: "free_property ?q i = (Inr (), i\<lparr>in_heap := h\<rparr>)" "live h = live (in_heap i) - plarge ?q"
    "map (text_of h) ts = map (text_of (in_heap i)) ts" "map (aprop h) (swap_out p ?us) = map (aprop (in_heap i)) (swap_out p ?us)"
    by (rule free_property_ok [OF subset_mset.eq_refl [OF own]])
  let ?i = "i\<lparr>in_heap := h, in_property_count := in_property_count i - 1, in_properties := (in_properties i)[p := in_properties i ! (in_property_count i - 1)]\<rparr>"
  have u: "used_properties ?i = swap_out p ?us"
    using take_swap_out [of p "in_property_count i" "in_properties i"] assms by (simp add: used_properties_def owns_def)
  show thesis
  proof (rule that [of ?i])
    show "drop_property p i = (Inr (), ?i)" using h(1) by (simp add: drop_property_def c_bind_def c_then_def)
    have "live h = owned ts (swap_out p ?us)" unfolding h(2) own [symmetric] by simp
    then show "owns ts ?i" using u assms by (auto simp: owns_def)
    show "props_of ?i = swap_out p (props_of i)" using u h(4) len(3) by (simp add: props_of_def swap_out_map del: map_eq_conv)
    show "map (text_of (in_heap ?i)) ts = map (text_of (in_heap i)) ts" using h(3) by (simp del: map_eq_conv)
  qed (use u in simp_all)
qed

text \<open>The loop that removes the properties of a section, on their content.\<close>

fun remove_spec :: "int \<Rightarrow> nat \<Rightarrow> aprop list \<Rightarrow> aprop list" where
  "remove_spec s 0 ps = ps"
| "remove_spec s (Suc p) ps = remove_spec s p (if fst (ps ! p) = s then swap_out p ps else ps)"

lemma length_swap_out: "length (swap_out p xs) = length xs - 1"
  by (simp add: swap_out_def)

lemma remove_spec_mset:
  assumes "n \<le> length ps" "\<forall>k. n \<le> k \<longrightarrow> k < length ps \<longrightarrow> fst (ps ! k) \<noteq> s"
  shows "mset (remove_spec s n ps) = filter_mset (\<lambda>p. fst p \<noteq> s) (mset ps)"
  using assms
proof (induction n arbitrary: ps)
  case 0
  then have "\<forall>p \<in> set ps. fst p \<noteq> s" by (metis in_set_conv_nth le0)
  then have "filter (\<lambda>p. fst p \<noteq> s) ps = ps" by (simp add: filter_id_conv)
  then show ?case by (simp flip: mset_filter)
next
  case (Suc p)
  show ?case
  proof (cases "fst (ps ! p) = s")
    case True
    have k: "fst (swap_out p ps ! k) \<noteq> s" if "p \<le> k" "k < length ps - 1" for k
    proof -
      have "ps \<noteq> []" using Suc.prems(1) by auto
      then have "last ps = ps ! (length ps - 1)" by (simp add: last_conv_nth)
      then show ?thesis using that Suc.prems(2) by (auto simp: swap_out_def nth_butlast nth_list_update)
    qed
    have "mset (remove_spec s p (swap_out p ps)) = filter_mset (\<lambda>p. fst p \<noteq> s) (mset (swap_out p ps))"
      using Suc.prems(1) k by (intro Suc.IH) (auto simp: length_swap_out)
    then show ?thesis using True mset_swap_out [of p ps] Suc.prems(1) by simp
  next
    case False
    then have "\<forall>k. p \<le> k \<longrightarrow> k < length ps \<longrightarrow> fst (ps ! k) \<noteq> s" using Suc.prems(2) by (metis Suc_leI le_neq_implies_less)
    then show ?thesis using False Suc.IH [of ps] Suc.prems(1) by simp
  qed
qed

lemma remove_loop_ok:
  assumes "owns ts i" "n \<le> in_property_count i"
  obtains i' where "remove_loop s n i = (Inr (), i')" "owns ts i'" "props_of i' = remove_spec s n (props_of i)"
    "map (text_of (in_heap i')) ts = map (text_of (in_heap i)) ts"
    "in_sections i' = in_sections i" "in_section_count i' = in_section_count i" "length (in_properties i') = length (in_properties i)"
  using assms
proof (induction n arbitrary: i thesis)
  case 0
  show ?case by (rule 0(1) [of i]) (simp_all add: 0)
next
  case (Suc p)
  have sec: "fst (props_of i ! p) = pr_section (in_properties i ! p)"
    using Suc.prems(2,3) by (simp add: props_of_def used_properties_def owns_def aprop_def)
  show ?case
  proof (cases "pr_section (in_properties i ! p) = s")
    case True
    obtain j where j: "drop_property p i = (Inr (), j)" "owns ts j" "props_of j = swap_out p (props_of i)"
      "map (text_of (in_heap j)) ts = map (text_of (in_heap i)) ts"
      "in_sections j = in_sections i" "in_section_count j = in_section_count i" "length (in_properties j) = length (in_properties i)"
      "in_property_count j = in_property_count i - 1"
      using Suc.prems(2,3) drop_property_ok [of ts i p] by (metis Suc_le_lessD)
    have "p \<le> in_property_count j" using j(8) Suc.prems(3) by simp
    then obtain i' where i': "remove_loop s p j = (Inr (), i')" "owns ts i'" "props_of i' = remove_spec s p (props_of j)"
      "map (text_of (in_heap i')) ts = map (text_of (in_heap j)) ts"
      "in_sections i' = in_sections j" "in_section_count i' = in_section_count j" "length (in_properties i') = length (in_properties j)"
      using Suc.IH [OF _ j(2)] by metis
    show ?thesis
      by (rule Suc.prems(1) [of i']) (use i' j True sec in \<open>simp_all add: c_bind_def c_then_def del: map_eq_conv\<close>)
  next
    case False
    obtain i' where "remove_loop s p i = (Inr (), i')" "owns ts i'" "props_of i' = remove_spec s p (props_of i)"
      "map (text_of (in_heap i')) ts = map (text_of (in_heap i)) ts"
      "in_sections i' = in_sections i" "in_section_count i' = in_section_count i" "length (in_properties i') = length (in_properties i)"
      using Suc.IH [OF _ Suc.prems(2)] Suc.prems(3) by (metis Suc_leD)
    then show ?thesis
      by (intro Suc.prems(1) [of i']) (use False sec in \<open>simp_all add: c_bind_def c_then_def del: map_eq_conv\<close>)
  qed
qed

section \<open>Operations on the content\<close>

type_synonym content = "string list \<times> aprop list"

definition content :: "ini \<Rightarrow> content" where
  "content i = (sections_of i, props_of i)"

datatype ini_op =
    Section_add string
  | Property_add int string string
  | Section_remove int
  | Property_remove int int
  | Section_name_set int string

definition run_op :: "ini_mem \<Rightarrow> ini_op \<Rightarrow> (ini, unit) comp" where
  "run_op mem x = (case x of
     Section_add n \<Rightarrow> c_then (ini_section_add mem n 0) (c_ret ())
   | Property_add s n v \<Rightarrow> ini_property_add mem s n 0 v 0
   | Section_remove s \<Rightarrow> ini_section_remove s
   | Property_remove s k \<Rightarrow> ini_property_remove s k
   | Section_name_set s n \<Rightarrow> ini_section_name_set s n 0)"

text \<open>The positions of the properties of a section.\<close>

definition positions :: "('a \<Rightarrow> int) \<Rightarrow> int \<Rightarrow> 'a list \<Rightarrow> nat list" where
  "positions f s xs = filter (\<lambda>j. f (xs ! j) = s) [0..<length xs]"

definition spec_op :: "ini_op \<Rightarrow> content \<Rightarrow> content" where
  "spec_op x c = (case c of (ss, ps) \<Rightarrow>
     case x of
       Section_add n \<Rightarrow> (ss @ [n], ps)
     | Property_add s n v \<Rightarrow> (ss, if 0 \<le> s \<and> s < int (length ss) then ps @ [(s, n, v)] else ps)
     | Section_remove s \<Rightarrow>
         if 0 \<le> s \<and> s < int (length ss)
         then (swap_out (nat s) ss, map (\<lambda>p. if fst p = int (length ss) - 1 then (s, snd p) else p) (remove_spec s (length ps) ps))
         else c
     | Property_remove s k \<Rightarrow>
         (ss, if 0 \<le> s \<and> s < int (length ss) \<and> 0 \<le> k \<and> k < int (length (positions fst s ps))
              then swap_out (positions fst s ps ! nat k) ps else ps)
     | Section_name_set s n \<Rightarrow> (if 0 \<le> s \<and> s < int (length ss) then ss[nat s := n] else ss, ps))"

lemma positions_Cons: "positions f s (x # xs) = (if f x = s then [0] else []) @ map Suc (positions f s xs)"
  by (simp add: positions_def upt_conv_Cons map_Suc_upt [symmetric] filter_map comp_def del: upt_Suc)

lemma positions_map: "positions f s (map g xs) = positions (\<lambda>x. f (g x)) s xs"
  by (auto simp: positions_def intro: filter_cong)

lemma index_loop_eq:
  "index_loop xs s k p property =
     (if p \<le> property \<and> property < p + int (length (positions pr_section s xs)) then k + int (positions pr_section s xs ! nat (property - p)) else -1)"
proof (induction xs arbitrary: k p)
  case (Cons x xs)
  have "nat (property - p) = Suc (nat (property - (p + 1)))" if "p < property" using that by simp
  then show ?case using Cons by (auto simp: positions_Cons)
qed (simp add: positions_def)

lemma property_index_eq:
  "ini_internal_property_index i s k =
     (if valid_section i s \<and> 0 \<le> k \<and> k < int (length (positions pr_section s (used_properties i)))
      then int (positions pr_section s (used_properties i) ! nat k) else -1)"
  by (simp add: ini_internal_property_index_def index_loop_eq flip: used_properties_def)

lemma ini_ok_owns: "ini_ok i \<Longrightarrow> owns (used_sections i) i"
  by (simp add: ini_ok_def owns_def)

lemma length_sections: "ini_ok i \<Longrightarrow> length (sections_of i) = in_section_count i"
  by (simp add: ini_ok_def sections_of_def used_sections_def)

lemma fst_aprop [simp]: "fst (aprop h p) = pr_section p"
  by (simp add: aprop_def)

lemma sections_props: "map fst (props_of i) = map pr_section (used_properties i)"
  by (simp add: props_of_def)

lemma ini_property_remove_ok:
  assumes "ini_ok i"
  shows "\<exists>i'. ini_property_remove s k i = (Inr (), i') \<and> ini_ok i' \<and> content i' = spec_op (Property_remove s k) (content i)"
proof (cases "valid_section i s \<and> 0 \<le> k \<and> k < int (length (positions pr_section s (used_properties i)))")
  case True
  let ?js = "positions pr_section s (used_properties i)"
  let ?p = "?js ! nat k"
  have js: "positions fst s (props_of i) = ?js" by (simp add: props_of_def positions_map)
  have "?p \<in> set ?js" using True by (intro nth_mem) linarith
  then have p: "?p < in_property_count i" by (auto simp: positions_def used_properties_def)
  have idx: "ini_internal_property_index i s k = int ?p"
    using True by (simp add: property_index_eq)
  obtain i' where i': "drop_property ?p i = (Inr (), i')" "owns (used_sections i) i'" "props_of i' = swap_out ?p (props_of i)"
    "map (text_of (in_heap i')) (used_sections i) = map (text_of (in_heap i)) (used_sections i)" "used_properties i' = swap_out ?p (used_properties i)"
    "in_sections i' = in_sections i" "in_section_count i' = in_section_count i" "length (in_properties i') = length (in_properties i)"
    by (rule drop_property_ok [OF ini_ok_owns [OF assms] p])
  have sub: "set (swap_out ?p (used_properties i)) \<subseteq> set (used_properties i)"
    using p assms by (intro set_swap_out) (simp add: used_properties_def ini_ok_def)
  have us: "used_sections i' = used_sections i" using i'(6,7) by (simp add: used_sections_def)
  have "in_properties i' \<noteq> []" using i'(8) assms by (metis ini_ok_def length_0_conv)
  then have "ini_ok i'" using assms i' sub us by (auto simp: ini_ok_def owns_def valid_section_def)
  moreover have "content i' = spec_op (Property_remove s k) (content i)"
    using True i'(3,4) us js length_sections [OF assms] by (simp add: content_def spec_op_def sections_of_def valid_section_def)
  ultimately show ?thesis using i'(1) True idx by (simp add: ini_property_remove_def c_bind_def)
next
  case False
  then have "ini_internal_property_index i s k = -1 \<or> \<not> valid_section i s"
    by (auto simp: property_index_eq)
  then have "ini_property_remove s k i = (Inr (), i)" by (auto simp: ini_property_remove_def c_bind_def)
  then show ?thesis
    using False assms length_sections [OF assms] by (auto simp: content_def spec_op_def valid_section_def props_of_def positions_map)
qed

lemma valid_props:
  "(\<forall>p \<in> set (used_properties i). valid_section i (pr_section p)) \<longleftrightarrow> (\<forall>x \<in> set (props_of i). 0 \<le> fst x \<and> fst x < int (in_section_count i))"
  by (simp add: props_of_def valid_section_def)

lemma owned_swap_out:
  assumes "n < length ts"
  shows "large (ts ! n) + owned (swap_out n ts) ps = owned ts ps"
proof -
  have "sum_list (map large ts) = large (ts ! n) + sum_list (map large (swap_out n ts))"
    using mset_swap_out [OF assms] by (simp add: sum_list_image_mset)
  then show ?thesis by (simp add: owned_def ac_simps)
qed

lemma used_renumber:
  assumes "n \<le> length ps"
  shows "map (aprop h) (take n (renumber n old new ps)) = map (\<lambda>p. if fst p = old then (new, snd p) else p) (map (aprop h) (take n ps))"
    "length (renumber n old new ps) = length ps" "sum_list (map plarge (take n (renumber n old new ps))) = sum_list (map plarge (take n ps))"
proof -
  have t: "take n (renumber n old new ps) = map (\<lambda>p. if pr_section p = old then p\<lparr>pr_section := new\<rparr> else p) (take n ps)"
    using assms by (simp add: renumber_def)
  show "map (aprop h) (take n (renumber n old new ps)) = map (\<lambda>p. if fst p = old then (new, snd p) else p) (map (aprop h) (take n ps))"
    by (auto simp: t aprop_def)
  show "sum_list (map plarge (take n (renumber n old new ps))) = sum_list (map plarge (take n ps))"
    unfolding t map_map by (rule arg_cong [of _ _ sum_list], rule map_cong) (auto simp: plarge_def)
qed (use assms in \<open>simp add: renumber_def\<close>)

lemma ini_section_remove_ok:
  assumes "ini_ok i"
  shows "\<exists>i'. ini_section_remove s i = (Inr (), i') \<and> ini_ok i' \<and> content i' = spec_op (Section_remove s) (content i)"
proof (cases "valid_section i s")
  case True
  let ?n = "nat s" and ?ts = "swap_out (nat s) (used_sections i)" and ?c = "in_section_count i"
  have n: "?n < ?c" "?n < length (used_sections i)" "used_sections i ! ?n = in_sections i ! ?n" "int ?n = s"
    using True assms by (auto simp: valid_section_def ini_ok_def used_sections_def)
  have own: "large (in_sections i ! ?n) + owned ?ts (used_properties i) = live (in_heap i)"
    using owned_swap_out [OF n(2), of "used_properties i"] assms n(3) by (simp add: ini_ok_def)
  obtain h where h: "ini_free (tx_large (in_sections i ! ?n)) i = (Inr (), i\<lparr>in_heap := h\<rparr>)" "live h = live (in_heap i) - large (in_sections i ! ?n)"
    "map (text_of h) ?ts = map (text_of (in_heap i)) ?ts" "map (aprop h) (used_properties i) = map (aprop (in_heap i)) (used_properties i)"
    by (rule ini_free_ok [OF subset_mset.eq_refl [OF own]])
  let ?i1 = "i\<lparr>in_heap := h\<rparr>"
  have "live h = owned ?ts (used_properties i)" unfolding h(2) own [symmetric] by simp
  then have o1: "owns ?ts ?i1" using assms by (simp add: owns_def ini_ok_def used_properties_def)
  have p1: "props_of ?i1 = props_of i" using h(4) by (simp add: props_of_def used_properties_def del: map_eq_conv)
  obtain j where j: "remove_loop s (in_property_count i) ?i1 = (Inr (), j)" "owns ?ts j" "props_of j = remove_spec s (in_property_count i) (props_of i)"
    "map (text_of (in_heap j)) ?ts = map (text_of h) ?ts" "in_sections j = in_sections i" "in_section_count j = ?c" "length (in_properties j) = length (in_properties i)"
    using remove_loop_ok [OF o1, of "in_property_count i" s] p1 by auto
  let ?i2 = "j\<lparr>in_section_count := ?c - 1, in_sections := (in_sections i)[?n := in_sections i ! (?c - 1)],
    in_properties := renumber (in_property_count j) (int (?c - 1)) s (in_properties j)\<rparr>"
  have run: "ini_section_remove s i = (Inr (), ?i2)" using True h(1) j(1,5,6) by (simp add: ini_section_remove_def c_bind_def c_then_def)
  have jl: "in_property_count j \<le> length (in_properties j)" using j(2) by (simp add: owns_def)
  note r = used_renumber [OF jl, where old = "int (?c - 1)" and new = s]
  have us: "used_sections ?i2 = ?ts" using take_swap_out [OF n(1), of "in_sections i"] assms by (simp add: used_sections_def ini_ok_def)
  have lp: "length (props_of i) = in_property_count i" using assms by (simp add: props_of_def used_properties_def ini_ok_def)
  have props: "props_of ?i2 = map (\<lambda>p. if fst p = int (?c - 1) then (s, snd p) else p) (remove_spec s (length (props_of i)) (props_of i))"
    using r(1) [where h = "in_heap j"] j(3) lp by (simp add: props_of_def used_properties_def del: map_eq_conv map_map)
  have "used_sections i \<noteq> []" using n(2) by auto
  then have "map (text_of (in_heap i)) ?ts = swap_out ?n (sections_of i)" by (simp add: swap_out_map sections_of_def)
  then have "sections_of ?i2 = swap_out ?n (sections_of i)" using us j(4) h(3) by (simp add: sections_of_def del: map_eq_conv)
  then have "content ?i2 = spec_op (Section_remove s) (content i)"
    using True length_sections [OF assms] props n(1) by (auto simp: content_def spec_op_def valid_section_def of_nat_diff)
  moreover have "ini_ok ?i2"
  proof -
    have set: "set (remove_spec s (length (props_of i)) (props_of i)) = {p \<in> set (props_of i). fst p \<noteq> s}"
      using arg_cong [OF remove_spec_mset [of "length (props_of i)" "props_of i" s], of set_mset] by simp
    have "\<forall>x \<in> set (props_of i). 0 \<le> fst x \<and> fst x < int ?c" using assms by (simp add: ini_ok_def valid_props)
    then have "\<forall>x \<in> set (props_of ?i2). 0 \<le> fst x \<and> fst x < int (in_section_count ?i2)"
      using props set True n by (auto simp: valid_section_def)
    moreover have "owned (used_sections ?i2) (used_properties ?i2) = live (in_heap ?i2)"
      using us j(2) r(3) by (simp add: owned_def owns_def used_properties_def)
    moreover have "in_properties j \<noteq> []" using j(7) assms by (metis ini_ok_def length_0_conv)
    then have "in_properties ?i2 \<noteq> []" using r(2) by (metis ini.select_convs(3) ini.surjective ini.update_convs(1-5) length_0_conv)
    ultimately show ?thesis using assms jl r(2) by (auto simp: ini_ok_def valid_props)
  qed
  ultimately show ?thesis using run by blast
next
  case False
  then have "ini_section_remove s i = (Inr (), i)" by (simp add: ini_section_remove_def c_bind_def)
  then show ?thesis using False assms length_sections [OF assms] by (auto simp: content_def spec_op_def valid_section_def)
qed

end
