(* ===== verification/IniRefine.thy ===== *)
theory IniRefine
  imports IniOk
begin

text \<open>
  Any sequence of operations on an INI object, those that change a property apart, against the operations on its content; and what
  those that change a property do instead.
\<close>

section \<open>Renaming a section\<close>

lemma owned_update:
  assumes "n < length ts"
  shows "owned (ts[n := t]) ps + large (ts ! n) = owned ts ps + large t"
proof -
  have "sum_list (map large ts) = sum_list (map large (take n ts)) + large (ts ! n) + sum_list (map large (drop (Suc n) ts))"
    by (subst id_take_nth_drop [OF assms]) (simp add: ac_simps)
  then show ?thesis using assms by (simp add: owned_def upd_conv_take_nth_drop ac_simps)
qed

lemma ini_section_name_set_ok:
  assumes "ini_ok i"
  shows "\<exists>i'. ini_section_name_set s n 0 i = (Inr (), i') \<and> ini_ok i' \<and> content i' = spec_op (Section_name_set s n) (content i)"
proof (cases "valid_section i s")
  case True
  let ?k = "nat s" and ?us = "used_sections i" and ?ps = "used_properties i" and ?rest = "(used_sections i)[nat s := \<lparr>tx_small = '''', tx_large = None\<rparr>]"
  have k: "?k < in_section_count i" "?k < length ?us" "?us ! ?k = in_sections i ! ?k" "?k < length (in_sections i)"
    using True assms by (auto simp: valid_section_def ini_ok_def used_sections_def)
  have own: "large (in_sections i ! ?k) + owned ?rest ?ps = live (in_heap i)"
    using owned_update [OF k(2), of "\<lparr>tx_small = '''', tx_large = None\<rparr>" ?ps] assms k(3) by (simp add: ini_ok_def large_def ac_simps)
  obtain h where h: "ini_free (tx_large (in_sections i ! ?k)) i = (Inr (), i\<lparr>in_heap := h\<rparr>)" "live h = live (in_heap i) - large (in_sections i ! ?k)"
    "map (text_of h) ?rest = map (text_of (in_heap i)) ?rest" "map (aprop h) ?ps = map (aprop (in_heap i)) ?ps"
    by (rule ini_free_ok [OF subset_mset.eq_refl [OF own]])
  obtain t ys where t: "store_text NAME_SIZE n (the_length n 0) ((in_sections i ! ?k)\<lparr>tx_large := None\<rparr>) (i\<lparr>in_heap := h\<rparr>)
      = (Inr t, i\<lparr>in_heap := h @ ys\<rparr>)" "text_of (h @ ys) t = n" "live (h @ ys) = live h + large t"
    using store_text_ok [of "(in_sections i ! ?k)\<lparr>tx_large := None\<rparr>" NAME_SIZE n "the_length n 0" "i\<lparr>in_heap := h\<rparr>"] by (auto simp: the_length_def)
  let ?i = "i\<lparr>in_sections := (in_sections i)[?k := t], in_heap := h @ ys\<rparr>"
  have lh: "live h = owned ?rest ?ps" unfolding h(2) own [symmetric] by simp
  note c = content_append [OF subset_mset.eq_refl [OF lh [symmetric]], of ys]
  have u: "used_sections ?i = ?us[?k := t]" "used_properties ?i = ?ps" by (simp_all add: used_sections_def used_properties_def take_update_swap)
  have "map (text_of (h @ ys)) ?rest = map (text_of (in_heap i)) ?rest" using c(1) h(3) by (simp del: map_eq_conv)
  then have "(map (text_of (h @ ys)) ?rest)[?k := n] = (map (text_of (in_heap i)) ?rest)[?k := n]" by (rule arg_cong)
  then have "sections_of ?i = (sections_of i)[?k := n]" unfolding sections_of_def u(1) map_update using t(2) by simp
  moreover have "props_of ?i = props_of i" using c(2) h(4) u by (simp add: props_of_def del: map_eq_conv)
  ultimately have "content ?i = spec_op (Section_name_set s n) (content i)"
    using True length_sections [OF assms] by (simp add: content_def spec_op_def valid_section_def)
  moreover have "owned (?us[?k := t]) ?ps = live (h @ ys)"
  proof -
    have "owned ?us ?ps = owned ?rest ?ps + large (?us ! ?k)"
      using owned_update [OF k(2), of "\<lparr>tx_small = '''', tx_large = None\<rparr>" ?ps] by (simp add: large_def)
    then have "owned (?us[?k := t]) ?ps + large (?us ! ?k) = owned ?rest ?ps + large t + large (?us ! ?k)"
      using owned_update [OF k(2), of t ?ps] by (simp only: ac_simps)
    then show ?thesis using lh t(3) by (simp only: add_right_cancel)
  qed
  then have "ini_ok ?i" using assms u by (simp add: ini_ok_def valid_section_def)
  moreover have "ini_section_name_set s n 0 i = (Inr (), ?i)"
    using True h(1) t(1) by (simp add: ini_section_name_set_def c_bind_def c_then_def)
  ultimately show ?thesis by blast
next
  case False
  then show ?thesis
    using assms length_sections [OF assms] by (auto simp: ini_section_name_set_def c_bind_def content_def spec_op_def valid_section_def)
qed

section \<open>Destroying\<close>

lemma free_properties_ok:
  assumes "owned ts ps = live (in_heap i)"
  shows "\<exists>h. c_each free_property ps i = (Inr (), i\<lparr>in_heap := h\<rparr>) \<and> owned ts [] = live h"
  using assms
proof (induction ps arbitrary: i)
  case Nil
  then show ?case by (intro exI [of _ "in_heap i"]) simp
next
  case (Cons p ps)
  have own: "plarge p + owned ts ps = live (in_heap i)" using Cons.prems by (simp add: owned_def ac_simps)
  obtain h where h: "free_property p i = (Inr (), i\<lparr>in_heap := h\<rparr>)" "live h = live (in_heap i) - plarge p"
    by (rule free_property_ok [OF subset_mset.eq_refl [OF own]])
  have "owned ts ps = live (in_heap (i\<lparr>in_heap := h\<rparr>))" using h(2) unfolding own [symmetric] by simp
  from Cons.IH [OF this] h(1) show ?case by (auto simp: c_then_def c_bind_def)
qed

lemma free_sections_ok:
  assumes "owned ts [] = live (in_heap i)"
  shows "\<exists>h. c_each (\<lambda>t. ini_free (tx_large t)) ts i = (Inr (), i\<lparr>in_heap := h\<rparr>) \<and> live h = {#}"
  using assms
proof (induction ts arbitrary: i)
  case Nil
  then show ?case by (intro exI [of _ "in_heap i"]) (simp add: owned_def)
next
  case (Cons t ts)
  have own: "large t + owned ts [] = live (in_heap i)" using Cons.prems by (simp add: owned_def ac_simps)
  obtain h where h: "ini_free (tx_large t) i = (Inr (), i\<lparr>in_heap := h\<rparr>)" "live h = live (in_heap i) - large t"
    by (rule ini_free_ok [OF subset_mset.eq_refl [OF own]])
  have "owned ts [] = live (in_heap (i\<lparr>in_heap := h\<rparr>))" using h(2) unfolding own [symmetric] by simp
  from Cons.IH [OF this] h(1) show ?case by (auto simp: c_then_def c_bind_def)
qed

lemma ini_destroy_ok:
  assumes "ini_ok i"
  shows "\<exists>j. ini_destroy i = (Inr (), j) \<and> set (in_heap j) \<subseteq> {None}"
proof -
  have "owned (used_sections i) (used_properties i) = live (in_heap i)" using assms by (simp add: ini_ok_def)
  from free_properties_ok [OF this] obtain h where h: "c_each free_property (used_properties i) i = (Inr (), i\<lparr>in_heap := h\<rparr>)" "owned (used_sections i) [] = live h"
    by blast
  from free_sections_ok [of "used_sections i" "i\<lparr>in_heap := h\<rparr>"] h(2) obtain g where
    g: "c_each (\<lambda>t. ini_free (tx_large t)) (used_sections i) (i\<lparr>in_heap := h\<rparr>) = (Inr (), i\<lparr>in_heap := g\<rparr>)" "live g = {#}" by auto
  have "b = None" if "b \<in> set g" for b
  proof (rule ccontr)
    assume "b \<noteq> None"
    with that obtain p where "p < length g" "g ! p \<noteq> None" by (metis in_set_conv_nth)
    then have "p \<in># live g" by (simp add: in_live)
    then show False using g(2) by simp
  qed
  then have "set g \<subseteq> {None}" by blast
  then show ?thesis using h(1) g(1) by (simp add: ini_destroy_def c_bind_def c_then_def used_sections_def used_properties_def)
qed

section \<open>Sequences of operations\<close>

lemma run_op_ok:
  assumes "ini_ok i"
  shows "\<exists>i'. run_op mem x i = (Inr (), i') \<and> ini_ok i' \<and> content i' = spec_op x (content i)"
proof (cases x)
  case (Section_add n)
  obtain i' where "ini_section_add mem n 0 i = (Inr (int (in_section_count i)), i')" "ini_ok i'"
    "sections_of i' = sections_of i @ [take (the_length n 0) n]" "props_of i' = props_of i"
    by (rule ini_section_add_ok [OF assms])
  then show ?thesis using Section_add by (simp add: run_op_def c_then_def c_bind_def content_def spec_op_def the_length_def)
next
  case (Property_add s n v)
  show ?thesis
  proof (cases "valid_section i s")
    case True
    obtain i' where "ini_property_add mem s n 0 v 0 i = (Inr (), i')" "ini_ok i'" "sections_of i' = sections_of i"
      "props_of i' = props_of i @ [(s, take (the_length n 0) n, take (the_length v 0) v)]"
      by (rule ini_property_add_ok [OF assms True])
    then show ?thesis
      using Property_add True length_sections [OF assms] by (simp add: run_op_def content_def spec_op_def the_length_def valid_section_def)
  next
    case False
    then show ?thesis
      using Property_add assms length_sections [OF assms]
      by (auto simp: run_op_def ini_property_add_def c_bind_def content_def spec_op_def valid_section_def)
  qed
qed (use ini_section_remove_ok [OF assms] ini_property_remove_ok [OF assms] ini_section_name_set_ok [OF assms] in \<open>simp_all add: run_op_def\<close>)

lemma run_ops_ok:
  "ini_ok i \<Longrightarrow> \<exists>i'. c_each (run_op mem) xs i = (Inr (), i') \<and> ini_ok i' \<and> content i' = fold spec_op xs (content i)"
proof (induction xs arbitrary: i)
  case (Cons x xs)
  from run_op_ok [OF Cons.prems, of mem x] obtain i' where 1: "run_op mem x i = (Inr (), i')" "ini_ok i'" "content i' = spec_op x (content i)" by blast
  from Cons.IH [OF 1(2)] 1 show ?case by (auto simp: c_then_def c_bind_def)
qed simp

text \<open>C26: Whatever sections and properties are added, removed and renamed, in any order and however the arrays grow, no operation fails, the content of the
  object is what the operations do to a list of names and a list of properties, and destroying it frees every block exactly once.\<close>

theorem ini_refines_content:
  "\<exists>i j. c_each (run_op mem) xs (ini_create mem) = (Inr (), i) \<and> ini_ok i \<and> content i = fold spec_op xs ([''''], []) \<and>
     ini_destroy i = (Inr (), j) \<and> set (in_heap j) \<subseteq> {None}"
  using run_ops_ok [OF ini_create_ok(1) [of mem], of mem xs] ini_destroy_ok ini_create_ok(2,3) [of mem] by (fastforce simp: content_def)

section \<open>Changing a property\<close>

lemma map_upd_same: "f x = f (xs ! n) \<Longrightarrow> (map f xs)[n := f x] = map f xs"
  by (cases "n < length xs") (simp_all add: list_eq_iff_nth_eq nth_list_update)

lemma positions_cong: "map f xs = map f ys \<Longrightarrow> positions f s xs = positions f s ys"
  using positions_map [of id s f xs] positions_map [of id s f ys] by simp

text \<open>Setting a short value where the property had a long one succeeds but leaves the pointer to the freed block in place, so that reading the value
  afterwards, and destroying the object, use memory that has been freed.\<close>

lemma value_set_dangles:
  assumes "ini_ok i" "valid_section i s" "0 \<le> k" "k < int (length (positions pr_section s (used_properties i)))"
    and "tx_large (pr_value (used_properties i ! (positions pr_section s (used_properties i) ! nat k))) = Some b"
    and "length v + 1 < VALUE_SIZE" "in_property_count i < length (in_properties i)"
  shows "\<exists>i'. ini_property_value_set s k v 0 i = (Inr (), i') \<and> fst (ini_property_value s k i') = Inl UseAfterFree"
proof -
  let ?us = "used_properties i"
  let ?p = "positions pr_section s ?us ! nat k" and ?n = "in_property_count i"
  have "?p \<in> set (positions pr_section s ?us)" using assms(3,4) by (intro nth_mem) linarith
  then have p: "?p < ?n" "?us ! ?p = in_properties i ! ?p" "?p < length ?us" by (auto simp: positions_def used_properties_def)
  let ?q = "in_properties i ! ?p"
  have idx: "ini_internal_property_index i s k = int ?p"
    using assms(2-4) by (simp add: property_index_eq)
  have q: "tx_large (pr_value ?q) = Some b" using assms(5) p(2) by simp
  have "large (pr_value ?q) \<subseteq># live (in_heap i)"
    using owned_text(3) [of "used_sections i" ?us "live (in_heap i)" ?q] assms(1) p nth_mem [OF p(3)] by (simp add: ini_ok_def)
  then have b: "b < length (in_heap i)" "in_heap i ! b \<noteq> None" using q by (simp_all add: large_def in_live)
  let ?ps = "(in_properties i)[?n := (in_properties i ! ?n)\<lparr>pr_value := (pr_value (in_properties i ! ?n))\<lparr>tx_large := None\<rparr>\<rparr>]"
  let ?i = "i\<lparr>in_heap := (in_heap i)[b := None], in_properties := ?ps[?p := (?ps ! ?p)\<lparr>pr_value := (pr_value ?q)\<lparr>tx_small := v\<rparr>\<rparr>]\<rparr>"
  have set: "ini_property_value_set s k v 0 i = (Inr (), ?i)"
    using assms(2,6,7) idx q b p(1)
    by (simp add: ini_property_value_set_def c_bind_def c_then_def Let_def ini_free_def upd_slot_def store_text_def the_length_def)
  have "map pr_section (used_properties ?i) = map pr_section ?us"
    using p(1) assms(7) by (simp add: used_properties_def flip: take_map) (simp add: map_update map_upd_same)
  then have "positions pr_section s (used_properties ?i) = positions pr_section s ?us"
    by (rule positions_cong)
  then have idx': "ini_internal_property_index ?i s k = int ?p"
    using assms(2-4) unfolding property_index_eq valid_section_def by simp
  have "tx_large (pr_value (in_properties ?i ! ?p)) = Some b" using p(1) assms(7) q by simp
  then have "fst (ini_property_value s k ?i) = Inl UseAfterFree"
    using assms(2) idx' b(1) by (simp add: ini_property_value_def c_bind_def valid_section_def Let_def ini_text_def read_text_def)
  then show ?thesis using set by blast
qed

lemma value_set_dangles_witness:
  "\<exists>i i'. ini_ok i \<and> ini_property_value_set 0 0 ''short'' 0 i = (Inr (), i') \<and> fst (ini_property_value 0 0 i') = Inl UseAfterFree"
proof -
  define t where "t = \<lparr>tx_small = '''', tx_large = None\<rparr>"
  define mem where "mem = \<lparr>mem_section = (\<lambda>_ _. t), mem_property = (\<lambda>_ _. \<lparr>pr_section = 0, pr_name = t, pr_value = t\<rparr>)\<rparr>"
  define v where "v = replicate 70 (CHR ''x'')"
  have c: "valid_section (ini_create mem) 0" "in_property_count (ini_create mem) = 0" "in_heap (ini_create mem) = []" "in_section_count (ini_create mem) = 1"
    "in_properties (ini_create mem) = replicate 256 \<lparr>pr_section = 0, pr_name = t, pr_value = t\<rparr>"
    by (simp_all add: ini_create_def valid_section_def new_array_def mem_def map_replicate_const)
  let ?p = "\<lparr>pr_section = 0, pr_name = t\<lparr>tx_small := ''k''\<rparr>, pr_value = t\<lparr>tx_large := Some 0\<rparr>\<rparr>"
  define i where "i = (ini_create mem)\<lparr>in_properties := (in_properties (ini_create mem))[0 := ?p], in_property_count := 1, in_heap := [Some v]\<rparr>"
  have run: "ini_property_add mem 0 ''k'' 0 v 0 (ini_create mem) = (Inr (), i)"
    using c by (simp add: ini_property_add_def c_bind_def c_then_def Let_def grow_def store_text_def ini_malloc_def the_length_def v_def t_def i_def)
  obtain j where "ini_property_add mem 0 ''k'' 0 v 0 (ini_create mem) = (Inr (), j)" "ini_ok j"
    by (rule ini_property_add_ok [OF ini_create_ok(1) c(1)])
  then have ok: "ini_ok i" using run by simp
  have u: "used_properties i = [?p]" using c(5) by (simp add: used_properties_def i_def take_Suc) (simp add: replicate_Suc [of 255, simplified])
  have "positions pr_section 0 (used_properties i) = [0]" unfolding u by (simp add: positions_def)
  then show ?thesis
    using value_set_dangles [OF ok, of 0 0 0 "''short''"] ok u c by (auto simp: i_def valid_section_def)
qed

end
