(* ===== verification/IniText.thy ===== *)
theory IniText
  imports IniRefine
begin

text \<open>
  Writing an INI object to a buffer and reading it back.
\<close>

section \<open>Writing\<close>

text \<open>The state of the writer when it has put out the text \<open>T\<close>.\<close>

definition wrote :: "nat \<Rightarrow> string option \<Rightarrow> string \<Rightarrow> saver" where
  "wrote room data T = (map_option (\<lambda>d. take room T @ drop (length T) d) data, length T)"

lemma snd_wrote [simp]: "snd (wrote room data T) = length T"
  by (simp add: wrote_def)

definition fits :: "nat \<Rightarrow> string option \<Rightarrow> bool" where
  "fits room data \<longleftrightarrow> (\<forall>d. data = Some d \<longrightarrow> length d = room)"

lemma emit_wrote:
  assumes "fits room data"
  shows "emit room c (wrote room data T) = wrote room data (T @ [c])"
proof (cases data)
  case (Some d)
  then have d: "length d = room" using assms by (simp add: fits_def)
  show ?thesis
  proof (cases "length T < room")
    case True
    then have "drop (length T) d = d ! length T # drop (Suc (length T)) d" using d by (simp add: Cons_nth_drop_Suc)
    then show ?thesis using Some True by (simp add: emit_def wrote_def list_update_append)
  qed (use Some d in \<open>simp add: emit_def wrote_def\<close>)
qed (simp add: emit_def wrote_def)

lemma emits_wrote: "fits room data \<Longrightarrow> emits room cs (wrote room data T) = (Inr (), wrote room data (T @ cs))"
proof (induction cs arbitrary: T)
  case (Cons c cs)
  from Cons.IH [OF Cons.prems, of "T @ [c]"] show ?case by (simp add: emits_def emit_wrote [OF Cons.prems])
qed (simp add: emits_def)

definition print_prop :: "int \<Rightarrow> aprop \<Rightarrow> string" where
  "print_prop s p = (case p of (t, n, v) \<Rightarrow> if t = s then n @ ''='' @ v @ [NL] else [])"

definition print_section :: "content \<Rightarrow> nat \<Rightarrow> string \<Rightarrow> string" where
  "print_section c s T =
     (let n = fst c ! s; T' = T @ (if n \<noteq> [] then ''['' @ n @ '']'' @ [NL] else []) @ concat (map (print_prop (int s)) (snd c))
      in if T' \<noteq> [] then T' @ [NL] else T')"

definition ini_print :: "content \<Rightarrow> string" where
  "ini_print c = fold (print_section c) [0..<length (fst c)] []"

lemma save_properties:
  assumes "fits room data" "\<forall>p \<in> set ps. large (pr_name p) \<subseteq># live (in_heap i) \<and> large (pr_value p) \<subseteq># live (in_heap i)"
  shows "c_each (save_property i room s) ps (wrote room data T) =
    (Inr (), wrote room data (T @ concat (map (print_prop s) (map (aprop (in_heap i)) ps))))"
  using assms(2)
proof (induction ps arbitrary: T)
  case (Cons p ps)
  have "save_property i room s p (wrote room data T) = (Inr (), wrote room data (T @ print_prop s (aprop (in_heap i) p)))"
    using Cons.prems by (simp add: save_property_def read_text_live lift_fault_def c_bind_def c_then_def emits_wrote [OF assms(1)] print_prop_def aprop_def)
  then show ?case using Cons by (simp add: c_then_def c_bind_def)
qed simp

lemma save_sections:
  assumes "fits room data" "ini_ok i" "set xs \<subseteq> {0..<in_section_count i}"
  shows "c_each (save_section i room) xs (wrote room data T) = (Inr (), wrote room data (fold (print_section (content i)) xs T))"
  using assms(3)
proof (induction xs arbitrary: T)
  case (Cons s xs)
  have ow: "owned (used_sections i) (used_properties i) \<subseteq># live (in_heap i)" using assms(2) by (simp add: ini_ok_def)
  have s: "s < length (used_sections i)" "used_sections i ! s = in_sections i ! s" using Cons.prems assms(2) by (auto simp: used_sections_def ini_ok_def)
  then have t: "read_text (in_heap i) (in_sections i ! s) = Inr (sections_of i ! s)"
    using owned_text(1) [OF ow, of "in_sections i ! s"] nth_mem [OF s(1)] by (simp add: read_text_live sections_of_def)
  have "\<forall>p \<in> set (used_properties i). large (pr_name p) \<subseteq># live (in_heap i) \<and> large (pr_value p) \<subseteq># live (in_heap i)"
    using owned_text(2,3) [OF ow] by blast
  note props = save_properties [OF assms(1) this, of "int s", unfolded used_properties_def]
  have "save_section i room s (wrote room data T) = (Inr (), wrote room data (print_section (content i) s T))"
    using t by (simp add: save_section_def lift_fault_def c_bind_def c_then_def emits_wrote [OF assms(1)] props print_section_def content_def
        props_of_def used_properties_def Let_def)
  then show ?case using Cons by (simp add: c_then_def c_bind_def)
qed simp

lemma ini_save_ok:
  assumes "ini_ok i" "fits room data"
  shows "ini_save i data room =
    (Inr (length (ini_print (content i)) + 1), map_option (\<lambda>d. take room (ini_print (content i) @ [NUL]) @ drop (length (ini_print (content i)) + 1) d) data)"
proof -
  have 0: "(data, 0) = wrote room data []" by (cases data) (simp_all add: wrote_def)
  have n: "length (fst (content i)) = in_section_count i" using length_sections [OF assms(1)] by (simp add: content_def)
  have "c_each (save_section i room) [0..<in_section_count i] (wrote room data []) = (Inr (), wrote room data (ini_print (content i)))"
    using save_sections [OF assms(2,1), of "[0..<in_section_count i]" "[]"] n by (simp add: ini_print_def)
  then show ?thesis
    unfolding ini_save_def 0 by (simp add: c_then_def c_bind_def emits_wrote [OF assms(2)]) (simp add: wrote_def)
qed

section \<open>Reading\<close>

definition section_word :: "string \<Rightarrow> bool" where
  "section_word n \<longleftrightarrow> n \<noteq> [] \<and> CHR '']'' \<notin> set n \<and> NL \<notin> set n \<and> NUL \<notin> set n"

definition name_word :: "string \<Rightarrow> bool" where
  "name_word n \<longleftrightarrow> n \<noteq> [] \<and> \<not> blank (hd n) \<and> hd n \<noteq> CHR '';'' \<and> hd n \<noteq> CHR ''['' \<and> CHR ''='' \<notin> set n \<and> NL \<notin> set n \<and> NUL \<notin> set n"

definition value_word :: "string \<Rightarrow> bool" where
  "value_word v \<longleftrightarrow> v \<noteq> [] \<and> \<not> blank (hd v) \<and> \<not> blank (last v) \<and> NL \<notin> set v \<and> NUL \<notin> set v"

lemma dropWhile_stop: "\<forall>x \<in> set xs. P x \<Longrightarrow> \<not> P y \<Longrightarrow> dropWhile P (xs @ y # ys) = y # ys"
  by (induction xs) auto

lemma takeWhile_stop: "\<forall>x \<in> set xs. P x \<Longrightarrow> \<not> P y \<Longrightarrow> takeWhile P (xs @ y # ys) = xs"
  by (induction xs) auto

lemma ini_value_word:
  assumes "value_word v"
  shows "ini_value (v @ NL # rest) = (v @ NL # rest, int (length v), NL # rest)"
proof -
  obtain c cs where v: "v = c # cs" "\<not> blank c" using assms by (cases v) (auto simp: value_word_def)
  obtain ds d where d: "v = ds @ [d]" "\<not> blank d" using assms by (cases v rule: rev_cases) (auto simp: value_word_def)
  have nl: "\<forall>x \<in> set v. x \<noteq> NL" using assms by (auto simp: value_word_def)
  have "takeWhile (\<lambda>c. c \<noteq> NL) (v @ NL # rest) = v" using nl by (intro takeWhile_stop) auto
  moreover have "trim_end v = v" using d by (simp add: trim_end_def)
  moreover have "takeWhile (\<lambda>c. blank c \<and> c \<noteq> NL) (v @ NL # rest) = []" "dropWhile (\<lambda>c. blank c \<and> c \<noteq> NL) (v @ NL # rest) = v @ NL # rest"
    using v by simp_all
  ultimately show ?thesis unfolding ini_value_def Let_def by simp
qed

lemma ini_item_property:
  assumes "name_word n" "value_word v"
  shows "ini_item (n @ CHR ''='' # v @ NL # rest) =
    (I_property (n @ CHR ''='' # v @ NL # rest) (int (length n)) (v @ NL # rest) (int (length v)), NL # rest)"
proof -
  let ?p = "n @ CHR ''='' # v @ NL # rest"
  have r: "dropWhile (\<lambda>c. c \<noteq> CHR ''='' \<and> c \<noteq> NL) ?p = CHR ''='' # v @ NL # rest"
    using assms(1) by (intro dropWhile_stop) (auto simp: name_word_def)
  have "hd ?p = hd n" using assms(1) by (simp add: name_word_def)
  then have "hd ?p \<noteq> CHR '';''" "hd ?p \<noteq> CHR ''[''" using assms(1) by (simp_all add: name_word_def)
  then show ?thesis unfolding ini_item_def Let_def r by (simp add: ini_value_word [OF assms(2)])
qed

lemma ini_item_section:
  assumes "section_word n"
  shows "ini_item (CHR ''['' # n @ CHR '']'' # rest) = (I_section (n @ CHR '']'' # rest) (int (length n)), rest)"
proof -
  have "dropWhile (\<lambda>c. c \<noteq> CHR '']'' \<and> c \<noteq> NL) (n @ CHR '']'' # rest) = CHR '']'' # rest"
    using assms by (intro dropWhile_stop) (auto simp: section_word_def)
  then show ?thesis by (simp add: ini_item_def Let_def)
qed

lemma ini_loop_blank: "blank c \<Longrightarrow> ini_loop mem s (c # r) = ini_loop mem s r"
  by (subst ini_loop.simps, subst (2) ini_loop.simps) simp

lemma ini_loop_item: "\<not> blank (hd p) \<Longrightarrow> p \<noteq> [] \<Longrightarrow> ini_loop mem s p = c_bind (ini_do mem s (fst (ini_item p))) (\<lambda>s'. ini_loop mem s' (snd (ini_item p)))"
  by (subst ini_loop.simps) (cases p, simp_all add: Let_def)

lemma blank_NL [simp]: "blank NL"
  by (simp add: blank_def)

text \<open>What reading a line does to the object; \<open>Q\<close> holds of the memory behind the last property.\<close>

definition state_ok :: "(iprop \<Rightarrow> bool) \<Rightarrow> ini \<Rightarrow> bool" where
  "state_ok Q i \<longleftrightarrow> ini_ok i \<and> tail_all Q i"

lemma load_property:
  assumes "state_ok Q i" "valid_section i s" "name_word n" "value_word v" "\<forall>c k. Q (mem_property mem c k)"
  shows "\<exists>i'. ini_loop mem s (n @ ''='' @ v @ [NL] @ rest) i = ini_loop mem s rest i' \<and> state_ok Q i' \<and> sections_of i' = sections_of i \<and>
    in_section_count i' = in_section_count i \<and> props_of i' = props_of i @ [(s, n, v)]"
proof -
  let ?p = "n @ CHR ''='' # v @ NL # rest"
  have len: "the_length ?p (int (length n)) = length n" "the_length (v @ NL # rest) (int (length v)) = length v"
    using assms(3,4) by (simp_all add: the_length_def name_word_def value_word_def)
  have ok: "ini_ok i" "tail_all Q i" using assms(1) by (simp_all add: state_ok_def)
  obtain i' where i': "ini_property_add mem s ?p (int (length n)) (v @ NL # rest) (int (length v)) i = (Inr (), i')" "ini_ok i'" "sections_of i' = sections_of i"
    "props_of i' = props_of i @ [(s, take (the_length ?p (int (length n))) ?p, take (the_length (v @ NL # rest) (int (length v))) (v @ NL # rest))]"
    "in_section_count i' = in_section_count i" "(\<forall>c k. Q (mem_property mem c k)) \<longrightarrow> tail_all Q i \<longrightarrow> tail_all Q i'"
    by (rule ini_property_add_ok [OF ok(1) assms(2)])
  have "\<not> blank (hd ?p)" using assms(3) by (simp add: name_word_def)
  then have "ini_loop mem s ?p i = ini_loop mem s rest i'"
    using i'(1) by (subst ini_loop_item) (simp_all add: ini_item_property [OF assms(3,4)] ini_do_def c_bind_def c_then_def ini_loop_blank)
  then show ?thesis using i' ok assms(5) len by (intro exI [of _ i']) (simp add: state_ok_def)
qed

definition prop_word :: "aprop \<Rightarrow> bool" where
  "prop_word p \<longleftrightarrow> name_word (fst (snd p)) \<and> value_word (snd (snd p))"

definition ini_line :: "string \<times> string \<Rightarrow> string" where
  "ini_line nv = fst nv @ ''='' @ snd nv @ [NL]"

lemma load_lines:
  assumes "state_ok Q i" "valid_section i s" "\<forall>(n, v) \<in> set kvs. name_word n \<and> value_word v" "\<forall>c k. Q (mem_property mem c k)"
  shows "\<exists>i'. ini_loop mem s (concat (map ini_line kvs) @ rest) i = ini_loop mem s rest i' \<and> state_ok Q i' \<and> sections_of i' = sections_of i \<and>
    in_section_count i' = in_section_count i \<and> props_of i' = props_of i @ map (Pair s) kvs"
  using assms(1-3)
proof (induction kvs arbitrary: i)
  case Nil
  then show ?case by (intro exI [of _ i]) simp
next
  case (Cons kv kvs)
  obtain n v where kv: "kv = (n, v)" by fastforce
  then have w: "name_word n" "value_word v" using Cons.prems(3) by simp_all
  obtain j where j: "ini_loop mem s (n @ ''='' @ v @ [NL] @ concat (map ini_line kvs) @ rest) i = ini_loop mem s (concat (map ini_line kvs) @ rest) j"
    "state_ok Q j" "sections_of j = sections_of i" "in_section_count j = in_section_count i" "props_of j = props_of i @ [(s, n, v)]"
    using load_property [OF Cons.prems(1,2) w assms(4), of "concat (map ini_line kvs) @ rest"] by blast
  have "valid_section j s" using Cons.prems(2) j(4) by (simp add: valid_section_def)
  from Cons.IH [OF j(2) this] obtain i' where "ini_loop mem s (concat (map ini_line kvs) @ rest) j = ini_loop mem s rest i'" "state_ok Q i'"
    "sections_of i' = sections_of j" "in_section_count i' = in_section_count j" "props_of i' = props_of j @ map (Pair s) kvs"
    using Cons.prems(3) by auto
  then show ?case using j kv by (intro exI [of _ i']) (simp add: ini_line_def [of "(n, v)"])
qed

lemma load_section:
  assumes "state_ok Q i" "section_word n"
  shows "\<exists>i'. ini_loop mem s (''['' @ n @ '']'' @ [NL] @ rest) i = ini_loop mem (int (in_section_count i)) rest i' \<and> state_ok Q i' \<and>
    sections_of i' = sections_of i @ [n] \<and> in_section_count i' = in_section_count i + 1 \<and> props_of i' = props_of i"
proof -
  let ?r = "n @ CHR '']'' # NL # rest"
  have len: "the_length ?r (int (length n)) = length n" using assms(2) by (simp add: the_length_def section_word_def)
  have ok: "ini_ok i" "tail_all Q i" using assms(1) by (simp_all add: state_ok_def)
  obtain i' where i': "ini_section_add mem ?r (int (length n)) i = (Inr (int (in_section_count i)), i')" "ini_ok i'"
    "sections_of i' = sections_of i @ [take (the_length ?r (int (length n))) ?r]" "props_of i' = props_of i"
    "in_properties i' = in_properties i" "in_property_count i' = in_property_count i" "in_section_count i' = in_section_count i + 1"
    by (rule ini_section_add_ok [OF ok(1)])
  have "ini_loop mem s (CHR ''['' # ?r) i = ini_loop mem (int (in_section_count i)) rest i'"
    using i'(1) by (subst ini_loop_item) (simp_all add: ini_item_section [OF assms(2)] ini_do_def c_bind_def ini_loop_blank blank_def)
  then show ?thesis using i' ok len by (intro exI [of _ i']) (simp add: state_ok_def tail_all_def)
qed

text \<open>The properties of a section, and the part of the file a section takes.\<close>

definition section_group :: "int \<Rightarrow> aprop list \<Rightarrow> (string \<times> string) list" where
  "section_group s ps = map snd (filter (\<lambda>p. fst p = s) ps)"

lemma concat_section_group: "concat (map (print_prop s) ps) = concat (map ini_line (section_group s ps))"
  by (induction ps) (auto simp: print_prop_def section_group_def ini_line_def)

lemma map_Pair_group: "map (Pair s) (section_group s ps) = filter (\<lambda>p. fst p = s) ps"
  by (induction ps) (auto simp: section_group_def)

definition writable :: "content \<Rightarrow> bool" where
  "writable c \<longleftrightarrow> fst c \<noteq> [] \<and> hd (fst c) = [] \<and> list_all section_word (tl (fst c)) \<and> list_all prop_word (snd c)"

lemma group_words: "list_all prop_word ps \<Longrightarrow> \<forall>(n, v) \<in> set (section_group s ps). name_word n \<and> value_word v"
  by (auto simp: section_group_def list_all_iff prop_word_def)

text \<open>The content after reading the file: the properties in the order of their sections.\<close>

definition grouped :: "nat \<Rightarrow> aprop list \<Rightarrow> aprop list" where
  "grouped n ps = concat (map (\<lambda>s. filter (\<lambda>p. fst p = int s) ps) [0..<n])"

lemma ini_loop_newline: "ini_loop mem s (NL # r) = ini_loop mem s r"
  by (simp add: ini_loop_blank)

definition part :: "content \<Rightarrow> nat \<Rightarrow> string" where
  "part c s = ''['' @ fst c ! s @ '']'' @ [NL] @ concat (map ini_line (section_group (int s) (snd c))) @ [NL]"

lemma print_parts:
  assumes "\<forall>s \<in> set xs. fst c ! s \<noteq> []"
  shows "fold (print_section c) xs T = T @ concat (map (part c) xs)"
  using assms by (induction xs arbitrary: T) (simp_all add: print_section_def part_def concat_section_group)

lemma writable_section: "writable c \<Longrightarrow> 0 < s \<Longrightarrow> s < length (fst c) \<Longrightarrow> section_word (fst c ! s)"
  by (cases "fst c") (auto simp: writable_def list_all_iff nth_Cons')

lemma load_parts:
  assumes "writable c" "\<forall>c k. Q (mem_property mem c k)" "state_ok Q i" "0 < m" "m \<le> length (fst c)" "in_section_count i = m"
    and "sections_of i = take m (fst c)" "props_of i = grouped m (snd c)"
  shows "\<exists>i' s'. ini_loop mem s (concat (map (part c) [m..<length (fst c)])) i = ini_loop mem s' [] i' \<and> state_ok Q i' \<and>
    sections_of i' = fst c \<and> props_of i' = grouped (length (fst c)) (snd c)"
  using assms(3-)
proof (induction "length (fst c) - m" arbitrary: m i s)
  case 0
  then show ?case by (intro exI [of _ i] exI [of _ s]) simp
next
  case (Suc d)
  have m: "m < length (fst c)" using Suc.hyps(2) by simp
  let ?R = "concat (map (part c) [Suc m..<length (fst c)])" and ?L = "concat (map ini_line (section_group (int m) (snd c)))"
  have txt_eq: "concat (map (part c) [m..<length (fst c)]) = ''['' @ fst c ! m @ '']'' @ [NL] @ ?L @ NL # ?R"
    using m by (simp add: upt_conv_Cons part_def)
  obtain j where j: "ini_loop mem s (''['' @ fst c ! m @ '']'' @ [NL] @ ?L @ NL # ?R) i = ini_loop mem (int m) (?L @ NL # ?R) j" "state_ok Q j"
    "sections_of j = sections_of i @ [fst c ! m]" "in_section_count j = Suc m" "props_of j = props_of i"
    using load_section [OF Suc.prems(1) writable_section [OF assms(1) Suc.prems(2) m], of mem s "?L @ NL # ?R"] Suc.prems(4) by auto
  have v: "valid_section j (int m)" using j(4) by (simp add: valid_section_def)
  obtain k where k: "ini_loop mem (int m) (?L @ NL # ?R) j = ini_loop mem (int m) (NL # ?R) k" "state_ok Q k" "sections_of k = sections_of j"
    "in_section_count k = Suc m" "props_of k = props_of j @ map (Pair (int m)) (section_group (int m) (snd c))"
    using load_lines [OF j(2) v group_words [of "snd c"] assms(2), of "int m" "NL # ?R"] assms(1) j(4) by (auto simp: writable_def)
  have secs: "sections_of k = take (Suc m) (fst c)" using j(3) k(3) Suc.prems(5) m by (simp add: take_Suc_conv_app_nth)
  have props: "props_of k = grouped (Suc m) (snd c)" using j(5) k(5) Suc.prems(6) by (simp add: grouped_def map_Pair_group)
  have "d = length (fst c) - Suc m" using Suc.hyps(2) by simp
  then obtain i' s' where "ini_loop mem (int m) ?R k = ini_loop mem s' [] i'" "state_ok Q i'" "sections_of i' = fst c" "props_of i' = grouped (length (fst c)) (snd c)"
    using Suc.hyps(1) [of "Suc m" k "int m"] k(2,4) secs props m by auto
  then show ?case unfolding txt_eq j(1) k(1) ini_loop_newline by blast
qed

lemma load_print:
  assumes "writable c" "\<forall>c k. Q (mem_property mem c k)"
  shows "\<exists>i'. ini_loop mem 0 (ini_print c) (ini_create mem) = (Inr (), i') \<and> state_ok Q i' \<and> sections_of i' = fst c \<and> props_of i' = grouped (length (fst c)) (snd c)"
proof -
  let ?L = "concat (map ini_line (section_group 0 (snd c)))" and ?R = "concat (map (part c) [1..<length (fst c)])" and ?i = "ini_create mem"
  have ne: "fst c \<noteq> []" "hd (fst c) = []" "fst c ! 0 = []" "1 \<le> length (fst c)" "take 1 (fst c) = ['''']"
    using assms(1) by (cases "fst c"; simp add: writable_def)+
  obtain N where N: "N = [] \<or> N = [NL]" and pr: "ini_print c = ?L @ N @ ?R"
  proof -
    have "[0..<length (fst c)] = 0 # [1..<length (fst c)]" using ne(1) by (simp add: upt_conv_Cons)
    moreover have "\<forall>s \<in> set [1..<length (fst c)]. fst c ! s \<noteq> []" using writable_section [OF assms(1)] by (auto simp: section_word_def)
    ultimately have "ini_print c = print_section c 0 [] @ ?R" using print_parts [of "[1..<length (fst c)]" c] by (simp add: ini_print_def)
    moreover have "print_section c 0 [] = ?L @ (if ?L \<noteq> [] then [NL] else [])" using ne(3) by (simp add: print_section_def Let_def concat_section_group)
    ultimately show thesis using that [of "if ?L \<noteq> [] then [NL] else []"] by simp
  qed
  have ok: "state_ok Q ?i" "valid_section ?i 0"
    using assms(2) ini_create_ok(1) by (auto simp: state_ok_def tail_all_def ini_create_def new_array_def valid_section_def)
  obtain k where k: "ini_loop mem 0 (?L @ N @ ?R) ?i = ini_loop mem 0 (N @ ?R) k" "state_ok Q k" "sections_of k = ['''']"
    "in_section_count k = 1" "props_of k = map (Pair 0) (section_group 0 (snd c))"
    using load_lines [OF ok group_words [of "snd c"] assms(2), of 0 "N @ ?R"] assms(1) ini_create_ok(2,3) [of mem]
    by (auto simp: writable_def ini_create_def)
  have "props_of k = grouped 1 (snd c)" using k(5) by (simp add: grouped_def map_Pair_group)
  then obtain i' s' where i': "ini_loop mem 0 ?R k = ini_loop mem s' [] i'" "state_ok Q i'" "sections_of i' = fst c"
    "props_of i' = grouped (length (fst c)) (snd c)"
    using load_parts [OF assms k(2), of 1 0] k(3,4) ne by auto
  have "ini_loop mem 0 (N @ ?R) k = ini_loop mem 0 ?R k" using N ini_loop_newline by auto
  moreover have "ini_loop mem s' [] i' = (Inr (), i')" by (subst ini_loop.simps) simp
  ultimately have "ini_loop mem 0 (ini_print c) ?i = (Inr (), i')" unfolding pr k(1) i'(1) by simp
  then show ?thesis using i' by blast
qed

lemma print_no_NUL:
  assumes "writable c"
  shows "NUL \<notin> set (ini_print c)"
proof -
  have props: "NUL \<notin> set (print_prop s p)" if "p \<in> set (snd c)" for s p
    using assms that by (auto simp: writable_def list_all_iff prop_word_def name_word_def value_word_def print_prop_def split: prod.splits)
  have secs: "NUL \<notin> set (fst c ! s)" if "s < length (fst c)" for s
  proof (cases s)
    case 0
    then show ?thesis using assms by (simp add: writable_def flip: hd_conv_nth)
  qed (use writable_section [OF assms _ that] in \<open>simp add: section_word_def\<close>)
  have concat: "NUL \<notin> set (concat (map (print_prop s) (snd c)))" for s using props by auto
  have step: "NUL \<notin> set (print_section c s T)" if "NUL \<notin> set T" "s < length (fst c)" for s T
    using that secs [OF that(2)] concat [of "int s"] unfolding print_section_def Let_def by simp
  have "NUL \<notin> set T \<Longrightarrow> set xs \<subseteq> {0..<length (fst c)} \<Longrightarrow> NUL \<notin> set (fold (print_section c) xs T)" for xs T
    using step by (induction xs arbitrary: T) simp_all
  then show ?thesis by (simp add: ini_print_def)
qed

text \<open>C30: An object whose names and values can be written is read back as it was written: the size that is computed without a buffer is that of the text,
  a buffer of this size receives all of it, and loading the text gives the same sections, each with the same properties in the same order.\<close>

theorem ini_roundtrip:
  assumes "ini_ok i" "writable (content i)"
  shows "\<exists>n tx i'. ini_save i None 0 = (Inr n, None) \<and> (\<forall>d. length d = n \<longrightarrow> ini_save i (Some d) n = (Inr n, Some tx)) \<and>
    ini_load mem tx = Inr i' \<and> ini_ok i' \<and> sections_of i' = sections_of i \<and> props_of i' = grouped (length (sections_of i)) (props_of i)"
proof -
  let ?P = "ini_print (content i)"
  obtain i' where i': "ini_loop mem 0 ?P (ini_create mem) = (Inr (), i')" "ini_ok i'" "sections_of i' = sections_of i"
    "props_of i' = grouped (length (sections_of i)) (props_of i)"
    using load_print [OF assms(2), of "\<lambda>_. True" mem] by (auto simp: state_ok_def content_def)
  have "takeWhile (\<lambda>c. c \<noteq> NUL) ?P = ?P" using print_no_NUL [OF assms(2)] by (auto intro: takeWhile_eq_all_conv [THEN iffD2])
  then have "c_string (?P @ [NUL]) = ?P" by (simp add: c_string_def takeWhile_append)
  then have "ini_load mem (?P @ [NUL]) = Inr i'" using i'(1) by (simp add: ini_load_def)
  moreover have "ini_save i None 0 = (Inr (length ?P + 1), None)" using ini_save_ok [OF assms(1), of 0 None] by (simp add: fits_def)
  moreover have "\<forall>d. length d = length ?P + 1 \<longrightarrow> ini_save i (Some d) (length ?P + 1) = (Inr (length ?P + 1), Some (?P @ [NUL]))"
    using ini_save_ok [OF assms(1), of "length ?P + 1" "Some _"] by (simp add: fits_def)
  ultimately show ?thesis using i'(2-4) by blast
qed

definition zero_mem :: ini_mem where
  "zero_mem = \<lparr>mem_section = (\<lambda>_ _. \<lparr>tx_small = '''', tx_large = None\<rparr>),
     mem_property = (\<lambda>_ _. \<lparr>pr_section = 0, pr_name = \<lparr>tx_small = '''', tx_large = None\<rparr>, pr_value = \<lparr>tx_small = '''', tx_large = None\<rparr>\<rparr>)\<rparr>"

theorem ini_roundtrip_witness:
  "\<exists>i tx i'. content i = (['''', ''perf''], [(1, ''rate'', ''a b''), (0, ''CountAEX'', ''true'')]) \<and> fst (ini_save i None 0) = Inr (length tx) \<and>
    ini_load zero_mem tx = Inr i' \<and> content i' = (['''', ''perf''], [(0, ''CountAEX'', ''true''), (1, ''rate'', ''a b'')])"
proof -
  let ?c = "(['''', ''perf''], [(1, ''rate'', ''a b''), (0, ''CountAEX'', ''true'')]) :: content"
  obtain i where i: "ini_ok i" "content i = fold spec_op [Section_add ''perf'', Property_add 1 ''rate'' ''a b'', Property_add 0 ''CountAEX'' ''true''] ([''''], [])"
    using run_ops_ok [OF ini_create_ok(1) [of zero_mem], of zero_mem] ini_create_ok(2,3) [of zero_mem] by (metis content_def)
  have c: "content i = ?c" using i(2) by (simp add: spec_op_def)
  have w: "writable ?c" by (simp add: writable_def section_word_def prop_word_def name_word_def value_word_def blank_def)
  obtain n tx i' where "ini_save i None 0 = (Inr n, None)" and s: "\<forall>d. length d = n \<longrightarrow> ini_save i (Some d) n = (Inr n, Some tx)"
    and l: "ini_load zero_mem tx = Inr i'" "sections_of i' = sections_of i" "props_of i' = grouped (length (sections_of i)) (props_of i)"
    using ini_roundtrip [OF i(1), of zero_mem] w c by metis
  have "ini_save i (Some (replicate n NUL)) n = (Inr n, Some tx)" using s by simp
  then have "length tx = n"
    using ini_save_ok [OF i(1), of n "Some (replicate n NUL)"] by (auto simp: fits_def)
  moreover have "content i' = (['''', ''perf''], [(0, ''CountAEX'', ''true''), (1, ''rate'', ''a b'')])"
    using l(2,3) c by (simp add: content_def grouped_def)
  ultimately show ?thesis using c l(1) \<open>ini_save i None 0 = (Inr n, None)\<close> by (intro exI [of _ i] exI [of _ tx] exI [of _ i']) simp
qed

end
