(* ===== verification/Config.thy ===== *)
theory Config
  imports IniText
begin

text \<open>
  The configuration of the logger, \<^verbatim>\<open>src/logger/src/config.h\<close> and \<^verbatim>\<open>config.cpp\<close>: the switches it reads from the file \<^verbatim>\<open>.sgxperf\<close>. The file is
  an argument, with \<open>None\<close> if it cannot be opened; so is what new memory holds, as reading a switch reads it.
\<close>

section \<open>The switches\<close>

record config =
  trace_paging :: bool
  record_samples :: bool
  count_aex :: bool
  trace_aex :: bool
  benchmode :: bool

definition Config :: config where
  "Config = \<lparr>trace_paging = False, record_samples = False, count_aex = False, trace_aex = False, benchmode = False\<rparr>"

definition is_sampling_enabled :: "config \<Rightarrow> bool" where
  "is_sampling_enabled c = record_samples c"

definition is_tracing_enabled :: "config \<Rightarrow> bool" where
  "is_tracing_enabled c = trace_paging c"

definition is_sampling_or_tracing_enabled :: "config \<Rightarrow> bool" where
  "is_sampling_or_tracing_enabled c = (record_samples c \<or> trace_paging c)"

definition is_aex_counting_enabled :: "config \<Rightarrow> bool" where
  "is_aex_counting_enabled c = count_aex c"

definition is_aex_tracing_enabled :: "config \<Rightarrow> bool" where
  "is_aex_tracing_enabled c = trace_aex c"

definition is_benchmark_mode_enabled :: "config \<Rightarrow> bool" where
  "is_benchmark_mode_enabled c = benchmode c"

text \<open>One switch: it is looked up with \<open>sizeof\<close> of its name, which counts the terminating zero.\<close>

definition switch_on :: "string \<Rightarrow> (ini, bool) comp" where
  "switch_on name =
     c_bind (ini_find_property 0 name (int (length name) + 1)) (\<lambda>k.
       if k \<noteq> INI_NOT_FOUND
       then c_bind (ini_property_value 0 k) (\<lambda>v. c_ret (case v of None \<Rightarrow> False | Some s \<Rightarrow> take 4 s = ''true''))
       else c_ret False)"

definition read_switches :: "config \<Rightarrow> (ini, config) comp" where
  "read_switches c =
     c_bind (switch_on ''CountAEX'') (\<lambda>b. let c = (if b then c\<lparr>count_aex := True\<rparr> else c) in
     c_bind (switch_on ''TraceAEX'') (\<lambda>b. let c = (if b then c\<lparr>count_aex := True, trace_aex := True\<rparr> else c) in
     c_bind (switch_on ''TracePaging'') (\<lambda>b. let c = (if b then c\<lparr>trace_paging := True\<rparr> else c) in
     c_bind (switch_on ''UseSampling'') (\<lambda>b. let c = (if b then c\<lparr>record_samples := True\<rparr> else c) in
     c_bind (switch_on ''Benchmode'') (\<lambda>b. c_ret (if b then c\<lparr>benchmode := True\<rparr> else c))))))"

definition config_init :: "ini_mem \<Rightarrow> string option \<Rightarrow> config \<Rightarrow> fault + config" where
  "config_init mem file c =
     (case file of
        None \<Rightarrow> Inr c
      | Some data \<Rightarrow> (case ini_load mem data of Inl f \<Rightarrow> Inl f | Inr i \<Rightarrow> fst (read_switches c i)))"

section \<open>Loading any file\<close>

lemma load_total:
  assumes "state_ok Q i" "valid_section i s" "\<forall>c k. Q (mem_property mem c k)"
  shows "\<exists>i'. ini_loop mem s ptr i = (Inr (), i') \<and> state_ok Q i' \<and> in_section_count i \<le> in_section_count i' \<and> (s \<noteq> 0 \<longrightarrow> section_group 0 (props_of i') = section_group 0 (props_of i))"
  using assms
proof (induction mem s ptr arbitrary: i rule: ini_loop.induct)
  case (1 mem s ptr)
  show ?case
  proof (cases "dropWhile blank ptr = []")
    case True
    then show ?thesis using "1.prems"(1) by (subst ini_loop.simps) simp
  next
    case False
    let ?p = "dropWhile blank ptr"
    have ok: "ini_ok i" "tail_all Q i" using "1.prems"(1) by (simp_all add: state_ok_def)
    have run: "ini_loop mem s ptr = c_bind (ini_do mem s (fst (ini_item ?p))) (\<lambda>s'. ini_loop mem s' (snd (ini_item ?p)))"
      using False by (subst ini_loop.simps) (simp only: Let_def if_False)
    have "\<exists>s' j. ini_do mem s (fst (ini_item ?p)) i = (Inr s', j) \<and> state_ok Q j \<and> valid_section j s' \<and> in_section_count i \<le> in_section_count j \<and>
      (s \<noteq> 0 \<longrightarrow> s' \<noteq> 0 \<and> section_group 0 (props_of j) = section_group 0 (props_of i))"
    proof (cases "fst (ini_item ?p)")
      case I_none
      then show ?thesis using "1.prems" by (simp add: ini_do_def)
    next
      case (I_section start l)
      obtain j where "ini_section_add mem start l i = (Inr (int (in_section_count i)), j)" "ini_ok j" "props_of j = props_of i"
        "in_properties j = in_properties i" "in_property_count j = in_property_count i" "in_section_count j = in_section_count i + 1"
        by (rule ini_section_add_ok [OF ok(1)])
      then show ?thesis
        using I_section ok(2) "1.prems"(2) by (simp add: ini_do_def state_ok_def tail_all_def valid_section_def)
    next
      case (I_property start l start2 l2)
      obtain j where "ini_property_add mem s start l start2 l2 i = (Inr (), j)" "ini_ok j"
        "props_of j = props_of i @ [(s, take (the_length start l) start, take (the_length start2 l2) start2)]"
        "in_section_count j = in_section_count i" "(\<forall>c k. Q (mem_property mem c k)) \<longrightarrow> tail_all Q i \<longrightarrow> tail_all Q j"
        by (rule ini_property_add_ok [OF ok(1) "1.prems"(2)])
      then show ?thesis
        using I_property ok(2) "1.prems"(2,3) by (simp add: ini_do_def c_then_def c_bind_def state_ok_def valid_section_def section_group_def)
    qed
    then obtain s' j where j: "ini_do mem s (fst (ini_item ?p)) i = (Inr s', j)" "state_ok Q j" "valid_section j s'" "in_section_count i \<le> in_section_count j"
      "s \<noteq> 0 \<longrightarrow> s' \<noteq> 0 \<and> section_group 0 (props_of j) = section_group 0 (props_of i)" by blast
    from "1.IH" [OF refl False j(2,3) "1.prems"(3)] j show ?thesis unfolding run by (auto simp: c_bind_def)
  qed
qed

section \<open>Looking up a switch\<close>

lemma lower_NUL: "lower c = NUL \<longleftrightarrow> c = NUL"
proof
  assume *: "lower c = NUL"
  show "c = NUL"
  proof (cases "65 \<le> (of_char c :: nat) \<and> (of_char c :: nat) \<le> 90")
    case True
    then have "char_of ((of_char c :: nat) + 32) = NUL" using * by (simp add: lower_def)
    then have "(of_char (char_of ((of_char c :: nat) + 32)) :: nat) = 0" by simp
    then show ?thesis using True by simp
  next
    case False
    then have "lower c = c" unfolding lower_def by (rule if_not_P)
    then show ?thesis using * by simp
  qed
qed (simp add: lower_def)

lemma lower_of_NUL [simp]: "lower NUL = NUL"
  by (simp add: lower_NUL)

text \<open>A comparison that includes the terminating zero is one of the whole names.\<close>

lemma strncasecmp_whole:
  assumes "NUL \<notin> set other"
  shows "strncasecmp_eq name other (length name + 1) \<longleftrightarrow> map lower name = map lower other"
proof (cases "length other \<le> length name")
  case True
  then have "strncasecmp_eq name other (length name + 1) \<longleftrightarrow> map lower (name @ [NUL]) = map lower (other @ [NUL])" by (simp add: strncasecmp_eq_def)
  then show ?thesis by simp
next
  case False
  then have t: "take (length name + 1) (other @ [NUL]) = take (length name) other @ [other ! length name]" by (simp add: take_Suc_conv_app_nth)
  have "other ! length name \<in> set other" using False by simp
  then have "lower (other ! length name) \<noteq> NUL" using assms lower_NUL by metis
  then have "\<not> strncasecmp_eq name other (length name + 1)" unfolding strncasecmp_eq_def t by simp
  moreover have "map lower name \<noteq> map lower other" using False by (auto dest: map_eq_imp_length_eq)
  ultimately show ?thesis by simp
qed

definition quiet :: "iprop \<Rightarrow> bool" where
  "quiet q \<longleftrightarrow> pr_section q \<noteq> 0 \<or> (tx_large (pr_name q) = None \<and> tx_small (pr_name q) = [])"

lemma find_quiet:
  assumes "name \<noteq> []" "0 < n" "\<forall>q \<in> set qs. quiet q" "hd name \<noteq> NUL"
  shows "find_property_loop h 0 name n c qs = Inr (-1)"
proof -
  have "\<not> strncasecmp_eq name [] n" using assms(1,2,4) by (cases name; cases n) (simp_all add: strncasecmp_eq_def lower_NUL)
  then show ?thesis using assms(3) by (induction qs arbitrary: c) (auto simp: quiet_def read_text_def)
qed

text \<open>The position of the first property with the name among those of the section.\<close>

fun first_pos :: "string \<Rightarrow> (string \<times> string) list \<Rightarrow> nat option" where
  "first_pos name [] = None"
| "first_pos name (kv # kvs) = (if map lower name = map lower (fst kv) then Some 0 else map_option Suc (first_pos name kvs))"

lemma find_used:
  assumes "\<forall>p \<in> set ps. large (pr_name p) \<subseteq># live h" "\<forall>kv \<in> set (section_group 0 (map (aprop h) ps)). NUL \<notin> set (fst kv)"
  shows "find_property_loop h 0 name (length name + 1) c (ps @ qs) =
    (case first_pos name (section_group 0 (map (aprop h) ps)) of
       Some k \<Rightarrow> Inr (c + int k)
     | None \<Rightarrow> find_property_loop h 0 name (length name + 1) (c + int (length (section_group 0 (map (aprop h) ps)))) qs)"
  using assms
proof (induction ps arbitrary: c)
  case (Cons p ps)
  have r: "read_text h (pr_name p) = Inr (text_of h (pr_name p))" using Cons.prems(1) by (simp add: read_text_live)
  have g: "section_group 0 (map (aprop h) (p # ps)) = (if pr_section p = 0 then [(text_of h (pr_name p), text_of h (pr_value p))] else []) @ section_group 0 (map (aprop h) ps)"
    by (simp add: section_group_def aprop_def)
  show ?case
  proof (cases "pr_section p = 0")
    case True
    then have "NUL \<notin> set (text_of h (pr_name p))" using Cons.prems(2) g by simp
    then have "strncasecmp_eq name (text_of h (pr_name p)) (length name + 1) \<longleftrightarrow> map lower name = map lower (text_of h (pr_name p))"
      by (rule strncasecmp_whole)
    then show ?thesis using Cons.IH [of "c + 1"] Cons.prems True r unfolding g by (auto simp: ac_simps split: option.splits)
  next
    case False
    then show ?thesis using Cons.IH [of c] Cons.prems unfolding g by (simp split: option.split)
  qed
qed (simp add: section_group_def)

lemma nth_positions: "map ((!) xs) (positions f s xs) = filter (\<lambda>x. f x = s) xs"
  by (induction xs) (simp_all add: positions_Cons comp_def, simp add: positions_def)

lemma nth_group:
  assumes "k < length (section_group s (props_of i))"
  shows "k < length (positions pr_section s (used_properties i))"
    "section_group s (props_of i) ! k = snd (aprop (in_heap i) (used_properties i ! (positions pr_section s (used_properties i) ! k)))"
proof -
  have g: "section_group s (props_of i) = map (snd \<circ> aprop (in_heap i)) (map ((!) (used_properties i)) (positions pr_section s (used_properties i)))"
    unfolding nth_positions by (simp add: section_group_def props_of_def filter_map comp_def)
  show "k < length (positions pr_section s (used_properties i))" using assms g by simp
  then show "section_group s (props_of i) ! k = snd (aprop (in_heap i) (used_properties i ! (positions pr_section s (used_properties i) ! k)))"
    unfolding g by simp
qed

definition first_true :: "string \<Rightarrow> (string \<times> string) list \<Rightarrow> bool" where
  "first_true name kvs = (case first_pos name kvs of None \<Rightarrow> False | Some k \<Rightarrow> take 4 (snd (kvs ! k)) = ''true'')"

lemma first_pos_less: "first_pos name kvs = Some k \<Longrightarrow> k < length kvs"
  by (induction kvs arbitrary: k) (auto split: if_splits)

lemma found_value:
  assumes "ini_ok i" "0 < in_section_count i" "k < length (section_group 0 (props_of i))"
  shows "ini_property_value 0 (int k) i = (Inr (Some (snd (section_group 0 (props_of i) ! k))), i)"
proof -
  have ow: "owned (used_sections i) (used_properties i) \<subseteq># live (in_heap i)" using assms(1) by (simp add: ini_ok_def)
  have v: "valid_section i 0" using assms(2) by (simp add: valid_section_def)
  let ?p = "positions pr_section 0 (used_properties i) ! k"
  note k = nth_group [OF assms(3)]
  have "?p \<in> set (positions pr_section 0 (used_properties i))" using k(1) by simp
  then have p: "?p < length (used_properties i)" "used_properties i ! ?p = in_properties i ! ?p" by (auto simp: positions_def used_properties_def)
  have "ini_internal_property_index i 0 (int k) = int ?p" using v k(1) by (simp add: property_index_eq)
  moreover have "read_text (in_heap i) (pr_value (in_properties i ! ?p)) = Inr (snd (section_group 0 (props_of i) ! k))"
    using k(2) p owned_text(3) [OF ow nth_mem [OF p(1)]] by (simp add: read_text_live aprop_def)
  ultimately show ?thesis using v by (simp add: ini_property_value_def c_bind_def Let_def ini_text_def)
qed

lemma switch_on_ok:
  assumes "ini_ok i" "tail_all quiet i" "0 < in_section_count i" "\<forall>kv \<in> set (section_group 0 (props_of i)). NUL \<notin> set (fst kv)" "name \<noteq> []" "hd name \<noteq> NUL"
  shows "switch_on name i = (Inr (first_true name (section_group 0 (props_of i))), i)"
proof -
  have ow: "owned (used_sections i) (used_properties i) \<subseteq># live (in_heap i)" using assms(1) by (simp add: ini_ok_def)
  have v: "valid_section i 0" using assms(3) by (simp add: valid_section_def)
  let ?g = "section_group 0 (props_of i)" and ?qs = "drop (in_property_count i) (in_properties i)"
  have split: "in_properties i = used_properties i @ ?qs" by (simp add: used_properties_def)
  have q: "\<forall>q \<in> set ?qs. quiet q"
    using assms(2) by (auto simp: tail_all_def in_set_conv_nth)
  have "find_property_loop (in_heap i) 0 name (length name + 1) 0 (in_properties i) = (case first_pos name ?g of Some k \<Rightarrow> Inr (int k) | None \<Rightarrow> Inr (-1))"
    using find_used [of "used_properties i" "in_heap i" name 0 ?qs] owned_text(2) [OF ow] assms(4) find_quiet [OF assms(5) _ q assms(6)]
    by (subst split) (auto simp: props_of_def split: option.split)
  then have find: "ini_find_property 0 name (int (length name) + 1) i = (case first_pos name ?g of Some k \<Rightarrow> Inr (int k) | None \<Rightarrow> Inr (-1), i)"
    using v by (simp add: ini_find_property_def the_length_def nat_add_distrib)
  show ?thesis
  proof (cases "first_pos name ?g")
    case None
    then show ?thesis using find by (simp add: switch_on_def c_bind_def first_true_def)
  next
    case (Some k)
    note found = found_value [OF assms(1,3) first_pos_less [OF Some]]
    show ?thesis using find Some found by (simp add: switch_on_def c_bind_def first_true_def)
  qed
qed

text \<open>What reading the switches relies on: a state in which each lookup returns whether the switch is on, and changes nothing.\<close>

locale settings =
  fixes known :: "ini \<Rightarrow> bool"
    and on :: "ini \<Rightarrow> string \<Rightarrow> bool"
  assumes lookup: "known i \<Longrightarrow> name \<noteq> [] \<Longrightarrow> hd name \<noteq> NUL \<Longrightarrow> switch_on name i = (Inr (on i name), i)"
begin

lemma read_settings:
  assumes "known i"
  shows "read_switches Config i = (Inr
    \<lparr>trace_paging = on i ''TracePaging'', record_samples = on i ''UseSampling'', count_aex = on i ''CountAEX'' \<or> on i ''TraceAEX'',
     trace_aex = on i ''TraceAEX'', benchmode = on i ''Benchmode''\<rparr>, i)"
  using lookup [OF assms] by (simp add: read_switches_def c_bind_def Let_def Config_def)

end

definition readable :: "ini \<Rightarrow> bool" where
  "readable i \<longleftrightarrow> ini_ok i \<and> tail_all quiet i \<and> 0 < in_section_count i \<and> (\<forall>kv \<in> set (section_group 0 (props_of i)). NUL \<notin> set (fst kv))"

interpretation ini_settings: settings readable "\<lambda>i name. first_true name (section_group 0 (props_of i))"
  by unfold_locales (simp add: readable_def switch_on_ok)

section \<open>Reading the file\<close>

lemma c_string_append: "NUL \<notin> set a \<Longrightarrow> c_string (a @ b) = a @ c_string b"
  by (induction a) (auto simp: c_string_def)

text \<open>The settings of a file, as a user reads it: line by line, up to the first section. A setting is a line with an equals sign that does not start,
  after blanks, with a semicolon or a bracket: the name is what stands between the blanks and the sign, the value what follows without the blanks around it.\<close>

fun split_lines :: "string \<Rightarrow> string list" where
  "split_lines [] = [[]]"
| "split_lines (c # s) = (if c = NL then [] # split_lines s else (case split_lines s of [] \<Rightarrow> [[c]] | l # ls \<Rightarrow> (c # l) # ls))"

definition value_text :: "string \<Rightarrow> string" where
  "value_text v = trim_end (dropWhile blank v)"

definition line_setting :: "string \<Rightarrow> (string \<times> string) list" where
  "line_setting l =
     (let t = dropWhile blank l; n = takeWhile (\<lambda>c. c \<noteq> CHR ''='') t
      in if t = [] \<or> hd t = CHR '';'' \<or> hd t = CHR ''['' \<or> CHR ''='' \<notin> set t then [] else [(n, value_text (drop (length n + 1) t))])"

definition section_line :: "string \<Rightarrow> bool" where
  "section_line l = (let t = dropWhile blank l in t \<noteq> [] \<and> hd t = CHR ''['' \<and> CHR '']'' \<in> set t)"

definition file_settings :: "string \<Rightarrow> (string \<times> string) list" where
  "file_settings data = concat (map line_setting (takeWhile (\<lambda>l. \<not> section_line l) (split_lines (c_string data))))"

lemma split_lines_plain: "NL \<notin> set l \<Longrightarrow> split_lines l = [l]"
  by (induction l) auto

lemma split_lines_line: "NL \<notin> set l \<Longrightarrow> split_lines (l @ NL # r) = l # split_lines r"
  by (induction l) auto

text \<open>The reader keeps a property for each setting. Without a name or without a value, what it keeps starts with the equals sign or with the end of the line.\<close>

definition read_as :: "string \<times> string \<Rightarrow> string \<times> string \<Rightarrow> bool" where
  "read_as kv p \<longleftrightarrow> NUL \<notin> set (fst kv) \<and> (if fst p = [] then fst kv \<noteq> [] \<and> hd (fst kv) = CHR ''='' else fst kv = fst p) \<and>
     (if snd p = [] then snd kv = [] \<or> hd (snd kv) = NL else snd kv = snd p)"

lemma ini_loop_blanks: "\<forall>c \<in> set b. blank c \<Longrightarrow> ini_loop mem s (b @ r) = ini_loop mem s r"
  by (induction b) (auto simp: ini_loop_blank)

lemma ini_loop_skip: "ini_loop mem s (l @ r) = ini_loop mem s (dropWhile blank l @ r)"
proof -
  have "\<forall>c \<in> set (takeWhile blank l). blank c" by (auto dest: set_takeWhileD)
  from ini_loop_blanks [OF this, of mem s "dropWhile blank l @ r"] show ?thesis by (simp flip: append_assoc)
qed

definition line_rest :: "string \<Rightarrow> bool" where
  "line_rest r \<longleftrightarrow> r = [] \<or> hd r = NL"

lemma while_line:
  assumes "line_rest r" "\<forall>c \<in> set l. P c" "\<not> P NL"
  shows "dropWhile P (l @ r) = r" "takeWhile P (l @ r) = l"
  using assms by (cases r; simp add: line_rest_def dropWhile_append takeWhile_append)+

lemma trim_end_split: "\<exists>b. v = trim_end v @ b \<and> (\<forall>c \<in> set b. blank c)"
proof -
  have "rev (rev v) = rev (dropWhile blank (rev v)) @ rev (takeWhile blank (rev v))" by (simp flip: rev_append)
  then show ?thesis unfolding trim_end_def
    by (intro exI [of _ "rev (takeWhile blank (rev v))"]) (auto dest: set_takeWhileD)
qed

lemma trim_end_append: "c \<in> set b \<Longrightarrow> \<not> blank c \<Longrightarrow> trim_end (a @ b) = a @ trim_end b"
  by (simp add: trim_end_def dropWhile_append1 [of c])

lemma trim_end_blanks: "\<forall>c \<in> set b. blank c \<Longrightarrow> trim_end b = []"
  by (simp add: trim_end_def)

lemma ini_value_line:
  assumes v: "NL \<notin> set v" and r: "line_rest r"
  obtains start2 l2 b where "ini_value (v @ r) = (start2, l2, b @ r)" "\<forall>c \<in> set b. blank c"
    "(if value_text v = [] then take (the_length start2 l2) start2 = r else take (the_length start2 l2) start2 = value_text v)"
proof -
  let ?P = "\<lambda>c. blank c \<and> c \<noteq> NL" and ?k = "takeWhile blank v" and ?d = "dropWhile blank v"
  have k: "takeWhile ?P (v @ r) = ?k" "dropWhile ?P (v @ r) = ?d @ r"
  proof (use v in \<open>induction v\<close>)
    case Nil
    show "takeWhile ?P ([] @ r) = takeWhile blank []" "dropWhile ?P ([] @ r) = dropWhile blank [] @ r"
      using r by (cases r; simp add: line_rest_def)+
  qed auto
  have "NL \<notin> set ?d" using v set_dropWhileD by fastforce
  then have "takeWhile (\<lambda>c. c \<noteq> NL) (?d @ r) = ?d" by (intro while_line(2) [OF r]) auto
  then have val: "ini_value (v @ r) = (?d @ r, int (length (trim_end v)) - int (length ?k), drop (length (trim_end v)) (v @ r))"
    by (simp add: ini_value_def k Let_def)
  obtain b where b: "v = trim_end v @ b" "\<forall>c \<in> set b. blank c" using trim_end_split by blast
  have "v @ r = trim_end v @ b @ r" by (subst (1) b(1)) simp
  then have rest: "drop (length (trim_end v)) (v @ r) = b @ r" by (metis append_eq_conv_conj)
  show thesis
  proof (cases "?d = []")
    case True
    then have "\<forall>c \<in> set v. blank c" by simp
    then have "trim_end v = []" "value_text v = []" unfolding value_text_def True by (simp add: trim_end_blanks) (simp add: trim_end_def)
    then show ?thesis using that [OF val [unfolded rest] b(2)] True by (simp add: the_length_def)
  next
    case False
    then have nb: "\<not> blank (hd ?d)" "hd ?d \<in> set ?d" using hd_dropWhile [of blank v] by simp_all
    then have "trim_end (?k @ ?d) = ?k @ trim_end ?d" using trim_end_append by metis
    then have t: "trim_end v = ?k @ value_text v" by (simp add: value_text_def)
    obtain b' where b': "?d = value_text v @ b'" "\<forall>c \<in> set b'. blank c" using trim_end_split [of ?d] by (auto simp: value_text_def)
    have ne: "value_text v \<noteq> []"
    proof
      assume "value_text v = []"
      then have "?d = b'" using b'(1) by simp
      then show False using nb b'(2) by metis
    qed
    have "take (length (value_text v)) (?d @ r) = value_text v" by (subst b'(1)) simp
    then show ?thesis using that [OF val [unfolded rest] b(2)] ne by (simp add: t the_length_def)
  qed
qed

lemma load_setting:
  assumes ok: "state_ok Q i" "valid_section i 0" "\<forall>c k. Q (mem_property mem c k)"
    and t: "t = n @ CHR ''='' # v" "\<not> blank (hd t)" "hd t \<noteq> CHR '';''" "hd t \<noteq> CHR ''[''"
    and n: "CHR ''='' \<notin> set n" "NL \<notin> set t" "NUL \<notin> set (t @ r)" "line_rest r"
  shows "\<exists>j kv. ini_loop mem 0 (t @ r) i = ini_loop mem 0 r j \<and> state_ok Q j \<and> in_section_count j = in_section_count i \<and>
    props_of j = props_of i @ [(0, kv)] \<and> read_as kv (n, value_text v)"
proof -
  have ne: "t \<noteq> []" and t_hd: "hd (t @ r) = hd t" using t(1) by (cases n; simp)+
  have run: "ini_loop mem 0 (t @ r) = c_bind (ini_do mem 0 (fst (ini_item (t @ r)))) (\<lambda>s'. ini_loop mem s' (snd (ini_item (t @ r))))"
    using t(2) ne by (intro ini_loop_item) (simp_all add: t_hd)
  have nl: "NL \<notin> set n" "NL \<notin> set v" using n(2) t(1) by simp_all
  then have "\<forall>c \<in> set n. c \<noteq> CHR ''='' \<and> c \<noteq> NL" using n(1) by metis
  then have drop: "dropWhile (\<lambda>c. c \<noteq> CHR ''='' \<and> c \<noteq> NL) (t @ r) = CHR ''='' # v @ r"
    unfolding t(1) append_assoc append_Cons by (intro dropWhile_stop) simp_all
  obtain start2 l2 b where val: "ini_value (v @ r) = (start2, l2, b @ r)" "\<forall>c \<in> set b. blank c"
    "if value_text v = [] then take (the_length start2 l2) start2 = r else take (the_length start2 l2) start2 = value_text v"
    by (rule ini_value_line [OF nl(2) n(4)])
  have "length (t @ r) = length n + length (CHR ''='' # v @ r)" using t(1) by simp
  then have item: "ini_item (t @ r) = (I_property (t @ r) (int (length n)) start2 l2, b @ r)"
    unfolding ini_item_def t_hd Let_def drop using t(3,4) val(1) by simp
  have ok': "ini_ok i" "tail_all Q i" using ok(1) by (simp_all add: state_ok_def)
  let ?name = "take (the_length (t @ r) (int (length n))) (t @ r)" and ?val = "take (the_length start2 l2) start2"
  obtain j where j: "ini_property_add mem 0 (t @ r) (int (length n)) start2 l2 i = (Inr (), j)" "ini_ok j" "sections_of j = sections_of i"
    "props_of j = props_of i @ [(0, ?name, ?val)]" "in_section_count j = in_section_count i"
    "(\<forall>c k. Q (mem_property mem c k)) \<longrightarrow> tail_all Q i \<longrightarrow> tail_all Q j"
    by (rule ini_property_add_ok [OF ok'(1) ok(2)])
  have name: "?name = (if n = [] then t @ r else n)" using t(1) by (simp add: the_length_def)
  have "read_as (?name, ?val) (n, value_text v)"
  proof -
    have "NUL \<notin> set ?name" using n(3) set_take_subset [of _ "t @ r"] by blast
    moreover have "hd (t @ r) = CHR ''=''" if "n = []" using t(1) that by simp
    moreover have "read_as (a, w) (n, value_text v)" if "a = (if n = [] then t @ r else n)" "NUL \<notin> set a" "n = [] \<Longrightarrow> hd (t @ r) = CHR ''=''"
      "if value_text v = [] then w = r else w = value_text v" for a w
      using that n(4) ne by (auto simp: read_as_def line_rest_def split: if_splits)
    ultimately show ?thesis using name val(3) by blast
  qed
  moreover have "ini_loop mem 0 (t @ r) i = ini_loop mem 0 r j"
    unfolding run item using j(1) ini_loop_blanks [OF val(2)] by (simp add: ini_do_def c_bind_def c_then_def)
  moreover have "state_ok Q j" using j(2,6) ok' ok(3) by (simp add: state_ok_def)
  ultimately show ?thesis using j(4,5) by blast
qed

lemma split_at_char: "x \<in> set t \<Longrightarrow> t = takeWhile (\<lambda>c. c \<noteq> x) t @ x # drop (length (takeWhile (\<lambda>c. c \<noteq> x) t) + 1) t"
  by (induction t) auto

lemma load_line:
  assumes ok: "state_ok Q i" "valid_section i 0" "\<forall>c k. Q (mem_property mem c k)"
    and l: "NL \<notin> set l" "\<not> section_line l" "NUL \<notin> set (l @ r)" "line_rest r"
  shows "\<exists>j kvs. ini_loop mem 0 (l @ r) i = ini_loop mem 0 r j \<and> state_ok Q j \<and> in_section_count j = in_section_count i \<and>
    props_of j = props_of i @ map (Pair 0) kvs \<and> list_all2 read_as kvs (line_setting l)"
proof -
  let ?t = "dropWhile blank l"
  have stay: ?thesis if "ini_loop mem 0 (l @ r) i = ini_loop mem 0 r i" "line_setting l = []"
    using that ok(1) by (intro exI [of _ i] exI [of _ "[]"]) simp
  have skip: "ini_loop mem 0 (l @ r) = ini_loop mem 0 (?t @ r)" by (rule ini_loop_skip)
  have tl: "NL \<notin> set ?t" "NUL \<notin> set (?t @ r)" using l(1,3) by (auto dest: set_dropWhileD)
  show ?thesis
  proof (cases "?t = []")
    case True
    then show ?thesis by (intro stay) (simp_all only: skip True append_Nil line_setting_def Let_def simp_thms if_True)
  next
    case False
    then have nb: "\<not> blank (hd ?t)" using hd_dropWhile by blast
    have run: "ini_loop mem 0 (?t @ r) = c_bind (ini_do mem 0 (fst (ini_item (?t @ r)))) (\<lambda>s'. ini_loop mem s' (snd (ini_item (?t @ r))))"
      using nb False by (intro ini_loop_item) simp_all
    have none: ?thesis if "ini_item (?t @ r) = (I_none, r)" "line_setting l = []"
      using that skip run by (intro stay) (simp_all add: ini_do_def c_bind_def)
    have t_hd: "hd (?t @ r) = hd ?t" using False by simp
    consider "hd ?t = CHR '';''" | "hd ?t = CHR ''[''" | "hd ?t \<noteq> CHR '';''" "hd ?t \<noteq> CHR ''[''" "CHR ''='' \<notin> set ?t"
      | "hd ?t \<noteq> CHR '';''" "hd ?t \<noteq> CHR ''[''" "CHR ''='' \<in> set ?t" by blast
    then show ?thesis
    proof cases
      case 1
      have "dropWhile (\<lambda>c. c \<noteq> NL) (?t @ r) = r" by (rule while_line(1) [OF l(4)]) (use tl in auto)
      then show ?thesis using 1 False by (intro none) (simp_all add: ini_item_def t_hd line_setting_def)
    next
      case 2
      have "CHR '']'' \<notin> set ?t" using l(2) 2 False unfolding section_line_def Let_def by metis
      then have "\<forall>c \<in> set (tl ?t). c \<noteq> CHR '']'' \<and> c \<noteq> NL" using tl(1) by (metis list.set_sel(2) False)
      from while_line(1) [OF l(4) this] have "dropWhile (\<lambda>c. c \<noteq> CHR '']'' \<and> c \<noteq> NL) (tl (?t @ r)) = r" using False by simp
      then show ?thesis using 2 False l(4) by (intro none) (auto simp: ini_item_def t_hd line_setting_def line_rest_def Let_def)
    next
      case 3
      have "dropWhile (\<lambda>c. c \<noteq> CHR ''='' \<and> c \<noteq> NL) (?t @ r) = r" by (rule while_line(1) [OF l(4)]) (use tl 3 in metis)+
      then show ?thesis using 3 False l(4) by (intro none) (auto simp: ini_item_def t_hd line_setting_def line_rest_def Let_def)
    next
      case 4
      define n where "n = takeWhile (\<lambda>c. c \<noteq> CHR ''='') ?t"
      define v where "v = drop (length n + 1) ?t"
      have d: "?t = n @ CHR ''='' # v"
        unfolding n_def v_def by (rule split_at_char [OF 4(3)])
      have n: "CHR ''='' \<notin> set n" by (auto simp: n_def dest: set_takeWhileD)
      have nb': "\<not> blank (hd ?t)" "hd ?t \<noteq> CHR '';''" "hd ?t \<noteq> CHR ''[''" by (fact nb, fact 4, fact 4)
      obtain j kv where "ini_loop mem 0 (?t @ r) i = ini_loop mem 0 r j" "state_ok Q j" "in_section_count j = in_section_count i"
        "props_of j = props_of i @ [(0, kv)]" "read_as kv (n, value_text v)"
        using load_setting [OF ok d nb' n(1) tl l(4)] by blast
      moreover have "line_setting l = [(n, value_text v)]" using 4 False unfolding line_setting_def Let_def n_def v_def by simp
      ultimately show ?thesis unfolding skip by (intro exI [of _ j] exI [of _ "[kv]"]) simp
    qed
  qed
qed

lemma load_section_line:
  assumes ok: "state_ok Q i" "\<forall>c k. Q (mem_property mem c k)" and l: "NL \<notin> set l" "section_line l" and n: "0 < in_section_count i"
  shows "\<exists>j. ini_loop mem 0 (l @ r) i = (Inr (), j) \<and> state_ok Q j \<and> 0 < in_section_count j \<and>
    section_group 0 (props_of j) = section_group 0 (props_of i)"
proof -
  let ?t = "dropWhile blank l"
  have t: "?t \<noteq> []" "hd ?t = CHR ''[''" "CHR '']'' \<in> set ?t" using l(2) unfolding section_line_def Let_def by blast+
  then have "?t = CHR ''['' # tl ?t" "CHR '']'' \<in> set (tl ?t)" by (cases "?t"; simp)+
  from this(1) split_at_char [OF this(2)] obtain a b where ab: "?t = CHR ''['' # a @ CHR '']'' # b" "CHR '']'' \<notin> set a"
    by (metis set_takeWhileD)
  have "NL \<notin> set ?t" using l(1) by (auto dest: set_dropWhileD)
  then have na: "\<forall>c \<in> set a. c \<noteq> CHR '']'' \<and> c \<noteq> NL" using ab by auto
  let ?p = "CHR ''['' # a @ CHR '']'' # b @ r"
  have "dropWhile (\<lambda>c. c \<noteq> CHR '']'' \<and> c \<noteq> NL) (a @ CHR '']'' # b @ r) = CHR '']'' # b @ r" by (rule dropWhile_stop [OF na]) simp
  then have item: "ini_item ?p = (I_section (a @ CHR '']'' # b @ r) (int (length (a @ CHR '']'' # b @ r)) - int (length (CHR '']'' # b @ r))), b @ r)"
    by (simp add: ini_item_def Let_def)
  have ok': "ini_ok i" "tail_all Q i" using ok(1) by (simp_all add: state_ok_def)
  let ?len = "int (length (a @ CHR '']'' # b @ r)) - int (length (CHR '']'' # b @ r))"
  obtain j where j: "ini_section_add mem (a @ CHR '']'' # b @ r) ?len i = (Inr (int (in_section_count i)), j)" "ini_ok j" "props_of j = props_of i"
    "in_properties j = in_properties i" "in_property_count j = in_property_count i" "in_section_count j = in_section_count i + 1"
    by (rule ini_section_add_ok [OF ok'(1)])
  have sj: "state_ok Q j" using j(2,4,5) ok'(2) by (simp add: state_ok_def tail_all_def)
  have "valid_section j (int (in_section_count i))" using j(6) by (simp add: valid_section_def)
  from load_total [OF sj this ok(2), of "b @ r"] obtain j' where j': "ini_loop mem (int (in_section_count i)) (b @ r) j = (Inr (), j')" "state_ok Q j'"
    "in_section_count j \<le> in_section_count j'" "int (in_section_count i) \<noteq> 0 \<longrightarrow> section_group 0 (props_of j') = section_group 0 (props_of j)" by blast
  have "ini_loop mem 0 (l @ r) i = ini_loop mem 0 ?p i" unfolding ini_loop_skip [of mem 0 l] ab(1) by simp
  moreover have "ini_loop mem 0 ?p = c_bind (ini_do mem 0 (fst (ini_item ?p))) (\<lambda>s'. ini_loop mem s' (snd (ini_item ?p)))"
    by (rule ini_loop_item) (simp_all add: blank_def)
  then have "ini_loop mem 0 ?p i = (Inr (), j')" unfolding item using j(1) j'(1) by (simp add: ini_do_def c_bind_def)
  ultimately show ?thesis using n j' j(3,6) by auto
qed

lemma load_text:
  assumes "state_ok Q i" "\<forall>c k. Q (mem_property mem c k)" "NUL \<notin> set s" "0 < in_section_count i"
  shows "\<exists>j kvs. ini_loop mem 0 s i = (Inr (), j) \<and> state_ok Q j \<and> 0 < in_section_count j \<and>
    section_group 0 (props_of j) = section_group 0 (props_of i) @ kvs \<and>
    list_all2 read_as kvs (concat (map line_setting (takeWhile (\<lambda>l. \<not> section_line l) (split_lines s))))"
  using assms(1,3,4)
proof (induction "length s" arbitrary: s i rule: less_induct)
  case less
  obtain l r where s: "s = l @ r" "NL \<notin> set l" "line_rest r"
  proof
    show "s = takeWhile (\<lambda>c. c \<noteq> NL) s @ dropWhile (\<lambda>c. c \<noteq> NL) s" by simp
    show "NL \<notin> set (takeWhile (\<lambda>c. c \<noteq> NL) s)" by (auto dest: set_takeWhileD)
    show "line_rest (dropWhile (\<lambda>c. c \<noteq> NL) s)" using hd_dropWhile [of "\<lambda>c. c \<noteq> NL" s] by (auto simp: line_rest_def)
  qed
  have lines: "split_lines s = l # (if r = [] then [] else split_lines (tl r))"
    using s split_lines_plain [OF s(2)] split_lines_line [OF s(2), of "tl r"] by (cases r) (auto simp: line_rest_def)
  have v: "valid_section i 0" using less.prems(3) by (simp add: valid_section_def)
  show ?case
  proof (cases "section_line l")
    case True
    from load_section_line [OF less.prems(1) assms(2) s(2) True less.prems(3), of r] obtain j where
      "ini_loop mem 0 (l @ r) i = (Inr (), j)" "state_ok Q j" "0 < in_section_count j" "section_group 0 (props_of j) = section_group 0 (props_of i)" by blast
    then show ?thesis using True by (intro exI [of _ j] exI [of _ "[]"]) (simp add: lines [unfolded s(1)] s(1))
  next
    case False
    have nul: "NUL \<notin> set (l @ r)" using less.prems(2) s(1) by simp
    obtain j kvs where j: "ini_loop mem 0 (l @ r) i = ini_loop mem 0 r j" "state_ok Q j" "in_section_count j = in_section_count i"
      "props_of j = props_of i @ map (Pair 0) kvs" "list_all2 read_as kvs (line_setting l)"
      using load_line [OF less.prems(1) v assms(2) s(2) False nul s(3)] by blast
    have g: "section_group 0 (props_of j) = section_group 0 (props_of i) @ kvs" using j(4) by (simp add: section_group_def filter_map comp_def)
    show ?thesis
    proof (cases "r = []")
      case True
      then have "ini_loop mem 0 r j = (Inr (), j)" by (subst ini_loop.simps) simp
      then show ?thesis using True j g False less.prems(3) by (intro exI [of _ j] exI [of _ kvs]) (simp add: split_lines_plain [OF s(2)] s(1))
    next
      case ne: False
      then have r: "r = NL # tl r" using s(3) by (cases r) (simp_all add: line_rest_def)
      then have loop: "ini_loop mem 0 r j = ini_loop mem 0 (tl r) j" by (metis ini_loop_newline)
      have "length (tl r) < length s" using ne s(1) by (cases r) simp_all
      moreover have "NUL \<notin> set (tl r)" "0 < in_section_count j" using nul less.prems(3) j(3) list.set_sel(2) [OF ne] by auto
      ultimately obtain j' ls where "ini_loop mem 0 (tl r) j = (Inr (), j')" "state_ok Q j'" "0 < in_section_count j'"
        "section_group 0 (props_of j') = section_group 0 (props_of j) @ ls"
        "list_all2 read_as ls (concat (map line_setting (takeWhile (\<lambda>l. \<not> section_line l) (split_lines (tl r)))))" using less.hyps [OF _ j(2)] by blast
      then show ?thesis using j g loop ne False
        by (intro exI [of _ j'] exI [of _ "kvs @ ls"]) (simp add: lines [unfolded s(1)] s(1) list_all2_appendI)
    qed
  qed
qed

lemma load_config:
  assumes "\<forall>c k. Q (mem_property mem c k)"
  shows "\<exists>i. ini_load mem data = Inr i \<and> state_ok Q i \<and> 0 < in_section_count i \<and> list_all2 read_as (section_group 0 (props_of i)) (file_settings data)"
proof -
  have "state_ok Q (ini_create mem)" "in_section_count (ini_create mem) = 1"
    using assms ini_create_ok(1) by (auto simp: state_ok_def tail_all_def ini_create_def new_array_def)
  moreover have "NUL \<notin> set (c_string data)" by (auto simp: c_string_def dest: set_takeWhileD)
  moreover have "section_group 0 (props_of (ini_create mem)) = []" using ini_create_ok(3) by (simp add: section_group_def)
  ultimately show ?thesis
    using load_text [of Q "ini_create mem" mem "c_string data"] assms by (auto simp: ini_load_def file_settings_def)
qed

text \<open>What the reader keeps of a line without a name or a value does not count as a switch.\<close>

lemma first_pos_reads:
  assumes "list_all2 read_as kvs ps" "name \<noteq> []" "lower (hd name) \<noteq> CHR ''=''"
  shows "first_pos name kvs = first_pos name ps"
  using assms(1)
proof (induction rule: list_all2_induct)
  case (Cons kv kvs p ps)
  have "map lower name = map lower (fst kv) \<longleftrightarrow> map lower name = map lower (fst p)"
  proof (cases "fst p")
    case Nil
    then have "fst kv \<noteq> []" "hd (fst kv) = CHR ''=''" using Cons.hyps(1) by (simp_all add: read_as_def)
    then have "map lower (fst kv) \<noteq> []" "hd (map lower (fst kv)) = CHR ''=''" by (simp_all add: hd_map lower_def)
    moreover have "hd (map lower name) \<noteq> CHR ''=''" using assms(2,3) by (simp add: hd_map)
    ultimately show ?thesis using Nil assms(2) by force
  next
    case (Cons c n)
    then show ?thesis using Cons.hyps(1) by (simp add: read_as_def)
  qed
  then show ?case using Cons.IH by simp
qed simp

lemma first_true_reads:
  assumes "list_all2 read_as kvs ps" "name \<noteq> []" "lower (hd name) \<noteq> CHR ''=''"
  shows "first_true name kvs = first_true name ps"
proof (cases "first_pos name ps")
  case (Some k)
  have "length kvs = length ps" "k < length ps" using assms(1) first_pos_less [OF Some] by (simp_all add: list_all2_lengthD)
  then have "read_as (kvs ! k) (ps ! k)" using assms(1) by (simp add: list_all2_conv_all_nth)
  then have "take 4 (snd (kvs ! k)) = ''true'' \<longleftrightarrow> take 4 (snd (ps ! k)) = ''true''"
    by (cases "snd (kvs ! k)") (auto simp: read_as_def split: if_splits)
  then show ?thesis using Some first_pos_reads [OF assms] by (simp add: first_true_def)
qed (simp add: first_true_def first_pos_reads [OF assms])

definition settings_config :: "(string \<times> string) list \<Rightarrow> config" where
  "settings_config kvs =
     \<lparr>trace_paging = first_true ''TracePaging'' kvs, record_samples = first_true ''UseSampling'' kvs,
      count_aex = first_true ''CountAEX'' kvs \<or> first_true ''TraceAEX'' kvs, trace_aex = first_true ''TraceAEX'' kvs,
      benchmode = first_true ''Benchmode'' kvs\<rparr>"

lemma config_of_file:
  assumes "\<forall>c k. quiet (mem_property mem c k)"
  shows "config_init mem (Some data) Config = Inr (settings_config (file_settings data))"
proof -
  obtain i where i: "ini_load mem data = Inr i" "ini_ok i" "tail_all quiet i" "0 < in_section_count i"
    "list_all2 read_as (section_group 0 (props_of i)) (file_settings data)"
    using load_config [OF assms, of data] by (auto simp: state_ok_def)
  have "NUL \<notin> set (fst kv)" if "kv \<in> set (section_group 0 (props_of i))" for kv
    using i(5) that by (auto simp: list_all2_conv_all_nth in_set_conv_nth read_as_def)
  then have "readable i" using i by (auto simp: readable_def)
  note read = ini_settings.read_settings [OF this]
  have names: "lower CHR ''T'' \<noteq> CHR ''=''" "lower CHR ''U'' \<noteq> CHR ''=''" "lower CHR ''C'' \<noteq> CHR ''=''" "lower CHR ''B'' \<noteq> CHR ''=''"
    by code_simp+
  note same = first_true_reads [OF i(5)]
  have "first_true ''TracePaging'' (section_group 0 (props_of i)) = first_true ''TracePaging'' (file_settings data)"
    "first_true ''UseSampling'' (section_group 0 (props_of i)) = first_true ''UseSampling'' (file_settings data)"
    "first_true ''CountAEX'' (section_group 0 (props_of i)) = first_true ''CountAEX'' (file_settings data)"
    "first_true ''TraceAEX'' (section_group 0 (props_of i)) = first_true ''TraceAEX'' (file_settings data)"
    "first_true ''Benchmode'' (section_group 0 (props_of i)) = first_true ''Benchmode'' (file_settings data)"
    by (rule same; simp add: names)+
  then show ?thesis using i(1) read by (simp add: config_init_def settings_config_def)
qed

text \<open>C19: Whatever the file holds, a switch is on exactly if the first line before the first section that sets its name, in whatever case, has a value
  that starts with \<open>true\<close>; tracing exits also counts them. Comments, blank lines and lines without an equals sign set nothing, blanks before the name
  and around the value do not count, but one before the equals sign is part of the name. This holds as long as memory that was never written
  does not look like global properties, as the search for a name goes beyond the last property.\<close>

theorem config_reads_switches:
  assumes "\<forall>c k. quiet (mem_property mem c k)"
  shows "config_init mem (Some data) Config = Inr
    \<lparr>trace_paging = first_true ''TracePaging'' (file_settings data), record_samples = first_true ''UseSampling'' (file_settings data),
     count_aex = first_true ''CountAEX'' (file_settings data) \<or> first_true ''TraceAEX'' (file_settings data),
     trace_aex = first_true ''TraceAEX'' (file_settings data), benchmode = first_true ''Benchmode'' (file_settings data)\<rparr>"
  using config_of_file [OF assms] unfolding settings_config_def .

theorem config_reads_switches_witness:
  "config_init zero_mem (Some (''; a comment'' @ [NL, NL] @ '' countaex= true'' @ [NL] @ ''TraceAEX'' @ [NL] @ ''TracePaging=trueish'' @ [NL] @
     ''TracePaging=no'' @ [NL] @ ''[x]'' @ [NL] @ ''Benchmode=true'')) Config
    = Inr (Config\<lparr>count_aex := True, trace_paging := True\<rparr>)"
proof -
  let ?d = "''; a comment'' @ [NL, NL] @ '' countaex= true'' @ [NL] @ ''TraceAEX'' @ [NL] @ ''TracePaging=trueish'' @ [NL] @
     ''TracePaging=no'' @ [NL] @ ''[x]'' @ [NL] @ ''Benchmode=true''"
  have q: "\<forall>c k. quiet (mem_property zero_mem c k)" by (simp add: zero_mem_def quiet_def)
  have "file_settings ?d = [(''countaex'', ''true''), (''TracePaging'', ''trueish''), (''TracePaging'', ''no'')]" by code_simp
  moreover have "first_true ''CountAEX'' [(''countaex'', ''true''), (''TracePaging'', ''trueish''), (''TracePaging'', ''no'')]"
    "first_true ''TracePaging'' [(''countaex'', ''true''), (''TracePaging'', ''trueish''), (''TracePaging'', ''no'')]"
    "\<not> first_true ''TraceAEX'' [(''countaex'', ''true''), (''TracePaging'', ''trueish''), (''TracePaging'', ''no'')]"
    "\<not> first_true ''UseSampling'' [(''countaex'', ''true''), (''TracePaging'', ''trueish''), (''TracePaging'', ''no'')]"
    "\<not> first_true ''Benchmode'' [(''countaex'', ''true''), (''TracePaging'', ''trueish''), (''TracePaging'', ''no'')]"
    by code_simp+
  ultimately show ?thesis using config_reads_switches [OF q, of ?d] by (simp add: Config_def)
qed

section \<open>A switch that the file does not have\<close>

text \<open>The object after reading a file with few properties: the slots that no property was written to are as they were allocated.\<close>

definition first_array :: "ini_mem \<Rightarrow> ini \<Rightarrow> bool" where
  "first_array mem i \<longleftrightarrow> length (in_properties i) = INITIAL_CAPACITY \<and>
     (\<forall>k. in_property_count i \<le> k \<longrightarrow> k < INITIAL_CAPACITY \<longrightarrow> in_properties i ! k = mem_property mem INITIAL_CAPACITY k)"

lemma store_text_heap:
  "\<exists>t xs. store_text room s len q i = (Inr t, i\<lparr>in_heap := in_heap i @ xs\<rparr>) \<and> length xs \<le> 1"
proof (cases "room \<le> len + 1")
  case False
  then show ?thesis by (intro exI [of _ "q\<lparr>tx_small := take len s\<rparr>"] exI [of _ "[]"]) (simp add: store_text_def)
qed (force simp: store_text_def ini_malloc_def c_bind_def c_then_def)

lemma property_add_frame:
  assumes "ini_property_add mem s name nl v vl i = (Inr (), j)" "first_array mem i" "in_property_count i < INITIAL_CAPACITY"
  shows "first_array mem j" "in_property_count j \<le> in_property_count i + 1" "length (in_heap j) \<le> length (in_heap i) + 2"
proof -
  have "first_array mem j \<and> in_property_count j \<le> in_property_count i + 1 \<and> length (in_heap j) \<le> length (in_heap i) + 2"
  proof (cases "valid_section i s")
    case True
    let ?n = "in_property_count i" and ?q = "in_properties i ! in_property_count i"
    have g: "grow (mem_property mem) ?n (in_properties i) = in_properties i" using assms(2,3) by (simp add: grow_def first_array_def)
    obtain t xs where t: "store_text NAME_SIZE name (the_length name nl) ((pr_name ?q)\<lparr>tx_large := None\<rparr>) i = (Inr t, i\<lparr>in_heap := in_heap i @ xs\<rparr>)" "length xs \<le> 1"
      using store_text_heap by blast
    let ?i = "i\<lparr>in_heap := in_heap i @ xs\<rparr>"
    obtain w ys where w: "store_text VALUE_SIZE v (the_length v vl) ((pr_value ?q)\<lparr>tx_large := None\<rparr>) ?i = (Inr w, ?i\<lparr>in_heap := in_heap ?i @ ys\<rparr>)" "length ys \<le> 1"
      using store_text_heap by blast
    have "j = i\<lparr>in_heap := in_heap i @ xs @ ys, in_properties := (in_properties i)[?n := \<lparr>pr_section = s, pr_name = t, pr_value = w\<rparr>],
        in_property_count := ?n + 1\<rparr>"
      using assms(1) True t(1) w(1) g by (simp add: ini_property_add_def c_bind_def c_then_def Let_def)
    then show ?thesis using assms(2) t(2) w(2) by (simp add: first_array_def)
  next
    case False
    then show ?thesis using assms(1,2) by (simp add: ini_property_add_def c_bind_def)
  qed
  then show "first_array mem j" "in_property_count j \<le> in_property_count i + 1" "length (in_heap j) \<le> length (in_heap i) + 2" by blast+
qed

lemma section_add_frame:
  assumes "ini_section_add mem name l i = (Inr s, j)"
  shows "in_properties j = in_properties i" "in_property_count j = in_property_count i" "length (in_heap j) \<le> length (in_heap i) + 1"
proof -
  let ?i = "i\<lparr>in_sections := grow (mem_section mem) (in_section_count i) (in_sections i)\<rparr>"
  obtain t xs where t: "store_text NAME_SIZE name (the_length name l) ((in_sections ?i ! in_section_count i)\<lparr>tx_large := None\<rparr>) ?i =
      (Inr t, ?i\<lparr>in_heap := in_heap ?i @ xs\<rparr>)" "length xs \<le> 1"
    using store_text_heap by blast
  with assms show "in_properties j = in_properties i" "in_property_count j = in_property_count i" "length (in_heap j) \<le> length (in_heap i) + 1"
    by (auto simp: ini_section_add_def c_bind_def c_then_def Let_def)
qed

text \<open>Each property takes an equals sign of the file, and each item one of its characters.\<close>

abbreviation signs :: "string \<Rightarrow> nat" where
  "signs s \<equiv> length (filter (\<lambda>c. c = CHR ''='') s)"

lemma signs_dropWhile: "signs (dropWhile P s) \<le> signs s"
  by (induction s) auto

lemma signs_drop: "signs (drop n s) \<le> signs s"
proof -
  have "signs s = signs (take n s) + signs (drop n s)" by (metis append_take_drop_id filter_append length_append)
  then show ?thesis by simp
qed

lemma item_signs:
  shows "signs (snd (ini_item p)) \<le> signs p"
    and "fst (ini_item p) = I_property a la b lb \<Longrightarrow> signs (snd (ini_item p)) < signs p"
proof -
  let ?r = "dropWhile (\<lambda>c. c \<noteq> CHR ''='' \<and> c \<noteq> NL) p" and ?q = "dropWhile (\<lambda>c. c \<noteq> CHR '']'' \<and> c \<noteq> NL) (tl p)"
  have val: "signs (snd (snd (ini_value r))) \<le> signs r" for r by (simp add: ini_value_def Let_def signs_drop)
  have tl: "signs (tl r) \<le> signs r" for r by (cases r) auto
  have q: "signs (tl ?q) \<le> signs p" "signs ?q \<le> signs p" 
    using tl [of ?q] tl [of p] signs_dropWhile [of "\<lambda>c. c \<noteq> CHR '']'' \<and> c \<noteq> NL" "tl p"] by linarith+
  have sign: "signs (snd (snd (ini_value (tl ?r)))) < signs p" if "?r \<noteq> []" "hd ?r = CHR ''=''"
  proof -
    have "signs ?r = Suc (signs (tl ?r))" using that by (cases ?r) auto
    then show ?thesis using val [of "tl ?r"] signs_dropWhile [of "\<lambda>c. c \<noteq> CHR ''='' \<and> c \<noteq> NL" p] by linarith
  qed
  show "signs (snd (ini_item p)) \<le> signs p"
  proof (cases "?r \<noteq> [] \<and> hd ?r = CHR ''=''")
    case True
    then show ?thesis using sign q signs_dropWhile [of _ p] unfolding ini_item_def Let_def case_prod_beta by (simp add: less_imp_le)
  next
    case False
    then show ?thesis using q signs_dropWhile [of _ p] unfolding ini_item_def Let_def if_not_P [OF False] by simp
  qed
  show "signs (snd (ini_item p)) < signs p" if "fst (ini_item p) = I_property a la b lb"
  proof -
    have "hd p \<noteq> CHR '';''" "hd p \<noteq> CHR ''[''" "?r \<noteq> [] \<and> hd ?r = CHR ''=''"
      using that unfolding ini_item_def Let_def by (simp_all split: if_splits)
    then show ?thesis using sign unfolding ini_item_def Let_def case_prod_beta by simp
  qed
qed

lemma loop_frame:
  assumes "ini_loop mem s ptr i = (Inr (), j)" "first_array mem i" "in_property_count i + signs ptr \<le> INITIAL_CAPACITY"
  shows "first_array mem j \<and> in_property_count j \<le> in_property_count i + signs ptr \<and> length (in_heap j) \<le> length (in_heap i) + 2 * length ptr"
  using assms
proof (induction mem s ptr arbitrary: i rule: ini_loop.induct)
  case (1 mem s ptr)
  let ?p = "dropWhile blank ptr"
  show ?case
  proof (cases "?p = []")
    case True
    then have "ini_loop mem s ptr i = (Inr (), i)" by (subst ini_loop.simps) simp
    then show ?thesis using "1.prems" by simp
  next
    case False
    then have run: "ini_loop mem s ptr = c_bind (ini_do mem s (fst (ini_item ?p))) (\<lambda>s'. ini_loop mem s' (snd (ini_item ?p)))"
      by (subst ini_loop.simps) (simp only: Let_def if_False)
    let ?rest = "snd (ini_item ?p)"
    have len: "length ?rest < length ptr"
      using ini_item_shorter [OF False] hd_dropWhile [OF False] length_dropWhile_le [of blank ptr] by simp
    have sp: "signs ?p \<le> signs ptr" by (rule signs_dropWhile)
    obtain s' k where k: "ini_do mem s (fst (ini_item ?p)) i = (Inr s', k)" "ini_loop mem s' ?rest k = (Inr (), j)"
      using "1.prems"(1) unfolding run c_bind_def by (auto split: prod.splits sum.splits)
    have step: "first_array mem k \<and> in_property_count k + signs ?rest \<le> in_property_count i + signs ptr \<and> length (in_heap k) \<le> length (in_heap i) + 2"
    proof (cases "fst (ini_item ?p)")
      case I_none
      then show ?thesis using k(1) "1.prems"(2) item_signs(1) [of ?p] sp by (simp add: ini_do_def)
    next
      case (I_section a l)
      then show ?thesis using section_add_frame [of mem a l i s' k] k(1) "1.prems"(2) item_signs(1) [of ?p] sp
        by (simp add: ini_do_def first_array_def)
    next
      case (I_property a la b lb)
      then have lt: "signs ?rest < signs ptr" using item_signs(2) [OF I_property] sp by linarith
      have "ini_property_add mem s a la b lb i = (Inr (), k)"
        using k(1) I_property by (auto simp: ini_do_def c_then_def c_bind_def split: prod.splits sum.splits)
      from property_add_frame [OF this "1.prems"(2)] show ?thesis using lt "1.prems"(3) by simp
    qed
    then have "first_array mem j \<and> in_property_count j \<le> in_property_count k + signs ?rest \<and>
        length (in_heap j) \<le> length (in_heap k) + 2 * length ?rest"
      using "1.IH" [OF refl False k(2)] "1.prems"(3) by linarith
    with step len show ?thesis by linarith
  qed
qed

lemma load_frame:
  assumes "ini_load mem data = Inr i" "signs data \<le> INITIAL_CAPACITY"
  shows "first_array mem i" "in_property_count i \<le> signs data" "length (in_heap i) \<le> 2 * length data"
proof -
  have "signs (c_string data) \<le> signs data" "length (c_string data) \<le> length data"
    by (induction data) (auto simp: c_string_def)
  moreover have "ini_loop mem 0 (c_string data) (ini_create mem) = (Inr (), i)"
    using assms(1) by (auto simp: ini_load_def split: prod.splits sum.splits)
  moreover have "first_array mem (ini_create mem)" "in_property_count (ini_create mem) = 0" "in_heap (ini_create mem) = []"
    by (simp_all add: first_array_def ini_create_def new_array_def)
  ultimately show "first_array mem i" "in_property_count i \<le> signs data" "length (in_heap i) \<le> 2 * length data"
    using loop_frame [of mem 0 "c_string data" "ini_create mem" i] assms(2) by simp_all
qed

text \<open>Looking up a name in an object with a bad slot behind its properties: found, or a pointer of the slot is followed.\<close>

lemma switch_on_bad:
  assumes ok: "ini_ok i" "0 < in_section_count i" "\<forall>kv \<in> set (section_group 0 (props_of i)). NUL \<notin> set (fst kv)"
    and slots: "first_array mem i" "in_property_count i \<le> j" "j < INITIAL_CAPACITY" "\<forall>k < j. quiet (mem_property mem INITIAL_CAPACITY k)"
    and bad: "pr_section (mem_property mem INITIAL_CAPACITY j) = 0" "tx_large (pr_name (mem_property mem INITIAL_CAPACITY j)) = Some p"
      "length (in_heap i) \<le> p"
    and name: "name \<noteq> []" "hd name \<noteq> NUL"
  shows "\<exists>b. switch_on name i = (if first_pos name (section_group 0 (props_of i)) = None then Inl UseAfterFree else Inr b, i)"
proof -
  let ?g = "section_group 0 (props_of i)" and ?n = "in_property_count i" and ?m = "mem_property mem INITIAL_CAPACITY"
  have ow: "owned (used_sections i) (used_properties i) \<subseteq># live (in_heap i)" using ok(1) by (simp add: ini_ok_def)
  have "drop ?n (in_properties i) = map ?m [?n..<INITIAL_CAPACITY]"
    using slots(1) by (intro nth_equalityI) (simp_all add: first_array_def)
  also have "[?n..<INITIAL_CAPACITY] = [?n..<j] @ j # [Suc j..<INITIAL_CAPACITY]"
    using slots(2,3) by (metis le_add_diff_inverse less_imp_le upt_add_eq_append upt_conv_Cons)
  finally have split: "in_properties i = used_properties i @ map ?m [?n..<j] @ ?m j # map ?m [Suc j..<INITIAL_CAPACITY]"
    by (metis append_take_drop_id used_properties_def map_append list.map(2))
  have pass: "find_property_loop h 0 name (length name + 1) c (qs @ rest) = (find_property_loop h 0 name (length name + 1) (c + int (length (filter (\<lambda>q. pr_section q = 0) qs))) rest)"
    if "\<forall>q \<in> set qs. quiet q" for h c qs rest
  proof -
    have "\<not> strncasecmp_eq name [] (length name + 1)" using name by (cases name) (simp_all add: strncasecmp_eq_def lower_NUL)
    then show ?thesis using that by (induction qs arbitrary: c) (auto simp: quiet_def read_text_def ac_simps)
  qed
  have miss: "find_property_loop (in_heap i) 0 name (length name + 1) c (map ?m [?n..<j] @ ?m j # rest) = Inl UseAfterFree" for c rest
    using slots(4) bad by (subst pass) (auto simp: read_text_def)
  have "find_property_loop (in_heap i) 0 name (length name + 1) 0 (in_properties i) = (case first_pos name ?g of Some k \<Rightarrow> Inr (int k) | None \<Rightarrow> Inl UseAfterFree)"
    using find_used [of "used_properties i" "in_heap i" name 0] owned_text(2) [OF ow] ok(3) miss
    by (subst split) (auto simp: props_of_def split: option.split)
  moreover have v: "valid_section i 0" using ok(2) by (simp add: valid_section_def)
  ultimately have find: "ini_find_property 0 name (int (length name) + 1) i = (case first_pos name ?g of Some k \<Rightarrow> Inr (int k) | None \<Rightarrow> Inl UseAfterFree, i)"
    by (simp add: ini_find_property_def the_length_def nat_add_distrib)
  show ?thesis
  proof (cases "first_pos name ?g")
    case (Some k)
    then show ?thesis using find found_value [OF ok(1,2) first_pos_less [OF Some]] by (simp add: switch_on_def c_bind_def)
  qed (use find in \<open>simp add: switch_on_def c_bind_def\<close>)
qed

text \<open>C38: If one of the five switches is not set before the first section of the file, memory that was never written is searched for it. For a file
  with at most as many equals signs as there are slots of the array before the first one whose memory looks like a global property, and a name in that
  slot that is a pointer to no allocated block (those of a file have numbers below twice its length), the pointer is followed.\<close>

theorem missing_switch_reads_memory:
  assumes "name \<in> {''CountAEX'', ''TraceAEX'', ''TracePaging'', ''UseSampling'', ''Benchmode''}" "first_pos name (file_settings data) = None"
    and "length (filter (\<lambda>c. c = CHR ''='') data) \<le> j" "j < INITIAL_CAPACITY" "\<forall>k < j. quiet (mem_property mem INITIAL_CAPACITY k)"
    and "pr_section (mem_property mem INITIAL_CAPACITY j) = 0" "tx_large (pr_name (mem_property mem INITIAL_CAPACITY j)) = Some p" "2 * length data \<le> p"
  shows "config_init mem (Some data) Config = Inl UseAfterFree"
proof -
  obtain i where i: "ini_load mem data = Inr i" "ini_ok i" "0 < in_section_count i" "list_all2 read_as (section_group 0 (props_of i)) (file_settings data)"
    using load_config [of "\<lambda>_. True" mem data] by (auto simp: state_ok_def)
  let ?g = "section_group 0 (props_of i)"
  have "signs data \<le> INITIAL_CAPACITY" using assms(3,4) by linarith
  note F = load_frame [OF i(1) this]
  have "NUL \<notin> set (fst kv)" if "kv \<in> set ?g" for kv
    using i(4) that by (auto simp: list_all2_conv_all_nth in_set_conv_nth read_as_def)
  then have N: "\<forall>kv \<in> set ?g. NUL \<notin> set (fst kv)" by blast
  have cnt: "in_property_count i \<le> j" "length (in_heap i) \<le> p" using F(2,3) assms(3,8) by linarith+
  note sw = switch_on_bad [OF i(2,3) N F(1) cnt(1) assms(4-7) cnt(2)]
  have missing: "first_pos name ?g = None"
  proof -
    have "lower CHR ''T'' \<noteq> CHR ''=''" "lower CHR ''U'' \<noteq> CHR ''=''" "lower CHR ''C'' \<noteq> CHR ''=''" "lower CHR ''B'' \<noteq> CHR ''=''"
      by code_simp+
    then have "name \<noteq> []" "lower (hd name) \<noteq> CHR ''=''" using assms(1) by auto
    from first_pos_reads [OF i(4) this] show ?thesis using assms(2) by simp
  qed
  obtain b1 where 1: "switch_on ''CountAEX'' i = (if first_pos ''CountAEX'' ?g = None then Inl UseAfterFree else Inr b1, i)" using sw [of "''CountAEX''"] by auto
  obtain b2 where 2: "switch_on ''TraceAEX'' i = (if first_pos ''TraceAEX'' ?g = None then Inl UseAfterFree else Inr b2, i)" using sw [of "''TraceAEX''"] by auto
  obtain b3 where 3: "switch_on ''TracePaging'' i = (if first_pos ''TracePaging'' ?g = None then Inl UseAfterFree else Inr b3, i)" using sw [of "''TracePaging''"] by auto
  obtain b4 where 4: "switch_on ''UseSampling'' i = (if first_pos ''UseSampling'' ?g = None then Inl UseAfterFree else Inr b4, i)" using sw [of "''UseSampling''"] by auto
  obtain b5 where 5: "switch_on ''Benchmode'' i = (if first_pos ''Benchmode'' ?g = None then Inl UseAfterFree else Inr b5, i)" using sw [of "''Benchmode''"] by auto
  have "fst (read_switches Config i) = Inl UseAfterFree"
    using missing assms(1) by (auto simp: read_switches_def c_bind_def Let_def 1 2 3 4 5)
  then show ?thesis using i(1) by (simp add: config_init_def)
qed

theorem missing_switch_reads_memory_witness:
  "config_init (zero_mem\<lparr>mem_property := \<lambda>_ k. \<lparr>pr_section = 0, pr_name = \<lparr>tx_small = '''', tx_large = if k = 7 then Some 99 else None\<rparr>,
      pr_value = \<lparr>tx_small = '''', tx_large = None\<rparr>\<rparr>\<rparr>) (Some (''CountAEX=true'' @ [NL] @ ''TraceAEX=true'')) Config = Inl UseAfterFree"
proof (rule missing_switch_reads_memory [where name = "''Benchmode''" and j = 7 and p = 99])
  show "first_pos ''Benchmode'' (file_settings (''CountAEX=true'' @ [NL] @ ''TraceAEX=true'')) = None" by code_simp
qed (simp_all add: quiet_def)

end
