(* ===== verification/UrtsRun.thy ===== *)
theory UrtsRun
  imports Urts
begin

text \<open>
  Runs of the interposed calls on one thread: a tree of ecalls, of the ocalls they make, of the
  ecalls those make, and of asynchronous exits, executed by the handlers of \<open>Urts\<close>; and the events
  such a run leaves behind.
\<close>

section \<open>Call trees\<close>

datatype uact = UEcall u64 u32 u64 u32 "eact list"
  and eact = EOcall u32 u64 u32 "uact list" | EAex

text \<open>\<open>T eid\<close> is the ocall table the application passes with ecalls to enclave \<open>eid\<close>.\<close>

record run_env =
  re_self :: u64
  re_clk :: clock
  re_mm :: "nat \<Rightarrow> u64"
  re_tracing :: bool
  re_tables :: "u64 \<Rightarrow> ocall_table"

fun run_u :: "run_env \<Rightarrow> uact \<Rightarrow> (store, unit) comp"
  and run_us :: "run_env \<Rightarrow> uact list \<Rightarrow> (store, unit) comp"
  and run_e :: "run_env \<Rightarrow> u64 \<Rightarrow> eact \<Rightarrow> (store, unit) comp"
  and run_es :: "run_env \<Rightarrow> u64 \<Rightarrow> eact list \<Rightarrow> (store, unit) comp" where
  "run_u R (UEcall eid i arg ret acts) =
     c_then (sgx_ecall (re_self R) (re_clk R) (re_mm R) (\<lambda>_. c_then (run_es R eid acts) (c_ret ret))
       eid i (re_tables R eid) arg) (c_ret ())"
| "run_us R [] = c_ret ()"
| "run_us R (a # as) = c_then (run_u R a) (run_us R as)"
| "run_e R eid (EOcall i arg ret acts) =
     c_then (ocall_bridge (re_self R) (re_clk R) (\<lambda>_ _. c_then (run_us R acts) (c_ret ret)) arg eid i) (c_ret ())"
| "run_e R eid EAex = really_new_aep (re_self R) (re_clk R) (re_tracing R)"
| "run_es R eid [] = c_ret ()"
| "run_es R eid (a # as) = c_then (run_e R eid a) (run_es R eid as)"

section \<open>The events of a run\<close>

definition aexs :: "eact list \<Rightarrow> nat" where
  "aexs as = length (filter (\<lambda>a. a = EAex) as)"

fun tr_u :: "bool \<Rightarrow> nat \<Rightarrow> ev_ptr option \<Rightarrow> uact \<Rightarrow> ev_body list"
  and tr_us :: "bool \<Rightarrow> nat \<Rightarrow> ev_ptr option \<Rightarrow> uact list \<Rightarrow> ev_body list"
  and tr_e :: "bool \<Rightarrow> u64 \<Rightarrow> nat \<Rightarrow> ev_ptr \<Rightarrow> eact \<Rightarrow> ev_body list"
  and tr_es :: "bool \<Rightarrow> u64 \<Rightarrow> nat \<Rightarrow> ev_ptr \<Rightarrow> eact list \<Rightarrow> ev_body list" where
  "tr_u tracing n c (UEcall eid i arg ret acts) =
     EnclaveB eid (EnclaveCall i arg c (ECallKind (of_nat (aexs acts)))) #
     tr_es tracing eid (Suc n) n acts @
     [EnclaveB eid (ECallReturn n ret (of_nat (aexs acts)))]"
| "tr_us tracing n c [] = []"
| "tr_us tracing n c (a # as) =
     (let x = tr_u tracing n c a in x @ tr_us tracing (n + length x) c as)"
| "tr_e tracing eid n p (EOcall i arg ret acts) =
     EnclaveB eid (EnclaveCall i arg (Some p) OCallKind) #
     tr_us tracing (Suc n) (Some n) acts @
     [EnclaveB eid (OCallReturn n ret)]"
| "tr_e tracing eid n p EAex = (if tracing then [EnclaveB eid (AEX p)] else [])"
| "tr_es tracing eid n p [] = []"
| "tr_es tracing eid n p (a # as) =
     (let x = tr_e tracing eid n p a in x @ tr_es tracing eid (n + length x) p as)"

definition stamped :: "run_env \<Rightarrow> u64 \<Rightarrow> nat \<Rightarrow> ev_body list \<Rightarrow> event list" where
  "stamped R tid n bs = map (\<lambda>(i, b). (new_event (re_self R) (fst (re_clk R i)) (snd (re_clk R i)) b)\<lparr>ev_thread_id := tid\<rparr>)
     (enumerate n bs)"

lemma length_stamped [simp]: "length (stamped R tid n bs) = length bs"
  by (simp add: stamped_def)

lemma stamped_append: "stamped R tid n (xs @ ys) = stamped R tid n xs @ stamped R tid (n + length xs) ys"
  by (simp add: stamped_def enumerate_append_eq)

lemma stamped_Nil [simp]: "stamped R tid n [] = []"
  by (simp add: stamped_def)

lemma stamped_Cons:
  "stamped R tid n (b # bs) =
     (new_event (re_self R) (fst (re_clk R n)) (snd (re_clk R n)) b)\<lparr>ev_thread_id := tid\<rparr> # stamped R tid (Suc n) bs"
  by (simp add: stamped_def)

section \<open>Logging an event of a known thread\<close>

definition logged :: "run_env \<Rightarrow> th_ptr \<Rightarrow> ev_body list \<Rightarrow> store \<Rightarrow> store" where
  "logged R t bs s = s\<lparr>events := events s @ stamped R (th_sql_id (threads s ! t)) (length (events s)) bs,
     threads := (threads s)[t := (threads s ! t)\<lparr>th_events := th_events (threads s ! t) @
       [length (events s)..<length (events s) + length bs]\<rparr>]\<rparr>"

text \<open>The thread is known to the store and in its thread-local variable; the enclave map is not
  locked; an enclave of the map has no tables yet, or those made from the application's table.\<close>

definition tables_ok :: "run_env \<Rightarrow> store \<Rightarrow> bool" where
  "tables_ok R s \<longleftrightarrow> (\<forall>eid e. map_of (enclave_map s) eid = Some (Some e) \<longrightarrow>
     e < length (enclaves s) \<and> en_eid (enclaves s ! e) = eid \<and>
     (en_orig_table (enclaves s ! e) = None \<and> en_subst_table (enclaves s ! e) = None \<or>
      en_orig_table (enclaves s ! e) = Some (re_tables R eid) \<and>
      en_subst_table (enclaves s ! e) = Some (subst_table (re_mm R) (re_tables R eid))))"

definition urts_ok :: "run_env \<Rightarrow> th_ptr \<Rightarrow> store \<Rightarrow> bool" where
  "urts_ok R t s \<longleftrightarrow> \<not> finalized s \<and> current_thread s (re_self R) = Some t \<and> t < length (threads s) \<and>
     rw_free (enclave_map_lock s) \<and> tables_ok R s"

definition installed :: "run_env \<Rightarrow> store \<Rightarrow> u64 \<Rightarrow> bool" where
  "installed R s eid \<longleftrightarrow> (\<exists>e. map_of (enclave_map s) eid = Some (Some e) \<and>
     en_orig_table (enclaves s ! e) = Some (re_tables R eid))"

lemma log_event_eq:
  assumes "\<not> finalized s" and "current_thread s (re_self R) = Some t" and "t < length (threads s)"
  shows "log_event (re_self R) (re_clk R) (EnclaveB eid b) s = (Inr (length (events s)), logged R t [EnclaveB eid b] s)"
proof -
  have "find_current (re_self R) (re_self R) s' = (Inr t, s')" if "current_thread s' = current_thread s" for s'
    using that assms(2) by (simp add: find_current_def)
  then show ?thesis
    using assms(1,3)
    by (simp add: log_event_def make_event_def alloc_event_def Let_def c_bind_def c_then_def insert_event_def
        upd_thread_def upd_event_def logged_def stamped_Cons new_event_def)
qed

lemma get_thread_eq: "current_thread s u = Some t \<Longrightarrow> get_thread u s = (Inr (Some t), s)"
  by (simp add: get_thread_def)

section \<open>What a run changes\<close>

abbreviation cur :: "th_ptr \<Rightarrow> store \<Rightarrow> ev_ptr option" where
  "cur t s \<equiv> th_current_call (threads s ! t)"

definition bumped :: "ev_ptr option \<Rightarrow> nat \<Rightarrow> heap \<Rightarrow> heap" where
  "bumped c k h = (case c of None \<Rightarrow> h
     | Some p \<Rightarrow> h[p := (h ! p)\<lparr>ev_body := (bump_aex ^^ k) (ev_body (h ! p))\<rparr>])"

definition ran :: "run_env \<Rightarrow> th_ptr \<Rightarrow> nat \<Rightarrow> store \<Rightarrow> store \<Rightarrow> ev_body list \<Rightarrow> bool" where
  "ran R t k s s' bs \<longleftrightarrow>
     events s' = bumped (cur t s) k (events s) @ stamped R (th_sql_id (threads s ! t)) (length (events s)) bs \<and>
     (\<exists>le. threads s' = (threads s)[t := (threads s ! t)\<lparr>th_last_enclave := le,
        th_events := th_events (threads s ! t) @ [length (events s)..<length (events s) + length bs]\<rparr>]) \<and>
     finalized s' = finalized s \<and> current_thread s' = current_thread s \<and> enclave_map s' = enclave_map s \<and>
     rw_free (enclave_map_lock s') \<and> tables_ok R s' \<and> (\<forall>eid. installed R s eid \<longrightarrow> installed R s' eid)"

lemma bumped_0 [simp]: "bumped c 0 h = h"
  by (simp add: bumped_def split: option.split)

lemma length_bumped [simp]: "length (bumped c k h) = length h"
  by (simp add: bumped_def split: option.split)

lemma bumped_append:
  "(\<forall>p. c = Some p \<longrightarrow> p < length h) \<Longrightarrow> bumped c k (h @ xs) = bumped c k h @ xs"
  by (auto simp: bumped_def nth_append list_update_append split: option.split)

lemma bumped_bumped:
  "(\<forall>p. c = Some p \<longrightarrow> p < length h) \<Longrightarrow> bumped c k (bumped c j h) = bumped c (j + k) h"
  by (auto simp: bumped_def funpow_add add.commute [of j k] split: option.split)

lemma upt_join: "[n..<n + a] @ [n + a..<n + (a + b)] = [n..<n + (a + b)]"
  using upt_add_eq_append [of n "n + a" b] by (simp add: add.assoc)

lemma ran_refl: "urts_ok R t s \<Longrightarrow> ran R t 0 s s []"
  by (auto simp: ran_def urts_ok_def intro!: exI [of _ "th_last_enclave (threads s ! t)"])

lemma ran_cur:
  assumes "ran R t k s s' bs" "t < length (threads s)"
  shows "cur t s' = cur t s" "th_sql_id (threads s' ! t) = th_sql_id (threads s ! t)"
    "length (threads s') = length (threads s)" "length (events s') = length (events s) + length bs"
  using assms by (auto simp: ran_def)

lemma ran_ok:
  assumes "urts_ok R t s" "ran R t k s s' bs"
  shows "urts_ok R t s'"
  using assms ran_cur [OF assms(2)] by (simp add: urts_ok_def ran_def)

lemma ran_trans:
  assumes ok: "urts_ok R t s" and c: "\<forall>p. cur t s = Some p \<longrightarrow> p < length (events s)"
    and r: "ran R t j s s1 xs" and q: "ran R t k s1 s2 ys"
  shows "ran R t (j + k) s s2 (xs @ ys)"
proof -
  have t: "t < length (threads s)" using ok by (simp add: urts_ok_def)
  note d = ran_cur [OF r t]
  have "events s2 = bumped (cur t s) k (events s1) @ stamped R (th_sql_id (threads s ! t)) (length (events s1)) ys"
    using q d by (simp add: ran_def)
  also have "events s1 = bumped (cur t s) j (events s) @ stamped R (th_sql_id (threads s ! t)) (length (events s)) xs"
    using r by (simp add: ran_def)
  finally have e: "events s2 = bumped (cur t s) (j + k) (events s) @
      stamped R (th_sql_id (threads s ! t)) (length (events s)) (xs @ ys)"
    using c d(4) by (simp add: bumped_append bumped_bumped stamped_append)
  obtain l1 where l1: "threads s1 = (threads s)[t := (threads s ! t)\<lparr>th_last_enclave := l1,
        th_events := th_events (threads s ! t) @ [length (events s)..<length (events s) + length xs]\<rparr>]"
    using r by (auto simp: ran_def)
  obtain l2 where "threads s2 = (threads s1)[t := (threads s1 ! t)\<lparr>th_last_enclave := l2,
        th_events := th_events (threads s1 ! t) @ [length (events s1)..<length (events s1) + length ys]\<rparr>]"
    using q by (auto simp: ran_def)
  then have "threads s2 = (threads s)[t := (threads s ! t)\<lparr>th_last_enclave := l2,
        th_events := th_events (threads s ! t) @ [length (events s)..<length (events s) + length (xs @ ys)]\<rparr>]"
    using t l1 d(4) by (simp add: upt_join add.assoc)
  with e r q show ?thesis by (auto simp: ran_def)
qed

section \<open>One ecall\<close>

text \<open>The state in which the enclave is entered.\<close>

definition entered :: "run_env \<Rightarrow> th_ptr \<Rightarrow> en_ptr \<Rightarrow> u64 \<Rightarrow> ev_body \<Rightarrow> store \<Rightarrow> store" where
  "entered R t e eid b s =
     (let s1 = s\<lparr>enclave_map_lock := read_unlock (rd_held (enclave_map_lock s)),
                 enclaves := (enclaves s)[e := install_table (re_mm R) (re_tables R eid) (enclaves s ! e)]\<rparr>;
          s2 = s1\<lparr>threads := (threads s1)[t := (threads s1 ! t)\<lparr>th_last_enclave := Some e\<rparr>]\<rparr>;
          s3 = logged R t [b] s2
      in s3\<lparr>threads := (threads s3)[t := (threads s3 ! t)\<lparr>th_current_call := Some (length (events s))\<rparr>]\<rparr>)"

lemma install_table_ok:
  assumes "tables_ok R s" and "map_of (enclave_map s) eid = Some (Some e)"
  shows "e < length (enclaves s)" "en_eid (enclaves s ! e) = eid"
    "en_subst_table (install_table (re_mm R) (re_tables R eid) (enclaves s ! e)) = Some (subst_table (re_mm R) (re_tables R eid))"
    "en_orig_table (install_table (re_mm R) (re_tables R eid) (enclaves s ! e)) = Some (re_tables R eid)"
proof -
  note T = assms(1) [unfolded tables_ok_def, rule_format, OF assms(2)]
  then show "e < length (enclaves s)" "en_eid (enclaves s ! e) = eid" by simp_all
  from T show "en_subst_table (install_table (re_mm R) (re_tables R eid) (enclaves s ! e)) = Some (subst_table (re_mm R) (re_tables R eid))"
    "en_orig_table (install_table (re_mm R) (re_tables R eid) (enclaves s ! e)) = Some (re_tables R eid)"
    by (auto simp: install_table_def)
qed

lemma install_table_eid [simp]: "en_eid (install_table mm tbl e) = en_eid e"
  by (simp add: install_table_def)

lemma sgx_ecall_enter:
  assumes ok: "urts_ok R t s" and e: "map_of (enclave_map s) eid = Some (Some e)"
  shows "sgx_ecall (re_self R) (re_clk R) (re_mm R) real eid i (re_tables R eid) arg s =
    c_bind (real (Some (subst_table (re_mm R) (re_tables R eid)))) (\<lambda>ret. c_bind (ecall_aex_count t) (\<lambda>n.
      c_bind (log_event (re_self R) (re_clk R) (EnclaveB eid (ECallReturn (length (events s)) ret n))) (\<lambda>_.
        c_then (pop_call t) (c_ret ret))))
    (entered R t e eid (EnclaveB eid (EnclaveCall i arg (cur t s) (ECallKind 0))) s)"
proof -
  let ?s1 = "s\<lparr>enclave_map_lock := read_unlock (rd_held (enclave_map_lock s)),
                 enclaves := (enclaves s)[e := install_table (re_mm R) (re_tables R eid) (enclaves s ! e)]\<rparr>"
  let ?s2 = "?s1\<lparr>threads := (threads s)[t := (threads s ! t)\<lparr>th_last_enclave := Some e\<rparr>]\<rparr>"
  let ?b = "EnclaveB eid (EnclaveCall i arg (cur t s) (ECallKind 0))"
  have k: "\<not> finalized s" "current_thread s (re_self R) = Some t" "t < length (threads s)" "rw_free (enclave_map_lock s)"
    using ok by (simp_all add: urts_ok_def)
  have lg: "log_event (re_self R) (re_clk R) ?b ?s2 = (Inr (length (events s)), logged R t [?b] ?s2)"
    using log_event_eq [of ?s2 R t] k by simp
  have g: "get_thread (re_self R) s' = (Inr (Some t), s')" if "current_thread s' = current_thread s" for s'
    using k(2) that by (simp add: get_thread_eq)
  note en = install_table_ok [OF _ e, of R] ok
  show ?thesis
    using k e lg en [unfolded urts_ok_def]
    by (simp add: sgx_ecall_def c_bind_def [of em_read_lock] c_then_def)
      (simp add: c_bind_def em.acquire_read em.release_eq enclave_at_def upd_enclave_def
        upd_thread_def get_current_call_def set_current_call_def g entered_def Let_def)
qed

lemma tables_ok_install:
  assumes T: "tables_ok R s" and e: "map_of (enclave_map s) eid = Some (Some e)"
    and s': "enclave_map s' = enclave_map s"
      "enclaves s' = (enclaves s)[e := install_table (re_mm R) (re_tables R eid) (enclaves s ! e)]"
  shows "tables_ok R s'" "installed R s' eid" "\<And>i. installed R s i \<Longrightarrow> installed R s' i"
proof -
  note I = install_table_ok [OF T e]
  show "tables_ok R s'"
    unfolding tables_ok_def
  proof (intro allI impI)
    fix i f assume f: "map_of (enclave_map s') i = Some (Some f)"
    then have "map_of (enclave_map s) i = Some (Some f)" by (simp add: s')
    note F = T [unfolded tables_ok_def, rule_format, OF this]
    show "f < length (enclaves s') \<and> en_eid (enclaves s' ! f) = i \<and>
     (en_orig_table (enclaves s' ! f) = None \<and> en_subst_table (enclaves s' ! f) = None \<or>
      en_orig_table (enclaves s' ! f) = Some (re_tables R i) \<and>
      en_subst_table (enclaves s' ! f) = Some (subst_table (re_mm R) (re_tables R i)))"
    proof (cases "f = e")
      case True
      with F I have "i = eid" by simp
      with True I show ?thesis by (simp add: s')
    qed (use F in \<open>simp add: s'\<close>)
  qed
  show "installed R s' eid" using e I by (auto simp: installed_def s')
  show "installed R s' i" if "installed R s i" for i
  proof -
    from that obtain f where f: "map_of (enclave_map s) i = Some (Some f)" "en_orig_table (enclaves s ! f) = Some (re_tables R i)"
      by (auto simp: installed_def)
    then have "en_orig_table (enclaves s' ! f) = Some (re_tables R i)"
      using I(1) by (cases "f = e") (simp_all add: s' install_table_def)
    with f(1) show ?thesis by (auto simp: installed_def s')
  qed
qed

lemma entered_facts:
  assumes ok: "urts_ok R t s" and e: "map_of (enclave_map s) eid = Some (Some e)"
  shows "urts_ok R t (entered R t e eid b s)" "installed R (entered R t e eid b s) eid"
    "\<And>i. installed R s i \<Longrightarrow> installed R (entered R t e eid b s) i"
    "cur t (entered R t e eid b s) = Some (length (events s))"
    "events (entered R t e eid b s) = events s @ stamped R (th_sql_id (threads s ! t)) (length (events s)) [b]"
    "threads (entered R t e eid b s) = (threads s)[t := (threads s ! t)\<lparr>th_last_enclave := Some e,
       th_events := th_events (threads s ! t) @ [length (events s)], th_current_call := Some (length (events s))\<rparr>]"
    "finalized (entered R t e eid b s) = finalized s" "current_thread (entered R t e eid b s) = current_thread s"
    "enclave_map (entered R t e eid b s) = enclave_map s"
proof -
  let ?s = "entered R t e eid b s"
  have T: "tables_ok R s" and t: "t < length (threads s)" and l: "rw_free (enclave_map_lock s)"
    using ok by (simp_all add: urts_ok_def)
  show m: "enclave_map ?s = enclave_map s" by (simp add: entered_def Let_def logged_def)
  have en: "enclaves ?s = (enclaves s)[e := install_table (re_mm R) (re_tables R eid) (enclaves s ! e)]"
    by (simp add: entered_def Let_def logged_def)
  note I = tables_ok_install [OF T e m en]
  show "installed R ?s eid" "\<And>i. installed R s i \<Longrightarrow> installed R ?s i" by (rule I)+
  show thr: "threads ?s = (threads s)[t := (threads s ! t)\<lparr>th_last_enclave := Some e,
       th_events := th_events (threads s ! t) @ [length (events s)], th_current_call := Some (length (events s))\<rparr>]"
    using t by (simp add: entered_def Let_def logged_def)
  then show "cur t ?s = Some (length (events s))" using t by simp
  show "events ?s = events s @ stamped R (th_sql_id (threads s ! t)) (length (events s)) [b]"
    using t by (simp add: entered_def Let_def logged_def)
  show f: "finalized ?s = finalized s" "current_thread ?s = current_thread s"
    by (simp_all add: entered_def Let_def logged_def)
  have "rw_free (enclave_map_lock ?s)" using l by (simp add: entered_def Let_def logged_def)
  with ok f thr I(1) show "urts_ok R t ?s" by (simp add: urts_ok_def)
qed

lemma bump_ecall:
  "(bump_aex ^^ k) (EnclaveB eid (EnclaveCall i arg c (ECallKind n))) = EnclaveB eid (EnclaveCall i arg c (ECallKind (n + of_nat k)))"
  by (induction k) (simp_all add: bump_aex_def add.commute add.left_commute)

section \<open>Entering and leaving a call\<close>

text \<open>\<open>s'\<close> is the state in which the call event \<open>b\<close> has been logged and made current.\<close>

definition called :: "run_env \<Rightarrow> th_ptr \<Rightarrow> ev_body \<Rightarrow> store \<Rightarrow> store \<Rightarrow> bool" where
  "called R t b s s' \<longleftrightarrow> urts_ok R t s' \<and>
     events s' = events s @ stamped R (th_sql_id (threads s ! t)) (length (events s)) [b] \<and>
     (\<exists>le. threads s' = (threads s)[t := (threads s ! t)\<lparr>th_last_enclave := le,
       th_events := th_events (threads s ! t) @ [length (events s)], th_current_call := Some (length (events s))\<rparr>]) \<and>
     finalized s' = finalized s \<and> current_thread s' = current_thread s \<and> enclave_map s' = enclave_map s \<and>
     (\<forall>i. installed R s i \<longrightarrow> installed R s' i)"

lemma called_cur:
  assumes "called R t b s s'" "t < length (threads s)"
  shows "cur t s' = Some (length (events s))" "length (events s') = Suc (length (events s))"
    "th_sql_id (threads s' ! t) = th_sql_id (threads s ! t)"
  using assms by (auto simp: called_def)

lemma previous_call_stamp [simp]:
  "get_previous_call ((new_event u n c b)\<lparr>ev_thread_id := i\<rparr>) = get_previous_call (new_event u n c b)"
  by (simp add: get_previous_call_def)

lemma call_returns:
  assumes t: "t < length (threads s)" and c: "called R t b s s2" and r: "ran R t k s2 s3 bs"
    and b': "(bump_aex ^^ k) b = EnclaveB i (EnclaveCall ci arg (cur t s) kind)"
  shows "\<exists>s5. pop_call t (logged R t [rb] s3) = (Inr (), s5) \<and>
    ran R t 0 s s5 (EnclaveB i (EnclaveCall ci arg (cur t s) kind) # bs @ [rb])"
proof -
  let ?n = "length (events s)" let ?b' = "EnclaveB i (EnclaveCall ci arg (cur t s) kind)"
  let ?tid = "th_sql_id (threads s ! t)"
  note cc = called_cur [OF c t]
  have t2: "t < length (threads s2)" using c t by (auto simp: called_def)
  note d = ran_cur [OF r t2]
  have e2: "bumped (Some ?n) k (events s2) = events s @ stamped R ?tid ?n [?b']"
    using c b' by (simp add: called_def bumped_def stamped_Cons new_event_def)
  have e3: "events s3 = events s @ stamped R ?tid ?n (?b' # bs)"
    using r cc e2 stamped_append [of R ?tid ?n "[?b']" bs] by (simp add: ran_def)
  let ?s4 = "logged R t [rb] s3"
  have e4: "events ?s4 = events s @ stamped R ?tid ?n (?b' # bs @ [rb])"
    using e3 d cc stamped_append [of R ?tid ?n "?b' # bs" "[rb]"] by (simp add: logged_def)
  have t3: "t < length (threads s3)" using d(3) t2 by simp
  have cur4: "cur t ?s4 = Some ?n" using d(1) cc(1) t3 by (simp add: logged_def)
  have prev: "get_previous_call (events ?s4 ! ?n) = cur t s"
    by (simp add: e4 stamped_Cons) (simp add: get_previous_call_def new_event_def)
  let ?s5 = "?s4\<lparr>threads := (threads ?s4)[t := (threads ?s4 ! t)\<lparr>th_current_call := cur t s\<rparr>]\<rparr>"
  have p: "pop_call t ?s4 = (Inr (), ?s5)"
    using cur4 prev
    by (simp add: pop_call_def c_bind_def get_current_call_def set_current_call_def upd_thread_def)
  obtain l2 where l2: "threads s2 = (threads s)[t := (threads s ! t)\<lparr>th_last_enclave := l2,
       th_events := th_events (threads s ! t) @ [?n], th_current_call := Some ?n\<rparr>]"
    using c by (auto simp: called_def)
  obtain l3 where l3: "threads s3 = (threads s2)[t := (threads s2 ! t)\<lparr>th_last_enclave := l3,
        th_events := th_events (threads s2 ! t) @ [Suc ?n..<Suc ?n + length bs]\<rparr>]"
    using r cc by (auto simp: ran_def)
  have upt: "?n # [Suc ?n..<Suc ?n + length bs] @ [Suc ?n + length bs] = [?n..<?n + length (?b' # bs @ [rb])]"
    using upt_conv_Cons [of ?n "Suc (Suc (?n + length bs))"] by (simp del: upt_Suc add: upt_Suc_append)
  have "threads ?s5 = (threads s)[t := (threads s ! t)\<lparr>th_last_enclave := l3,
        th_events := th_events (threads s ! t) @ [?n..<?n + length (?b' # bs @ [rb])]\<rparr>]"
    unfolding upt [symmetric] using t e3 by (cases "threads s ! t") (simp add: logged_def l3 l2)
  moreover have "finalized ?s5 = finalized s" "current_thread ?s5 = current_thread s" "enclave_map ?s5 = enclave_map s"
    "rw_free (enclave_map_lock ?s5)"
    using c r by (simp_all add: called_def ran_def logged_def)
  moreover have "tables_ok R ?s5" using r by (simp add: ran_def logged_def tables_ok_def)
  moreover have "installed R ?s5 j" if "installed R s j" for j
  proof -
    have "installed R s3 j" using c r that by (simp add: ran_def called_def)
    then show ?thesis by (simp add: installed_def logged_def)
  qed
  ultimately have "ran R t 0 s ?s5 (?b' # bs @ [rb])"
    unfolding ran_def using e4 by auto
  with p show ?thesis by blast
qed

lemma ecall_ran:
  assumes ok: "urts_ok R t s" and e: "map_of (enclave_map s) eid = Some (Some e)"
    and inner: "\<And>s2. called R t (EnclaveB eid (EnclaveCall i arg (cur t s) (ECallKind 0))) s s2 \<Longrightarrow> installed R s2 eid \<Longrightarrow>
      \<exists>s3. body s2 = (Inr (), s3) \<and> ran R t k s2 s3 bs"
  shows "\<exists>s'. sgx_ecall (re_self R) (re_clk R) (re_mm R) (\<lambda>_. c_then body (c_ret ret)) eid i (re_tables R eid) arg s = (Inr ret, s') \<and>
    ran R t 0 s s' (EnclaveB eid (EnclaveCall i arg (cur t s) (ECallKind (of_nat k))) # bs @
      [EnclaveB eid (ECallReturn (length (events s)) ret (of_nat k))])"
proof -
  let ?n = "length (events s)"
  let ?b = "EnclaveB eid (EnclaveCall i arg (cur t s) (ECallKind 0))"
  let ?b' = "EnclaveB eid (EnclaveCall i arg (cur t s) (ECallKind (of_nat k)))"
  let ?s2 = "entered R t e eid ?b s"
  note E = entered_facts [where b = ?b, OF ok e]
  have t: "t < length (threads s)" using ok by (simp add: urts_ok_def)
  have c: "called R t ?b s ?s2" unfolding called_def using E by auto
  from inner [OF c E(2)] obtain s3 where s3: "body ?s2 = (Inr (), s3)" "ran R t k ?s2 s3 bs" by blast
  note cc = called_cur [OF c t]
  have t2: "t < length (threads ?s2)" using E(6) t by simp
  have ok3: "urts_ok R t s3" using ran_ok [OF E(1) s3(2)] .
  have bump: "(bump_aex ^^ k) ?b = ?b'" by (simp add: bump_ecall)
  have "events s3 ! ?n = (events ?s2 ! ?n)\<lparr>ev_body := ?b'\<rparr>"
    using s3(2) E(4,5) bump by (simp add: ran_def bumped_def stamped_Cons nth_append new_event_def)
  then have cnt: "ecall_aex_count t s3 = (Inr (of_nat k), s3)"
    using ran_cur(1) [OF s3(2) t2] cc(1)
    by (simp add: ecall_aex_count_def c_bind_def get_current_call_def as_ecall_def)
  have lg: "log_event (re_self R) (re_clk R) (EnclaveB eid (ECallReturn ?n ret (of_nat k))) s3 =
      (Inr (length (events s3)), logged R t [EnclaveB eid (ECallReturn ?n ret (of_nat k))] s3)"
    using ok3 by (intro log_event_eq) (simp_all add: urts_ok_def)
  obtain s5 where s5: "pop_call t (logged R t [EnclaveB eid (ECallReturn ?n ret (of_nat k))] s3) = (Inr (), s5)"
    "ran R t 0 s s5 (?b' # bs @ [EnclaveB eid (ECallReturn ?n ret (of_nat k))])"
    using call_returns [OF t c s3(2) bump] by blast
  have "sgx_ecall (re_self R) (re_clk R) (re_mm R) (\<lambda>_. c_then body (c_ret ret)) eid i (re_tables R eid) arg s = (Inr ret, s5)"
    unfolding sgx_ecall_enter [OF ok e] using s3(1) cnt lg s5(1) by (simp add: c_bind_def c_then_def)
  with s5(2) show ?thesis by blast
qed

section \<open>One ocall\<close>

lemma ocall_ran:
  assumes ok: "urts_ok R t s" and ins: "installed R s eid" and i: "unat i < length (ot_table (re_tables R eid))"
    and inner: "\<And>s2. called R t (EnclaveB eid (EnclaveCall i arg (cur t s) OCallKind)) s s2 \<Longrightarrow>
      \<exists>s3. body s2 = (Inr (), s3) \<and> ran R t 0 s2 s3 bs"
  shows "\<exists>s'. ocall_bridge (re_self R) (re_clk R) (\<lambda>_ _. c_then body (c_ret ret)) arg eid i s = (Inr ret, s') \<and>
    ran R t 0 s s' (EnclaveB eid (EnclaveCall i arg (cur t s) OCallKind) # bs @
      [EnclaveB eid (OCallReturn (length (events s)) ret)])"
proof -
  let ?n = "length (events s)" let ?b = "EnclaveB eid (EnclaveCall i arg (cur t s) OCallKind)"
  let ?s1 = "s\<lparr>enclave_map_lock := read_unlock (rd_held (enclave_map_lock s))\<rparr>"
  let ?s2 = "(logged R t [?b] ?s1)\<lparr>threads := (threads (logged R t [?b] ?s1))[t := (threads (logged R t [?b] ?s1) ! t)
     \<lparr>th_current_call := Some ?n\<rparr>]\<rparr>"
  have k: "\<not> finalized s" "current_thread s (re_self R) = Some t" "t < length (threads s)" "rw_free (enclave_map_lock s)"
    "tables_ok R s" using ok by (simp_all add: urts_ok_def)
  have lg: "log_event (re_self R) (re_clk R) ?b ?s1 = (Inr ?n, logged R t [?b] ?s1)"
    using log_event_eq [of ?s1 R t] k by simp
  have g: "get_thread (re_self R) s' = (Inr (Some t), s')" if "current_thread s' = current_thread s" for s'
    using k(2) that by (simp add: get_thread_eq)
  obtain e where e: "map_of (enclave_map s) eid = Some (Some e)" "en_orig_table (enclaves s ! e) = Some (re_tables R eid)"
    using ins by (auto simp: installed_def)
  have ob: "ocall_bridge (re_self R) (re_clk R) br arg eid i s =
    c_bind (br (ot_table (re_tables R eid) ! unat i) arg) (\<lambda>ret. c_bind (log_event (re_self R) (re_clk R) (EnclaveB eid (OCallReturn ?n ret))) (\<lambda>_.
        c_then (pop_call t) (c_ret ret))) ?s2" for br
    using k e i lg
    by (simp add: ocall_bridge_def c_bind_def [of em_read_lock] c_then_def)
      (simp add: c_bind_def em.acquire_read em.release_eq orig_bridge_def enclave_at_def
        upd_thread_def get_current_call_def set_current_call_def g)
  have c: "called R t ?b s ?s2"
    unfolding called_def using k
    by (auto simp: urts_ok_def logged_def tables_ok_def installed_def intro!: exI [of _ "th_last_enclave (threads s ! t)"])
  from inner [OF c] obtain s3 where s3: "body ?s2 = (Inr (), s3)" "ran R t 0 ?s2 s3 bs" by blast
  have ok3: "urts_ok R t s3" using ran_ok [OF _ s3(2)] c by (simp add: called_def)
  have lg': "log_event (re_self R) (re_clk R) (EnclaveB eid (OCallReturn ?n ret)) s3 =
      (Inr (length (events s3)), logged R t [EnclaveB eid (OCallReturn ?n ret)] s3)"
    using ok3 by (intro log_event_eq) (simp_all add: urts_ok_def)
  obtain s5 where s5: "pop_call t (logged R t [EnclaveB eid (OCallReturn ?n ret)] s3) = (Inr (), s5)"
    "ran R t 0 s s5 (?b # bs @ [EnclaveB eid (OCallReturn ?n ret)])"
    using call_returns [OF k(3) c s3(2), of eid i arg OCallKind] by auto
  have "ocall_bridge (re_self R) (re_clk R) (\<lambda>_ _. c_then body (c_ret ret)) arg eid i s = (Inr ret, s5)"
    unfolding ob using s3(1) lg' s5(1) by (simp add: c_bind_def c_then_def)
  with s5(2) show ?thesis by blast
qed

section \<open>Asynchronous exits\<close>

definition ecall_at :: "u64 \<Rightarrow> ev_ptr \<Rightarrow> store \<Rightarrow> bool" where
  "ecall_at eid p s \<longleftrightarrow> p < length (events s) \<and>
     (\<exists>i arg c n. ev_body (events s ! p) = EnclaveB eid (EnclaveCall i arg c (ECallKind n)))"

lemma aex_ran:
  assumes ok: "urts_ok R t s" and c: "cur t s = Some p" and p: "ecall_at eid p s"
  shows "\<exists>s'. run_e R eid EAex s = (Inr (), s') \<and> ran R t 1 s s' (tr_e (re_tracing R) eid (length (events s)) p EAex)"
proof -
  have k: "\<not> finalized s" "current_thread s (re_self R) = Some t" "t < length (threads s)" "rw_free (enclave_map_lock s)"
    "tables_ok R s" using ok by (simp_all add: urts_ok_def)
  obtain i arg pc n where b: "p < length (events s)" "ev_body (events s ! p) = EnclaveB eid (EnclaveCall i arg pc (ECallKind n))"
    using p by (auto simp: ecall_at_def)
  let ?s1 = "s\<lparr>events := bumped (Some p) 1 (events s)\<rparr>"
  have run: "run_e R eid EAex s = (if re_tracing R
      then c_then (log_event (re_self R) (re_clk R) (EnclaveB eid (AEX p))) (c_ret ()) else c_ret ()) ?s1"
    using k(2) c b by (simp add: really_new_aep_def c_bind_def c_then_def get_thread_eq get_current_call_def as_ecall_def
        upd_event_def bumped_def)
  have lg: "log_event (re_self R) (re_clk R) (EnclaveB eid (AEX p)) ?s1 =
      (Inr (length (events s)), logged R t [EnclaveB eid (AEX p)] ?s1)"
    using log_event_eq [of ?s1 R t] k by simp
  show ?thesis
  proof (cases "re_tracing R")
    case True
    have "ran R t 1 s (logged R t [EnclaveB eid (AEX p)] ?s1) [EnclaveB eid (AEX p)]"
      using k c by (auto simp: ran_def logged_def tables_ok_def installed_def intro!: exI [of _ "th_last_enclave (threads s ! t)"])
    with run True lg show ?thesis by (simp add: c_then_def c_bind_def)
  next
    case False
    have "ran R t 1 s ?s1 []"
      using k c by (auto simp: ran_def tables_ok_def installed_def intro!: exI [of _ "th_last_enclave (threads s ! t)"])
    with run False show ?thesis by simp
  qed
qed

section \<open>Whole runs\<close>

text \<open>A tree that calls enclaves of the map only, with ocall numbers their tables have.\<close>

fun wf_u :: "run_env \<Rightarrow> u64 set \<Rightarrow> uact \<Rightarrow> bool"
  and wf_us :: "run_env \<Rightarrow> u64 set \<Rightarrow> uact list \<Rightarrow> bool"
  and wf_e :: "run_env \<Rightarrow> u64 set \<Rightarrow> u64 \<Rightarrow> eact \<Rightarrow> bool"
  and wf_es :: "run_env \<Rightarrow> u64 set \<Rightarrow> u64 \<Rightarrow> eact list \<Rightarrow> bool" where
  "wf_u R E (UEcall eid i arg ret acts) \<longleftrightarrow> eid \<in> E \<and> wf_es R E eid acts"
| "wf_us R E [] \<longleftrightarrow> True"
| "wf_us R E (a # as) \<longleftrightarrow> wf_u R E a \<and> wf_us R E as"
| "wf_e R E eid (EOcall i arg ret acts) \<longleftrightarrow> unat i < length (ot_table (re_tables R eid)) \<and> wf_us R E acts"
| "wf_e R E eid EAex \<longleftrightarrow> True"
| "wf_es R E eid [] \<longleftrightarrow> True"
| "wf_es R E eid (a # as) \<longleftrightarrow> wf_e R E eid a \<and> wf_es R E eid as"

definition known_enclaves :: "store \<Rightarrow> u64 set" where
  "known_enclaves s = {eid. \<exists>e. map_of (enclave_map s) eid = Some (Some e)}"

definition in_call :: "th_ptr \<Rightarrow> store \<Rightarrow> bool" where
  "in_call t s \<longleftrightarrow> (\<forall>p. cur t s = Some p \<longrightarrow> p < length (events s))"

lemma ran_in_call: "ran R t k s s' bs \<Longrightarrow> t < length (threads s) \<Longrightarrow> in_call t s \<Longrightarrow> in_call t s'"
  using ran_cur [of R t k s s' bs] by (auto simp: in_call_def)

lemma ran_known: "ran R t k s s' bs \<Longrightarrow> known_enclaves s' = known_enclaves s"
  by (simp add: ran_def known_enclaves_def)

lemma called_known: "called R t b s s' \<Longrightarrow> known_enclaves s' = known_enclaves s"
  by (simp add: called_def known_enclaves_def)

lemma ran_ecall_at:
  assumes "ran R t k s s' bs" "cur t s = Some p" "ecall_at eid p s"
  shows "ecall_at eid p s'"
proof -
  obtain i arg c n where "p < length (events s)" "ev_body (events s ! p) = EnclaveB eid (EnclaveCall i arg c (ECallKind n))"
    using assms(3) by (auto simp: ecall_at_def)
  with assms(1,2) show ?thesis by (simp add: ran_def ecall_at_def bumped_def nth_append bump_ecall)
qed

lemma run_tree_ran:
  shows "\<lbrakk>urts_ok R t s; in_call t s; wf_u R (known_enclaves s) a\<rbrakk> \<Longrightarrow>
      \<exists>s'. run_u R a s = (Inr (), s') \<and> ran R t 0 s s' (tr_u (re_tracing R) (length (events s)) (cur t s) a)"
    and "\<lbrakk>urts_ok R t s; in_call t s; wf_us R (known_enclaves s) as\<rbrakk> \<Longrightarrow>
      \<exists>s'. run_us R as s = (Inr (), s') \<and> ran R t 0 s s' (tr_us (re_tracing R) (length (events s)) (cur t s) as)"
    and "\<lbrakk>urts_ok R t s; cur t s = Some p; ecall_at eid p s; installed R s eid; wf_e R (known_enclaves s) eid b\<rbrakk> \<Longrightarrow>
      \<exists>s'. run_e R eid b s = (Inr (), s') \<and> ran R t (aexs [b]) s s' (tr_e (re_tracing R) eid (length (events s)) p b)"
    and "\<lbrakk>urts_ok R t s; cur t s = Some p; ecall_at eid p s; installed R s eid; wf_es R (known_enclaves s) eid bs\<rbrakk> \<Longrightarrow>
      \<exists>s'. run_es R eid bs s = (Inr (), s') \<and> ran R t (aexs bs) s s' (tr_es (re_tracing R) eid (length (events s)) p bs)"
proof (induction R a and R as and R eid b and R eid bs arbitrary: s and s and s p and s p rule: run_u_run_us_run_e_run_es.induct)
  case (1 R eid i arg ret acts)
  obtain e where e: "map_of (enclave_map s) eid = Some (Some e)" using 1 by (auto simp: known_enclaves_def)
  let ?bs = "tr_es (re_tracing R) eid (Suc (length (events s))) (length (events s)) acts"
  have t: "t < length (threads s)" using 1 by (simp add: urts_ok_def)
  have inner: "\<exists>s3. run_es R eid acts s2 = (Inr (), s3) \<and> ran R t (aexs acts) s2 s3 ?bs"
    if c: "called R t (EnclaveB eid (EnclaveCall i arg (cur t s) (ECallKind 0))) s s2" and i: "installed R s2 eid" for s2
  proof -
    have "ecall_at eid (length (events s)) s2" using c by (auto simp: called_def ecall_at_def stamped_Cons new_event_def)
    then show ?thesis
      using 1(1) [of s2 "length (events s)"] called_cur [OF c t] c i 1(4) called_known [OF c] by (simp add: called_def)
  qed
  obtain s' where "sgx_ecall (re_self R) (re_clk R) (re_mm R) (\<lambda>_. c_then (run_es R eid acts) (c_ret ret)) eid i (re_tables R eid) arg s = (Inr ret, s')"
    "ran R t 0 s s' (tr_u (re_tracing R) (length (events s)) (cur t s) (UEcall eid i arg ret acts))"
    using ecall_ran [where i = i and arg = arg, OF 1(2) e inner, of ret] by auto
  then show ?case by (simp add: c_then_eq)
next
  case (2 R)
  then show ?case using ran_refl by auto
next
  case (3 R a as)
  have t: "t < length (threads s)" using 3 by (simp add: urts_ok_def)
  from 3 obtain s1 where s1: "run_u R a s = (Inr (), s1)" "ran R t 0 s s1 (tr_u (re_tracing R) (length (events s)) (cur t s) a)"
    by auto
  note d = ran_cur [OF s1(2) t]
  from 3(2) [of s1] 3(5) ran_ok [OF 3(3) s1(2)] ran_in_call [OF s1(2) t 3(4)] ran_known [OF s1(2)]
  obtain s2 where s2: "run_us R as s1 = (Inr (), s2)" "ran R t 0 s1 s2 (tr_us (re_tracing R) (length (events s1)) (cur t s1) as)"
    by auto
  show ?case
    using s1(1) s2(1) ran_trans [OF 3(3) _ s1(2) s2(2)] 3(4) d by (auto simp: c_then_def c_bind_def Let_def in_call_def)
next
  case (4 R eid i arg ret acts)
  have t: "t < length (threads s)" using 4 by (simp add: urts_ok_def)
  have inner: "\<exists>s3. run_us R acts s2 = (Inr (), s3) \<and>
      ran R t 0 s2 s3 (tr_us (re_tracing R) (Suc (length (events s))) (Some (length (events s))) acts)"
    if c: "called R t (EnclaveB eid (EnclaveCall i arg (cur t s) OCallKind)) s s2" for s2
    using 4(1) [of s2] called_cur [OF c t] c 4(6) called_known [OF c] by (simp add: called_def in_call_def)
  have i: "unat i < length (ot_table (re_tables R eid))" using 4(6) by simp
  obtain s' where "ocall_bridge (re_self R) (re_clk R) (\<lambda>_ _. c_then (run_us R acts) (c_ret ret)) arg eid i s = (Inr ret, s')"
    "ran R t 0 s s' (tr_e (re_tracing R) eid (length (events s)) p (EOcall i arg ret acts))"
    using ocall_ran [where arg = arg, OF 4(2) 4(5) i inner, of ret] 4(3) by auto
  then show ?case by (simp add: c_then_eq aexs_def)
next
  case (5 R eid)
  then show ?case using aex_ran [OF 5(1-3)] by (simp add: aexs_def)
next
  case (6 R eid)
  then show ?case using ran_refl by (auto simp: aexs_def)
next
  case (7 R eid a as)
  have t: "t < length (threads s)" using 7 by (simp add: urts_ok_def)
  have c: "\<forall>q. cur t s = Some q \<longrightarrow> q < length (events s)" using 7(4,5) by (auto simp: ecall_at_def)
  from 7(1) [OF 7(3-6)] 7(7) obtain s1 where s1: "run_e R eid a s = (Inr (), s1)" "ran R t (aexs [a]) s s1 (tr_e (re_tracing R) eid (length (events s)) p a)"
    by auto
  note d = ran_cur [OF s1(2) t]
  have "installed R s1 eid" using s1(2) 7(6) by (simp add: ran_def)
  with 7(2) [of s1 p] 7(4,7) ran_ok [OF 7(3) s1(2)] ran_ecall_at [OF s1(2) 7(4,5)] ran_known [OF s1(2)] d
  obtain s2 where s2: "run_es R eid as s1 = (Inr (), s2)" "ran R t (aexs as) s1 s2 (tr_es (re_tracing R) eid (length (events s1)) p as)"
    by auto
  have "aexs [a] + aexs as = aexs (a # as)" by (simp add: aexs_def)
  with s1(1) s2(1) ran_trans [OF 7(3) c s1(2) s2(2)] d show ?case by (auto simp: c_then_def c_bind_def Let_def)
qed

section \<open>Nesting\<close>

definition top_call :: "ev_ptr list \<Rightarrow> ev_ptr option" where
  "top_call st = (case st of [] \<Rightarrow> None | p # _ \<Rightarrow> Some p)"

definition pop_if :: "ev_ptr \<Rightarrow> ev_ptr list \<Rightarrow> ev_ptr list option" where
  "pop_if p st = (case st of [] \<Rightarrow> None | q # st' \<Rightarrow> if q = p then Some st' else None)"

text \<open>
  The stack discipline of a thread's events, read from position \<open>n\<close> with the open calls \<open>st\<close>: a call
  refers to the innermost open call, a return event to the innermost open call, which it closes, an
  exit event to the innermost open call.
\<close>

definition nest_step :: "nat \<Rightarrow> ev_body \<Rightarrow> ev_ptr list \<Rightarrow> ev_ptr list option" where
  "nest_step n b st =
     (case b of
        EnclaveB e (EnclaveCall i a c k) \<Rightarrow> if c = top_call st then Some (n # st) else None
      | EnclaveB e (ECallReturn p r x) \<Rightarrow> pop_if p st
      | EnclaveB e (OCallReturn p r) \<Rightarrow> pop_if p st
      | EnclaveB e (AEX p) \<Rightarrow> if top_call st = Some p then Some st else None
      | _ \<Rightarrow> Some st)"

fun nest :: "nat \<Rightarrow> ev_ptr list \<Rightarrow> ev_body list \<Rightarrow> ev_ptr list option" where
  "nest n st [] = Some st"
| "nest n st (b # bs) = Option.bind (nest_step n b st) (\<lambda>st'. nest (Suc n) st' bs)"

lemma nest_append: "nest n st (xs @ ys) = Option.bind (nest n st xs) (\<lambda>st'. nest (n + length xs) st' ys)"
  by (induction n st xs rule: nest.induct) (auto split: Option.bind_split)

lemma tr_nested:
  shows "nest n st (tr_u tracing n (top_call st) a) = Some st"
    and "nest n st (tr_us tracing n (top_call st) as) = Some st"
    and "nest n (p # st) (tr_e tracing eid n p b) = Some (p # st)"
    and "nest n (p # st) (tr_es tracing eid n p bs) = Some (p # st)"
proof (induction tracing n "top_call st" a and tracing n "top_call st" as and tracing eid n p b and tracing eid n p bs
    arbitrary: st and st and st and st rule: tr_u_tr_us_tr_e_tr_es.induct)
  case (4 tracing eid n p i arg ret acts)
  from 4 [of "n # p # st"] show ?case by (simp add: nest_append nest_step_def top_call_def pop_if_def)
qed (simp_all add: nest_append nest_step_def pop_if_def Let_def, simp_all add: top_call_def)

text \<open>C1: however ecalls, the ocalls they make, the ecalls those make and asynchronous exits are nested,
  the interposed handlers end without a fault, give every ecall the substituted table, and log exactly the events
  of the tree, in order, stamped with the thread; afterwards the thread is in the call it was in
  before, every call event refers to the call it was made in, and every return event to the
  innermost call open at that point.\<close>

theorem call_tree_logged:
  assumes "urts_ok R t s" and "in_call t s" and "wf_us R (known_enclaves s) as"
    and "th_current_call (threads s ! t) = top_call st"
  shows "\<exists>s' bs. run_us R as s = (Inr (), s') \<and>
    bs = tr_us (re_tracing R) (length (events s)) (top_call st) as \<and>
    events s' = events s @ stamped R (th_sql_id (threads s ! t)) (length (events s)) bs \<and>
    th_events (threads s' ! t) = th_events (threads s ! t) @ [length (events s)..<length (events s')] \<and>
    th_current_call (threads s' ! t) = top_call st \<and>
    nest (length (events s)) st bs = Some st"
proof -
  let ?bs = "tr_us (re_tracing R) (length (events s)) (top_call st) as"
  obtain s' where s': "run_us R as s = (Inr (), s')" "ran R t 0 s s' ?bs"
    using run_tree_ran(2) [OF assms(1-3)] assms(4) by auto
  have t: "t < length (threads s)" using assms(1) by (simp add: urts_ok_def)
  note d = ran_cur [OF s'(2) t]
  have "th_events (threads s' ! t) = th_events (threads s ! t) @ [length (events s)..<length (events s')]"
    using s'(2) t d(4) by (auto simp: ran_def)
  moreover have "events s' = events s @ stamped R (th_sql_id (threads s ! t)) (length (events s)) ?bs"
    using s'(2) by (simp add: ran_def)
  ultimately show ?thesis
    using s'(1) d(1) assms(4) tr_nested(2) [of "length (events s)" st "re_tracing R" as]
    by (intro exI [of _ s'] exI [of _ ?bs]) simp
qed

text \<open>A thread outside any call and an enclave that has not been called yet.\<close>

definition ex_urts :: store where
  "ex_urts = (EventStore (3, 5))\<lparr>threads := [new_thread 7 0], thread_id := 1, thread_events := [(7, 0)],
     current_thread := [7 \<mapsto> 0], main_thread := Some 0,
     enclaves := [new_enclave 2 4096 65536], enclave_map := [(2, Some 0)]\<rparr>"

definition ex_env :: run_env where
  "ex_env = \<lparr>re_self = 7, re_clk = (\<lambda>n. ((4, of_nat n), 1)), re_mm = (\<lambda>i. 65536 * of_nat i), re_tracing = True,
     re_tables = (\<lambda>_. \<lparr>ot_count = 2, ot_table = [81, 82]\<rparr>)\<rparr>"

definition ex_tree :: "uact list" where
  "ex_tree = [UEcall 2 0 11 0 [EAex, EOcall 1 12 0 [UEcall 2 3 13 0 [EAex]], EAex]]"

theorem call_tree_logged_witness:
  "\<exists>s'. run_us ex_env ex_tree ex_urts = (Inr (), s') \<and>
     map ev_body (events s') =
       [EnclaveB 2 (EnclaveCall 0 11 None (ECallKind 2)), EnclaveB 2 (AEX 0),
        EnclaveB 2 (EnclaveCall 1 12 (Some 0) OCallKind),
        EnclaveB 2 (EnclaveCall 3 13 (Some 2) (ECallKind 1)), EnclaveB 2 (AEX 3), EnclaveB 2 (ECallReturn 3 0 1),
        EnclaveB 2 (OCallReturn 2 0), EnclaveB 2 (AEX 0), EnclaveB 2 (ECallReturn 0 0 2)]"
proof -
  have ok: "urts_ok ex_env 0 ex_urts" "in_call 0 ex_urts" "th_current_call (threads ex_urts ! 0) = top_call []"
    by (simp_all add: urts_ok_def ex_urts_def EventStore_def ex_env_def tables_ok_def new_enclave_def in_call_def
        new_thread_def top_call_def)
  have k: "known_enclaves ex_urts = {2}" by (auto simp: known_enclaves_def ex_urts_def)
  have wf: "wf_us ex_env (known_enclaves ex_urts) ex_tree"
    unfolding k by (simp add: ex_tree_def ex_env_def)
  have e: "events ex_urts = []" "re_tracing ex_env" by (simp_all add: ex_urts_def EventStore_def ex_env_def)
  show ?thesis
    using call_tree_logged [OF ok(1,2) wf ok(3)] e
    by (auto simp: ex_tree_def aexs_def top_call_def Let_def stamped_Cons new_event_def)
qed

end
