(* ===== verification/UrtsSync.thy ===== *)
theory UrtsSync
  imports UrtsRun
begin

text \<open>The synchronisation ocalls: a wake-up is attributed to the wait it ends.\<close>

lemma insert_known:
  assumes "\<not> finalized s" and "current_thread s self = Some t" and "ev_body (events s ! p) = EnclaveB eid b"
  shows "insert_event self self p s = (Inr (), queue_event t p s)"
proof -
  have "find_current self self s = (Inr t, s)" using assms(2) by (simp add: find_current_def)
  then have "insert_event self self p s = c_bind (c_get (\<lambda>s. ev_body (events s ! p))) (\<lambda>b.
      c_then (case b of ThreadB other x (ThreadCreator f r) \<Rightarrow> add_created other | _ \<Rightarrow> c_ret ())
        (case b of ThreadB other x sub \<Rightarrow> thread_event_part self p t other | _ \<Rightarrow> c_ret ())) (queue_event t p s)"
    using assms(1) by (simp only: insert_event_def c_bind_eq queue_event_steps if_False)
  then show ?thesis using assms(3) by (simp add: c_bind_def c_then_def)
qed

text \<open>The calling thread is known and in ocall \<open>p\<close>.\<close>

definition in_ocall :: "run_env \<Rightarrow> th_ptr \<Rightarrow> ev_ptr \<Rightarrow> u64 \<Rightarrow> store \<Rightarrow> bool" where
  "in_ocall R t p eid s \<longleftrightarrow> \<not> finalized s \<and> current_thread s (re_self R) = Some t \<and> t < length (threads s) \<and>
     cur t s = Some p \<and> p < length (events s) \<and>
     (\<exists>i arg c. ev_body (events s ! p) = EnclaveB eid (EnclaveCall i arg c OCallKind)) \<and> rw_free (tcs_map_lock s)"

lemma current_ocall_eq: "in_ocall R t p eid s \<Longrightarrow> current_ocall (re_self R) s = (Inr p, s)"
  by (auto simp: in_ocall_def current_ocall_def c_bind_def get_thread_eq get_current_call_def as_ocall_def)

text \<open>What a wait and a set do to the map of waiting threads, with the lock word they leave.\<close>

definition tcs_set :: "u64 \<Rightarrow> ev_ptr option \<Rightarrow> store \<Rightarrow> store" where
  "tcs_set tcs v s = s\<lparr>tcs_map_lock := write_unlock (wr_held (tcs_map_lock s)), tcs_map := (tcs_map s)(tcs := v)\<rparr>"

lemma wait_eq:
  assumes o: "in_ocall R t p eid s" and tcs: "tcs \<noteq> 0"
  shows "sgx_thread_wait (re_self R) (re_clk R) real tcs s =
    real (logged R t [EnclaveB eid (SyncWait p)]
      (tcs_set tcs (Some (case tcs_map s tcs of None \<Rightarrow> length (events s) | Some w \<Rightarrow> w)) s))"
proof -
  let ?n = "length (events s)"
  let ?e = "new_event (re_self R) (fst (re_clk R ?n)) (snd (re_clk R ?n)) (EnclaveB eid (SyncWait p))"
  let ?v = "Some (case tcs_map s tcs of None \<Rightarrow> ?n | Some w \<Rightarrow> w)"
  let ?s1 = "s\<lparr>events := events s @ [?e], tcs_map := (tcs_map s)(tcs := ?v),
    tcs_map_lock := write_unlock (wr_held (tcs_map_lock s))\<rparr>"
  note O = o [unfolded in_ocall_def]
  have eid: "ev_eid (ev_body (events s ! p)) = eid" using O by auto
  have ins: "insert_event (re_self R) (re_self R) ?n ?s1 = (Inr (), queue_event t ?n ?s1)"
    using O by (intro insert_known) (auto simp: tcs_set_def new_event_def)
  have q: "queue_event t ?n ?s1 = logged R t [EnclaveB eid (SyncWait p)] (tcs_set tcs ?v s)"
    using O by (simp add: queue_event_def logged_def stamped_Cons tcs_set_def)
  have "tcs_insert tcs ?n (s\<lparr>events := events s @ [?e], tcs_map_lock := l\<rparr>) = s\<lparr>events := events s @ [?e], tcs_map_lock := l, tcs_map := (tcs_map s)(tcs := ?v)\<rparr>" for l
    by (auto simp: tcs_insert_def fun_upd_idem split: option.split)
  then have "sgx_thread_wait (re_self R) (re_clk R) real tcs s =
      c_then (insert_event (re_self R) (re_self R) ?n) real ?s1"
    using O tcs current_ocall_eq [OF o] eid
    by (simp add: sgx_thread_wait_def c_bind_def [of "current_ocall _"])
      (simp add: c_bind_def c_then_def make_event_def Let_def alloc_event_def tm.acquire_write tm.release_eq tcs_set_def)
  then show ?thesis using ins q by (simp add: c_then_eq)
qed

lemma set_eq:
  assumes o: "in_ocall R t p eid s" and tcs: "tcs \<noteq> 0"
  shows "sgx_thread_set (re_self R) (re_clk R) real tcs s =
    real tcs (logged R t (case tcs_map s tcs of None \<Rightarrow> [] | Some w \<Rightarrow> [EnclaveB (ev_eid (ev_body (events s ! w))) (SyncSet p w)])
      (tcs_set tcs None s))"
proof -
  note O = o [unfolded in_ocall_def]
  let ?s1 = "s\<lparr>tcs_map := (tcs_map s)(tcs := None), tcs_map_lock := write_unlock (wr_held (tcs_map_lock s))\<rparr>"
  have s1: "?s1 = tcs_set tcs None s" by (simp add: tcs_set_def)
  have o1: "in_ocall R t p eid ?s1" using o by (simp add: in_ocall_def)
  have lg: "log_event (re_self R) (re_clk R) (EnclaveB i (SyncSet p w)) ?s1 = (Inr (length (events s)), logged R t [EnclaveB i (SyncSet p w)] ?s1)" for i w
    using log_event_eq [of ?s1 R t] O by simp
  have nil: "logged R t [] ?s1 = ?s1" using O by (simp add: logged_def)
  show ?thesis
    using O tcs current_ocall_eq [OF o1] lg nil unfolding s1 [symmetric]
    by (cases "tcs_map s tcs")
      (simp_all add: sgx_thread_set_def c_bind_def c_then_def get_thread_eq tm.acquire_write tm.release_eq)
qed

text \<open>C11: when a thread waits in an ocall and another thread, in an ocall of its own, then wakes it, a wait event
  and a set event are logged, the set event refers to exactly that wait event and to the ocall of the
  waking thread, and the map of waiting threads is as it was before; a wake-up for which no wait is on
  record logs nothing.\<close>

theorem wait_set_pairing:
  assumes "in_ocall A t p eid s" and "in_ocall B u q eid' s" and "t \<noteq> u" and "tcs \<noteq> 0" and "tcs_map s tcs = None"
  shows "\<exists>s1 s2 s3. sgx_thread_wait (re_self A) (re_clk A) (c_ret r) tcs s = (Inr r, s1) \<and>
    sgx_thread_set (re_self B) (re_clk B) (\<lambda>_. c_ret r') tcs s1 = (Inr r', s2) \<and>
    map ev_body (events s2) = map ev_body (events s) @
      [EnclaveB eid (SyncWait p), EnclaveB eid (SyncSet q (length (events s)))] \<and>
    tcs_map s2 = tcs_map s \<and> rw_free (tcs_map_lock s2) \<and>
    sgx_thread_set (re_self B) (re_clk B) (\<lambda>_. c_ret r') tcs s2 = (Inr r', s3) \<and> events s3 = events s2"
proof -
  let ?s1 = "logged A t [EnclaveB eid (SyncWait p)] (tcs_set tcs (Some (length (events s))) s)"
  have w: "sgx_thread_wait (re_self A) (re_clk A) (c_ret r) tcs s = (Inr r, ?s1)"
    using wait_eq [OF assms(1,4)] assms(5) by simp
  have o1: "in_ocall B u q eid' ?s1"
    using assms(1-3) by (auto simp: in_ocall_def logged_def tcs_set_def nth_append)
  have m1: "tcs_map ?s1 tcs = Some (length (events s))" by (simp add: logged_def tcs_set_def)
  have e1: "ev_eid (ev_body (events ?s1 ! length (events s))) = eid"
    by (simp add: logged_def tcs_set_def stamped_Cons new_event_def)
  let ?s2 = "logged B u [EnclaveB eid (SyncSet q (length (events s)))] (tcs_set tcs None ?s1)"
  have x: "sgx_thread_set (re_self B) (re_clk B) (\<lambda>_. c_ret r') tcs ?s1 = (Inr r', ?s2)"
    using set_eq [OF o1 assms(4)] m1 e1 by simp
  have o2: "in_ocall B u q eid' ?s2"
    using o1 by (auto simp: in_ocall_def logged_def tcs_set_def nth_append)
  have m2: "tcs_map ?s2 = tcs_map s" using assms(5) by (auto simp: logged_def tcs_set_def)
  let ?s3 = "logged B u [] (tcs_set tcs None ?s2)"
  have y: "sgx_thread_set (re_self B) (re_clk B) (\<lambda>_. c_ret r') tcs ?s2 = (Inr r', ?s3)"
    using set_eq [OF o2 assms(4)] m2 assms(5) by simp
  have "map ev_body (events ?s2) = map ev_body (events s) @
      [EnclaveB eid (SyncWait p), EnclaveB eid (SyncSet q (length (events s)))]" "events ?s3 = events ?s2"
    by (simp_all add: logged_def tcs_set_def stamped_Cons new_event_def)
  moreover have "rw_free (tcs_map_lock ?s2)" using o2 by (simp add: in_ocall_def)
  ultimately show ?thesis using w x y m2 by blast
qed

text \<open>Two threads in ocalls of an enclave.\<close>

definition ex_sync :: store where
  "ex_sync = (EventStore (3, 5))\<lparr>
     threads := [(new_thread 7 0)\<lparr>th_current_call := Some 0\<rparr>, (new_thread 8 1)\<lparr>th_current_call := Some 1\<rparr>],
     current_thread := [7 \<mapsto> 0, 8 \<mapsto> 1],
     events := [new_event 7 (3, 6) 0 (EnclaveB 2 (EnclaveCall 4 0 None OCallKind)),
                new_event 8 (3, 7) 1 (EnclaveB 2 (EnclaveCall 5 0 None OCallKind))]\<rparr>"

theorem wait_set_pairing_witness:
  "\<exists>s1 s2. sgx_thread_wait 7 (re_clk ex_env) (c_ret 0) 4096 ex_sync = (Inr 0, s1) \<and>
     sgx_thread_set 8 (re_clk ex_env) (\<lambda>_. c_ret 0) 4096 s1 = (Inr 0, s2) \<and>
     drop 2 (map ev_body (events s2)) = [EnclaveB 2 (SyncWait 0), EnclaveB 2 (SyncSet 1 2)]"
proof -
  have "in_ocall ex_env 0 0 2 ex_sync" "in_ocall (ex_env\<lparr>re_self := 8\<rparr>) 1 1 2 ex_sync" "tcs_map ex_sync 4096 = None"
    by (simp_all add: in_ocall_def ex_env_def ex_sync_def EventStore_def new_event_def)
  from wait_set_pairing [OF this(1,2) _ _ this(3), of 0 0] obtain s1 s2 where
    "sgx_thread_wait (re_self ex_env) (re_clk ex_env) (c_ret 0) 4096 ex_sync = (Inr 0, s1)"
    "sgx_thread_set (re_self (ex_env\<lparr>re_self := 8\<rparr>)) (re_clk (ex_env\<lparr>re_self := 8\<rparr>)) (\<lambda>_. c_ret 0) 4096 s1 = (Inr 0, s2)"
    "map ev_body (events s2) = map ev_body (events ex_sync) @
       [EnclaveB 2 (SyncWait 0), EnclaveB 2 (SyncSet 1 (length (events ex_sync)))]" by auto
  moreover have "re_self ex_env = 7" "length (events ex_sync) = 2" by (simp_all add: ex_env_def ex_sync_def)
  ultimately show ?thesis by (intro exI [of _ s1] exI [of _ s2]) simp
qed

end
