(* ===== verification/LibcCalls.thy ===== *)
theory LibcCalls
  imports UrtsSync
begin

text \<open>
  The interposed calls of the C library that concern threads, \<^verbatim>\<open>src/logger/src/libc_calls.cpp\<close>: creation, naming and end. The real functions are
  arguments; \<open>self\<close> is the calling thread and \<open>clk\<close> gives the clock and processor readings of an event.
\<close>

section \<open>Threads\<close>

text \<open>A new event that involves another thread, whose id is filled in when it is inserted.\<close>

definition thread_event :: "u64 \<Rightarrow> thread_sub \<Rightarrow> ev_body" where
  "thread_event t sub = ThreadB t UINT64_MAX sub"

text \<open>\<open>set_info\<close> of the event of a created thread.\<close>

definition set_creator_info :: "u64 \<Rightarrow> u64 \<Rightarrow> u32 \<Rightarrow> ev_body \<Rightarrow> ev_body" where
  "set_creator_info thread f ret b = (case b of ThreadB _ i (ThreadCreator _ _) \<Rightarrow> ThreadB thread i (ThreadCreator f ret) | _ \<Rightarrow> b)"

definition set_name_ret :: "u32 \<Rightarrow> ev_body \<Rightarrow> ev_body" where
  "set_name_ret ret b = (case b of ThreadB t i (ThreadSetName n _) \<Rightarrow> ThreadB t i (ThreadSetName n ret) | _ \<Rightarrow> b)"

text \<open>The start function of every thread; \<open>start\<close> is what the thread was created for.\<close>

definition intercepter_thread_start :: "u64 \<Rightarrow> clock \<Rightarrow> u64 \<Rightarrow> u64 \<Rightarrow> (store, u64) comp \<Rightarrow> (store, u64) comp" where
  "intercepter_thread_start self clk creator arg start =
     c_then (log_event self clk (thread_event creator (ThreadCreation arg))) (c_bind start (\<lambda>ret.
       c_then (log_event self clk (thread_event creator (ThreadDestruction ret))) (c_ret ret)))"

text \<open>\<open>real\<close> is the call of the real function, with whatever other threads do meanwhile; it returns the new thread and the error.\<close>

definition pthread_create :: "u64 \<Rightarrow> clock \<Rightarrow> u64 \<Rightarrow> (store, u64 \<times> u32) comp \<Rightarrow> (store, u32) comp" where
  "pthread_create self clk orig_start real =
     c_bind (make_event self clk (thread_event 0 (ThreadCreator 0 0))) (\<lambda>e. c_bind real (\<lambda>(thread, ret).
       c_then (upd_event e (\<lambda>v. v\<lparr>ev_body := set_creator_info thread orig_start ret (ev_body v)\<rparr>))
         (c_then (insert_event self self e) (c_ret ret))))"

definition pthread_setname_np :: "u64 \<Rightarrow> clock \<Rightarrow> u64 \<Rightarrow> string \<Rightarrow> u32 \<Rightarrow> (store, u32) comp" where
  "pthread_setname_np self clk thread name ret =
     c_bind (log_event self clk (thread_event thread (ThreadSetName name 0xffffffff))) (\<lambda>e.
       c_then (upd_event e (\<lambda>v. v\<lparr>ev_body := set_name_ret ret (ev_body v)\<rparr>)) (c_ret ret))"

definition initialize_libc_calls :: "(string \<Rightarrow> u64) \<Rightarrow> int" where
  "initialize_libc_calls dlsym =
     (if dlsym ''pthread_create'' = 0 then -1 else if dlsym ''pthread_setname_np'' = 0 then -1
      else if dlsym ''sigaction'' = 0 then -1 else if dlsym ''signal'' = 0 then -1 else 0)"

end
