(* ===== verification/Perf.thy ===== *)
theory Perf
  imports Config LibcCalls
begin

text \<open>
  Sampling and tracing, \<^verbatim>\<open>src/logger/src/perf.h\<close> and \<^verbatim>\<open>perf.cpp\<close>: setting the kernel up, reading the trace of paged enclave pages, and
  undoing the setup. What the system calls return is an argument; the calls that are made are recorded.
\<close>

section \<open>The kernel\<close>

datatype sys_call =
    Sys_open string bool
  | Sys_write string string
  | Sys_perf_open
  | Sys_ioctl string
  | Sys_rmdir string
  | Sys_mkdir string
  | Sys_close int

record sys =
  sys_open :: "string \<Rightarrow> bool \<Rightarrow> int"
  sys_write :: "string \<Rightarrow> string \<Rightarrow> int"
  sys_perf_fd :: int
  sys_nonblock :: "int \<Rightarrow> int"
  sys_mmap :: u64
  sys_is_dir :: "string \<Rightarrow> bool"
  sys_rmdir :: "string \<Rightarrow> int"
  sys_mkdir :: "string \<Rightarrow> int"
  sys_pid :: string

record perf =
  perf_s_fd :: int
  perf_kprobe_fd :: int
  select_max_fd :: int
  sample_buffer :: u64
  kprobe_path :: string
  pf_calls :: "sys_call list"

definition Perf :: perf where
  "Perf = \<lparr>perf_s_fd = -1, perf_kprobe_fd = -1, select_max_fd = -1, sample_buffer = 0, kprobe_path = '''', pf_calls = []\<rparr>"

definition TRACE_BASE_PATH :: string where
  "TRACE_BASE_PATH = ''/sys/kernel/debug/tracing/''"

definition sys_do :: "sys_call \<Rightarrow> (perf, unit) comp" where
  "sys_do x = c_upd (\<lambda>p. p\<lparr>pf_calls := pf_calls p @ [x]\<rparr>)"

section \<open>Tracing files\<close>

definition write_tracing_file' :: "sys \<Rightarrow> string \<Rightarrow> string \<Rightarrow> bool \<Rightarrow> (perf, int) comp" where
  "write_tracing_file' k name val app =
     (let file = TRACE_BASE_PATH @ name; fd = sys_open k file app in
      c_then (sys_do (Sys_open file app))
        (if fd < 0 then c_ret (-1)
         else c_then (sys_do (Sys_write file val)) (c_then (sys_do (Sys_close fd))
           (c_ret (if sys_write k file val = int (length val) then 0 else -1)))))"

definition write_tracing_file :: "sys \<Rightarrow> string \<Rightarrow> string \<Rightarrow> (perf, int) comp" where
  "write_tracing_file k name val = write_tracing_file' k name val False"

definition append_tracing_file :: "sys \<Rightarrow> string \<Rightarrow> string \<Rightarrow> (perf, int) comp" where
  "append_tracing_file k name val = write_tracing_file' k name val True"

definition reset_files :: "(string \<times> string) list" where
  "reset_files = [(''current_tracer'', ''nop''), (''tracing_on'', ''0''), (''kprobe_events'', '' ''), (''set_ftrace_filter'', '' ''),
     (''set_ftrace_notrace'', '' ''), (''set_graph_function'', '' ''), (''set_graph_notrace'', '' '')]"

definition reset_tracing :: "sys \<Rightarrow> (perf, unit) comp" where
  "reset_tracing k = c_each (\<lambda>(name, val). c_then (write_tracing_file k name val) (c_ret ())) reset_files"

text \<open>A write that must succeed.\<close>

definition must :: "(perf, int) comp \<Rightarrow> (perf, unit) comp" where
  "must m = c_bind m (\<lambda>r. if r < 0 then c_fail (Exit (-1)) else c_ret ())"

section \<open>Setup\<close>

definition raise_max_fd :: "int \<Rightarrow> (perf, unit) comp" where
  "raise_max_fd fd = c_upd (\<lambda>p. if fd > select_max_fd p then p\<lparr>select_max_fd := fd\<rparr> else p)"

text \<open>The mapping is compared with null, while a failed \<open>mmap\<close> returns \<open>-1\<close>.\<close>

definition perf_init :: "sys \<Rightarrow> config \<Rightarrow> (perf, unit) comp" where
  "perf_init k cfg =
     c_then (if is_sampling_enabled cfg
        then c_then (sys_do Sys_perf_open)
          (c_then (c_upd (\<lambda>p. p\<lparr>perf_s_fd := sys_perf_fd k\<rparr>))
            (c_then (raise_max_fd (sys_perf_fd k))
              (if sys_perf_fd k = -1 then c_fail (Exit (-1))
               else if sys_nonblock k (sys_perf_fd k) = -1 then c_fail (Exit (-1))
               else c_then (c_upd (\<lambda>p. p\<lparr>sample_buffer := sys_mmap k\<rparr>)) (if sys_mmap k = 0 then c_fail (Exit (-1)) else c_ret ()))))
        else c_ret ())
     (if is_tracing_enabled cfg
      then c_then (must (write_tracing_file k ''trace'' ''0''))
        (c_then (reset_tracing k) (c_upd (\<lambda>p. p\<lparr>kprobe_path := ''instances/sgxperf-'' @ sys_pid k\<rparr>)))
      else c_ret ())"

definition start_tracing :: "sys \<Rightarrow> (perf, unit) comp" where
  "start_tracing k =
     c_bind (c_get kprobe_path) (\<lambda>path. let full = TRACE_BASE_PATH @ path in
       c_then (if sys_is_dir k full
               then c_then (sys_do (Sys_rmdir full)) (if sys_rmdir k full < 0 then c_fail (Exit (-1)) else c_ret ()) else c_ret ())
       (c_then (c_then (sys_do (Sys_mkdir full)) (if sys_mkdir k full < 0 then c_fail (Exit (-1)) else c_ret ()))
       (c_then (must (write_tracing_file k (path @ ''/trace_clock'') ''mono_raw''))
       (c_then (must (write_tracing_file k ''kprobe_events'' ''p:sgxperffaul1 sgx_eldu addr=+0(%si)''))
       (c_then (must (append_tracing_file k ''kprobe_events'' ''p:sgxperffaul2 sgx_ewb addr=+0(%si)''))
       (c_then (must (write_tracing_file k (path @ ''/events/kprobes/sgxperffaul1/enable'') ''1''))
       (c_then (must (write_tracing_file k (path @ ''/events/kprobes/sgxperffaul2/enable'') ''1''))
       (let pipe = full @ ''/trace_pipe''; fd = sys_open k pipe False in
        c_then (sys_do (Sys_open pipe False))
        (c_then (c_upd (\<lambda>p. p\<lparr>perf_kprobe_fd := fd\<rparr>))
        (if fd < 0 then c_fail (Exit (-1))
         else c_then (raise_max_fd fd) (if sys_nonblock k fd = -1 then c_fail (Exit (-1)) else c_ret ())))))))))))"

definition start_sampling :: "sys \<Rightarrow> config \<Rightarrow> (perf, unit) comp" where
  "start_sampling k cfg =
     c_then (if is_sampling_enabled cfg then c_then (sys_do (Sys_ioctl ''reset'')) (sys_do (Sys_ioctl ''enable'')) else c_ret ())
       (if is_tracing_enabled cfg then start_tracing k else c_ret ())"

text \<open>The thread that reads the buffers is started and named through the interposed calls; \<open>real\<close> is the creation by the C++ library, \<open>thread\<close> the new thread.\<close>

definition start_collector :: "u64 \<Rightarrow> clock \<Rightarrow> config \<Rightarrow> (store, u64) comp \<Rightarrow> u32 \<Rightarrow> (store, unit) comp" where
  "start_collector self clk cfg real ret =
     (if is_sampling_or_tracing_enabled cfg
      then c_bind real (\<lambda>thread. c_then (pthread_setname_np self clk thread ''sgxperf sample collector'' ret) (c_ret ()))
      else c_ret ())"

definition stop_sampling :: "sys \<Rightarrow> config \<Rightarrow> (perf, unit) comp" where
  "stop_sampling k cfg =
     c_then (if is_sampling_enabled cfg then sys_do (Sys_ioctl ''disable'') else c_ret ())
     (if is_tracing_enabled cfg
      then c_bind (c_get id) (\<lambda>p.
        c_then (write_tracing_file k (kprobe_path p @ ''/events/kprobes/sgxperffaul1/enable'') ''0'')
        (c_then (write_tracing_file k (kprobe_path p @ ''/events/kprobes/sgxperffaul2/enable'') ''0'')
        (c_then (sys_do (Sys_close (perf_kprobe_fd p)))
        (c_then (reset_tracing k) (sys_do (Sys_rmdir (TRACE_BASE_PATH @ kprobe_path p)))))))
      else c_ret ())"

section \<open>Reading the trace\<close>

text \<open>\<open>strstr\<close> from position \<open>k\<close> of an array on, whose rest is the second argument: it ends at a zero and leaves the array if there is none.\<close>

fun scan :: "string \<Rightarrow> string \<Rightarrow> nat \<Rightarrow> fault + nat option" where
  "scan pat [] k = Inl OutOfRange"
| "scan pat (c # cs) k = (if c = NUL then Inr None else if take (length pat) (c # cs) = pat then Inr (Some k) else scan pat cs (k + 1))"

definition strstr :: "string \<Rightarrow> nat \<Rightarrow> string \<Rightarrow> fault + nat option" where
  "strstr buf k pat = scan pat (drop k buf) k"

definition is_digit :: "char \<Rightarrow> bool" where
  "is_digit c \<longleftrightarrow> 48 \<le> (of_char c :: nat) \<and> (of_char c :: nat) \<le> 57"

definition digit :: "char \<Rightarrow> nat" where
  "digit c = of_char c - 48"

text \<open>The time stamp, from the colon backwards to the space before it; \<open>None\<close> if the start is reached first.\<close>

fun stamp :: "string \<Rightarrow> u64 \<Rightarrow> u64 \<Rightarrow> u64 option" where
  "stamp [] d t = None"
| "stamp (c # cs) d t =
     (if c = CHR '' '' then Some t
      else if is_digit c then stamp cs (d * 10) (t + of_nat (digit c) * d)
      else stamp cs d t)"

definition is_hex :: "char \<Rightarrow> bool" where
  "is_hex c \<longleftrightarrow> is_digit c \<or> c \<in> set ''abcdefABCDEF''"

definition hex :: "char \<Rightarrow> nat" where
  "hex c = (if is_digit c then digit c else if 97 \<le> (of_char c :: nat) then of_char c - 87 else of_char c - 55)"

definition hex_value :: "string \<Rightarrow> nat" where
  "hex_value ds = foldl (\<lambda>v c. 16 * v + hex c) 0 ds"

definition is_space :: "char \<Rightarrow> bool" where
  "is_space c \<longleftrightarrow> c = CHR '' '' \<or> 9 \<le> (of_char c :: nat) \<and> (of_char c :: nat) \<le> 13"

text \<open>\<open>strtoul\<close> with base 16 on the rest of an array: the value and the number of characters it takes.\<close>

definition strtoul16 :: "string \<Rightarrow> fault + u64 \<times> nat" where
  "strtoul16 s =
     (let ws = takeWhile is_space s; s1 = dropWhile is_space s;
          sg = (s1 \<noteq> [] \<and> hd s1 \<in> set ''+-''); s2 = (if sg then tl s1 else s1);
          px = (2 < length s2 \<and> s2 ! 0 = CHR ''0'' \<and> s2 ! 1 \<in> set ''xX'' \<and> is_hex (s2 ! 2)); s3 = (if px then drop 2 s2 else s2);
          ds = takeWhile is_hex s3; v = hex_value ds
      in if ds = s3 then Inl OutOfRange
         else if ds = [] then Inr (0, 0)
         else Inr (if 2 ^ 64 \<le> v then UINT64_MAX else if sg \<and> hd s1 = CHR ''-'' then - of_nat v else of_nat v,
                   length ws + (if sg then 1 else 0) + (if px then 2 else 0) + length ds))"

text \<open>One round of the loop over the lines, from position \<open>c\<close>: the loop ends, goes on at a position that may be null, or logs an event.\<close>

datatype trace_step = T_stop | T_skip "nat option" | T_event paging_kind u64 u64 nat

definition paging_step :: "string \<Rightarrow> nat \<Rightarrow> u64 \<Rightarrow> paging_kind \<Rightarrow> fault + trace_step" where
  "paging_step buf c t kind =
     (case strstr buf c ''addr='' of
        Inl f \<Rightarrow> Inl f
      | Inr None \<Rightarrow> Inl NullDeref
      | Inr (Some a) \<Rightarrow> (case strtoul16 (drop (a + 5) buf) of Inl f \<Rightarrow> Inl f | Inr (v, n) \<Rightarrow> Inr (T_event kind t v (a + 5 + n))))"

definition skip_line :: "string \<Rightarrow> nat \<Rightarrow> fault + trace_step" where
  "skip_line buf t_end = (case strstr buf t_end [NL] of Inl f \<Rightarrow> Inl f | Inr p \<Rightarrow> Inr (T_skip p))"

definition trace_round :: "string \<Rightarrow> nat \<Rightarrow> fault + trace_step" where
  "trace_round buf c =
     (case strstr buf c '':'' of
        Inl f \<Rightarrow> Inl f
      | Inr None \<Rightarrow> Inr T_stop
      | Inr (Some t_end) \<Rightarrow>
          (case stamp (rev (drop c (take (t_end + 1) buf))) 1000 0 of
             None \<Rightarrow> Inr T_stop
           | Some t \<Rightarrow>
               let f_start = t_end + length '' sgxperffault: ('' + 1
               in (case strstr buf f_start ''+'' of
                     Inl f \<Rightarrow> Inl f
                   | Inr None \<Rightarrow> skip_line buf t_end
                   | Inr (Some f_end) \<Rightarrow>
                       if length buf \<le> f_start + 5 then Inl OutOfRange
                       else if buf ! (f_start + 5) = CHR ''l'' then paging_step buf c t PageIn
                       else if buf ! (f_start + 5) = CHR ''w'' then paging_step buf c t PageOut
                       else skip_line buf t_end)))"

definition log_paging :: "u64 \<Rightarrow> clock \<Rightarrow> paging_kind \<times> u64 \<times> u64 \<Rightarrow> (store, unit) comp" where
  "log_paging self clk e = (case e of (kind, t, addr) \<Rightarrow>
     c_bind (make_event self clk (EnclaveB UINT64_MAX (EnclavePaging addr kind))) (\<lambda>p.
       c_then (upd_event p (\<lambda>v. v\<lparr>ev_time := t\<rparr>)) (insert_event self self p)))"

lemma scan_Some:
  assumes "scan pat cs k = Inr (Some j)"
  shows "k \<le> j \<and> j - k < length cs \<and> take (length pat) (drop (j - k) cs) = pat"
  using assms
proof (induction pat cs k rule: scan.induct)
  case (2 pat c cs k)
  show ?case
  proof (cases "take (length pat) (c # cs) = pat")
    case False
    then have "scan pat cs (k + 1) = Inr (Some j)" using 2(2) by (simp split: if_splits)
    then have "k + 1 \<le> j \<and> j - (k + 1) < length cs \<and> take (length pat) (drop (j - (k + 1)) cs) = pat"
      using 2(1) False 2(2) by (simp split: if_splits)
    moreover from this have "j - k = Suc (j - (k + 1))" by linarith
    ultimately show ?thesis by simp
  qed (use 2(2) in \<open>simp split: if_splits\<close>)
qed simp

lemma strstr_Some: "strstr buf k pat = Inr (Some j) \<Longrightarrow> k \<le> j \<and> j < length buf \<and> take (length pat) (drop j buf) = pat"
  using scan_Some [of pat "drop k buf" k j] by (auto simp: strstr_def)


lemma skip_line_progress:
  assumes "skip_line buf t = Inr (T_skip (Some j))" "t < length buf" "buf ! t \<noteq> NL"
  shows "t < j"
proof -
  have j: "t \<le> j" "j < length buf" "take 1 (drop j buf) = [NL]"
    using assms(1) strstr_Some [of buf t "[NL]" j] by (auto simp: skip_line_def split: sum.splits)
  then have "buf ! j = NL" by (simp add: take_Suc_conv_app_nth hd_drop_conv_nth take_Suc split: if_splits)
  then show ?thesis using j(1) assms(3) by (cases "t = j") auto
qed

lemma trace_round_progress:
  "trace_round buf c = Inr (T_event kind t v n) \<Longrightarrow> c < n \<and> c < length buf"
  "trace_round buf c = Inr (T_skip (Some n)) \<Longrightarrow> c < n \<and> c < length buf"
proof -
  have paging: "c < n \<and> c < length buf" if "paging_step buf c t' k' = Inr (T_event kind t v n)" for t' k' kind t v
    using that by (auto simp: paging_step_def split: sum.splits option.splits prod.splits dest!: strstr_Some)
  have no_skip: "paging_step buf c t' k' \<noteq> Inr (T_skip p)" for t' k' p
    by (auto simp: paging_step_def split: sum.splits option.splits prod.splits)
  have no_event: "skip_line buf t' \<noteq> Inr (T_event kind t v n)" for t' kind t v
    by (auto simp: skip_line_def split: sum.splits)
  show "trace_round buf c = Inr (T_event kind t v n) \<Longrightarrow> c < n \<and> c < length buf"
    by (auto simp: trace_round_def Let_def no_event dest: paging split: sum.splits option.splits if_splits)
  assume "trace_round buf c = Inr (T_skip (Some n))"
  then obtain t_end where t: "strstr buf c '':'' = Inr (Some t_end)" "skip_line buf t_end = Inr (T_skip (Some n))"
    by (auto simp: trace_round_def Let_def no_skip split: sum.splits option.splits if_splits)
  from strstr_Some [OF t(1)] have s: "c \<le> t_end" "t_end < length buf" "take 1 (drop t_end buf) = '':''" by simp_all
  then have "buf ! t_end \<noteq> NL" by (simp add: take_Suc hd_drop_conv_nth)
  from skip_line_progress [OF t(2) s(2) this] s show "c < n \<and> c < length buf" by simp
qed

text \<open>The loop over the lines of the buffer.\<close>

function tracer_loop :: "u64 \<Rightarrow> clock \<Rightarrow> string \<Rightarrow> nat \<Rightarrow> (store, unit) comp" where
  "tracer_loop self clk buf c =
     (case trace_round buf c of
        Inl f \<Rightarrow> c_fail f
      | Inr T_stop \<Rightarrow> c_ret ()
      | Inr (T_skip None) \<Rightarrow> c_fail NullDeref
      | Inr (T_skip (Some c')) \<Rightarrow> tracer_loop self clk buf c'
      | Inr (T_event kind t v c') \<Rightarrow> c_then (log_paging self clk (kind, t, v)) (tracer_loop self clk buf c'))"
  by pat_completeness auto
termination
  by (relation "measure (\<lambda>(self, clk, buf, c). length buf - c)") (auto dest: trace_round_progress)

declare tracer_loop.simps [simp del]

text \<open>The texts are what the successive calls of \<open>read\<close> put at the start of the array, until one returns nothing.\<close>

fun poll_loop :: "u64 \<Rightarrow> clock \<Rightarrow> string \<Rightarrow> string list \<Rightarrow> (store, unit) comp" where
  "poll_loop self clk buf [] = c_ret ()"
| "poll_loop self clk buf (r # rs) =
     (if r = [] then c_ret ()
      else let buf' = r @ drop (length r) buf in c_then (tracer_loop self clk buf' 0) (poll_loop self clk buf' rs))"

abbreviation (input) "BUF_SIZE \<equiv> 4096 :: nat"

definition tracer_poll :: "u64 \<Rightarrow> clock \<Rightarrow> string list \<Rightarrow> (store, unit) comp" where
  "tracer_poll self clk reads = poll_loop self clk (replicate BUF_SIZE NUL) reads"

section \<open>Reading the samples\<close>

abbreviation (input) "BUFFER_SIZE \<equiv> 131072 :: u64"
abbreviation (input) "PAGE_SIZE \<equiv> 4096 :: u64"

record perf_event_header =
  pe_type :: u32
  pe_misc :: u16
  pe_size :: u16

text \<open>What becomes of one record: it wraps around the end of the buffer, is of another mode, or is looked at; a sample is not used in any case.\<close>

datatype sample = Sample_wrapped | Sample_other_mode | Sample_seen u32

definition PERF_RECORD_MISC_USER :: u16 where
  "PERF_RECORD_MISC_USER = 2"

definition sample_round :: "u64 \<Rightarrow> (u64 \<Rightarrow> perf_event_header) \<Rightarrow> u64 \<Rightarrow> sample" where
  "sample_round buffer mem tail =
     (let start = buffer + PAGE_SIZE + tail mod BUFFER_SIZE; event = mem start;
          fin = buffer + PAGE_SIZE + (tail + ucast (pe_size event)) mod BUFFER_SIZE
      in if fin < start then Sample_wrapped
         else if pe_misc event \<noteq> PERF_RECORD_MISC_USER then Sample_other_mode
         else Sample_seen (pe_type event))"

text \<open>The loop, with the successive values of \<open>data_head\<close>; the fuel bounds the rounds. The result is the new \<open>data_tail\<close> and what was seen.\<close>

fun sample_poll :: "nat \<Rightarrow> u64 \<Rightarrow> (u64 \<Rightarrow> perf_event_header) \<Rightarrow> (nat \<Rightarrow> u64) \<Rightarrow> u64 \<Rightarrow> (u64 \<times> sample list) option" where
  "sample_poll 0 buffer mem head tail = (if head 0 = tail then Some (tail, []) else None)"
| "sample_poll (Suc n) buffer mem head tail =
     (if head 0 = tail then Some (tail, [])
      else map_option (apsnd ((#) (sample_round buffer mem tail)))
        (sample_poll n buffer mem (\<lambda>i. head (Suc i)) (tail + ucast (pe_size (mem (buffer + PAGE_SIZE + tail mod BUFFER_SIZE))))))"

section \<open>The collector\<close>

text \<open>What a call of \<open>select\<close> returns: an error, or which of the two descriptors can be read, with what reading the trace then gives and how
  the head of the sample buffer moves.\<close>

datatype select_result = Select_error | Select_ready bool bool "string list" "nat \<Rightarrow> u64"

text \<open>\<open>FD_ISSET\<close> of a descriptor that was never opened is undefined.\<close>

definition fd_isset :: "int \<Rightarrow> bool \<Rightarrow> fault + bool" where
  "fd_isset fd ready = (if fd < 0 then Inl OutOfRange else Inr ready)"

text \<open>The thread runs through the given results of \<open>select\<close> and then waits. The result is the value of \<open>data_tail\<close>.\<close>

fun sampler_thread :: "u64 \<Rightarrow> clock \<Rightarrow> nat \<Rightarrow> (u64 \<Rightarrow> perf_event_header) \<Rightarrow> perf \<Rightarrow> u64 \<Rightarrow> select_result list \<Rightarrow> (store, u64) comp" where
  "sampler_thread self clk n mem p tail [] = c_ret tail"
| "sampler_thread self clk n mem p tail (Select_error # xs) = c_ret tail"
| "sampler_thread self clk n mem p tail (Select_ready k s reads head # xs) =
     c_bind (lift_fault (fd_isset (perf_kprobe_fd p) k)) (\<lambda>b.
       c_then (if b then tracer_poll self clk reads else c_ret ())
         (c_bind (lift_fault (fd_isset (perf_s_fd p) s)) (\<lambda>b.
           if b then (case sample_poll n (sample_buffer p) mem head tail of
                        None \<Rightarrow> c_fail Diverge
                      | Some (tail', _) \<Rightarrow> sampler_thread self clk n mem p tail' xs)
           else sampler_thread self clk n mem p tail xs)))"

end
