(* ===== verification/Logger.thy ===== *)
theory Logger
  imports Perf
begin

text \<open>
  The signals, \<^verbatim>\<open>src/logger/src/libc_calls.cpp\<close>, and the program of the logger, \<^verbatim>\<open>src/logger/src/main.cpp\<close>: registration of signal handlers, the handler of the logger, and what
  happens when the library is loaded and unloaded. What the kernel answers is an argument, as in \<open>Perf\<close>.
\<close>

section \<open>Signals\<close>

text \<open>What a signal number can be connected to: nothing, the handler of the logger, or one of the application.\<close>

datatype lhnd = L_null | L_ours | L_app nat

record logger =
  lg_store :: "store option"
  lg_old :: "nat \<Rightarrow> lhnd"
  lg_kernel :: "nat \<Rightarrow> lhnd"
  lg_config :: config
  lg_perf :: perf
  lg_written :: "summary_output list"

definition no_logger :: logger where
  "no_logger = \<lparr>lg_store = None, lg_old = (\<lambda>_. L_null), lg_kernel = (\<lambda>_. L_null), lg_config = Config, lg_perf = Perf, lg_written = []\<rparr>"

definition on_store :: "(store, 'a) comp \<Rightarrow> (logger, 'a) comp" where
  "on_store m s = (case lg_store s of None \<Rightarrow> (Inl NullDeref, s) | Some st \<Rightarrow> (case m st of (r, st') \<Rightarrow> (r, s\<lparr>lg_store := Some st'\<rparr>)))"

definition on_perf :: "(perf, 'a) comp \<Rightarrow> (logger, 'a) comp" where
  "on_perf m s = (case m (lg_perf s) of (r, p) \<Rightarrow> (r, s\<lparr>lg_perf := p\<rparr>))"

abbreviation "SIGINT \<equiv> 2 :: nat"
abbreviation "SIGILL \<equiv> 4 :: nat"
abbreviation "SIGTRAP \<equiv> 5 :: nat"
abbreviation "SIGABRT \<equiv> 6 :: nat"
abbreviation "SIGBUS \<equiv> 7 :: nat"
abbreviation "SIGFPE \<equiv> 8 :: nat"
abbreviation "SIGSEGV \<equiv> 11 :: nat"

definition is_fault :: "nat \<Rightarrow> bool" where
  "is_fault signum \<longleftrightarrow> signum \<in> {SIGILL, SIGSEGV, SIGFPE, SIGBUS, SIGTRAP}"

definition is_hooked :: "nat \<Rightarrow> bool" where
  "is_hooked signum \<longleftrightarrow> signum = SIGINT \<or> is_fault signum"

definition real_sigaction :: "nat \<Rightarrow> lhnd option \<Rightarrow> bool \<Rightarrow> (logger, int \<times> lhnd option) comp" where
  "real_sigaction signum act want_old =
     c_bind (c_get (\<lambda>s. lg_kernel s signum)) (\<lambda>old.
       c_then (c_upd (\<lambda>s. case act of None \<Rightarrow> s | Some h \<Rightarrow> s\<lparr>lg_kernel := (lg_kernel s)(signum := h)\<rparr>))
         (c_ret (0, if want_old then Some old else None)))"

definition set_old :: "nat \<Rightarrow> lhnd \<Rightarrow> (logger, unit) comp" where
  "set_old signum h = c_upd (\<lambda>s. s\<lparr>lg_old := (lg_old s)(signum := h)\<rparr>)"

definition sigaction :: "nat \<Rightarrow> lhnd option \<Rightarrow> bool \<Rightarrow> (logger, int \<times> lhnd option) comp" where
  "sigaction signum act want_old =
     (if is_hooked signum
      then if act = Some L_ours then real_sigaction signum act want_old
           else c_bind (c_get (\<lambda>s. lg_old s signum)) (\<lambda>old.
             c_then (case act of None \<Rightarrow> c_ret () | Some h \<Rightarrow> set_old signum h)
               (c_ret (0, if want_old then Some old else None)))
      else real_sigaction signum act want_old)"

definition real_signal :: "nat \<Rightarrow> lhnd \<Rightarrow> (logger, lhnd) comp" where
  "real_signal signum h =
     c_bind (c_get (\<lambda>s. lg_kernel s signum)) (\<lambda>old.
       c_then (c_upd (\<lambda>s. s\<lparr>lg_kernel := (lg_kernel s)(signum := h)\<rparr>)) (c_ret old))"

definition signal :: "nat \<Rightarrow> lhnd \<Rightarrow> (logger, lhnd) comp" where
  "signal signum h =
     (if is_hooked signum
      then if h = L_ours then real_signal signum h
           else c_then (if h \<noteq> L_null then set_old signum h else c_ret ()) (c_get (\<lambda>s. lg_old s signum))
      else real_signal signum h)"

section \<open>Shutting down\<close>

text \<open>\<open>out\<close> is what \<open>write_summary\<close> makes of the store.\<close>

definition destroy :: "u64 \<Rightarrow> u64 \<times> u64 \<Rightarrow> u32 \<Rightarrow> sys \<Rightarrow> (store \<Rightarrow> fault + summary_output) \<Rightarrow> (logger, unit) comp" where
  "destroy self now cpu k out =
     c_bind (c_get id) (\<lambda>s.
       case lg_store s of
         None \<Rightarrow> c_fail NullDeref
       | Some st \<Rightarrow>
           if finalized st then c_ret ()
           else c_then (on_perf (stop_sampling k (lg_config s)))
             (case finalize self now cpu st of
                None \<Rightarrow> c_fail Diverge
              | Some st' \<Rightarrow>
                  c_then (c_upd (\<lambda>s. s\<lparr>lg_store := Some st'\<rparr>))
                    (case out st' of Inl f \<Rightarrow> c_fail f | Inr v \<Rightarrow> c_upd (\<lambda>s. s\<lparr>lg_written := lg_written s @ [v]\<rparr>))))"

text \<open>\<open>exit\<close> runs the destructor again.\<close>

definition shut_down :: "u64 \<Rightarrow> u64 \<times> u64 \<Rightarrow> u32 \<Rightarrow> sys \<Rightarrow> (store \<Rightarrow> fault + summary_output) \<Rightarrow> (logger, 'a) comp" where
  "shut_down self now cpu k out = c_then (destroy self now cpu k out) (c_then (destroy self now cpu k out) (c_fail (Exit 0)))"

section \<open>The signal handler\<close>

record siginfo =
  si_code :: u32
  si_addr :: u64

text \<open>The condition for a fault inside the enclave compares the address the wrong way round. \<open>rip\<close> is the address read from the saved state of the enclave.\<close>

definition fault_address :: "siginfo \<Rightarrow> u64 \<Rightarrow> enclave option \<Rightarrow> u64" where
  "fault_address info rip encl =
     (case encl of
        None \<Rightarrow> si_addr info
      | Some e \<Rightarrow> if si_addr info \<le> en_start e \<and> en_end e < si_addr info then rip else si_addr info)"

definition last_enclave :: "u64 \<Rightarrow> (store, enclave option) comp" where
  "last_enclave self = c_bind (get_thread self) (\<lambda>t. c_bind (c_some t) (\<lambda>t.
     c_get (\<lambda>s. map_option (\<lambda>e. enclaves s ! e) (th_last_enclave (threads s ! t)))))"

text \<open>The result is the application's handler the signal is forwarded to, if any. A handler of the application that is the
  logger's own would have been registered with the kernel, so \<open>old_handlers\<close> never holds it.\<close>

definition sigint_handler ::
  "u64 \<Rightarrow> clock \<Rightarrow> u64 \<times> u64 \<Rightarrow> u32 \<Rightarrow> sys \<Rightarrow> (store \<Rightarrow> fault + summary_output) \<Rightarrow> nat \<Rightarrow> siginfo \<Rightarrow> u64 \<Rightarrow> (logger, nat option) comp" where
  "sigint_handler self clk now cpu k out signum info rip =
     c_bind (on_store (make_event self clk (SignalB (of_nat signum) 0 (si_code info)))) (\<lambda>se.
       c_then (if is_fault signum
               then c_bind (on_store (last_enclave self)) (\<lambda>encl.
                 on_store (upd_event se (\<lambda>v. v\<lparr>ev_body := SignalB (of_nat signum) (fault_address info rip encl) (si_code info)\<rparr>)))
               else c_ret ())
       (c_then (on_store (insert_event self self se))
         (if is_hooked signum
          then c_bind (c_get (\<lambda>s. lg_old s signum)) (\<lambda>h. case h of L_null \<Rightarrow> shut_down self now cpu k out | L_ours \<Rightarrow> c_fail Diverge | L_app a \<Rightarrow> c_ret (Some a))
          else if signum = SIGABRT then shut_down self now cpu k out
          else c_ret None)))"

section \<open>Initialisation\<close>

definition register_handlers :: "nat list \<Rightarrow> (logger, unit) comp" where
  "register_handlers = c_each (\<lambda>n. c_then (sigaction n (Some L_ours) False) (c_ret ()))"

text \<open>What initialising depends on: the addresses the dynamic linker finds, the result of initialising the runtime calls, what SQLite says, the configuration
  file with the memory its reader gets, the kernel, and the thread the C++ library creates.\<close>

record environment =
  env_dlsym :: "string \<Rightarrow> u64"
  env_urts :: "fault + int"
  env_db_ok :: bool
  env_exec_ok :: bool
  env_mem :: ini_mem
  env_file :: "string option"
  env_sys :: sys
  env_collector :: "(store, u64) comp"
  env_name_ret :: u32

definition load_config_file :: "environment \<Rightarrow> (logger, unit) comp" where
  "load_config_file env =
     (case config_init (env_mem env) (env_file env) Config of Inl f \<Rightarrow> c_fail f | Inr cfg \<Rightarrow> c_upd (\<lambda>s. s\<lparr>lg_config := cfg\<rparr>))"

definition initialize :: "u64 \<Rightarrow> clock \<Rightarrow> u64 \<times> u64 \<Rightarrow> environment \<Rightarrow> (logger, unit) comp" where
  "initialize self clk now env =
     c_bind (c_get lg_store) (\<lambda>st.
       if st \<noteq> None then c_ret ()
       else c_then (load_config_file env)
         (if initialize_libc_calls (env_dlsym env) < 0 then c_fail (Exit (-1))
          else case env_urts env of
                 Inl f \<Rightarrow> c_fail f
               | Inr r \<Rightarrow>
                   if r < 0 then c_fail (Exit (-1))
                   else c_then (c_upd (\<lambda>s. s\<lparr>lg_store := Some (EventStore now)\<rparr>))
                     (if fst (create_database (env_db_ok env) (env_exec_ok env)) < 0 then c_fail (Exit (-1))
                      else c_bind (on_store (log_event self clk (thread_event self (ThreadCreation 0)))) (\<lambda>_.
                        c_bind (c_get lg_config) (\<lambda>cfg.
                          c_then (c_upd (\<lambda>s. s\<lparr>lg_perf := Perf\<rparr>))
                          (c_then (on_perf (perf_init (env_sys env) cfg))
                          (c_then (register_handlers [SIGINT, SIGILL, SIGSEGV, SIGFPE, SIGBUS, SIGTRAP, SIGABRT])
                          (c_then (on_perf (start_sampling (env_sys env) cfg))
                            (on_store (start_collector self clk cfg (env_collector env) (env_name_ret env)))))))))))"

end
