(* ===== verification/PerfOk.thy ===== *)
theory PerfOk
  imports Perf
begin

text \<open>
  What is logged of the kernel's trace: one event for each line, and lines that are logged twice.
\<close>

section \<open>Lines of the trace\<close>

text \<open>A line: the task, with a space at its end, the time, whether a page was loaded or written back, what follows the name of the function up to the address, and the digits of the address.\<close>

record tline =
  tl_task :: string
  tl_time :: string
  tl_in :: bool
  tl_mid :: string
  tl_addr :: string

definition probe_text :: "bool \<Rightarrow> string" where
  "probe_text b = (if b then '': sgxperffaul1: (sgx_eldu+'' else '': sgxperffaul2: (sgx_ewb+'')"

definition trace_line :: "tline \<Rightarrow> string" where
  "trace_line l = tl_task l @ tl_time l @ probe_text (tl_in l) @ tl_mid l @ ''addr=0x'' @ tl_addr l @ [NL]"

definition plain :: "string \<Rightarrow> bool" where
  "plain s \<longleftrightarrow> NUL \<notin> set s \<and> CHR ''='' \<notin> set s"

definition tline_ok :: "tline \<Rightarrow> bool" where
  "tline_ok l \<longleftrightarrow> tl_task l \<noteq> [] \<and> last (tl_task l) = CHR '' '' \<and> plain (tl_task l) \<and> CHR '':'' \<notin> set (tl_task l) \<and>
     plain (tl_time l) \<and> CHR '':'' \<notin> set (tl_time l) \<and> CHR '' '' \<notin> set (tl_time l) \<and>
     plain (tl_mid l) \<and> tl_addr l \<noteq> [] \<and> list_all is_hex (tl_addr l) \<and> hex_value (tl_addr l) < 2 ^ 64"

text \<open>The digits of the time: seconds and microseconds.\<close>

definition dec_value :: "string \<Rightarrow> nat" where
  "dec_value s = foldl (\<lambda>v c. if is_digit c then 10 * v + digit c else v) 0 s"

definition paging_of :: "tline \<Rightarrow> paging_kind \<times> u64 \<times> u64" where
  "paging_of l = (if tl_in l then PageIn else PageOut, of_nat (1000 * dec_value (tl_time l)), of_nat (hex_value (tl_addr l)))"

section \<open>Reading a line\<close>

lemma scan_found:
  assumes "z \<notin> set xs" "z \<notin> set q" "NUL \<notin> set xs" "hd (q @ [z]) \<noteq> NUL"
  shows "scan (q @ [z]) (xs @ q @ z # ys) k = Inr (Some (k + length xs))"
  using assms(1,3)
proof (induction xs arbitrary: k)
  case Nil
  then show ?case using assms(4) by (cases q) auto
next
  case (Cons x xs)
  have "take (length (q @ [z])) (x # xs @ q @ z # ys) \<noteq> q @ [z]"
  proof
    assume *: "take (length (q @ [z])) (x # xs @ q @ z # ys) = q @ [z]"
    have "(x # xs @ q @ z # ys) ! length q = take (length (q @ [z])) (x # xs @ q @ z # ys) ! length q" by (rule nth_take [symmetric]) simp
    also have "\<dots> = z" unfolding * by simp
    finally have "((x # xs @ q) @ z # ys) ! length q = z" by simp
    then have "(x # xs @ q) ! length q = z" by (subst (asm) nth_append) simp
    moreover have "(x # xs @ q) ! length q \<in> set (x # xs @ q)" by (intro nth_mem) simp
    ultimately show False using Cons.prems(1) assms(2) by auto
  qed
  moreover have "x \<noteq> NUL" using Cons.prems(2) by auto
  ultimately show ?case using Cons by simp
qed

lemma stamp_digits: "CHR '' '' \<notin> set ts \<Longrightarrow> stamp (rev ts @ CHR '' '' # R) d t = Some (t + d * of_nat (dec_value ts))"
proof (induction ts arbitrary: d t rule: rev_induct)
  case (snoc c ts)
  then show ?case by (auto simp: dec_value_def algebra_simps)
qed (simp add: dec_value_def)

lemma strtoul16_hex:
  assumes "ds \<noteq> []" "list_all is_hex ds" "hex_value ds < 2 ^ 64"
  shows "strtoul16 (''0x'' @ ds @ NL # B) = Inr (of_nat (hex_value ds), 2 + length ds)"
proof -
  obtain d ds' where d: "ds = d # ds'" "is_hex d" using assms(1,2) by (cases ds) auto
  have "takeWhile is_hex (ds @ NL # B) = ds"
    using assms(2) by (intro takeWhile_stop) (auto simp: list_all_iff is_hex_def is_digit_def)
  then show ?thesis using assms(1,3) d unfolding strtoul16_def Let_def by (simp add: is_space_def)
qed

lemma trace_round_line:
  assumes "tline_ok l" "drop c buf = x @ tl_task l @ tl_time l @ probe_text (tl_in l) @ tl_mid l @ ''addr=0x'' @ tl_addr l @ NL # B" "x = [] \<or> x = [NL]"
  obtains c' where "trace_round buf c = Inr (case paging_of l of (kind, t, v) \<Rightarrow> T_event kind t v c')" "drop c' buf = NL # B"
proof -
  let ?T = "x @ tl_task l" and ?ts = "tl_time l" and ?M = "probe_text (tl_in l)" and ?R = "tl_mid l @ ''addr=0x'' @ tl_addr l @ NL # B"
  define t_end where "t_end = c + length ?T + length ?ts"
  have buf: "drop c buf = (?T @ ?ts) @ ?M @ ?R" using assms(2) by simp
  have drop_at: "drop (c + n) buf = drop n ((?T @ ?ts) @ ?M @ ?R)" for n using buf by (metis drop_drop add.commute)
  have M: "?M = '':'' @ tl ?M" "length ?M = (if tl_in l then 26 else 25)" by (simp_all add: probe_text_def)
  have T: "CHR '':'' \<notin> set (?T @ ?ts)" "NUL \<notin> set (?T @ ?ts)" "CHR ''='' \<notin> set (?T @ ?ts)"
    using assms(1,3) by (auto simp: tline_ok_def plain_def)
  have "scan ([] @ '':'') ((?T @ ?ts) @ [] @ CHR '':'' # tl ?M @ ?R) c = Inr (Some (c + length (?T @ ?ts)))" using T by (intro scan_found) simp_all
  then have colon: "strstr buf c '':'' = Inr (Some t_end)" unfolding strstr_def buf t_end_def using M(1) by (simp add: add.assoc) (metis append_Cons append_Nil)
  obtain p where p: "tl_task l = p @ '' ''" using assms(1) by (metis tline_ok_def append_butlast_last_id)
  have "drop c (take (t_end + 1) buf) = take (length (?T @ ?ts) + 1) (drop c buf)" by (simp add: drop_take t_end_def add.assoc)
  also have "\<dots> = ?T @ ?ts @ '':''" unfolding buf using M(1) by (simp add: probe_text_def)
  finally have "rev (drop c (take (t_end + 1) buf)) = CHR '':'' # rev ?ts @ CHR '' '' # rev (x @ p)" using p by simp
  then have st: "stamp (rev (drop c (take (t_end + 1) buf))) 1000 0 = Some (of_nat (1000 * dec_value ?ts))"
    using stamp_digits [of ?ts "rev (x @ p)" 1000 0] assms(1) by (simp add: tline_ok_def is_digit_def)
  let ?fn = "if tl_in l then ''sgx_eldu'' else ''sgx_ewb''"
  have fs: "drop (t_end + 17) buf = ?fn @ CHR ''+'' # ?R" using drop_at [of "length ?T + length ?ts + 17"] by (simp add: t_end_def add.assoc probe_text_def)
  have "scan ([] @ ''+'') (?fn @ [] @ CHR ''+'' # ?R) (t_end + 17) = Inr (Some (t_end + 17 + length ?fn))" by (intro scan_found) auto
  then have plus: "strstr buf (t_end + 17) ''+'' = Inr (Some (t_end + 17 + length ?fn))" unfolding strstr_def fs by simp
  have len: "t_end + 17 + 5 < length buf" using arg_cong [OF fs, of length] by (auto split: if_splits)
  have "buf ! (t_end + 17 + 5) = drop (t_end + 17) buf ! 5" using len by (simp add: nth_drop)
  then have letter: "buf ! (t_end + 17 + 5) = (if tl_in l then CHR ''l'' else CHR ''w'')" unfolding fs by simp
  let ?pre = "?T @ ?ts @ ?M @ tl_mid l"
  have pre: "CHR ''='' \<notin> set ?pre" "NUL \<notin> set ?pre" using T assms(1) by (auto simp: tline_ok_def plain_def probe_text_def)
  have "scan (''addr'' @ ''='') (?pre @ ''addr'' @ CHR ''='' # ''0x'' @ tl_addr l @ NL # B) c = Inr (Some (c + length ?pre))"
    using pre by (intro scan_found) simp_all
  then have addr: "strstr buf c ''addr='' = Inr (Some (c + length ?pre))" unfolding strstr_def buf by simp
  have da: "drop (c + length ?pre + 5) buf = ''0x'' @ tl_addr l @ NL # B" using drop_at [of "length ?pre + 5"] by (simp add: add.assoc)
  have num: "strtoul16 (''0x'' @ tl_addr l @ NL # B) = Inr (of_nat (hex_value (tl_addr l)), 2 + length (tl_addr l))"
    using assms(1) by (intro strtoul16_hex) (simp_all add: tline_ok_def)
  let ?c = "c + length ?pre + 5 + (2 + length (tl_addr l))"
  have paging: "paging_step buf c t k = Inr (T_event k t (of_nat (hex_value (tl_addr l))) ?c)" for t k
    unfolding paging_step_def addr sum.case option.case da num by simp
  have off: "t_end + length '' sgxperffault: ('' + 1 = t_end + 17" by simp
  have "trace_round buf c = Inr (case paging_of l of (kind, t, v) \<Rightarrow> T_event kind t v ?c)"
    unfolding trace_round_def colon sum.case option.case st Let_def off plus letter paging paging_of_def using len by (cases "tl_in l") simp_all
  moreover have "drop ?c buf = drop (2 + length (tl_addr l)) (drop (c + length ?pre + 5) buf)" by (simp only: drop_drop add.commute add.left_commute)
  then have "drop ?c buf = NL # B" unfolding da by simp
  ultimately show thesis by (rule that)
qed

section \<open>Reading the buffer\<close>

lemma trace_round_end: "drop c buf = x @ NUL # B \<Longrightarrow> x = [] \<or> x = [NL] \<Longrightarrow> trace_round buf c = Inr T_stop"
  by (auto simp: trace_round_def strstr_def)

lemma tracer_loop_lines:
  assumes "list_all tline_ok ls" "drop c buf = x @ concat (map trace_line ls) @ NUL # B" "x = [] \<or> x = [NL]"
  shows "tracer_loop self clk buf c = c_each (log_paging self clk) (map paging_of ls)"
  using assms
proof (induction ls arbitrary: c x)
  case Nil
  then show ?case using trace_round_end [of c buf x B] by (subst tracer_loop.simps) simp
next
  case (Cons l ls)
  have "drop c buf = x @ tl_task l @ tl_time l @ probe_text (tl_in l) @ tl_mid l @ ''addr=0x'' @ tl_addr l @ NL # (concat (map trace_line ls) @ NUL # B)"
    using Cons.prems(2) by (simp add: trace_line_def [of l])
  from trace_round_line [OF _ this Cons.prems(3)] Cons.prems(1) obtain c' where
    c': "trace_round buf c = Inr (case paging_of l of (kind, t, v) \<Rightarrow> T_event kind t v c')" "drop c' buf = NL # concat (map trace_line ls) @ NUL # B"
    by auto
  have "tracer_loop self clk buf c' = c_each (log_paging self clk) (map paging_of ls)"
    using Cons.IH [of c' "[NL]"] Cons.prems(1) c'(2) by simp
  then show ?case using c'(1) by (subst tracer_loop.simps) (simp add: paging_of_def)
qed

definition trace_text :: "tline list \<Rightarrow> string" where
  "trace_text ls = concat (map trace_line ls)"

lemma tracer_loop_text:
  assumes "list_all tline_ok ls"
  shows "tracer_loop self clk (trace_text ls @ NUL # B) 0 = c_each (log_paging self clk) (map paging_of ls)"
  using tracer_loop_lines [OF assms, of 0 _ "[]" B] by (simp add: trace_text_def)

lemma trace_text_Nil: "ls = [] \<longleftrightarrow> trace_text ls = []"
  by (cases ls) (simp_all add: trace_text_def trace_line_def)

lemma replicate_NUL: "n < 4096 \<Longrightarrow> drop n (replicate 4096 NUL) = NUL # replicate (4095 - n) NUL"
  by (simp add: replicate_Suc [symmetric] Suc_diff_le del: replicate_Suc)








text \<open>What a shorter second read leaves of the first one in the buffer is read again: its events are logged twice.\<close>

lemma stale_lines_logged_again:
  assumes "list_all tline_ok (xs @ ys @ zs)" "ys \<noteq> []" "length (trace_text (xs @ zs)) < BUF_SIZE" "length (trace_text xs) = length (trace_text ys)"
  shows "tracer_poll self clk [trace_text (xs @ zs), trace_text ys] = c_each (log_paging self clk) (map paging_of (xs @ zs @ ys @ zs))"
proof -
  let ?A = "trace_text (xs @ zs)" and ?Y = "trace_text ys"
  let ?B = "replicate (4095 - length ?A) NUL"
  have "?Y \<noteq> []" "xs \<noteq> []" using assms(2,4) trace_text_Nil by (metis, metis length_0_conv)
  then have ne: "?Y \<noteq> []" "?A \<noteq> []" using trace_text_Nil [of "xs @ zs"] by simp_all
  have buf: "?A @ drop (length ?A) (replicate 4096 NUL) = ?A @ NUL # ?B" using replicate_NUL [OF assms(3)] by simp
  have "drop (length ?Y) (?A @ NUL # ?B) = trace_text zs @ NUL # ?B" using assms(4) by (simp add: trace_text_def)
  then have buf': "?Y @ drop (length ?Y) (?A @ NUL # ?B) = trace_text (ys @ zs) @ NUL # ?B" by (simp add: trace_text_def)
  have 1: "tracer_loop self clk (?A @ NUL # ?B) 0 = c_each (log_paging self clk) (map paging_of (xs @ zs))"
    using assms(1) by (intro tracer_loop_text) simp
  have 2: "tracer_loop self clk (trace_text (ys @ zs) @ NUL # ?B) 0 = c_each (log_paging self clk) (map paging_of (ys @ zs))"
    using assms(1) by (intro tracer_loop_text) simp
  have each: "c_then (c_each f as) (c_then (c_each f bs) (c_ret ())) = c_each f (as @ bs)" for f :: "paging_kind \<times> u64 \<times> u64 \<Rightarrow> (store, unit) comp" and as bs
    by (simp add: fun_eq_iff c_each_append) (simp add: c_then_def c_bind_def split: prod.split sum.split)
  let ?A' = "?A @ drop (length ?A) (replicate 4096 NUL)"
  have "tracer_poll self clk [?A, ?Y] =
    c_then (tracer_loop self clk ?A' 0) (c_then (tracer_loop self clk (?Y @ drop (length ?Y) ?A') 0) (c_ret ()))"
    using ne by (simp only: tracer_poll_def poll_loop.simps Let_def if_False)
  then show ?thesis unfolding buf buf' 1 2 each by simp
qed

text \<open>A line as the kernel prints it.\<close>

definition ex_line :: "bool \<Rightarrow> string \<Rightarrow> tline" where
  "ex_line b addr = \<lparr>tl_task = ''  app-1234  [000] d...  '', tl_time = ''12.345678'', tl_in = b, tl_mid = ''0x0/0x90 [isgx]) '', tl_addr = addr\<rparr>"

lemmas trace_eval = tline_ok_def ex_line_def plain_def is_hex_def is_digit_def hex_value_def hex_def digit_def dec_value_def paging_of_def

lemma ex_line_ok: "tline_ok (ex_line True ''7f001000'')" "tline_ok (ex_line False ''7f002000'')"
  by (simp_all add: trace_eval)

lemma ex_paging: "paging_of (ex_line True ''7f001000'') = (PageIn, 12345678000, 0x7f001000)"
  "paging_of (ex_line False ''7f002000'') = (PageOut, 12345678000, 0x7f002000)"
  by (simp_all add: trace_eval)

definition ex_trace_clock :: clock where
  "ex_trace_clock = (\<lambda>n. ((0, of_nat n), 0))"



lemma stale_lines_logged_again_witness:
  "tracer_poll 5 ex_trace_clock [trace_text [ex_line True ''7f001000'', ex_line False ''7f002000''], trace_text [ex_line True ''7f001000'']] =
     c_each (log_paging 5 ex_trace_clock) [(PageIn, 12345678000, 0x7f001000), (PageOut, 12345678000, 0x7f002000), (PageIn, 12345678000, 0x7f001000), (PageOut, 12345678000, 0x7f002000)]"
proof -
  have "length (trace_text [ex_line True ''7f001000'', ex_line False ''7f002000'']) < 4096" by code_simp
  with stale_lines_logged_again [of "[ex_line True ''7f001000'']" "[ex_line True ''7f001000'']" "[ex_line False ''7f002000'']" 5 ex_trace_clock] ex_line_ok
  show ?thesis by (simp add: ex_paging)
qed

section \<open>Reading the samples\<close>

text \<open>The records of the given sizes are in the buffer from \<open>tail\<close> on.\<close>

fun records :: "u64 \<Rightarrow> (u64 \<Rightarrow> perf_event_header) \<Rightarrow> u64 \<Rightarrow> u16 list \<Rightarrow> bool" where
  "records buffer mem tail [] \<longleftrightarrow> True"
| "records buffer mem tail (n # ns) \<longleftrightarrow>
     n \<noteq> 0 \<and> pe_size (mem (buffer + PAGE_SIZE + tail mod BUFFER_SIZE)) = n \<and> records buffer mem (tail + ucast n) ns"

definition total_size :: "u16 list \<Rightarrow> u64" where
  "total_size ns = sum_list (map ucast ns)"

lemma unat_total: "sum_list (map unat ns) < 2 ^ 64 \<Longrightarrow> unat (total_size ns) = sum_list (map unat ns)" for ns :: "u16 list"
proof (induction ns)
  case (Cons n ns)
  have "unat n < 2 ^ 16" by (rule order_less_le_trans [OF unsigned_less]) simp
  then have "unat n < 2 ^ 64" by simp
  then have "unat (ucast n :: u64) = unat n" by (simp add: unsigned_ucast_eq take_bit_nat_eq_self)
  then show ?case using Cons by (simp add: total_size_def unat_word_ariths)
qed (simp add: total_size_def)

text \<open>When the kernel adds nothing meanwhile, reading the sample buffer ends after one round for each record, with the tail at the head.\<close>

lemma sample_poll_ends:
  assumes "records buffer mem tail ns" "sum_list (map unat ns) < 2 ^ 64"
  shows "\<exists>xs. sample_poll (length ns) buffer mem (\<lambda>_. tail + total_size ns) tail = Some (tail + total_size ns, xs) \<and> length xs = length ns"
  using assms
proof (induction ns arbitrary: tail)
  case Nil
  then show ?case by (simp add: total_size_def)
next
  case (Cons n ns)
  have "unat n \<noteq> 0" using Cons.prems(1) by (simp add: unat_eq_0)
  then have "unat (total_size (n # ns)) \<noteq> 0" using unat_total [OF Cons.prems(2)] by simp
  then have ne: "tail + total_size (n # ns) \<noteq> tail" by auto
  have eq: "tail + total_size (n # ns) = tail + ucast n + total_size ns" by (simp add: total_size_def)
  from Cons.IH [of "tail + ucast n"] Cons.prems show ?case using ne by (auto simp: eq)
qed

lemma sample_poll_ends_witness:
  "\<exists>xs. sample_poll 2 0 (\<lambda>_. \<lparr>pe_type = 9, pe_misc = 2, pe_size = 24\<rparr>) (\<lambda>_. 148) 100 = Some (148, xs) \<and> length xs = 2"
proof -
  let ?mem = "\<lambda>_ :: u64. \<lparr>pe_type = 9, pe_misc = 2, pe_size = 24\<rparr>"
  have r: "records 0 ?mem 100 [24, 24]" by simp
  have n: "sum_list (map unat [24 :: u16, 24]) < 2 ^ 64" by simp
  have t: "100 + total_size [24, 24] = 148" by (simp add: total_size_def)
  show ?thesis using sample_poll_ends [OF r n] unfolding t by (simp add: numeral_2_eq_2 del: sample_poll.simps)
qed

text \<open>A record of size zero is looked at forever.\<close>

lemma sample_poll_spins:
  "pe_size (mem (buffer + PAGE_SIZE + tail mod BUFFER_SIZE)) = 0 \<Longrightarrow> \<forall>i. head i \<noteq> tail \<Longrightarrow> sample_poll n buffer mem head tail = None"
  by (induction n arbitrary: head) simp_all

text \<open>With only one of sampling and tracing enabled, the first round of the collector tests a descriptor that was never opened.\<close>

lemma collector_needs_both:
  assumes "perf_kprobe_fd p < 0"
  shows "fst (sampler_thread self clk n mem p tail (Select_ready k s reads head # xs) st) = Inl OutOfRange"
  using assms by (simp add: fd_isset_def lift_fault_def c_bind_def)

end
