(* ===== verification/LibcOk.thy ===== *)
theory LibcOk
  imports Logger PerfOk
begin

text \<open>
  What is logged of the life of a thread, and of a signal.
\<close>

section \<open>Logging an event that involves another thread\<close>

definition store_ok :: "store \<Rightarrow> bool" where
  "store_ok s \<longleftrightarrow> store_inv s \<and> rw_free (thread_events_lock s) \<and> \<not> finalized s"

lemma fresh_event:
  assumes "store_inv s"
  shows "store_inv (s\<lparr>events := events s @ [e]\<rparr>)" "length (events s) \<notin> set (queued (s\<lparr>events := events s @ [e]\<rparr>))"
proof -
  have "\<forall>t < length (threads s). \<forall>p \<in> set (th_events (threads s ! t)). p < length (events s) \<and> ev_thread_id (events s ! p) = of_nat t"
    using assms by (simp add: store_inv_def)
  then have "\<forall>t < length (threads s). \<forall>p \<in> set (th_events (threads s ! t)). p < length (events s @ [e]) \<and> ev_thread_id ((events s @ [e]) ! p) = of_nat t"
    by (simp add: nth_append less_Suc_eq)
  then show "store_inv (s\<lparr>events := events s @ [e]\<rparr>)" using assms unfolding store_inv_def by simp
  show "length (events s) \<notin> set (queued (s\<lparr>events := events s @ [e]\<rparr>))"
    using assms by (auto simp: store_inv_def queued_def set_conv_nth [of "threads s"])
qed

lemma log_thread_event:
  fixes self other :: u64 and clk :: clock
  assumes "store_ok s" and sub: "\<forall>f r. sub \<noteq> ThreadCreator f r"
  defines "p \<equiv> length (events s)"
  defines "s0 \<equiv> s\<lparr>events := events s @ [new_event self (fst (clk p)) (snd (clk p)) (thread_event other sub)]\<rparr>"
  defines "s1 \<equiv> queue_event (cur_of self self s0) p (cur_state self self s0)"
  shows "case map_of (thread_events s1) other of
      None \<Rightarrow> fst (log_event self clk (thread_event other sub) s) = Inl StdException
    | Some o' \<Rightarrow> \<exists>l. rw_free l \<and> log_event self clk (thread_event other sub) s =
        (Inr p, (special sub self (cur_of self self s0) o' (link_other p o' s1))\<lparr>thread_events_lock := l\<rparr>) \<and>
        store_ok ((special sub self (cur_of self self s0) o' (link_other p o' s1))\<lparr>thread_events_lock := l\<rparr>)"
proof -
  have I: "store_inv s" "rw_free (thread_events_lock s)" "\<not> finalized s" using assms(1) by (simp_all add: store_ok_def)
  have b: "ev_body (events s0 ! p) = ThreadB other UINT64_MAX sub" "p < length (events s0)"
    by (simp_all add: s0_def p_def new_event_def thread_event_def)
  have cr: "created sub other s1 = s1" using sub by (cases sub) auto
  have spec: "insert_spec self self p s0 = (case map_of (thread_events s1) other of
      None \<Rightarrow> (Inl StdException, s1) | Some o' \<Rightarrow> (Inr (), special sub self (cur_of self self s0) o' (link_other p o' s1)))"
    unfolding insert_spec_def Let_def b(1) ev_body.case s1_def [symmetric] cr ..
  have log: "log_event self clk (thread_event other sub) s = c_then (insert_event self self p) (c_ret p) s0"
    by (simp add: log_event_def make_event_def alloc_event_def c_bind_def Let_def p_def s0_def)
  have inv: "store_inv (snd (insert_spec self self p s0))"
    using insert_spec_inv [of s0 p self self] fresh_event [OF I(1)] b(2) by (simp add: s0_def p_def)
  have free: "rw_free (thread_events_lock s0)" "\<not> finalized s0" using I by (simp_all add: s0_def)
  show ?thesis
  proof (cases "map_of (thread_events s1) other")
    case None
    then show ?thesis using insert_event_eq [OF free b(2), of self self] spec log by (auto simp: c_then_def c_bind_def)
  next
    case (Some o')
    then obtain l where l: "rw_free l" "insert_event self self p s0 = (Inr (), (special sub self (cur_of self self s0) o' (link_other p o' s1))\<lparr>thread_events_lock := l\<rparr>)"
      using insert_event_eq [OF free b(2), of self self] spec by auto
    have "\<not> finalized (special sub self (cur_of self self s0) o' (link_other p o' s1))" using free(2) by (simp add: s1_def)
    then show ?thesis using Some l log inv spec by (auto simp: c_then_def c_bind_def store_ok_def)
  qed
qed

section \<open>The life of a thread\<close>

text \<open>What the function of a thread may do: log events of the thread, and whatever keeps the store in order and the first event of the thread as it is.\<close>

definition thread_ran :: "u64 \<Rightarrow> store \<Rightarrow> store \<Rightarrow> bool" where
  "thread_ran self s s' \<longleftrightarrow> store_ok s' \<and>
     (\<forall>t. current_thread s self = Some t \<longrightarrow> current_thread s' self = Some t \<and> (\<exists>xs. th_events (threads s' ! t) = th_events (threads s ! t) @ xs) \<and>
       (\<forall>p \<in> set (th_events (threads s ! t)). p < length (events s') \<and> ev_body (events s' ! p) = ev_body (events s ! p)))"

definition unused :: "u64 \<Rightarrow> store \<Rightarrow> bool" where
  "unused self s \<longleftrightarrow> current_thread s self = None \<and> (\<forall>t. map_of (thread_events s) self = Some t \<longrightarrow> th_events (threads s ! t) = [])"

lemma cur_state_known: "map_of (thread_events s) k = Some v \<Longrightarrow> \<exists>w. map_of (thread_events (cur_state self i s)) k = Some w"
  by (auto simp: cur_state_def new_entry_def map_add_def split: option.splits)

lemma cur_state_fresh:
  assumes "store_inv s" "unused self s"
  shows "current_thread (cur_state self self s) self = Some (cur_of self self s)" "cur_of self self s < length (threads (cur_state self self s))"
    "th_events (threads (cur_state self self s) ! cur_of self self s) = []"
proof -
  have n: "current_thread s self = None" using assms(2) by (simp add: unused_def)
  have "map_of (thread_events s) self = Some t \<Longrightarrow> t < length (threads s)" for t
    using assms(1) by (auto simp: store_inv_def dest!: map_of_SomeD)
  then show "current_thread (cur_state self self s) self = Some (cur_of self self s)" "cur_of self self s < length (threads (cur_state self self s))"
    "th_events (threads (cur_state self self s) ! cur_of self self s) = []"
    using n assms(2) by (auto simp: cur_state_def cur_of_def new_entry_def new_thread_def unused_def split: option.splits)
qed

lemma creation_logged:
  fixes self creator arg :: u64 and clk :: clock
  assumes "store_ok s" "unused self s" "map_of (thread_events s) creator \<noteq> None"
  obtains s1 t c where "log_event self clk (thread_event creator (ThreadCreation arg)) s = (Inr (length (events s)), s1)" "store_ok s1"
    "current_thread s1 self = Some t" "th_events (threads s1 ! t) = [length (events s)]"
    "ev_body (events s1 ! length (events s)) = ThreadB creator c (ThreadCreation arg)" "length (events s1) = Suc (length (events s))" "map_of (thread_events s1) creator \<noteq> None"
proof -
  let ?p = "length (events s)"
  define e where "e = new_event self (fst (clk ?p)) (snd (clk ?p)) (thread_event creator (ThreadCreation arg))"
  define s0 where "s0 = s\<lparr>events := events s @ [e]\<rparr>"
  let ?t = "cur_of self self s0"
  define q where "q = queue_event ?t ?p (cur_state self self s0)"
  have inv0: "store_inv s0" using fresh_event(1) assms(1) by (simp add: s0_def store_ok_def)
  have un: "unused self s0" using assms(2) by (simp add: unused_def s0_def)
  obtain v where "map_of (thread_events s0) creator = Some v" using assms(3) by (auto simp: s0_def)
  then obtain w where w: "map_of (thread_events q) creator = Some w" using cur_state_known [of s0 creator v self self] by (auto simp: q_def)
  from log_thread_event [OF assms(1), of "ThreadCreation arg" self clk creator] w obtain l where
    l: "log_event self clk (thread_event creator (ThreadCreation arg)) s = (Inr ?p, (link_other ?p w q)\<lparr>thread_events_lock := l\<rparr>)"
      "store_ok ((link_other ?p w q)\<lparr>thread_events_lock := l\<rparr>)"
    by (auto simp: q_def s0_def e_def)
  have ev: "events q = (events s0)[?p := e\<lparr>ev_thread_id := th_sql_id (threads (cur_state self self s0) ! ?t)\<rparr>]" "length (events s0) = Suc ?p"
    by (simp_all add: q_def queue_event_def s0_def)
  show thesis
  proof (rule that [OF l, of ?t])
    show "current_thread ((link_other ?p w q)\<lparr>thread_events_lock := l\<rparr>) self = Some ?t"
      using cur_state_fresh(1) [OF inv0 un] by (simp add: link_other_def q_def queue_event_def)
    show "th_events (threads ((link_other ?p w q)\<lparr>thread_events_lock := l\<rparr>) ! ?t) = [?p]"
      using cur_state_fresh(2,3) [OF inv0 un] by (simp add: link_other_def q_def queue_event_def)
    show "ev_body (events ((link_other ?p w q)\<lparr>thread_events_lock := l\<rparr>) ! ?p) = ThreadB creator (th_sql_id (threads q ! w)) (ThreadCreation arg)"
      using ev by (simp add: link_other_def e_def new_event_def thread_event_def set_other_id_def)
    show "length (events ((link_other ?p w q)\<lparr>thread_events_lock := l\<rparr>)) = Suc ?p" using ev by (simp add: link_other_def)
    show "map_of (thread_events ((link_other ?p w q)\<lparr>thread_events_lock := l\<rparr>)) creator \<noteq> None" using w by (simp add: link_other_def)
  qed
qed

lemma destruction_logged:
  fixes self creator ret :: u64 and clk :: clock
  assumes "store_ok s" "current_thread s self = Some t" "map_of (thread_events s) creator \<noteq> None"
  obtains s1 c where "log_event self clk (thread_event creator (ThreadDestruction ret)) s = (Inr (length (events s)), s1)" "store_ok s1"
    "th_events (threads s1 ! t) = th_events (threads s ! t) @ [length (events s)]" "\<forall>p < length (events s). ev_body (events s1 ! p) = ev_body (events s ! p)"
    "ev_body (events s1 ! length (events s)) = ThreadB creator c (ThreadDestruction ret)" "map_of (thread_events s1) self = None"
    "finished_thread_events s1 = finished_thread_events s @ [t]"
proof -
  let ?p = "length (events s)"
  define e where "e = new_event self (fst (clk ?p)) (snd (clk ?p)) (thread_event creator (ThreadDestruction ret))"
  define s0 where "s0 = s\<lparr>events := events s @ [e]\<rparr>"
  have cur: "cur_of self self s0 = t" "cur_state self self s0 = s0" using assms(2) by (simp_all add: cur_of_def cur_state_def s0_def)
  define q where "q = queue_event t ?p s0"
  have tl: "t < length (threads s)" using assms(1,2) by (simp add: store_ok_def store_inv_def)
  obtain w where w: "map_of (thread_events q) creator = Some w" using assms(3) by (auto simp: q_def s0_def)
  let ?f = "special (ThreadDestruction ret) self t w (link_other ?p w q)"
  from log_thread_event [OF assms(1), of "ThreadDestruction ret" self clk creator] w cur obtain l where
    l: "log_event self clk (thread_event creator (ThreadDestruction ret)) s = (Inr ?p, ?f\<lparr>thread_events_lock := l\<rparr>)"
      "store_ok (?f\<lparr>thread_events_lock := l\<rparr>)"
    by (auto simp: q_def s0_def e_def)
  have ev: "events q = (events s0)[?p := e\<lparr>ev_thread_id := th_sql_id (threads s0 ! t)\<rparr>]" "length (events s0) = Suc ?p"
    "\<forall>p < ?p. events s0 ! p = events s ! p"
    by (simp_all add: q_def queue_event_def s0_def nth_append)
  show thesis
  proof (rule that [OF l])
    show "th_events (threads (?f\<lparr>thread_events_lock := l\<rparr>) ! t) = th_events (threads s ! t) @ [?p]"
      using tl by (simp add: link_other_def q_def queue_event_def s0_def)
    show "\<forall>p < ?p. ev_body (events (?f\<lparr>thread_events_lock := l\<rparr>) ! p) = ev_body (events s ! p)" using ev by (simp add: link_other_def)
    show "ev_body (events (?f\<lparr>thread_events_lock := l\<rparr>) ! ?p) = ThreadB creator (th_sql_id (threads q ! w)) (ThreadDestruction ret)"
      using ev by (simp add: link_other_def e_def new_event_def thread_event_def set_other_id_def)
    show "map_of (thread_events (?f\<lparr>thread_events_lock := l\<rparr>)) self = None" by (auto simp: map_of_eq_None_iff)
    show "finished_thread_events (?f\<lparr>thread_events_lock := l\<rparr>) = finished_thread_events s @ [t]" by (simp add: link_other_def q_def queue_event_def s0_def)
  qed
qed

text \<open>C16: While the creator of a thread is registered, a thread is logged from its start to its end: the first event of its queue is its creation and the last one
  its end, both refer to the creator and carry the argument and the result, and afterwards the thread is no longer
  registered but among the finished ones.\<close>

theorem thread_life_logged:
  fixes self creator arg ret :: u64 and clk :: clock
  assumes "store_ok s" "unused self s" "map_of (thread_events s) creator \<noteq> None"
    and "log_event self clk (thread_event creator (ThreadCreation arg)) s = (r, s1)" "start s1 = (Inr ret, s2)" "thread_ran self s1 s2"
    and "map_of (thread_events s2) creator \<noteq> None"
  shows "\<exists>s3 t xs c d. intercepter_thread_start self clk creator arg start s = (Inr ret, s3) \<and> store_ok s3 \<and>
    th_events (threads s3 ! t) = length (events s) # xs @ [length (events s2)] \<and>
    ev_body (events s3 ! length (events s)) = ThreadB creator c (ThreadCreation arg) \<and>
    ev_body (events s3 ! length (events s2)) = ThreadB creator d (ThreadDestruction ret) \<and>
    map_of (thread_events s3) self = None \<and> last (finished_thread_events s3) = t"
proof -
  obtain s1' t c where c1: "log_event self clk (thread_event creator (ThreadCreation arg)) s = (Inr (length (events s)), s1')" "store_ok s1'"
    "current_thread s1' self = Some t" "th_events (threads s1' ! t) = [length (events s)]"
    "ev_body (events s1' ! length (events s)) = ThreadB creator c (ThreadCreation arg)"
    by (rule creation_logged [OF assms(1-3)])
  then have 1: "r = Inr (length (events s))" "store_ok s1" "current_thread s1 self = Some t" "th_events (threads s1 ! t) = [length (events s)]"
    "ev_body (events s1 ! length (events s)) = ThreadB creator c (ThreadCreation arg)"
    using assms(4) by simp_all
  obtain xs where 2: "store_ok s2" "current_thread s2 self = Some t" "th_events (threads s2 ! t) = length (events s) # xs"
    "length (events s) < length (events s2)" "ev_body (events s2 ! length (events s)) = ThreadB creator c (ThreadCreation arg)"
    using assms(6) 1 by (auto simp: thread_ran_def)
  obtain s3 d where 3: "log_event self clk (thread_event creator (ThreadDestruction ret)) s2 = (Inr (length (events s2)), s3)" "store_ok s3"
    "th_events (threads s3 ! t) = th_events (threads s2 ! t) @ [length (events s2)]" "\<forall>p < length (events s2). ev_body (events s3 ! p) = ev_body (events s2 ! p)"
    "ev_body (events s3 ! length (events s2)) = ThreadB creator d (ThreadDestruction ret)" "map_of (thread_events s3) self = None"
    "finished_thread_events s3 = finished_thread_events s2 @ [t]"
    by (rule destruction_logged [OF 2(1,2) assms(7)])
  have "intercepter_thread_start self clk creator arg start s = (Inr ret, s3)"
    using assms(4,5) 1(1) 3(1) by (simp add: intercepter_thread_start_def c_then_def c_bind_def)
  then show ?thesis using 2 3 by (intro exI [of _ s3] exI [of _ t] exI [of _ xs] exI [of _ c] exI [of _ d]) simp
qed

definition ex_clk :: clock where
  "ex_clk = (\<lambda>n. ((0, of_nat n), 0))"

lemma EventStore_ok: "store_ok (EventStore now)" "unused self (EventStore now)"
  by (simp_all add: store_ok_def store_inv_def EventStore_def unused_def)

text \<open>The main thread is registered by its first event.\<close>

lemma main_logged:
  fixes self :: u64 and clk :: clock
  obtains st where "log_event self clk (thread_event self (ThreadCreation 0)) (EventStore now) = (Inr 0, st)" "store_ok st"
    "map_of (thread_events st) self \<noteq> None" "\<forall>t. t \<noteq> self \<longrightarrow> unused t st"
proof -
  let ?s0 = "(EventStore now)\<lparr>events := [new_event self (fst (clk 0)) (snd (clk 0)) (thread_event self (ThreadCreation 0))]\<rparr>"
  let ?q = "queue_event (cur_of self self ?s0) 0 (cur_state self self ?s0)"
  have q: "map_of (thread_events ?q) self = Some 0" "\<forall>t. t \<noteq> self \<longrightarrow> current_thread ?q t = None" "\<forall>t. t \<noteq> self \<longrightarrow> map_of (thread_events ?q) t = None"
    by (simp_all add: queue_event_def cur_state_def cur_of_def EventStore_def new_entry_def)
  from log_thread_event [OF EventStore_ok(1) [of now], of "ThreadCreation 0" self clk self] q(1) obtain l where
    l: "log_event self clk (thread_event self (ThreadCreation 0)) (EventStore now) = (Inr 0, (link_other 0 0 ?q)\<lparr>thread_events_lock := l\<rparr>)"
      "store_ok ((link_other 0 0 ?q)\<lparr>thread_events_lock := l\<rparr>)"
    by (auto simp: EventStore_def)
  show thesis
    by (rule that [OF l]) (use q in \<open>simp_all add: unused_def link_other_def\<close>)
qed

lemma ex_main: "\<exists>s. store_ok s \<and> map_of (thread_events s) 7 \<noteq> None \<and> unused 8 s"
proof -
  obtain s :: store where "store_ok s" "map_of (thread_events s) 7 \<noteq> None" "\<forall>t. t \<noteq> 7 \<longrightarrow> unused t s" by (rule main_logged)
  then show ?thesis by (intro exI [of _ s]) simp
qed

theorem thread_life_logged_witness:
  "\<exists>s s3. store_ok s \<and> intercepter_thread_start 8 ex_clk 7 1 (c_ret 5) s = (Inr 5, s3) \<and> map_of (thread_events s3) 8 = None"
proof -
  obtain s where s: "store_ok s" "map_of (thread_events s) 7 \<noteq> None" "unused 8 s" using ex_main by blast
  obtain s1 t c where 1: "log_event 8 ex_clk (thread_event 7 (ThreadCreation 1)) s = (Inr (length (events s)), s1)" "store_ok s1"
    "current_thread s1 8 = Some t" "th_events (threads s1 ! t) = [length (events s)]" "length (events s1) = Suc (length (events s))"
    and known: "map_of (thread_events s1) 7 \<noteq> None"
    by (rule creation_logged [OF s(1,3,2)])
  have ran: "thread_ran 8 s1 s1" using 1 by (simp add: thread_ran_def)
  from thread_life_logged [OF s(1,3,2) 1(1) _ ran known, of "c_ret 5" 5] s(1) show ?thesis by auto
qed

text \<open>C40: A thread that outlives its creator cannot be logged to its end: when the creator is no longer registered the logger throws in the end of the
  thread, whose result never reaches the program.\<close>

theorem orphan_thread_throws:
  fixes self creator arg ret :: u64 and clk :: clock
  assumes "log_event self clk (thread_event creator (ThreadCreation arg)) s = (Inr p, s1)" "start s1 = (Inr ret, s2)"
    and "store_ok s2" "current_thread s2 self \<noteq> None" "map_of (thread_events s2) creator = None"
  shows "fst (intercepter_thread_start self clk creator arg start s) = Inl StdException"
proof -
  obtain t where t: "current_thread s2 self = Some t" using assms(4) by blast
  let ?s0 = "s2\<lparr>events := events s2 @ [new_event self (fst (clk (length (events s2)))) (snd (clk (length (events s2)))) (thread_event creator (ThreadDestruction ret))]\<rparr>"
  have "map_of (thread_events (queue_event (cur_of self self ?s0) (length (events s2)) (cur_state self self ?s0))) creator = None"
    using t assms(5) by (simp add: cur_state_def)
  then have "fst (log_event self clk (thread_event creator (ThreadDestruction ret)) s2) = Inl StdException"
    using log_thread_event [OF assms(3), of "ThreadDestruction ret" self clk creator] by simp
  then show ?thesis
    using assms(1,2) by (auto simp: intercepter_thread_start_def c_then_def c_bind_def split: prod.splits sum.splits)
qed

text \<open>The child runs on while its creator ends.\<close>

theorem orphan_thread_throws_witness:
  "\<exists>s fin. store_ok s \<and> map_of (thread_events s) 7 \<noteq> None \<and> fst (intercepter_thread_start 8 ex_clk 7 1 fin s) = Inl StdException"
proof -
  obtain s where s: "store_ok s" "map_of (thread_events s) 7 \<noteq> None" "unused 8 s" using ex_main by blast
  obtain s1 t c where 1: "log_event 8 ex_clk (thread_event 7 (ThreadCreation 1)) s = (Inr (length (events s)), s1)" "store_ok s1"
    "current_thread s1 8 = Some t"
    by (rule creation_logged [OF s(1,3,2)])
  let ?fin = "\<lambda>s. (Inr 5, s\<lparr>thread_events := filter (\<lambda>kv. fst kv \<noteq> 7) (thread_events s)\<rparr>) :: (fault + u64) \<times> store"
  let ?s2 = "s1\<lparr>thread_events := filter (\<lambda>kv. fst kv \<noteq> 7) (thread_events s1)\<rparr>"
  have "store_ok ?s2" using 1(2) by (auto simp: store_ok_def store_inv_def distinct_map_filter)
  moreover have "map_of (thread_events ?s2) 7 = None" by (auto simp: map_of_eq_None_iff)
  ultimately have "fst (intercepter_thread_start 8 ex_clk 7 1 ?fin s) = Inl StdException"
    using orphan_thread_throws [OF 1(1), of ?fin 5 ?s2] 1(3) by simp
  then show ?thesis using s(1,2) by blast
qed

section \<open>Signals\<close>

definition enclaves_ok :: "store \<Rightarrow> bool" where
  "enclaves_ok st \<longleftrightarrow> (\<forall>e \<in> set (enclaves st). en_start e \<le> en_end e) \<and>
     (\<forall>t < length (threads st). \<forall>e. th_last_enclave (threads st ! t) = Some e \<longrightarrow> e < length (enclaves st))"

lemma fault_address_outside: "en_start e \<le> en_end e \<Longrightarrow> fault_address info rip (Some e) = si_addr info"
  by (auto simp: fault_address_def dest: order.strict_trans2)

text \<open>The address the logger reads from the saved state of the enclave is never used: whatever it is, a fault is logged with the address the kernel reports, in which
  the lower bits are missing when the fault was inside an enclave.\<close>

lemma fault_rip_unused:
  assumes "lg_store s = Some st" "store_ok st" "enclaves_ok st" "current_thread st self = Some t"
  shows "sigint_handler self clk now cpu k out signum info rip s = sigint_handler self clk now cpu k out signum info rip' s"
proof -
  let ?st = "st\<lparr>events := events st @ [new_event self (fst (clk (length (events st)))) (snd (clk (length (events st)))) (SignalB (of_nat signum) 0 (si_code info))]\<rparr>"
  let ?m = "on_store (make_event self clk (SignalB (of_nat signum) 0 (si_code info)))"
  let ?e = "map_option (\<lambda>e. enclaves st ! e) (th_last_enclave (threads st ! t))"
  have tl: "t < length (threads st)" using assms(2,4) by (simp add: store_ok_def store_inv_def)
  have m: "?m s = (Inr (length (events st)), s\<lparr>lg_store := Some ?st\<rparr>)"
    using assms(1) by (simp add: on_store_def make_event_def alloc_event_def Let_def)
  have le: "on_store (last_enclave self) (s\<lparr>lg_store := Some ?st\<rparr>) = (Inr ?e, s\<lparr>lg_store := Some ?st\<rparr>)"
    using assms(4) by (simp add: on_store_def last_enclave_def c_bind_def get_thread_def)
  have f: "fault_address info r ?e = si_addr info" for r
  proof (cases "th_last_enclave (threads st ! t)")
    case (Some e)
    then have "enclaves st ! e \<in> set (enclaves st)" using assms(3) tl by (simp add: enclaves_ok_def)
    then show ?thesis using Some assms(3) by (simp add: fault_address_outside enclaves_ok_def)
  qed (simp add: fault_address_def)
  show ?thesis
    unfolding sigint_handler_def by (simp add: c_then_def c_bind_def m le f)
qed

section \<open>Loading the logger\<close>



definition kernel_got :: "sys_call list \<Rightarrow> perf \<Rightarrow> perf" where
  "kernel_got xs p = p\<lparr>pf_calls := pf_calls p @ xs\<rparr>"

lemma kernel_got_simps [simp]:
  "kernel_got ys (kernel_got xs p) = kernel_got (xs @ ys) p" "kernel_got [] p = p" "kprobe_path (kernel_got xs p) = kprobe_path p"
  "pf_calls (kernel_got xs p) = pf_calls p @ xs"
  by (simp_all add: kernel_got_def)














text \<open>Creating the collecting thread: as the constructor of \<open>std::thread\<close> promises, it is created by \<open>pthread_create\<close>, which the logger interposes, so the
  calling thread registers it. It may run before the call returns.\<close>

definition known :: "u64 \<Rightarrow> store \<Rightarrow> bool" where
  "known t st \<longleftrightarrow> map_of (thread_events st) t \<noteq> None"













end
