(* ===== verification/SummaryOk.thy ===== *)
theory SummaryOk
  imports Summary
begin

text \<open>What a serialised store contains.\<close>

section \<open>Paging events and the recursive insertion\<close>

text \<open>The pointers between events are typed: nothing refers to a paging event.\<close>

definition typed_bodies :: "ev_body list \<Rightarrow> bool" where
  "typed_bodies bs \<longleftrightarrow> (\<forall>b \<in> set bs. \<forall>q \<in> set (ev_refs b). q < length bs \<and> \<not> is_page_event (bs ! q))"

lemma typed_bodies_nth:
  "typed_bodies (map ev_body h) \<longleftrightarrow> (\<forall>p < length h. \<forall>q \<in> set (ev_refs (ev_body (h ! p))).
     q < length h \<and> \<not> is_page_event (ev_body (h ! q)))"
proof -
  have "(\<forall>b \<in> set (map ev_body h). P b) \<longleftrightarrow> (\<forall>p < length h. P (ev_body (h ! p)))" for P
    by (simp add: all_set_conv_all_nth)
  then show ?thesis by (simp add: typed_bodies_def cong: conj_cong)
qed

lemma typed_bodies_cong:
  assumes "length h' = length h" and "\<And>q. ev_refs (ev_body (h' ! q)) = ev_refs (ev_body (h ! q))"
    and "\<And>q. is_page_event (ev_body (h' ! q)) = is_page_event (ev_body (h ! q))" and "typed_bodies (map ev_body h)"
  shows "typed_bodies (map ev_body h')"
  unfolding typed_bodies_nth assms(1-3) using assms(4) [unfolded typed_bodies_nth] .

definition page_ids :: "heap \<Rightarrow> u64 list" where
  "page_ids h = map (\<lambda>e. if is_page_event (ev_body e) then ev_sql_id e else 0) h"

lemma insert_row_bodies [simp]: "map ev_body (fst (insert_row p s)) = map ev_body (fst s)"
  by (cases s; cases "p < length (fst s)")
    (simp_all add: map_update list_update_beyond list_update_same_conv)

lemma insert_row_pages:
  assumes "\<not> is_page_event (ev_body (fst s ! p))"
  shows "page_ids (fst (insert_row p s)) = page_ids (fst s)"
  using assms
  by (cases s; cases "p < length (fst s)")
    (simp_all add: page_ids_def map_update list_update_beyond list_update_same_conv)

definition frames :: "ev_body list \<Rightarrow> (ev_ptr \<Rightarrow> ser \<Rightarrow> ser option) \<Rightarrow> bool" where
  "frames bs rec \<longleftrightarrow> (\<forall>p < length bs. \<forall>s t. map ev_body (fst s) = bs \<longrightarrow> rec p s = Some t \<longrightarrow>
      map ev_body (fst t) = bs \<and> page_ids (fst t) = page_ids (fst s))"

lemma insert_refs_frame:
  assumes "frames bs rec"
  shows "map ev_body (fst s) = bs \<Longrightarrow> insert_refs rec ps s = Some t \<Longrightarrow>
    \<forall>q \<in> set ps. q < length bs \<and> \<not> is_page_event (bs ! q) \<Longrightarrow>
    map ev_body (fst t) = bs \<and> page_ids (fst t) = page_ids (fst s)"
proof (induction ps arbitrary: s)
  case (Cons p ps)
  show ?case
  proof (cases "is_inserted (fst s) p")
    case False
    with Cons.prems obtain u where u: "rec p s = Some u" "insert_refs rec ps (insert_row p u) = Some t"
      by (auto split: option.splits)
    have pb: "p < length bs" using Cons.prems(3) by simp
    note f = assms [unfolded frames_def, rule_format, OF pb Cons.prems(1) u(1)]
    then have "ev_body (fst u ! p) = bs ! p" using pb by (metis length_map nth_map)
    then have "page_ids (fst (insert_row p u)) = page_ids (fst u)"
      using Cons.prems(3) by (intro insert_row_pages) simp
    with Cons.IH [OF _ u(2)] Cons.prems(3) f show ?thesis by simp
  qed (use Cons in simp)
qed simp

lemma pre_insert_frames:
  assumes "typed_bodies bs" shows "frames bs (pre_insert n)"
proof (induction n)
  case (Suc n)
  show ?case
    unfolding frames_def
  proof (intro allI impI)
    fix p s t
    assume p: "p < length bs" and s: "map ev_body (fst s) = bs" and t: "pre_insert (Suc n) p s = Some t"
    have b: "ev_body (fst s ! p) = bs ! p" using p s by (metis length_map nth_map)
    have "bs ! p \<in> set bs" using p by simp
    then have refs: "\<forall>q \<in> set (ev_refs (bs ! p)). q < length bs \<and> \<not> is_page_event (bs ! q)"
      using assms unfolding typed_bodies_def by blast
    show "map ev_body (fst t) = bs \<and> page_ids (fst t) = page_ids (fst s)"
      using insert_refs_frame [OF Suc s _ refs] t b by simp
  qed
qed (simp add: frames_def)

section \<open>Writing one event\<close>

text \<open>An event without what serialisation changes: its row id and the enclave of a paging event.\<close>

definition norm :: "event \<Rightarrow> event" where
  "norm e = (if is_page_event (ev_body e) then set_eid 0 e else e)\<lparr>ev_sql_id := 0\<rparr>"

lemma norm_sql_id [simp]: "norm (e\<lparr>ev_sql_id := i\<rparr>) = norm e"
  by (simp add: norm_def set_eid_def)

definition sm_ok :: "summ \<Rightarrow> bool" where
  "sm_ok s \<longleftrightarrow> ser_inv (sm_heap s, db_events (sm_db s)) \<and> typed_bodies (map ev_body (sm_heap s))"

lemma is_page_set_eid [simp]: "is_page_event (ev_body (set_eid i e)) = is_page_event (ev_body e)"
  by (simp add: is_page_event_def set_eid_def split: ev_body.split)

lemma not_page_type [simp]:
  "call_type k \<noteq> EnclavePageInEvent" "call_type k \<noteq> EnclavePageOutEvent"
  "thread_sub_type u \<noteq> EnclavePageInEvent" "thread_sub_type u \<noteq> EnclavePageOutEvent"
  by ((cases k; simp) | (cases u; simp))+

lemma page_event_body:
  assumes "is_page_event b" obtains eid a k where "b = EnclaveB eid (EnclavePaging a k)"
proof (cases b)
  case (EnclaveB eid sub)
  with assms that show ?thesis by (cases sub) (auto simp: is_page_event_def)
qed (use assms in \<open>simp_all add: is_page_event_def\<close>)

lemma page_event_refs [simp]: "is_page_event b \<Longrightarrow> ev_refs b = []"
  by (auto elim!: page_event_body)

lemma set_eid_refs [simp]: "ev_refs (ev_body (set_eid i e)) = ev_refs (ev_body e)"
  by (simp add: set_eid_def split: ev_body.split)

lemma set_eid_id [simp]: "ev_sql_id (set_eid i e) = ev_sql_id e"
  by (simp add: set_eid_def)

lemma set_eid_heap_inv:
  assumes inv: "ser_inv (h, rows)" and p: "p < length h" "\<not> is_inserted h p"
  shows "ser_inv (h[p := set_eid i (h ! p)], rows)" "ins (h[p := set_eid i (h ! p)]) = ins h"
proof -
  let ?h = "h[p := set_eid i (h ! p)]"
  have id: "get_sql_id ?h q = get_sql_id h q" for q
    using p by (simp add: get_sql_id_def nth_list_update)
  have refs: "ev_refs (ev_body (?h ! q)) = ev_refs (ev_body (h ! q))" for q
    using p by (simp add: nth_list_update)
  show ins: "ins ?h = ins h" by (simp add: ins_def is_inserted_def id)
  have ro: "row_of ?h = row_of h" by (simp add: row_of_def id fun_eq_iff)
  have "sql_bind ?h (?h ! q) = sql_bind h (h ! q)" if "q \<in> ins h" for q
  proof -
    have "q \<noteq> p" using that p(2) by (auto simp: ins_def)
    then show ?thesis by (simp add: sql_bind_cong [of "h ! q" ?h h] id)
  qed
  then show "ser_inv (?h, rows)"
    using inv by (auto simp: ser_inv_def wf_heap_def ins ro id refs)
qed

lemma norm_ser_le:
  assumes "ser_le s t" shows "map norm (fst t) = map norm (fst s)"
proof (rule nth_equalityI)
  fix p assume "p < length (map norm (fst t))"
  then have p: "p < length (fst t)" "p < length (fst s)" using assms by (simp_all add: ser_le_def)
  then have "fst t ! p = (fst s ! p)\<lparr>ev_sql_id := get_sql_id (fst t) p\<rparr>" using assms by (simp add: ser_le_def)
  then have "norm (fst t ! p) = norm (fst s ! p)" by (metis (no_types) norm_sql_id)
  with p show "map norm (fst t) ! p = map norm (fst s) ! p" by simp
qed (use assms in \<open>simp add: ser_le_def\<close>)

lemma page_ids_nth:
  assumes "page_ids h' = page_ids h" "map ev_body h' = map ev_body h" "q < length h" "is_page_event (ev_body (h ! q))"
  shows "ev_sql_id (h' ! q) = ev_sql_id (h ! q)"
proof -
  have len: "length h' = length h" and b: "ev_body (h' ! q) = ev_body (h ! q)"
    using assms(2,3) by (metis length_map, metis length_map nth_map)
  have "page_ids h' ! q = page_ids h ! q" using assms(1) by simp
  with assms(3,4) len b show ?thesis by (simp add: page_ids_def)
qed

text \<open>A paging event outside the enclaves the store knows.\<close>

definition homeless :: "store \<Rightarrow> event \<Rightarrow> bool" where
  "homeless st e \<longleftrightarrow> is_page_event (ev_body e) \<and>
     find_enclave (enclaves st) (pg_address (enclave_sub (ev_body e))) (ev_time e) (enclave_map st) = Inr None"

definition no_null_enclave :: "store \<Rightarrow> bool" where
  "no_null_enclave st \<longleftrightarrow> (\<forall>kv \<in> set (enclave_map st). snd kv \<noteq> None)"

lemma find_enclave_no_fault:
  "\<forall>kv \<in> set m. snd kv \<noteq> None \<Longrightarrow> find_enclave es a t m \<noteq> Inl f"
  by (induction es a t m rule: find_enclave.induct) (auto split: if_splits)

text \<open>What a row of the \<open>threads\<close> table is written with; the columns of the start function are
  filled later.\<close>

definition thread_key :: "thread_row \<Rightarrow> u64 \<times> sql_val \<times> string option" where
  "thread_key r = (tr_id r, tr_pthread_id r, Some (tr_name r))"

text \<open>What writing events may change.\<close>

definition sm_le :: "summ \<Rightarrow> summ \<Rightarrow> bool" where
  "sm_le s s' \<longleftrightarrow> map norm (sm_heap s') = map norm (sm_heap s) \<and> ins (sm_heap s) \<subseteq> ins (sm_heap s') \<and>
     db_general (sm_db s') = db_general (sm_db s) \<and> db_event_map (sm_db s') = db_event_map (sm_db s) \<and>
     map tr_id (db_threads (sm_db s')) = map tr_id (db_threads (sm_db s)) \<and>
     map thread_key (db_threads (sm_db s')) = map thread_key (db_threads (sm_db s))"

lemma sm_le_refl [simp]: "sm_le s s"
  by (simp add: sm_le_def)

lemma sm_le_trans: "sm_le s t \<Longrightarrow> sm_le t u \<Longrightarrow> sm_le s u"
  by (auto simp: sm_le_def)

lemma sm_pre_insert:
  assumes ok: "sm_ok s" and p: "p < length (sm_heap s)"
  shows "\<exists>s'. sm_ser (pre_insert (Suc (length (sm_heap s))) p) s = (Inr (), s') \<and> sm_ok s' \<and> sm_le s s' \<and>
    (\<forall>q \<in> set (ev_refs (ev_body (sm_heap s' ! p))). q \<in> ins (sm_heap s')) \<and>
    map ev_body (sm_heap s') = map ev_body (sm_heap s) \<and> page_ids (sm_heap s') = page_ids (sm_heap s)"
proof -
  let ?s = "(sm_heap s, db_events (sm_db s))"
  obtain t where t: "pre_insert (Suc (length (sm_heap s))) p ?s = Some t" "ser_inv t" "ser_le ?s t"
    "\<forall>q \<in> set (ev_refs (ev_body (sm_heap s ! p))). q \<in> ins (fst t)"
    using pre_insert_ok [of p "Suc (length (sm_heap s))" ?s] ok p by (auto simp: sm_ok_def)
  obtain h rows where hr: "t = (h, rows)" by force
  have f: "map ev_body h = map ev_body (sm_heap s)" "page_ids h = page_ids (sm_heap s)"
    using pre_insert_frames [unfolded frames_def, rule_format, of "map ev_body (sm_heap s)" p ?s, OF _ _ _ t(1)] ok p hr
    by (simp_all add: sm_ok_def)
  let ?s' = "s\<lparr>sm_heap := h, sm_db := (sm_db s)\<lparr>db_events := rows\<rparr>\<rparr>"
  have "sm_ok ?s'" using ok t(2) f hr by (simp add: sm_ok_def)
  moreover have "sm_le s ?s'"
    using norm_ser_le [OF t(3)] ser_le_ins [OF t(3)] hr by (auto simp: sm_le_def)
  moreover have "ev_body (h ! p) = ev_body (sm_heap s ! p)" using ser_le_body [OF t(3)] p hr by simp
  ultimately show ?thesis
    using t(1,4) f hr by (intro exI [of _ ?s']) (simp add: sm_ser_def)
qed

lemma sm_insert_row:
  assumes ok: "sm_ok s" and p: "p < length (sm_heap s)"
    and refs: "\<forall>q \<in> set (ev_refs (ev_body (sm_heap s ! p))). q \<in> ins (sm_heap s)"
  shows "\<exists>s'. sm_ser (\<lambda>s. if is_inserted (fst s) p then Some s else Some (insert_row p s)) s = (Inr (), s') \<and>
    sm_ok s' \<and> sm_le s s' \<and> p \<in> ins (sm_heap s') \<and> map ev_body (sm_heap s') = map ev_body (sm_heap s) \<and>
    (\<forall>q. q \<noteq> p \<longrightarrow> sm_heap s' ! q = sm_heap s ! q)"
proof (cases "is_inserted (sm_heap s) p")
  case True
  then show ?thesis using ok p by (intro exI [of _ s]) (simp add: sm_ser_def ins_def)
next
  case False
  let ?s = "(sm_heap s, db_events (sm_db s))"
  have inv: "ser_inv ?s" using ok by (simp add: sm_ok_def)
  note I = insert_row_inv [OF inv p False refs]
  obtain h rows where hr: "insert_row p ?s = (h, rows)" by force
  let ?s' = "s\<lparr>sm_heap := h, sm_db := (sm_db s)\<lparr>db_events := rows\<rparr>\<rparr>"
  have b: "map ev_body h = map ev_body (sm_heap s)" using insert_row_bodies [of p ?s] hr by simp
  have "sm_ok ?s'" using I(1) ok hr b by (simp add: sm_ok_def)
  moreover have "sm_le s ?s'" using norm_ser_le [OF I(2)] I(3) hr by (auto simp: sm_le_def)
  moreover have "p \<in> ins h" using I(3) hr by simp
  moreover have "\<forall>q. q \<noteq> p \<longrightarrow> h ! q = sm_heap s ! q" using hr by auto
  ultimately show ?thesis using False hr b by (intro exI [of _ ?s']) (simp add: sm_ser_def)
qed

lemma norm_set_eid: "is_page_event (ev_body e) \<Longrightarrow> norm (set_eid i e) = norm e"
  by (auto simp: norm_def set_eid_def is_page_event_def split: ev_body.splits)

lemma sm_assign_enclave:
  assumes ok: "sm_ok s" and p: "p < length (sm_heap s)" and nn: "no_null_enclave st"
    and np: "is_page_event (ev_body (sm_heap s ! p)) \<Longrightarrow> \<not> is_inserted (sm_heap s) p"
  shows "\<exists>s'. assign_enclave st p s = (Inr (\<not> homeless st (sm_heap s ! p)), s') \<and> sm_ok s' \<and> sm_le s s' \<and>
    ev_refs (ev_body (sm_heap s' ! p)) = ev_refs (ev_body (sm_heap s ! p)) \<and> ins (sm_heap s') = ins (sm_heap s) \<and>
    length (sm_heap s') = length (sm_heap s) \<and>
    (\<forall>q. q \<noteq> p \<longrightarrow> sm_heap s' ! q = sm_heap s ! q)"
proof (cases "is_page_event (ev_body (sm_heap s ! p))")
  case False
  then show ?thesis using ok
    by (intro exI [of _ s]) (simp add: assign_enclave_def c_bind_def homeless_def)
next
  case True
  let ?f = "find_enclave (enclaves st) (pg_address (enclave_sub (ev_body (sm_heap s ! p)))) (ev_time (sm_heap s ! p)) (enclave_map st)"
  show ?thesis
  proof (cases ?f)
    case (Inl f)
    then show ?thesis using nn find_enclave_no_fault unfolding no_null_enclave_def by metis
  next
    case (Inr r)
    show ?thesis
    proof (cases r)
      case None
      with Inr True ok show ?thesis
        by (intro exI [of _ s]) (simp add: assign_enclave_def c_bind_def homeless_def)
    next
      case (Some i)
      let ?s' = "s\<lparr>sm_heap := (sm_heap s)[p := set_eid i (sm_heap s ! p)]\<rparr>"
      note E = set_eid_heap_inv [of "sm_heap s" "db_events (sm_db s)" p i, OF _ p np [OF True]]
      have "ev_refs (ev_body (sm_heap ?s' ! q)) = ev_refs (ev_body (sm_heap s ! q))"
        "is_page_event (ev_body (sm_heap ?s' ! q)) = is_page_event (ev_body (sm_heap s ! q))" for q
        using p by (simp_all add: nth_list_update)
      then have "typed_bodies (map ev_body (sm_heap ?s'))"
        by (rule typed_bodies_cong [rotated]) (use ok in \<open>simp_all add: sm_ok_def\<close>)
      then have "sm_ok ?s'" using E(1) ok by (simp add: sm_ok_def)
      moreover have "map norm (sm_heap ?s') = map norm (sm_heap s)"
        using p True by (simp add: map_update norm_set_eid list_update_same_conv)
      then have "sm_le s ?s'" using E(2) ok by (simp add: sm_le_def sm_ok_def)
      ultimately show ?thesis
        using Some Inr True p E(2) ok
        by (intro exI [of _ ?s']) (simp add: assign_enclave_def c_bind_def c_then_def homeless_def sm_ok_def)
    qed
  qed
qed

lemma homeless_norm: "homeless st (norm e) = homeless st e"
proof (cases "is_page_event (ev_body e)")
  case True
  then obtain eid a k where "ev_body e = EnclaveB eid (EnclavePaging a k)" by (rule page_event_body)
  with True show ?thesis by (simp add: homeless_def norm_def set_eid_def is_page_event_def)
qed (simp add: homeless_def norm_def)

lemma norm_homeless:
  assumes "map norm h' = map norm h" "p < length h" shows "homeless st (h' ! p) = homeless st (h ! p)"
proof -
  have "length h' = length h" using assms(1) by (metis length_map)
  then have "norm (h' ! p) = norm (h ! p)" using assms by (metis nth_map)
  then show ?thesis by (metis homeless_norm)
qed

lemma note_enclave_file_ok:
  "\<exists>s'. note_enclave_file b s = (Inr (), s') \<and> sm_heap s' = sm_heap s \<and> sm_db s' = sm_db s"
proof (cases b)
  case (EnclaveB i sub)
  then show ?thesis by (cases sub) (simp_all add: note_enclave_file_def)
qed (simp_all add: note_enclave_file_def)

lemma note_thread_start_ok:
  "\<exists>s'. note_thread_start b s = (Inr (), s') \<and> sm_le s s' \<and> sm_heap s' = sm_heap s \<and>
     db_events (sm_db s') = db_events (sm_db s)"
proof (cases b)
  case (ThreadB t i sub)
  have "map (tr_id \<circ> (\<lambda>t. if tr_id t = i then t\<lparr>tr_start_address := v\<rparr> else t)) ts = map tr_id ts"
    "map (thread_key \<circ> (\<lambda>t. if tr_id t = i then t\<lparr>tr_start_address := v\<rparr> else t)) ts = map thread_key ts"
    for i v and ts :: "thread_row list" by (induction ts) (auto simp: thread_key_def)
  with ThreadB show ?thesis
    by (cases sub) (simp_all add: note_thread_start_def c_then_def c_bind_def sm_upd_db_def sm_le_def)
qed (simp_all add: note_thread_start_def)

lemma notes_ok:
  "\<exists>s'. c_then (note_enclave_file b) (note_thread_start b) s = (Inr (), s') \<and> sm_le s s' \<and>
    sm_heap s' = sm_heap s \<and> db_events (sm_db s') = db_events (sm_db s)"
proof -
  obtain s1 where s1: "note_enclave_file b s = (Inr (), s1)" "sm_heap s1 = sm_heap s" "sm_db s1 = sm_db s"
    using note_enclave_file_ok by blast
  moreover obtain s2 where "note_thread_start b s1 = (Inr (), s2)" "sm_le s1 s2" "sm_heap s2 = sm_heap s1"
    "db_events (sm_db s2) = db_events (sm_db s1)" using note_thread_start_ok by blast
  ultimately show ?thesis by (simp add: c_then_eq sm_le_def)
qed

lemma write_event_ok:
  assumes ok: "sm_ok s" and p: "p < length (sm_heap s)" and nn: "no_null_enclave st"
    and np: "is_page_event (ev_body (sm_heap s ! p)) \<Longrightarrow> \<not> is_inserted (sm_heap s) p"
  shows "\<exists>s'. write_event st p s = (Inr (), s') \<and> sm_ok s' \<and> sm_le s s' \<and>
    (p \<in> ins (sm_heap s') \<or> homeless st (sm_heap s ! p)) \<and>
    (\<forall>q < length (sm_heap s). q \<noteq> p \<longrightarrow> is_page_event (ev_body (sm_heap s ! q)) \<longrightarrow>
       ev_sql_id (sm_heap s' ! q) = ev_sql_id (sm_heap s ! q))"
proof -
  obtain s1 where s1: "sm_ser (pre_insert (Suc (length (sm_heap s))) p) s = (Inr (), s1)" "sm_ok s1" "sm_le s s1"
    "\<forall>q \<in> set (ev_refs (ev_body (sm_heap s1 ! p))). q \<in> ins (sm_heap s1)"
    "map ev_body (sm_heap s1) = map ev_body (sm_heap s)" "page_ids (sm_heap s1) = page_ids (sm_heap s)"
    using sm_pre_insert [OF ok p] by blast
  have len: "length (sm_heap s1) = length (sm_heap s)" using s1(5) by (metis length_map)
  have body: "ev_body (sm_heap s1 ! q) = ev_body (sm_heap s ! q)" if "q < length (sm_heap s)" for q
    using s1(5) that len by (metis nth_map)
  have pid: "ev_sql_id (sm_heap s1 ! q) = ev_sql_id (sm_heap s ! q)"
    if "q < length (sm_heap s)" "is_page_event (ev_body (sm_heap s ! q))" for q
    using page_ids_nth [OF s1(6,5)] that by blast
  have np1: "is_page_event (ev_body (sm_heap s1 ! p)) \<Longrightarrow> \<not> is_inserted (sm_heap s1) p"
    using np pid p body by (simp add: is_inserted_def get_sql_id_def)
  have home: "homeless st (sm_heap s1 ! p) = homeless st (sm_heap s ! p)"
    using s1(3) p by (intro norm_homeless) (simp_all add: sm_le_def)
  obtain s2 where s2: "assign_enclave st p s1 = (Inr (\<not> homeless st (sm_heap s1 ! p)), s2)" "sm_ok s2" "sm_le s1 s2"
    "ev_refs (ev_body (sm_heap s2 ! p)) = ev_refs (ev_body (sm_heap s1 ! p))" "ins (sm_heap s2) = ins (sm_heap s1)"
    "length (sm_heap s2) = length (sm_heap s1)" "\<forall>q. q \<noteq> p \<longrightarrow> sm_heap s2 ! q = sm_heap s1 ! q"
    using sm_assign_enclave [OF s1(2) _ nn np1] p len by auto
  show ?thesis
  proof (cases "homeless st (sm_heap s ! p)")
    case True
    with s1 s2 home have "write_event st p s = (Inr (), s2)"
      by (simp add: write_event_def c_bind_def c_then_def)
    with True s2 sm_le_trans [OF s1(3) s2(3)] pid show ?thesis by auto
  next
    case False
    obtain s3 where s3: "sm_ser (\<lambda>s. if is_inserted (fst s) p then Some s else Some (insert_row p s)) s2 = (Inr (), s3)"
      "sm_ok s3" "sm_le s2 s3" "p \<in> ins (sm_heap s3)" "\<forall>q. q \<noteq> p \<longrightarrow> sm_heap s3 ! q = sm_heap s2 ! q"
      using sm_insert_row [OF s2(2)] s2 s1(4) p len by (metis (no_types, lifting))
    obtain s4 where s4: "c_then (note_enclave_file (ev_body (sm_heap s3 ! p))) (note_thread_start (ev_body (sm_heap s3 ! p))) s3 = (Inr (), s4)"
      "sm_le s3 s4" "sm_heap s4 = sm_heap s3" "db_events (sm_db s4) = db_events (sm_db s3)"
      using notes_ok by blast
    from False s1(1) s2(1) s3(1) s4(1) home have "write_event st p s = (Inr (), s4)"
      by (simp add: write_event_def c_bind_def c_then_def)
    moreover have "sm_ok s4" using s3(2) s4 by (simp add: sm_ok_def)
    moreover have "sm_le s s4" using s1(3) s2(3) s3(3) s4(2) sm_le_trans by blast
    ultimately show ?thesis using s3(4,5) s4(3) s2(7) pid by auto
  qed
qed

section \<open>All events\<close>

lemma c_each_concat: "c_each (\<lambda>t. c_each f (g t)) ts s = c_each f (concat (map g ts)) s"
proof (induction ts arbitrary: s)
  case (Cons t ts)
  show ?case
    by (simp add: c_each_append) (simp add: c_then_def c_bind_def Cons split: prod.split sum.split)
qed simp

lemma norm_page: "norm e' = norm e \<Longrightarrow> is_page_event (ev_body e') = is_page_event (ev_body e)"
proof -
  have "is_page_event (ev_body (norm e)) = is_page_event (ev_body e)" for e by (simp add: norm_def)
  then show "norm e' = norm e \<Longrightarrow> ?thesis" by metis
qed

lemma sm_le_len: "sm_le s s' \<Longrightarrow> length (sm_heap s') = length (sm_heap s)"
  unfolding sm_le_def by (metis length_map)

lemma sm_le_page:
  "sm_le s s' \<Longrightarrow> p < length (sm_heap s) \<Longrightarrow>
   is_page_event (ev_body (sm_heap s' ! p)) = is_page_event (ev_body (sm_heap s ! p))"
proof -
  assume s: "sm_le s s'" "p < length (sm_heap s)"
  then have "map norm (sm_heap s') ! p = map norm (sm_heap s) ! p" by (simp add: sm_le_def)
  with s sm_le_len [OF s(1)] show ?thesis by (intro norm_page) simp
qed

lemma write_events_ok:
  assumes "sm_ok s" and "\<forall>p \<in> set ps. p < length (sm_heap s)" and nn: "no_null_enclave st" and "distinct ps"
    and "\<forall>p \<in> set ps. is_page_event (ev_body (sm_heap s ! p)) \<longrightarrow> \<not> is_inserted (sm_heap s) p"
  shows "\<exists>s'. c_each (write_event st) ps s = (Inr (), s') \<and> sm_ok s' \<and> sm_le s s' \<and>
    (\<forall>p \<in> set ps. p \<in> ins (sm_heap s') \<or> homeless st (sm_heap s ! p))"
  using assms(1,2,4,5)
proof (induction ps arbitrary: s)
  case Nil
  then show ?case by (intro exI [of _ s]) simp
next
  case (Cons p ps)
  obtain s1 where s1: "write_event st p s = (Inr (), s1)" "sm_ok s1" "sm_le s s1"
    "p \<in> ins (sm_heap s1) \<or> homeless st (sm_heap s ! p)"
    "\<forall>q < length (sm_heap s). q \<noteq> p \<longrightarrow> is_page_event (ev_body (sm_heap s ! q)) \<longrightarrow>
       ev_sql_id (sm_heap s1 ! q) = ev_sql_id (sm_heap s ! q)"
    using write_event_ok [OF Cons.prems(1) _ nn, of p] Cons.prems(2,4) by auto
  have len: "\<forall>q \<in> set ps. q < length (sm_heap s1)" using Cons.prems(2) sm_le_len [OF s1(3)] by simp
  have "\<forall>q \<in> set ps. is_page_event (ev_body (sm_heap s1 ! q)) \<longrightarrow> \<not> is_inserted (sm_heap s1) q"
  proof (intro ballI impI)
    fix q assume q: "q \<in> set ps" "is_page_event (ev_body (sm_heap s1 ! q))"
    then have q': "q < length (sm_heap s)" "q \<noteq> p" "\<not> is_inserted (sm_heap s) q \<or> \<not> is_page_event (ev_body (sm_heap s ! q))"
      using Cons.prems by auto
    then have "is_page_event (ev_body (sm_heap s ! q))" using sm_le_page [OF s1(3) q'(1)] q(2) by simp
    with q' s1(5) show "\<not> is_inserted (sm_heap s1) q" by (simp add: is_inserted_def get_sql_id_def)
  qed
  with Cons.IH [OF s1(2) len] Cons.prems(3) obtain s2 where
    s2: "c_each (write_event st) ps s1 = (Inr (), s2)" "sm_ok s2" "sm_le s1 s2"
    "\<forall>p \<in> set ps. p \<in> ins (sm_heap s2) \<or> homeless st (sm_heap s1 ! p)" by auto
  have "homeless st (sm_heap s1 ! q) = homeless st (sm_heap s ! q)" if "q \<in> set ps" for q
    using s1(3) Cons.prems(2) that by (intro norm_homeless) (simp_all add: sm_le_def)
  moreover have "ins (sm_heap s1) \<subseteq> ins (sm_heap s2)" using s2(3) by (simp add: sm_le_def)
  ultimately show ?case
    using s1 s2 sm_le_trans [OF s1(3) s2(3)] by (intro exI [of _ s2]) (auto simp: c_then_def c_bind_def)
qed

section \<open>The whole summary\<close>

text \<open>A store that is ready to be written.\<close>

definition fin_queue :: "store \<Rightarrow> ev_ptr list" where
  "fin_queue st = concat (map (\<lambda>t. th_events (threads st ! t)) (finished_thread_events st))"

definition ready :: "store \<Rightarrow> bool" where
  "ready st \<longleftrightarrow> store_inv st \<and> finalized st \<and> main_thread st \<noteq> None \<and> wf_heap (events st) \<and>
     typed_bodies (map ev_body (events st)) \<and> length (events st) < 2 ^ 63 \<and> length (threads st) < 2 ^ 63 \<and>
     (\<forall>e \<in> set (events st). ev_sql_id e = UINT64_MAX) \<and> no_null_enclave st \<and>
     distinct (finished_thread_events st) \<and> distinct (fin_queue st) \<and>
     (\<forall>t \<in> set (finished_thread_events st). text_lit (th_name (threads st ! t)) \<noteq> None)"

definition kept ::
    "summ \<Rightarrow> heap \<times> row list \<times> (nat \<times> string) list \<times> u64 list \<times> (u64 \<times> sql_val \<times> string option) list" where
  "kept s = (sm_heap s, db_events (sm_db s), db_event_map (sm_db s), map tr_id (db_threads (sm_db s)),
     map thread_key (db_threads (sm_db s)))"

lemma sm_elf_keeps [keeps]: "c_keeps (\<lambda>s. kept s = v) (sm_elf m)"
  by (auto simp: c_keeps_def sm_elf_def kept_def split: prod.split)

lemma c_text_keeps [keeps]: "c_keeps P (c_text x)"
  by (simp add: c_text_def c_keeps_def split: option.split)

lemma insert_keeps [keeps]:
  "c_keeps (\<lambda>s. kept s = v) (sm_insert_ocall r)" "c_keeps (\<lambda>s. kept s = v) (sm_insert_ecall r')"
  by (simp_all add: c_keeps_def sm_insert_ocall_def sm_insert_ecall_def sm_upd_db_def kept_def)

lemma lookup_symbol_keeps [keeps]: "c_keeps (\<lambda>s. kept s = v) (lookup_symbol env f b a)"
  unfolding lookup_symbol_def by (intro keeps)

lemma map_thread_address_keeps [keeps]: "c_keeps (\<lambda>s. kept s = v) (map_thread_address env d a)"
proof -
  have "map tr_id (map (\<lambda>t. if P t then t\<lparr>tr_file_name := x, tr_normalized := y, tr_start_symbol := z t\<rparr> else t) ts) = map tr_id ts"
    "map thread_key (map (\<lambda>t. if P t then t\<lparr>tr_file_name := x, tr_normalized := y, tr_start_symbol := z t\<rparr> else t) ts) = map thread_key ts"
    for P x y z and ts :: "thread_row list" by (induction ts) (auto simp: thread_key_def)
  then have "c_keeps (\<lambda>s. kept s = v) (sm_upd_db (\<lambda>d. d\<lparr>db_threads := map (\<lambda>t.
      if P t then t\<lparr>tr_file_name := x, tr_normalized := y, tr_start_symbol := z t\<rparr> else t) (db_threads d)\<rparr>))" for P x y z
    by (auto simp: sm_upd_db_def kept_def intro!: c_keeps_upd)
  then show ?thesis unfolding map_thread_address_def by (intro keeps)
qed

lemma map_ocalls_keeps [keeps]: "c_keeps (\<lambda>s. kept s = v) (map_ocalls env d eid i as)"
proof (induction as arbitrary: i)
  case (Cons a as)
  show ?case by (subst map_ocalls.simps) (intro keeps Cons)
qed (simp add: keeps)

lemma map_ecalls_keeps [keeps]: "c_keeps (\<lambda>s. kept s = v) (map_ecalls env eid f i es)"
proof (induction es arbitrary: i)
  case (Cons e es)
  show ?case by (subst map_ecalls.simps) (intro keeps Cons)
qed (simp add: keeps)

lemma summary_symbols_keeps [keeps]: "c_keeps (\<lambda>s. kept s = v) (summary_symbols env d st)"
  unfolding summary_symbols_def map_enclave_ocalls_def map_enclave_ecalls_def by (intro keeps)

lemma ser_inv_start:
  assumes "wf_heap h" "length h < 2 ^ 63" "\<forall>e \<in> set h. ev_sql_id e = UINT64_MAX"
  shows "ser_inv (h, [])" "ins h = {}"
proof -
  show "ins h = {}" using assms(3) by (auto simp: ins_def is_inserted_def get_sql_id_def)
  with assms show "ser_inv (h, [])" by (simp add: ser_inv_def bij_betw_def)
qed

lemma fits_int64_small: "t < 2 ^ 63 \<Longrightarrow> fits_int64 (of_nat t)"
proof -
  assume t: "t < 2 ^ 63"
  then have "unat (of_nat t :: u64) = t" by (simp add: unat_of_nat)
  then have "bit (of_nat t :: u64) 63 \<longleftrightarrow> bit t 63"
    using bit_unsigned_iff [of "of_nat t :: u64" 63, where 'a = nat] by simp
  also have "\<dots> \<longleftrightarrow> odd (t div 2 ^ 63)" by (rule bit_iff_odd)
  finally show ?thesis using t by (simp add: fits_int64_def)
qed

lemma write_threads_ok:
  assumes "\<forall>t \<in> set ts. text_lit (th_name (f t)) \<noteq> None \<and> fits_int64 (th_sql_id (f t))"
    and "distinct (map tr_id (db_threads (sm_db s)) @ map (\<lambda>t. th_sql_id (f t)) ts)"
  shows "\<exists>s'. c_each (\<lambda>t. write_thread (f t)) ts s = (Inr (), s') \<and> sm_heap s' = sm_heap s \<and>
    db_events (sm_db s') = db_events (sm_db s) \<and> db_event_map (sm_db s') = db_event_map (sm_db s) \<and>
    map tr_id (db_threads (sm_db s')) = map tr_id (db_threads (sm_db s)) @ map (\<lambda>t. th_sql_id (f t)) ts \<and>
    map thread_key (db_threads (sm_db s')) = map thread_key (db_threads (sm_db s)) @
      map (\<lambda>t. (th_sql_id (f t), num_lit (th_id (f t)), text_lit (th_name (f t)))) ts"
  using assms
proof (induction ts arbitrary: s)
  case Nil
  then show ?case by (intro exI [of _ s]) simp
next
  case (Cons t ts)
  from Cons.prems(1) obtain name where n: "text_lit (th_name (f t)) = Some name" "fits_int64 (th_sql_id (f t))" by auto
  let ?r = "\<lparr>tr_id = th_sql_id (f t), tr_pthread_id = num_lit (th_id (f t)), tr_name = name,
         tr_start_address = SInt 0, tr_start_symbol = None, tr_file_name = None, tr_normalized = None\<rparr>"
  let ?s = "s\<lparr>sm_db := (sm_db s)\<lparr>db_threads := db_threads (sm_db s) @ [?r]\<rparr>\<rparr>"
  have "th_sql_id (f t) \<notin> tr_id ` set (db_threads (sm_db s))" using Cons.prems(2) by auto
  with n have w: "write_thread (f t) s = (Inr (), ?s)"
    by (simp add: write_thread_def c_text_def c_bind_def sm_insert_thread_def sm_upd_db_def)
  have "distinct (map tr_id (db_threads (sm_db ?s)) @ map (\<lambda>t. th_sql_id (f t)) ts)" using Cons.prems(2) by auto
  from Cons.IH [OF _ this] Cons.prems(1) obtain s' where
    "c_each (\<lambda>t. write_thread (f t)) ts ?s = (Inr (), s')" "sm_heap s' = sm_heap ?s"
    "db_events (sm_db s') = db_events (sm_db ?s)" "db_event_map (sm_db s') = db_event_map (sm_db ?s)"
    "map tr_id (db_threads (sm_db s')) = map tr_id (db_threads (sm_db ?s)) @ map (\<lambda>t. th_sql_id (f t)) ts"
    "map thread_key (db_threads (sm_db s')) = map thread_key (db_threads (sm_db ?s)) @
      map (\<lambda>t. (th_sql_id (f t), num_lit (th_id (f t)), text_lit (th_name (f t)))) ts" by auto
  moreover have "thread_key ?r = (th_sql_id (f t), num_lit (th_id (f t)), Some name)" by (simp add: thread_key_def)
  ultimately show ?case using w n by (intro exI [of _ s']) (simp add: c_then_def c_bind_def)
qed

definition event_map_rows :: "(nat \<times> string) list" where
  "event_map_rows = map (\<lambda>t. (type_id t, event_type_names ! type_id t)) event_types"

lemma upt_21: "[0..<20] = [0, 1, 2, 3, 4, 5, 6, 7, 8, 9, 10, 11, 12, 13, 14, 15, 16, 17, 18, (19 :: nat)]"
  by (simp add: upt_rec)

lemma write_event_map_eq:
  "write_event_map s = (Inr (), s\<lparr>sm_db := (sm_db s)\<lparr>db_event_map := db_event_map (sm_db s) @ event_map_rows\<rparr>\<rparr>)"
  by (simp add: write_event_map_def sm_upd_db_def event_map_rows_def event_types_def upt_21)

lemma inv_sql_id: "store_inv st \<Longrightarrow> t < length (threads st) \<Longrightarrow> th_sql_id (threads st ! t) = of_nat t"
  by (simp add: store_inv_def)

text \<open>The state after a summary, whatever the lookup of symbols came to.\<close>

lemma create_summary_state:
  assumes "ready st"
  shows "\<exists>r s'. create_summary False env dladdr st (summ_init st empty_db) = (r, s') \<and> sm_ok s' \<and>
    map norm (sm_heap s') = map norm (events st) \<and>
    (\<forall>p \<in> set (fin_queue st). p \<in> ins (sm_heap s') \<or> homeless st (events st ! p)) \<and>
    db_event_map (sm_db s') = event_map_rows \<and>
    map tr_id (db_threads (sm_db s')) = map (\<lambda>t. th_sql_id (threads st ! t)) (finished_thread_events st) \<and>
    map thread_key (db_threads (sm_db s')) = map (\<lambda>t. (th_sql_id (threads st ! t), num_lit (th_id (threads st ! t)),
      text_lit (th_name (threads st ! t)))) (finished_thread_events st)"
proof -
  note R = assms [unfolded ready_def]
  let ?fin = "finished_thread_events st" let ?s0 = "summ_init st empty_db"
  obtain m where m: "main_thread st = Some m" using R by blast
  obtain s1 where s1: "write_general st ?s0 = (Inr (), s1)" "sm_heap s1 = events st" "db_events (sm_db s1) = []"
    "db_event_map (sm_db s1) = []" "db_threads (sm_db s1) = []"
    using m by (simp add: write_general_def c_bind_def sm_upd_db_def summ_init_def empty_db_def)
  let ?s2 = "s1\<lparr>sm_db := (sm_db s1)\<lparr>db_event_map := event_map_rows\<rparr>\<rparr>"
  have fin: "\<forall>t \<in> set ?fin. t < length (threads st)" using R by (auto simp: store_inv_def)
  have L: "length (threads st) < 2 ^ 63" and I: "store_inv st" using R by blast+
  have ids: "unat (th_sql_id (threads st ! t)) = t" "t < 2 ^ 63" if "t \<in> set ?fin" for t
  proof -
    show t: "t < 2 ^ 63" using bspec [OF fin that] L by linarith
    then show "unat (th_sql_id (threads st ! t)) = t"
      using inv_sql_id [OF I, of t] fin that by (simp add: unat_of_nat)
  qed
  have "inj_on (\<lambda>t. th_sql_id (threads st ! t)) (set ?fin)" by (metis (no_types, lifting) inj_onI ids(1))
  then have dist: "distinct (map (\<lambda>t. th_sql_id (threads st ! t)) ?fin)" using R by (simp add: distinct_map)
  have "fits_int64 (th_sql_id (threads st ! t))" if "t \<in> set ?fin" for t
    using ids [OF that] fits_int64_small [of t] inv_sql_id [OF I, of t] fin that by simp
  with write_threads_ok [of ?fin "(!) (threads st)" ?s2] dist s1 R obtain s3 where
    s3: "c_each (\<lambda>t. write_thread (threads st ! t)) ?fin ?s2 = (Inr (), s3)" "sm_heap s3 = events st"
    "db_events (sm_db s3) = []" "db_event_map (sm_db s3) = event_map_rows"
    "map tr_id (db_threads (sm_db s3)) = map (\<lambda>t. th_sql_id (threads st ! t)) ?fin"
    "map thread_key (db_threads (sm_db s3)) = map (\<lambda>t. (th_sql_id (threads st ! t), num_lit (th_id (threads st ! t)),
      text_lit (th_name (threads st ! t)))) ?fin" by auto
  have start: "ser_inv (events st, [])" "ins (events st) = {}" using ser_inv_start R by blast+
  have ok3: "sm_ok s3" using s3 start R by (simp add: sm_ok_def)
  have q: "\<forall>p \<in> set (fin_queue st). p < length (events st)"
    using R fin by (auto simp: fin_queue_def store_inv_def)
  have "\<forall>p \<in> set (fin_queue st). \<not> is_inserted (events st) p" using q start(2) by (auto simp: ins_def)
  with write_events_ok [OF ok3, of "fin_queue st" st] q s3(2) R obtain s4 where
    s4: "c_each (write_event st) (fin_queue st) s3 = (Inr (), s4)" "sm_ok s4" "sm_le s3 s4"
    "\<forall>p \<in> set (fin_queue st). p \<in> ins (sm_heap s4) \<or> homeless st (events st ! p)" by auto
  have se: "summary_events st s3 = (Inr (), s4)"
    using s4(1) unfolding summary_events_def fin_queue_def by (simp only: c_each_concat)
  let ?tail = "c_then (summary_symbols env dladdr st) (sm_elf closeAllFiles)"
  have "create_summary False env dladdr st ?s0 = ?tail s4"
    using R s1(1,4) s3(1) se by (simp add: create_summary_def c_then_eq write_event_map_eq)
  moreover have "c_keeps (\<lambda>s. kept s = kept s4) ?tail" by (intro keeps)
  then have "kept (snd (?tail s4)) = kept s4" by (simp add: c_keeps_def)
  ultimately show ?thesis
    using s4(2-4) s3 by (intro exI [of _ "fst (?tail s4)"] exI [of _ "snd (?tail s4)"])
      (simp add: kept_def sm_ok_def sm_le_def)
qed

text \<open>The columns every row has, which serialisation does not change.\<close>

lemma norm_columns:
  assumes "norm e = norm e'"
  shows "ev_thread_id e = ev_thread_id e'" "get_type (ev_body e) = get_type (ev_body e')"
proof -
  have "ev_thread_id (norm e) = ev_thread_id e" for e by (simp add: norm_def set_eid_def split: ev_body.split)
  with assms show "ev_thread_id e = ev_thread_id e'" by metis
  have "get_type (ev_body (norm e)) = get_type (ev_body e)" for e
    by (auto simp: norm_def set_eid_def is_page_event_def split: ev_body.splits)
  with assms show "get_type (ev_body e) = get_type (ev_body e')" by metis
qed

lemma sint_type: "n < 128 \<Longrightarrow> sint (of_nat n :: u32) = int n"
  by (simp add: signed_of_nat signed_take_bit_int_eq_self)

lemma type_id_small: "type_id t < 128"
  by (cases t) simp_all

lemmas bind_simps = bind_defs bind_val_def insert_params_def

lemma add_binds_frame:
  assumes "p \<in> {P_type, P_time, P_involved_thread, P_core}" shows "add_binds h b r p = r p"
proof -
  have "thread_binds x y p = y p" for x y using assms by (cases x) (auto simp: bind_defs)
  moreover have "enclave_binds h x y p = y p" for x y
    using assms by (cases x) (auto simp: bind_defs Let_def split: option.split)
  ultimately show ?thesis using assms by (cases b) (auto simp: bind_defs)
qed

lemma bound_columns:
  "sql_bind h e P_type = Some (SInt (int (type_id (get_type (ev_body e)))))"
  "sql_bind h e P_time = Some (SInt (sint (ev_time e)))"
  "sql_bind h e P_involved_thread = Some (SInt (sint (ev_thread_id e)))"
  by (simp_all add: sql_bind_def add_binds_frame) (simp_all add: bind_simps sint_type [OF type_id_small])

text \<open>A finalised store: one thread, an ecall with an ocall in it, both closed, a page-in inside the
  enclave and one outside.\<close>

definition ex_ready :: store where
  "ex_ready = (EventStore (3, 5))\<lparr>
     events := map (\<lambda>b. (new_event 7 (3, 6) 0 b)\<lparr>ev_thread_id := 0\<rparr>)
       [EnclaveB 2 (EnclaveCall 4 0 None (ECallKind 3)), EnclaveB 2 (EnclaveCall 1 0 (Some 0) OCallKind),
        EnclaveB 2 (OCallReturn 1 0), EnclaveB 0 (EnclavePaging 8192 PageIn),
        EnclaveB 0 (EnclavePaging 1 PageIn), EnclaveB 2 (ECallReturn 0 0 3)],
     threads := [(new_thread 7 0)\<lparr>th_events := [0, 1, 2, 3, 4, 5]\<rparr>],
     enclaves := [new_enclave 2 4096 65536], enclave_map := [(2, Some 0)],
     thread_id := 1, finished_thread_events := [0], main_thread := Some 0, finalized := True, end_time := 9\<rparr>"

lemma ex_ready_ok: "ready ex_ready"
proof -
  have "store_inv ex_ready" "typed_bodies (map ev_body (events ex_ready))" "wf_heap (events ex_ready)"
    by (auto simp: ex_ready_def store_inv_def EventStore_def new_thread_def new_event_def typed_bodies_def
        is_page_event_def wf_heap_def less_Suc_eq_0_disj eval_nat_numeral)
  then show ?thesis
    by (simp add: ready_def) (simp add: ex_ready_def EventStore_def new_event_def no_null_enclave_def
        fin_queue_def new_thread_def)
qed

text \<open>C5: serialising a finalised store writes every event of every thread exactly once, but for paging
  events outside the known enclaves: a written event has the id of one row of the \<open>events\<close> table, that
  row is what the event binds, different events have different rows, and no row is left over. This
  holds whatever the later lookup of symbols comes to.\<close>

theorem summary_writes_events:
  assumes "ready st"
  shows "\<exists>r s'. create_summary False env dladdr st (summ_init st empty_db) = (r, s') \<and>
    map norm (sm_heap s') = map norm (events st) \<and>
    (\<forall>p \<in> set (fin_queue st). \<not> homeless st (events st ! p) \<longrightarrow> p \<in> ins (sm_heap s')) \<and>
    bij_betw (row_of (sm_heap s')) (ins (sm_heap s')) {..<length (db_events (sm_db s'))} \<and>
    (\<forall>p \<in> ins (sm_heap s'). get_sql_id (sm_heap s') p = of_nat (Suc (row_of (sm_heap s') p)) \<and>
       db_events (sm_db s') ! row_of (sm_heap s') p = sql_bind (sm_heap s') (sm_heap s' ! p))"
proof -
  obtain r s' where "create_summary False env dladdr st (summ_init st empty_db) = (r, s')" "sm_ok s'"
    "map norm (sm_heap s') = map norm (events st)"
    "\<forall>p \<in> set (fin_queue st). p \<in> ins (sm_heap s') \<or> homeless st (events st ! p)"
    using create_summary_state [OF assms, of env dladdr] by blast
  then show ?thesis
    by (intro exI [of _ r] exI [of _ s']) (auto simp: sm_ok_def ser_inv_def)
qed

theorem summary_writes_events_witness:
  "\<exists>r s'. create_summary False ex_elf (\<lambda>_. None) ex_ready (summ_init ex_ready empty_db) = (r, s') \<and>
     map norm (sm_heap s') = map norm (events ex_ready) \<and> {0, 1, 2, 3, 5} \<subseteq> ins (sm_heap s') \<and>
     db_events (sm_db s') ! row_of (sm_heap s') 3 = sql_bind (sm_heap s') (sm_heap s' ! 3)"
proof -
  have "fin_queue ex_ready = [0, 1, 2, 3, 4, 5]" "\<forall>p \<in> {0, 1, 2, 3, 5}. \<not> homeless ex_ready (events ex_ready ! p)"
    by (simp_all add: ex_ready_def fin_queue_def new_thread_def homeless_def new_event_def is_page_event_def
        new_enclave_def is_within_enclave_def is_within_lifetime_def)
  then show ?thesis using summary_writes_events [OF ex_ready_ok, of ex_elf "\<lambda>_. None"] by fastforce
qed

text \<open>C6: in the written table the \<open>call_event\<close> column of every row is NULL or the id of an earlier
  row, so a reader meets a call before everything that refers to it.\<close>

theorem summary_call_event_earlier:
  assumes "ready st" and "create_summary False env dladdr st (summ_init st empty_db) = (r, s')"
    and "k < length (db_events (sm_db s'))" and "(db_events (sm_db s') ! k) P_call_event = Some v"
  shows "\<exists>c < k. v = SInt (int (Suc c))"
proof -
  have "ser_inv (sm_heap s', db_events (sm_db s'))"
    using create_summary_state [OF assms(1), of env dladdr] assms(2) by (auto simp: sm_ok_def)
  then show ?thesis using call_event_earlier assms(3,4) by blast
qed

lemma ex_ready_row:
  "1 < length (db_events (sm_db (snd (create_summary False ex_elf (\<lambda>_. None) ex_ready (summ_init ex_ready empty_db)))))"
  "(db_events (sm_db (snd (create_summary False ex_elf (\<lambda>_. None) ex_ready (summ_init ex_ready empty_db)))) ! 1)
     P_call_event = Some (SInt 1)"
  by code_simp+

theorem summary_call_event_earlier_witness:
  "\<exists>r s' k v c. create_summary False ex_elf (\<lambda>_. None) ex_ready (summ_init ex_ready empty_db) = (r, s') \<and>
     k < length (db_events (sm_db s')) \<and> (db_events (sm_db s') ! k) P_call_event = Some v \<and>
     c < k \<and> v = SInt (int (Suc c))"
  using summary_call_event_earlier [OF ex_ready_ok prod.collapse [symmetric] ex_ready_row] ex_ready_row prod.collapse
  by metis

text \<open>C33: the \<open>threads\<close> table gets one row per finished thread, in their order: its number, the value of
  its \<open>pthread_t\<close> and its name. Every row of the \<open>events\<close> table that an event of a thread was written to has
  the number of that thread, and the number of the event's type; \<open>event_map\<close> holds the 21 type numbers
  in order, each with the name of its type.\<close>

theorem summary_threads_and_types:
  assumes "ready st"
  shows "\<exists>r s'. create_summary False env dladdr st (summ_init st empty_db) = (r, s') \<and>
    map thread_key (db_threads (sm_db s')) = map (\<lambda>t. (of_nat t, num_lit (th_id (threads st ! t)),
      text_lit (th_name (threads st ! t)))) (finished_thread_events st) \<and>
    (\<forall>t \<in> set (finished_thread_events st). \<forall>p \<in> set (th_events (threads st ! t)). p \<in> ins (sm_heap s') \<longrightarrow>
       (db_events (sm_db s') ! row_of (sm_heap s') p) P_involved_thread = Some (SInt (int t)) \<and>
       (db_events (sm_db s') ! row_of (sm_heap s') p) P_type = Some (SInt (int (type_id (get_type (ev_body (events st ! p))))))) \<and>
    map fst (db_event_map (sm_db s')) = [0..<21] \<and>
    db_event_map (sm_db s') =
      [(type_id Event, ''Event''), (type_id SignalEvent, ''SignalEvent''), (type_id ThreadEvent, ''ThreadEvent''),
       (type_id ThreadCreationEvent, ''ThreadCreationEvent''), (type_id ThreadCreatorEvent, ''ThreadCreatorEvent''),
       (type_id ThreadDestructionEvent, ''ThreadDestructionEvent''), (type_id ThreadSetNameEvent, ''ThreadSetNameEvent''),
       (type_id EnclaveEvent, ''EnclaveEvent''), (type_id EnclaveCreationEvent, ''EnclaveCreationEvent''),
       (type_id EnclaveDestructionEvent, ''EnclaveDestructionEvent''), (type_id EnclavePagingEvent, ''EnclavePagingEvent''),
       (type_id EnclavePageOutEvent, ''EnclavePageOutEvent''), (type_id EnclavePageInEvent, ''EnclavePageInEvent''),
       (type_id EnclaveCallEvent, ''EnclaveCallEvent''), (type_id EnclaveECallEvent, ''EnclaveECallEvent''),
       (type_id EnclaveECallReturnEvent, ''EnclaveECallReturnEvent''), (type_id EnclaveOCallEvent, ''EnclaveOCallEvent''),
       (type_id EnclaveOCallReturnEvent, ''EnclaveOCallReturnEvent''), (type_id EnclaveSyncWaitEvent, ''EnclaveSyncWaitEvent''),
       (type_id EnclaveSyncSetEvent, ''EnclaveSyncSetEvent''), (type_id EnclaveAEXEvent, ''EnclaveAEXEvent'')]"
proof -
  have I: "store_inv st" and fin: "\<forall>t \<in> set (finished_thread_events st). t < length (threads st)"
    and L: "length (threads st) < 2 ^ 63" using assms by (auto simp: ready_def store_inv_def)
  obtain r s' where S: "create_summary False env dladdr st (summ_init st empty_db) = (r, s')" "sm_ok s'"
    "map norm (sm_heap s') = map norm (events st)" "db_event_map (sm_db s') = event_map_rows"
    "map thread_key (db_threads (sm_db s')) = map (\<lambda>t. (th_sql_id (threads st ! t), num_lit (th_id (threads st ! t)),
      text_lit (th_name (threads st ! t)))) (finished_thread_events st)"
    using create_summary_state [OF assms, of env dladdr] by blast
  have keys: "map thread_key (db_threads (sm_db s')) = map (\<lambda>t. (of_nat t, num_lit (th_id (threads st ! t)),
      text_lit (th_name (threads st ! t)))) (finished_thread_events st)"
    using S(5) fin inv_sql_id [OF I] by simp
  have row: "(db_events (sm_db s') ! row_of (sm_heap s') p) P_involved_thread = Some (SInt (int t))"
    "(db_events (sm_db s') ! row_of (sm_heap s') p) P_type = Some (SInt (int (type_id (get_type (ev_body (events st ! p))))))"
    if tp: "t \<in> set (finished_thread_events st)" "p \<in> set (th_events (threads st ! t))" "p \<in> ins (sm_heap s')" for t p
  proof -
    have t: "t < length (threads st)" using fin tp(1) by blast
    then have p: "p < length (events st)" "ev_thread_id (events st ! p) = of_nat t"
      using I tp(2) by (auto simp: store_inv_def)
    have "t < 2 ^ 63" using t L by linarith
    then have "sint (of_nat t :: u64) = int t" by (simp add: signed_of_nat signed_take_bit_int_eq_self)
    moreover have "map norm (sm_heap s') ! p = map norm (events st) ! p" "p < length (sm_heap s')"
      using S(3) p(1) by (metis length_map)+
    then have n: "norm (sm_heap s' ! p) = norm (events st ! p)" using p(1) by simp
    ultimately show "(db_events (sm_db s') ! row_of (sm_heap s') p) P_involved_thread = Some (SInt (int t))"
      "(db_events (sm_db s') ! row_of (sm_heap s') p) P_type = Some (SInt (int (type_id (get_type (ev_body (events st ! p))))))"
      using S(2) tp(3) p(2) norm_columns [OF n] by (simp_all add: sm_ok_def ser_inv_def bound_columns)
  qed
  show ?thesis
    by (rule exI [of _ r], rule exI [of _ s'], intro conjI ballI impI, rule S(1), rule keys)
      (use row in \<open>simp_all add: S(4) event_map_rows_def event_types_def event_type_names_def upt_rec\<close>)
qed

theorem summary_threads_and_types_witness:
  "\<exists>r s'. create_summary False ex_elf (\<lambda>_. None) ex_ready (summ_init ex_ready empty_db) = (r, s') \<and>
     map thread_key (db_threads (sm_db s')) = [(0, num_lit 7, Some '''')] \<and>
     map_of (db_event_map (sm_db s')) 15 = Some ''EnclaveECallReturnEvent''"
proof -
  have "finished_thread_events ex_ready = [0]" "th_id (threads ex_ready ! 0) = 7" "text_lit (th_name (threads ex_ready ! 0)) = Some ''''"
    by (simp_all add: ex_ready_def new_thread_def)
  then show ?thesis
    using summary_threads_and_types [OF ex_ready_ok, of ex_elf "\<lambda>_. None"] by fastforce
qed

end
