(* ===== verification/Schema.thy ===== *)
theory Schema
  imports SummaryOk
begin

text \<open>
  The declarations of the tables that \<open>create_database\<close> of \<^verbatim>\<open>src/logger/src/store.cpp\<close> makes, and what they demand of a row: the
  types of the columns, which of them must not be NULL, and the keys. The result of the \<open>sqlite3_step\<close> that inserts an event is not looked
  at, so a row that broke a constraint would be lost without a trace; \<open>summary_conforms\<close> shows that no summary makes such a row.
\<close>

section \<open>Declarations\<close>

datatype col_type = INTEGER | TEXT

datatype nullness = NOT_NULL | NULLABLE

type_synonym decl = "(col_type \<times> nullness) list"

type_synonym cells = "sql_val option list"

definition event_map_decl :: decl where
  "event_map_decl = [(INTEGER, NOT_NULL), (TEXT, NOT_NULL)]"

definition general_decl :: decl where
  "general_decl = [(TEXT, NOT_NULL), (INTEGER, NOT_NULL)]"

definition threads_decl :: decl where
  "threads_decl =
     [(INTEGER, NOT_NULL), (INTEGER, NOT_NULL), (TEXT, NOT_NULL), (INTEGER, NOT_NULL), (TEXT, NULLABLE), (TEXT, NULLABLE), (INTEGER, NULLABLE)]"

text \<open>The columns of \<open>events\<close> after the id, which is the number of the row.\<close>

definition events_decl :: "(param \<times> col_type \<times> nullness) list" where
  "events_decl =
     [(P_type, INTEGER, NOT_NULL), (P_time, INTEGER, NOT_NULL), (P_involved_thread, INTEGER, NOT_NULL), (P_core, INTEGER, NOT_NULL),
      (P_other_thread, INTEGER, NULLABLE), (P_arg, INTEGER, NULLABLE), (P_start_function, INTEGER, NULLABLE),
      (P_return_value, INTEGER, NULLABLE), (P_name, TEXT, NULLABLE), (P_eid, INTEGER, NULLABLE), (P_file_name, TEXT, NULLABLE),
      (P_enclave_start, INTEGER, NULLABLE), (P_enclave_end, INTEGER, NULLABLE), (P_call_id, INTEGER, NULLABLE),
      (P_call_event, INTEGER, NULLABLE), (P_aex_count, INTEGER, NULLABLE)]"

definition ocalls_decl :: decl where
  "ocalls_decl =
     [(INTEGER, NOT_NULL), (INTEGER, NOT_NULL), (TEXT, NULLABLE), (TEXT, NULLABLE), (INTEGER, NULLABLE), (INTEGER, NULLABLE)]"

definition ecalls_decl :: decl where
  "ecalls_decl = [(INTEGER, NOT_NULL), (INTEGER, NOT_NULL), (INTEGER, NOT_NULL), (TEXT, NULLABLE), (INTEGER, NULLABLE)]"

section \<open>Rows as the cells of their table\<close>

text \<open>A number that the statement spells out: beyond 64 bits signed it is read as a floating point number.\<close>

definition nat_lit :: "nat \<Rightarrow> sql_val" where
  "nat_lit n = (if n < 2 ^ 63 then SInt (int n) else SReal (int n))"

definition event_map_cells :: "nat \<times> string \<Rightarrow> cells" where
  "event_map_cells r = [Some (nat_lit (fst r)), Some (SText (snd r))]"

definition general_cells :: "string \<times> sql_val \<Rightarrow> cells" where
  "general_cells r = [Some (SText (fst r)), Some (snd r)]"

definition thread_cells :: "thread_row \<Rightarrow> cells" where
  "thread_cells r =
     [Some (num_lit (tr_id r)), Some (tr_pthread_id r), Some (SText (tr_name r)), Some (tr_start_address r),
      map_option SText (tr_start_symbol r), map_option SText (tr_file_name r), tr_normalized r]"

definition event_cells :: "row \<Rightarrow> cells" where
  "event_cells r = map (\<lambda>d. r (fst d)) events_decl"

definition ocall_cells :: "ocall_row \<Rightarrow> cells" where
  "ocall_cells r =
     [Some (nat_lit (or_id r)), Some (num_lit (or_eid r)), map_option SText (or_symbol_name r), map_option SText (or_file_name r),
      or_address r, or_normalized r]"

definition ecall_cells :: "ecall_row \<Rightarrow> cells" where
  "ecall_cells r =
     [Some (nat_lit (er_id r)), Some (num_lit (er_eid r)), Some (er_address r), Some (SText (er_symbol_name r)),
      Some (SInt (if er_is_private r then 1 else 0))]"

section \<open>Conformance\<close>

text \<open>A column of integers holds a 64-bit signed number; a larger one is kept as a floating point number.\<close>

fun has_type :: "col_type \<Rightarrow> sql_val \<Rightarrow> bool" where
  "has_type INTEGER (SInt i) \<longleftrightarrow> - (2 ^ 63) \<le> i \<and> i < 2 ^ 63"
| "has_type INTEGER (SReal r) \<longleftrightarrow> 2 ^ 63 \<le> r"
| "has_type TEXT (SText s) \<longleftrightarrow> True"
| "has_type _ _ \<longleftrightarrow> False"

fun cell_ok :: "col_type \<times> nullness \<Rightarrow> sql_val option \<Rightarrow> bool" where
  "cell_ok (t, n) None \<longleftrightarrow> n = NULLABLE"
| "cell_ok (t, n) (Some v) \<longleftrightarrow> has_type t v"

definition row_ok :: "decl \<Rightarrow> cells \<Rightarrow> bool" where
  "row_ok d cs = list_all2 cell_ok d cs"

definition db_ok :: "database \<Rightarrow> bool" where
  "db_ok d \<longleftrightarrow>
     list_all (\<lambda>r. row_ok event_map_decl (event_map_cells r)) (db_event_map d) \<and> distinct (map fst (db_event_map d)) \<and>
     list_all (\<lambda>r. row_ok general_decl (general_cells r)) (db_general d) \<and>
     list_all (\<lambda>r. row_ok threads_decl (thread_cells r)) (db_threads d) \<and> distinct (map tr_id (db_threads d)) \<and>
     list_all (\<lambda>r. row_ok (map snd events_decl) (event_cells r)) (db_events d) \<and>
     list_all (\<lambda>r. row_ok ocalls_decl (ocall_cells r)) (db_ocalls d) \<and> distinct (map (\<lambda>r. (or_id r, or_eid r)) (db_ocalls d)) \<and>
     list_all (\<lambda>r. row_ok ecalls_decl (ecall_cells r)) (db_ecalls d) \<and> distinct (map (\<lambda>r. (er_id r, er_eid r)) (db_ecalls d))"

lemmas decl_defs = event_map_decl_def general_decl_def threads_decl_def ocalls_decl_def ecalls_decl_def
  event_map_cells_def general_cells_def thread_cells_def ocall_cells_def ecall_cells_def row_ok_def

section \<open>Values\<close>

lemma sint_typed [simp]: "has_type INTEGER (SInt (sint (w :: u64)))"
  using sint_ge [of w] sint_lt [of w] by simp

lemma sint32_typed [simp]: "has_type INTEGER (SInt (sint (w :: u32)))"
  using sint_ge [of w] sint_lt [of w] by simp

lemma num_lit_typed [simp]: "has_type INTEGER (num_lit w)"
proof -
  have "bit w 63 \<longleftrightarrow> odd (uint w div 2 ^ 63)"
    using bit_unsigned_iff [of w 63, where 'a = int] by (simp add: bit_iff_odd)
  moreover have "uint w < 2 ^ 64" using uint_lt2p [of w] by simp
  then have "uint w div 2 ^ 63 = (if 2 ^ 63 \<le> uint w then 1 else 0)"
    by (auto simp: int_div_pos_eq [where r = "uint w - 2 ^ 63"])
  ultimately have "bit w 63 \<longleftrightarrow> 2 ^ 63 \<le> uint w" by simp
  moreover have "- (2 ^ 63) \<le> uint w" by (rule order_trans [OF _ uint_ge_0]) simp
  ultimately show ?thesis by (simp add: num_lit_def fits_int64_def not_le)
qed

lemma nat_lit_typed [simp]: "has_type INTEGER (nat_lit n)"
  by (simp add: nat_lit_def)

lemma text_typed [simp]: "cell_ok (TEXT, NULLABLE) (map_option SText t)"
  by (cases t) simp_all

section \<open>Events\<close>

text \<open>A row has the types of its columns, and the columns that must not be NULL are bound.\<close>

definition typed :: "row \<Rightarrow> bool" where
  "typed r \<longleftrightarrow> (\<forall>(p, t, n) \<in> set events_decl. \<forall>v. r p = Some v \<longrightarrow> has_type t v)"

definition filled :: "row \<Rightarrow> bool" where
  "filled r \<longleftrightarrow> (\<forall>(p, t, n) \<in> set events_decl. n = NOT_NULL \<longrightarrow> r p \<noteq> None)"

lemma event_row_ok: "row_ok (map snd events_decl) (event_cells r) \<longleftrightarrow> typed r \<and> filled r"
proof -
  have "cell_ok (t, n) v \<longleftrightarrow> (\<forall>x. v = Some x \<longrightarrow> has_type t x) \<and> (n = NOT_NULL \<longrightarrow> v \<noteq> None)" for t n v
    by (cases v; cases n) simp_all
  then have "cell_ok (snd d) (r (fst d)) \<longleftrightarrow> (case d of (p, t, n) \<Rightarrow> \<forall>v. r p = Some v \<longrightarrow> has_type t v) \<and>
      (case d of (p, t, n) \<Rightarrow> n = NOT_NULL \<longrightarrow> r p \<noteq> None)" for d by (cases d) simp
  then show ?thesis
    by (simp add: row_ok_def event_cells_def list_all2_map1 list_all2_map2 list_all2_same typed_def filled_def ball_conj_distrib)
qed

lemma bind_typed [intro]:
  "typed r \<Longrightarrow> p \<notin> {P_name, P_file_name} \<Longrightarrow> typed (bind_int p v r)"
  "typed r \<Longrightarrow> p \<notin> {P_name, P_file_name} \<Longrightarrow> typed (bind_int64 p w r)"
  "typed r \<Longrightarrow> p \<in> {P_name, P_file_name} \<Longrightarrow> typed (bind_text p t r)"
  unfolding typed_def bind_defs bind_val_def events_decl_def
  by (auto simp del: has_type.simps(1,2,4-) split: if_splits)

lemma bind_filled [intro]:
  "filled r \<Longrightarrow> filled (bind_int p v r)" "filled r \<Longrightarrow> filled (bind_int64 p w r)" "filled r \<Longrightarrow> filled (bind_text p t r)"
  by (auto simp: filled_def bind_defs bind_val_def)

lemma thread_binds_ok: "typed r \<Longrightarrow> typed (thread_binds b r)" "filled r \<Longrightarrow> filled (thread_binds b r)"
  by (cases b; auto)+

lemma enclave_binds_ok: "typed r \<Longrightarrow> typed (enclave_binds h b r)" "filled r \<Longrightarrow> filled (enclave_binds h b r)"
  by (cases b; auto simp: Let_def split: option.split)+

lemma add_binds_ok: "typed r \<Longrightarrow> typed (add_binds h b r)" "filled r \<Longrightarrow> filled (add_binds h b r)"
  by (cases b; auto intro: thread_binds_ok enclave_binds_ok)+

lemma sql_bind_ok: "row_ok (map snd events_decl) (event_cells (sql_bind h e))"
proof -
  have "typed Map.empty" by (simp add: typed_def)
  then have "typed (sql_bind h e)" unfolding sql_bind_def by (intro add_binds_ok bind_typed) simp_all
  moreover have "filled (sql_bind h e)"
    unfolding sql_bind_def by (rule add_binds_ok) (simp add: filled_def events_decl_def bind_defs bind_val_def insert_params_def)
  ultimately show ?thesis by (simp add: event_row_ok)
qed

definition rows_ok :: "row list \<Rightarrow> bool" where
  "rows_ok rows = list_all (\<lambda>r. row_ok (map snd events_decl) (event_cells r)) rows"

lemma insert_row_ok: "rows_ok (snd s) \<Longrightarrow> rows_ok (snd (insert_row p s))"
  by (cases s) (simp add: rows_ok_def sql_bind_ok)

lemma insert_refs_rows:
  assumes "\<And>p s t. rec p s = Some t \<Longrightarrow> rows_ok (snd s) \<Longrightarrow> rows_ok (snd t)"
  shows "insert_refs rec ps s = Some t \<Longrightarrow> rows_ok (snd s) \<Longrightarrow> rows_ok (snd t)"
proof (induction ps arbitrary: s)
  case (Cons p ps)
  show ?case
  proof (cases "is_inserted (fst s) p")
    case False
    with Cons.prems obtain u where u: "rec p s = Some u" "insert_refs rec ps (insert_row p u) = Some t"
      by (auto split: option.splits)
    show ?thesis using Cons.IH [OF u(2) insert_row_ok] assms [OF u(1)] Cons.prems(2) by blast
  qed (use Cons in simp)
qed simp

lemma pre_insert_rows: "pre_insert n p s = Some t \<Longrightarrow> rows_ok (snd s) \<Longrightarrow> rows_ok (snd t)"
proof (induction n arbitrary: p s t)
  case (Suc n)
  then show ?case using insert_refs_rows [OF Suc.IH] by simp
qed simp

section \<open>Statements\<close>

definition sm_conforms :: "summ \<Rightarrow> bool" where
  "sm_conforms s = db_ok (sm_db s)"

lemma sm_ser_conforms:
  assumes "\<And>s t. f s = Some t \<Longrightarrow> rows_ok (snd s) \<Longrightarrow> rows_ok (snd t)"
  shows "c_keeps sm_conforms (sm_ser f)"
proof (rule c_keepsI)
  fix s
  assume ok: "sm_conforms s"
  show "sm_conforms (snd (sm_ser f s))"
  proof (cases "f (sm_heap s, db_events (sm_db s))")
    case (Some t)
    then have "rows_ok (snd t)" using assms [OF Some] ok by (simp add: sm_conforms_def db_ok_def rows_ok_def)
    with Some ok show ?thesis by (cases t) (simp add: sm_ser_def sm_conforms_def db_ok_def rows_ok_def)
  qed (use ok in \<open>simp add: sm_ser_def\<close>)
qed

lemma sm_elf_conforms [keeps]: "c_keeps sm_conforms (sm_elf m)"
  by (auto simp: c_keeps_def sm_elf_def sm_conforms_def split: prod.split)

text \<open>An update of the threads that keeps the ids.\<close>

lemma threads_conform:
  assumes "\<And>t. tr_id (f t) = tr_id t" "\<And>t. row_ok threads_decl (thread_cells t) \<Longrightarrow> row_ok threads_decl (thread_cells (f t))"
  shows "c_keeps sm_conforms (sm_upd_db (\<lambda>d. d\<lparr>db_threads := map f (db_threads d)\<rparr>))"
  using assms unfolding sm_upd_db_def
  by (intro c_keeps_upd) (auto simp: sm_conforms_def db_ok_def list_all_iff comp_def)

lemma insert_thread_conforms:
  assumes "row_ok threads_decl (thread_cells r)" shows "c_keeps sm_conforms (sm_insert_thread r)"
  using assms by (auto simp: c_keeps_def sm_insert_thread_def sm_upd_db_def sm_conforms_def db_ok_def)

lemma insert_ocall_conforms:
  assumes "row_ok ocalls_decl (ocall_cells r)" shows "c_keeps sm_conforms (sm_insert_ocall r)"
  using assms by (auto simp: c_keeps_def sm_insert_ocall_def sm_upd_db_def sm_conforms_def db_ok_def)

lemma insert_ecall_conforms:
  assumes "row_ok ecalls_decl (ecall_cells r)" shows "c_keeps sm_conforms (sm_insert_ecall r)"
  using assms by (auto simp: c_keeps_def sm_insert_ecall_def sm_upd_db_def sm_conforms_def db_ok_def)

section \<open>The phases of the summary\<close>

lemma write_general_conforms [keeps]: "c_keeps sm_conforms (write_general st)"
proof -
  have "has_type INTEGER (SInt 1)" by simp
  then show ?thesis
    unfolding write_general_def sm_upd_db_def
    by (intro keeps c_keeps_upd) (auto simp: sm_conforms_def db_ok_def decl_defs simp del: has_type.simps(1,2))
qed

lemma write_thread_conforms [keeps]: "c_keeps sm_conforms (write_thread t)"
  unfolding write_thread_def by (intro keeps insert_thread_conforms) (simp add: decl_defs)

lemma note_thread_start_conforms [keeps]: "c_keeps sm_conforms (note_thread_start b)"
proof -
  have "c_keeps sm_conforms (c_upd (\<lambda>s. if f \<in> set (sm_addresses s) then s else s\<lparr>sm_addresses := insort f (sm_addresses s)\<rparr>))" for f
    by (rule c_keeps_upd) (simp add: sm_conforms_def)
  then show ?thesis
    unfolding note_thread_start_def
    by (auto split: ev_body.split thread_sub.split intro!: keeps threads_conform simp: decl_defs)
qed

lemma note_enclave_file_conforms [keeps]: "c_keeps sm_conforms (note_enclave_file b)"
  unfolding note_enclave_file_def
  by (auto split: ev_body.split enclave_sub.split intro!: keeps c_keeps_upd simp: sm_conforms_def)

lemma assign_enclave_conforms [keeps]: "c_keeps sm_conforms (assign_enclave st p)"
  unfolding assign_enclave_def
  by (auto split: sum.split option.split intro!: keeps c_keeps_upd simp: sm_conforms_def)

lemma write_event_conforms [keeps]: "c_keeps sm_conforms (write_event st p)"
proof -
  have "c_keeps sm_conforms (sm_ser (pre_insert n p))" for n by (rule sm_ser_conforms) (rule pre_insert_rows)
  moreover have "c_keeps sm_conforms (sm_ser (\<lambda>s. if is_inserted (fst s) p then Some s else Some (insert_row p s)))"
  proof (rule sm_ser_conforms)
    show "(if is_inserted (fst s) p then Some s else Some (insert_row p s)) = Some t \<Longrightarrow> rows_ok (snd s) \<Longrightarrow> rows_ok (snd t)" for s t
      using insert_row_ok [of s p] by (simp split: if_splits)
  qed
  ultimately show ?thesis unfolding write_event_def by (intro keeps)
qed

lemma map_thread_address_conforms [keeps]: "c_keeps sm_conforms (map_thread_address env dladdr a)"
  unfolding map_thread_address_def lookup_symbol_def
  by (intro keeps threads_conform) (auto simp: decl_defs)

lemma map_ocalls_conforms [keeps]: "c_keeps sm_conforms (map_ocalls env dladdr eid i as)"
  by (induction as arbitrary: i)
    (auto simp: lookup_symbol_def decl_defs split: option.split intro!: keeps insert_ocall_conforms)

lemma map_ecalls_conforms [keeps]: "c_keeps sm_conforms (map_ecalls env eid f i es)"
  by (induction es arbitrary: i) (auto simp: decl_defs intro!: keeps insert_ecall_conforms)

lemma summary_symbols_conforms [keeps]: "c_keeps sm_conforms (summary_symbols env dladdr st)"
  unfolding summary_symbols_def map_enclave_ocalls_def map_enclave_ecalls_def by (intro keeps)

text \<open>The numbers of the event types are distinct, so the \<open>event_map\<close> table, empty before, gets distinct keys.\<close>

lemma write_event_map_conforms:
  assumes "sm_conforms s" "db_event_map (sm_db s) = []" shows "sm_conforms (snd (write_event_map s))"
proof -
  have "distinct (map fst event_map_rows)" by (simp add: event_map_rows_def event_types_def)
  moreover have "list_all (\<lambda>r. row_ok event_map_decl (event_map_cells r)) rows" for rows by (simp add: list_all_iff decl_defs)
  ultimately show ?thesis using assms by (simp add: write_event_map_eq sm_conforms_def db_ok_def)
qed

lemma c_then_conforms:
  assumes "sm_conforms (snd (m s))" "c_keeps sm_conforms k" shows "sm_conforms (snd (c_then m k s))"
  using assms by (auto simp: c_then_def c_bind_def c_keeps_def split: prod.split sum.split)

lemma summary_db_ok: "db_ok (sm_db (snd (create_summary benchmark env dladdr st (summ_init st empty_db))))"
proof -
  let ?s0 = "summ_init st empty_db"
  let ?rest = "c_then (c_each (\<lambda>t. write_thread (threads st ! t)) (finished_thread_events st))
    (c_then (summary_events st) (c_then (summary_symbols env dladdr st) (sm_elf closeAllFiles)))"
  have start: "sm_conforms ?s0" by (simp add: sm_conforms_def summ_init_def empty_db_def db_ok_def)
  have rest: "c_keeps sm_conforms ?rest" unfolding summary_events_def by (intro keeps)
  have "sm_conforms (snd (c_then (write_general st) (c_then write_event_map ?rest) ?s0))"
  proof (cases "main_thread st")
    case (Some m)
    obtain s1 where s1: "write_general st ?s0 = (Inr (), s1)" "db_event_map (sm_db s1) = []"
      by (simp add: write_general_def c_bind_def Some sm_upd_db_def summ_init_def empty_db_def)
    moreover have "sm_conforms s1" using write_general_conforms [of st] start s1(1) by (metis c_keeps_def snd_conv)
    ultimately show ?thesis
      by (simp only: c_then_eq) (rule c_then_conforms [OF write_event_map_conforms rest])
  qed (use start in \<open>simp add: write_general_def c_then_def c_bind_def\<close>)
  then show ?thesis using start by (simp add: create_summary_def sm_conforms_def)
qed

text \<open>C8: whatever the store holds, however far a summary gets and whichever way it ends, every row it has written conforms to the
  declaration of its table: each column holds a value of its declared type (a 64-bit signed number where it is INTEGER, and
  a floating point number only for a literal beyond these), the columns declared NOT NULL are set, and no two rows of a table have the
  same key.\<close>

theorem summary_conforms: "db_ok (sm_db (snd (create_summary benchmark env dladdr st (summ_init st empty_db))))"
  by (rule summary_db_ok)

end
