(* ===== verification/Pipeline.thy ===== *)
theory Pipeline
  imports UrtsRun CallsLoad
begin

text \<open>
  From the logger to the analyzer: the query by which the analyzer reads the calls back from the logged events, and that the events of
  any tree of calls satisfy what the analyzer's loading relies on.
\<close>

section \<open>The query\<close>

text \<open>
  \<open>ident p\<close> is the id of the row of event \<open>p\<close>. An event \<open>s\<close> is joined with the return events
  whose \<open>call_event\<close> it is; the rows are ordered by thread and start.
\<close>

definition join_row :: "(ev_ptr \<Rightarrow> u64) \<Rightarrow> ev_ptr \<times> event \<Rightarrow> event \<Rightarrow> call_row list" where
  "join_row ident ps e =
     (case ev_body (snd ps) of
        EnclaveB eid (EnclaveCall i arg c k) \<Rightarrow>
          (let r = (\<lambda>ty aex. \<lparr>cr_id = ident (fst ps), cr_type = ty, cr_thread = ev_thread_id (snd ps), cr_call_id = scast i, cr_eid = eid,
                 cr_exectime = ev_time e - ev_time (snd ps), cr_aex_count = aex, cr_parent = map_option ident c,
                 cr_start = ev_time (snd ps), cr_end = ev_time e\<rparr>)
           in case ev_body e of
                EnclaveB _ (ECallReturn p ret n) \<Rightarrow> if p = fst ps then [r 15 (Some n)] else []
              | EnclaveB _ (OCallReturn p ret) \<Rightarrow> if p = fst ps then [r 17 None] else []
              | _ \<Rightarrow> [])
      | _ \<Rightarrow> [])"

definition call_join :: "(ev_ptr \<Rightarrow> u64) \<Rightarrow> nat \<Rightarrow> event list \<Rightarrow> call_row list" where
  "call_join ident n evs = concat (map (\<lambda>ps. concat (map (join_row ident ps) evs)) (enumerate n evs))"

definition call_query :: "(ev_ptr \<Rightarrow> u64) \<Rightarrow> nat \<Rightarrow> event list \<Rightarrow> call_row list" where
  "call_query ident n evs = sort_key cr_thread (sort_key cr_start (call_join ident n evs))"

section \<open>Calls and returns of a trace\<close>

fun ret_of :: "ev_body \<Rightarrow> (ev_ptr \<times> call_type_t) list" where
  "ret_of (EnclaveB e (ECallReturn p r n)) = [(p, ECALL)]"
| "ret_of (EnclaveB e (OCallReturn p r)) = [(p, OCALL)]"
| "ret_of _ = []"

fun call_key :: "ev_ptr \<Rightarrow> ev_body \<Rightarrow> (ev_ptr \<times> call_type_t \<times> ev_ptr option) list" where
  "call_key p (EnclaveB e (EnclaveCall i a c (ECallKind n))) = [(p, ECALL, c)]"
| "call_key p (EnclaveB e (EnclaveCall i a c OCallKind)) = [(p, OCALL, c)]"
| "call_key p _ = []"

fun no_plain :: "ev_body \<Rightarrow> bool" where
  "no_plain (EnclaveB e (EnclaveCall i a c CallPlain)) = False"
| "no_plain _ = True"

definition rets :: "ev_body list \<Rightarrow> (ev_ptr \<times> call_type_t) list" where
  "rets bs = concat (map ret_of bs)"

fun keys :: "nat \<Rightarrow> ev_body list \<Rightarrow> (ev_ptr \<times> call_type_t \<times> ev_ptr option) list" where
  "keys n [] = []"
| "keys n (b # bs) = call_key n b @ keys (Suc n) bs"

lemma keys_append: "keys n (xs @ ys) = keys n xs @ keys (n + length xs) ys"
  by (induction n xs rule: keys.induct) simp_all

lemma rets_simps [simp]: "rets [] = []" "rets (b # bs) = ret_of b @ rets bs" "rets (xs @ ys) = rets xs @ rets ys"
  by (simp_all add: rets_def)

lemma call_key_ptr: "(q, x) \<in> set (call_key p b) \<Longrightarrow> q = p"
  by (induction p b rule: call_key.induct) auto

lemma keys_ptr: "(q, x) \<in> set (keys n bs) \<Longrightarrow> n \<le> q \<and> q < n + length bs"
proof (induction n bs rule: keys.induct)
  case (2 n b bs)
  then show ?case using call_key_ptr [of q x n b] by force
qed simp

lemma keys_distinct: "distinct (map fst (keys n bs))"
proof (induction n bs rule: keys.induct)
  case (2 n b bs)
  have "distinct (map fst (call_key n b))" by (induction n b rule: call_key.induct) simp_all
  moreover have "q \<noteq> n" if "q \<in> fst ` set (keys (Suc n) bs)" for q using that keys_ptr by force
  ultimately show ?case using 2 call_key_ptr by force
qed simp

lemma tr_calls_return:
  shows "mset (rets (tr_u tracing n c a)) = mset (map (\<lambda>(p, ty, q). (p, ty)) (keys n (tr_u tracing n c a)))"
    and "mset (rets (tr_us tracing n c as)) = mset (map (\<lambda>(p, ty, q). (p, ty)) (keys n (tr_us tracing n c as)))"
    and "mset (rets (tr_e tracing eid n d b)) = mset (map (\<lambda>(p, ty, q). (p, ty)) (keys n (tr_e tracing eid n d b)))"
    and "mset (rets (tr_es tracing eid n d bs)) = mset (map (\<lambda>(p, ty, q). (p, ty)) (keys n (tr_es tracing eid n d bs)))"
  by (induction tracing n c a and tracing n c as and tracing eid n d b and tracing eid n d bs
      rule: tr_u_tr_us_tr_e_tr_es.induct) (simp_all add: keys_append Let_def)

lemma tr_no_plain:
  shows "list_all no_plain (tr_u tracing n c a)" and "list_all no_plain (tr_us tracing n c as)"
    and "list_all no_plain (tr_e tracing eid n d b)" and "list_all no_plain (tr_es tracing eid n d bs)"
  by (induction tracing n c a and tracing n c as and tracing eid n d b and tracing eid n d bs
      rule: tr_u_tr_us_tr_e_tr_es.induct) (simp_all add: Let_def)

section \<open>The rows of a trace\<close>

definition row_key :: "call_row \<Rightarrow> u64 \<times> call_type_t \<times> u64 option" where
  "row_key r = (cr_id r, row_type r, cr_parent r)"

lemma join_call:
  assumes "ev_body s = EnclaveB eid (EnclaveCall i a c k)"
  shows "map row_key (concat (map (join_row ident (p, s)) es)) =
    map (\<lambda>(q, ty). (ident p, ty, map_option ident c)) (filter (\<lambda>x. fst x = p) (rets (map ev_body es)))"
proof (induction es)
  case (Cons e es)
  have "map row_key (join_row ident (p, s) e) = map (\<lambda>(q, ty). (ident p, ty, map_option ident c)) (filter (\<lambda>x. fst x = p) (ret_of (ev_body e)))"
    by (cases "ev_body e" rule: ret_of.cases) (simp_all add: join_row_def assms row_key_def row_type_def)
  with Cons show ?case by simp
qed simp

lemma join_other: "(\<And>eid i a c k. ev_body s \<noteq> EnclaveB eid (EnclaveCall i a c k)) \<Longrightarrow> join_row ident (p, s) e = []"
  by (auto simp: join_row_def split: ev_body.splits enclave_sub.splits)

definition ident_key :: "(ev_ptr \<Rightarrow> u64) \<Rightarrow> ev_ptr \<times> call_type_t \<times> ev_ptr option \<Rightarrow> u64 \<times> call_type_t \<times> u64 option" where
  "ident_key ident = (\<lambda>(p, ty, c). (ident p, ty, map_option ident c))"

text \<open>When every call of a trace returns exactly once, the join has one row per call.\<close>

lemma one_return:
  assumes "mset (rets bs) = mset (map (\<lambda>(p, ty, q). (p, ty)) ks)" "distinct (map fst ks)" "(p, ty, c) \<in> set ks"
  shows "filter (\<lambda>x. fst x = p) (rets bs) = [(p, ty)]"
proof -
  have "filter (\<lambda>k. fst k = p) ks = [(p, ty, c)]"
    using assms(2,3) by (induction ks) (auto simp: filter_empty_conv image_iff Bex_def)
  then have "filter (\<lambda>x. fst x = p) (map (\<lambda>(p, ty, q). (p, ty)) ks) = [(p, ty)]"
    by (simp add: filter_map comp_def split_def)
  moreover have "mset (filter (\<lambda>x. fst x = p) (rets bs)) = mset (filter (\<lambda>x. fst x = p) (map (\<lambda>(p, ty, q). (p, ty)) ks))"
    unfolding mset_filter assms(1) ..
  ultimately have "mset (filter (\<lambda>x. fst x = p) (rets bs)) = mset [(p, ty)]" by (simp only:)
  then show ?thesis by (simp only: mset.simps mset_single_iff)
qed

lemma join_keys_part:
  assumes "\<And>p ty c. (p, ty, c) \<in> set (keys n (map ev_body xs)) \<Longrightarrow> filter (\<lambda>x. fst x = p) (rets (map ev_body evs)) = [(p, ty)]"
    and "list_all no_plain (map ev_body xs)"
  shows "map row_key (concat (map (\<lambda>ps. concat (map (join_row ident ps) evs)) (enumerate n xs))) = map (ident_key ident) (keys n (map ev_body xs))"
  using assms
proof (induction xs arbitrary: n)
  case (Cons s xs)
  have "map row_key (concat (map (join_row ident (n, s)) evs)) = map (ident_key ident) (call_key n (ev_body s))"
  proof (cases "\<exists>eid i a c k. ev_body s = EnclaveB eid (EnclaveCall i a c k)")
    case True
    then obtain eid i a c k where s: "ev_body s = EnclaveB eid (EnclaveCall i a c k)" by blast
    obtain ty where k: "call_key n (ev_body s) = [(n, ty, c)]" using Cons.prems(2) by (cases k) (auto simp: s)
    with Cons.prems(1) [of n ty c] join_call [OF s, of ident n evs] show ?thesis by (simp add: ident_key_def)
  next
    case False
    then have "join_row ident (n, s) e = []" for e by (intro join_other) simp
    moreover have "call_key n (ev_body s) = []" using False by (cases "(n, ev_body s)" rule: call_key.cases) auto
    ultimately show ?thesis by simp
  qed
  moreover have "map row_key (concat (map (\<lambda>ps. concat (map (join_row ident ps) evs)) (enumerate (Suc n) xs))) =
    map (ident_key ident) (keys (Suc n) (map ev_body xs))"
  proof (rule Cons.IH)
    fix p ty c assume "(p, ty, c) \<in> set (keys (Suc n) (map ev_body xs))"
    then show "filter (\<lambda>x. fst x = p) (rets (map ev_body evs)) = [(p, ty)]"
      by (intro Cons.prems(1) [of p ty c]) simp
  qed (use Cons.prems(2) in simp)
  ultimately show ?case by simp
qed simp

lemma call_join_keys:
  assumes "mset (rets (map ev_body evs)) = mset (map (\<lambda>(p, ty, q). (p, ty)) (keys n (map ev_body evs)))" "list_all no_plain (map ev_body evs)"
  shows "map row_key (call_join ident n evs) = map (ident_key ident) (keys n (map ev_body evs))"
  unfolding call_join_def using one_return [OF assms(1) keys_distinct] assms(2) by (intro join_keys_part)

section \<open>Open calls\<close>

definition open_key :: "('a \<times> call_type_t) list option \<Rightarrow> 'a \<times> call_type_t \<times> 'a option \<Rightarrow> ('a \<times> call_type_t) list option" where
  "open_key so k = Option.bind so (\<lambda>st. case k of (i, ty, c) \<Rightarrow>
     (case c of
        None \<Rightarrow> if ty = ECALL then Some [(i, ty)] else None
      | Some p \<Rightarrow>
          (case dropWhile (\<lambda>q. fst q \<noteq> p) st of
             [] \<Rightarrow> None
           | q # st' \<Rightarrow> if ty \<noteq> UNDEF \<and> snd q = other_type ty then Some ((i, ty) # q # st') else None)))"

lemma open_rows_keys:
  "map_option (map (\<lambda>r. (cr_id r, row_type r))) (open_rows rs) = foldl open_key (Some []) (map row_key rs)"
proof (induction rs rule: rev_induct)
  case (snoc r rs)
  show ?case
  proof (cases "open_rows rs")
    case None
    then show ?thesis using snoc by (simp add: open_rows_snoc open_key_def)
  next
    case (Some st)
    have dw: "dropWhile (\<lambda>q. fst q \<noteq> p) (map (\<lambda>r. (cr_id r, row_type r)) st) = map (\<lambda>r. (cr_id r, row_type r)) (dropWhile (\<lambda>q. cr_id q \<noteq> p) st)" for p
      by (rule dropWhile_map_inj) simp
    have "foldl open_key (Some []) (map row_key (rs @ [r])) = open_key (Some (map (\<lambda>r. (cr_id r, row_type r)) st)) (row_key r)"
      using snoc Some by simp
    also have "\<dots> = map_option (map (\<lambda>r. (cr_id r, row_type r))) (open_row (Some st) r)"
      by (auto simp: open_row_def open_key_def row_key_def dw simp del: dropWhile_eq_Nil_conv split: option.splits list.splits)
    finally show ?thesis using Some by (simp add: open_rows_snoc)
  qed
qed (simp add: open_rows_def)

lemma open_key_None [simp]: "foldl open_key None ks = None"
  by (induction ks) (simp_all add: open_key_def)

lemma open_key_ident:
  assumes "inj_on f A" "\<forall>k \<in> set ks. fst k \<in> A \<and> set_option (snd (snd k)) \<subseteq> A" "fst ` set st \<subseteq> A"
  shows "foldl open_key (Some (map (apfst f) st)) (map (\<lambda>(p, ty, c). (f p, ty, map_option f c)) ks) =
    map_option (map (apfst f)) (foldl open_key (Some st) ks)"
  using assms(2,3)
proof (induction ks arbitrary: st)
  case (Cons k ks)
  obtain p ty c where k: "k = (p, ty, c)" by (cases k)
  have A: "p \<in> A" "set_option c \<subseteq> A" using Cons.prems(1) k by auto
  have dw: "dropWhile (\<lambda>q. fst q \<noteq> f x) (map (apfst f) st) = map (apfst f) (dropWhile (\<lambda>q. fst q \<noteq> x) st)" if "x \<in> A" for x
    using Cons.prems(2) that inj_on_eq_iff [OF assms(1)] by (intro dropWhile_map_inj) auto
  have "open_key (Some (map (apfst f) st)) (f p, ty, map_option f c) = map_option (map (apfst f)) (open_key (Some st) (p, ty, c))"
    using A dw by (auto simp: open_key_def simp del: dropWhile_eq_Nil_conv split: option.splits list.splits)
  moreover have "fst ` set st' \<subseteq> A" if "open_key (Some st) (p, ty, c) = Some st'" for st'
  proof -
    have "set (dropWhile P st) \<subseteq> set st" for P by (auto dest: set_dropWhileD)
    with that A(1) Cons.prems(2) show ?thesis
      by (auto simp: open_key_def split: option.splits list.splits if_splits) (metis image_subset_iff insert_subset list.simps(15) subset_iff fst_conv)+
  qed
  ultimately show ?case using Cons.IH Cons.prems(1) k by (cases "open_key (Some st) (p, ty, c)") auto
qed simp

text \<open>The calls of a block of a trace stay on top of those open before it, or of those the block's parent is in.\<close>

definition under :: "ev_ptr option \<Rightarrow> (ev_ptr \<times> call_type_t) list \<Rightarrow> (ev_ptr \<times> call_type_t) list" where
  "under c st = (case c of None \<Rightarrow> [] | Some p \<Rightarrow> dropWhile (\<lambda>q. fst q \<noteq> p) st)"

definition parent_open :: "call_type_t \<Rightarrow> ev_ptr option \<Rightarrow> nat \<Rightarrow> (ev_ptr \<times> call_type_t) list \<Rightarrow> bool" where
  "parent_open ty c n st \<longleftrightarrow> (case c of None \<Rightarrow> ty = OCALL | Some p \<Rightarrow> p < n \<and> (\<exists>rest. under c st = (p, ty) # rest))"

definition block_ok :: "ev_ptr option \<Rightarrow> nat \<Rightarrow> (ev_ptr \<times> call_type_t) list \<Rightarrow> (ev_ptr \<times> call_type_t \<times> ev_ptr option) list \<Rightarrow> bool" where
  "block_ok c n st ks \<longleftrightarrow> (\<exists>pre st0. foldl open_key (Some st) ks = Some (pre @ st0) \<and> (\<forall>q \<in> set pre. n \<le> fst q) \<and>
     (st0 = st \<or> st0 = under c st))"

lemma under_idem [simp]: "under c (under c st) = under c st"
  by (simp add: under_def split: option.split)

lemma under_append: "(\<forall>q \<in> set pre. n \<le> fst q) \<Longrightarrow> (\<forall>p. c = Some p \<longrightarrow> p < n) \<Longrightarrow> under c (pre @ st) = under c st"
  by (auto simp: under_def split: option.split intro!: dropWhile_append2)

lemma block_ok_append:
  assumes "block_ok c n st ks" "parent_open ty c n st" "\<And>st'. parent_open ty c m st' \<Longrightarrow> block_ok c m st' ks'" "n \<le> m"
  shows "block_ok c n st (ks @ ks')"
proof -
  obtain pre st0 where p: "foldl open_key (Some st) ks = Some (pre @ st0)" "\<forall>q \<in> set pre. n \<le> fst q" "st0 = st \<or> st0 = under c st"
    using assms(1) by (auto simp: block_ok_def)
  have c: "\<forall>p. c = Some p \<longrightarrow> p < n" using assms(2) by (simp add: parent_open_def split: option.splits)
  have u: "under c (pre @ st0) = under c st" using under_append [OF p(2) c] p(3) by auto
  then have "parent_open ty c m (pre @ st0)" using assms(2,4) by (auto simp: parent_open_def split: option.splits)
  from assms(3) [OF this] obtain pre' st1 where q: "foldl open_key (Some (pre @ st0)) ks' = Some (pre' @ st1)"
    "\<forall>q \<in> set pre'. m \<le> fst q" "st1 = pre @ st0 \<or> st1 = under c st"
    unfolding block_ok_def u by blast
  show ?thesis
  proof (cases "st1 = pre @ st0")
    case True
    then show ?thesis using p q assms(4) unfolding block_ok_def
      by (intro exI [of _ "pre' @ pre"] exI [of _ st0]) auto
  next
    case False
    then show ?thesis using p q assms(4) unfolding block_ok_def
      by (intro exI [of _ pre'] exI [of _ st1]) auto
  qed
qed

lemma block_ok_call:
  assumes "parent_open (other_type ty) c n st" "ty \<noteq> UNDEF" "\<And>st'. parent_open ty (Some n) (Suc n) st' \<Longrightarrow> block_ok (Some n) (Suc n) st' ks"
  shows "block_ok c n st ((n, ty, c) # ks)"
proof -
  let ?st = "(n, ty) # under c st"
  have o: "open_key (Some st) (n, ty, c) = Some ?st"
    using assms(1,2) by (cases ty) (auto simp: open_key_def under_def parent_open_def other_type_def split: option.splits)
  have "under (Some n) ?st = ?st" by (simp add: under_def)
  moreover from this have "parent_open ty (Some n) (Suc n) ?st" by (simp add: parent_open_def)
  ultimately obtain pre where "foldl open_key (Some ?st) ks = Some (pre @ ?st)" "\<forall>q \<in> set pre. Suc n \<le> fst q"
    using assms(3) [of ?st] by (auto simp: block_ok_def)
  then show ?thesis using o unfolding block_ok_def
    by (intro exI [of _ "pre @ [(n, ty)]"] exI [of _ "under c st"]) auto
qed

lemma block_ok_Nil [simp]: "block_ok c n st []"
  unfolding block_ok_def by (rule exI [of _ "[]"], rule exI [of _ st]) simp

lemma tr_open:
  shows "parent_open OCALL c n st \<Longrightarrow> block_ok c n st (keys n (tr_u tracing n c a))"
    and "parent_open OCALL c n st \<Longrightarrow> block_ok c n st (keys n (tr_us tracing n c as))"
    and "parent_open ECALL (Some d) n st \<Longrightarrow> block_ok (Some d) n st (keys n (tr_e tracing eid n d b))"
    and "parent_open ECALL (Some d) n st \<Longrightarrow> block_ok (Some d) n st (keys n (tr_es tracing eid n d bs))"
proof (induction tracing n c a and tracing n c as and tracing eid n d b and tracing eid n d bs arbitrary: st and st and st and st
    rule: tr_u_tr_us_tr_e_tr_es.induct)
  case (1 tracing n c eid i arg ret acts)
  then show ?case using block_ok_call [of ECALL c n st "keys (Suc n) (tr_es tracing eid (Suc n) n acts)"] by (simp add: keys_append)
next
  case (3 tracing n c a as)
  let ?m = "n + length (tr_u tracing n c a)"
  have "block_ok c n st (keys n (tr_u tracing n c a) @ keys ?m (tr_us tracing ?m c as))"
    by (rule block_ok_append [OF 3(1) [OF 3(3)] 3(3)]) (use 3(2) in auto)
  then show ?case by (simp add: keys_append Let_def)
next
  case (4 tracing eid n p i arg ret acts)
  then show ?case using block_ok_call [of OCALL "Some p" n st "keys (Suc n) (tr_us tracing (Suc n) (Some n) acts)"] by (simp add: keys_append)
next
  case (7 tracing eid n p a as)
  let ?m = "n + length (tr_e tracing eid n p a)"
  have "block_ok (Some p) n st (keys n (tr_e tracing eid n p a) @ keys ?m (tr_es tracing eid ?m p as))"
    by (rule block_ok_append [OF 7(1) [OF 7(3)] 7(3)]) (use 7(2) in auto)
  then show ?case by (simp add: keys_append Let_def)
qed simp_all

lemma tr_ptrs:
  shows "(p, ty, q) \<in> set (keys n (tr_u tracing n c a)) \<Longrightarrow> q = c \<or> set_option q \<subseteq> {n..<p}"
    and "(p, ty, q) \<in> set (keys n (tr_us tracing n c as)) \<Longrightarrow> q = c \<or> set_option q \<subseteq> {n..<p}"
    and "(p, ty, q) \<in> set (keys n (tr_e tracing eid n d b)) \<Longrightarrow> q = Some d \<or> set_option q \<subseteq> {n..<p}"
    and "(p, ty, q) \<in> set (keys n (tr_es tracing eid n d bs)) \<Longrightarrow> q = Some d \<or> set_option q \<subseteq> {n..<p}"
proof (induction tracing n c a and tracing n c as and tracing eid n d b and tracing eid n d bs
      rule: tr_u_tr_us_tr_e_tr_es.induct)
  case (1 tracing n c eid i arg ret acts)
  then show ?case using keys_ptr [of p "(ty, q)" "Suc n" "tr_es tracing eid (Suc n) n acts"] by (auto simp: keys_append)
next
  case (3 tracing n c a as)
  then show ?case by (fastforce simp: keys_append Let_def)
next
  case (4 tracing eid n d i arg ret acts)
  then show ?case using keys_ptr [of p "(ty, q)" "Suc n" "tr_us tracing (Suc n) (Some n) acts"] by (auto simp: keys_append)
next
  case (7 tracing eid n d a as)
  then show ?case by (fastforce simp: keys_append Let_def)
qed (auto split: if_splits)

section \<open>What the logger logs, the analyzer can load\<close>

lemma sort_key_sorted: "sorted (map f xs) \<Longrightarrow> sort_key f xs = xs"
  by (induction xs) (auto simp: insort_key_left_comm intro: insort_is_Cons)

lemma join_row_call:
  assumes "r \<in> set (join_row ident ps e)"
  shows "cr_start r = ev_time (snd ps) \<and> cr_thread r = ev_thread_id (snd ps) \<and> cr_id r = ident (fst ps)"
proof -
  have "\<exists>eid i a c k. ev_body (snd ps) = EnclaveB eid (EnclaveCall i a c k)"
  proof (rule ccontr)
    assume "\<nexists>eid i a c k. ev_body (snd ps) = EnclaveB eid (EnclaveCall i a c k)"
    then have "join_row ident (fst ps, snd ps) e = []" by (intro join_other) simp
    with assms show False by simp
  qed
  then obtain eid i a c k where s: "ev_body (snd ps) = EnclaveB eid (EnclaveCall i a c k)" by blast
  from assms show ?thesis
    by (cases "ev_body e" rule: ret_of.cases) (simp_all add: join_row_def s split: if_splits)
qed

lemma call_join_thread: "r \<in> set (call_join ident n evs) \<Longrightarrow> cr_thread r \<in> ev_thread_id ` set evs"
  by (fastforce simp: call_join_def in_set_enumerate_eq dest: join_row_call)

lemma call_join_start:
  assumes "sorted (map ev_time evs)"
  shows "sorted (map cr_start (call_join ident n evs))"
proof -
  have st: "cr_start r = ev_time (snd ps)" if "r \<in> set (concat (map (join_row ident ps) es))" for r ps es
    using that by (auto dest: join_row_call)
  have "sorted (map cr_start (concat (map (\<lambda>ps. concat (map (join_row ident ps) es)) (enumerate n evs))))" for es
    using assms
  proof (induction evs arbitrary: n)
    case (Cons e evs)
    let ?xs = "concat (map (join_row ident (n, e)) es)" let ?ys = "concat (map (\<lambda>ps. concat (map (join_row ident ps) es)) (enumerate (Suc n) evs))"
    have sx: "sorted (map cr_start ?xs)" using st [of _ "(n, e)" es]
      by (intro sorted_wrt_mono_rel [of _ "\<lambda>x y. True", OF _ sorted_wrt_true]) auto
    have "cr_start y \<in> ev_time ` set evs" if "y \<in> set ?ys" for y
      using that st by (fastforce simp: in_set_enumerate_eq)
    then have "ev_time e \<le> cr_start y" if "y \<in> set ?ys" for y using that Cons.prems by fastforce
    moreover have "cr_start x = ev_time e" if "x \<in> set ?xs" for x using st [OF that] by simp
    moreover have "sorted (map cr_start ?ys)" using Cons by simp
    ultimately have "sorted (map cr_start ?xs @ map cr_start ?ys)" using sx by (simp only: sorted_append) fastforce
    then show ?case by simp
  qed simp
  then show ?thesis by (simp add: call_join_def)
qed

fun calls_u :: "uact \<Rightarrow> nat" and calls_us :: "uact list \<Rightarrow> nat" and calls_e :: "eact \<Rightarrow> nat" and calls_es :: "eact list \<Rightarrow> nat" where
  "calls_u (UEcall eid i arg ret acts) = Suc (calls_es acts)"
| "calls_us [] = 0"
| "calls_us (a # as) = calls_u a + calls_us as"
| "calls_e (EOcall i arg ret acts) = Suc (calls_us acts)"
| "calls_e EAex = 0"
| "calls_es [] = 0"
| "calls_es (a # as) = calls_e a + calls_es as"

lemma length_tr_keys:
  shows "length (keys n (tr_u tracing n c a)) = calls_u a" and "length (keys n (tr_us tracing n c as)) = calls_us as"
    and "length (keys n (tr_e tracing eid n d b)) = calls_e b" and "length (keys n (tr_es tracing eid n d bs)) = calls_es bs"
  by (induction tracing n c a and tracing n c as and tracing eid n d b and tracing eid n d bs
      rule: tr_u_tr_us_tr_e_tr_es.induct) (simp_all add: keys_append Let_def)

lemma map_body_stamped [simp]: "map ev_body (stamped R tid n bs) = bs"
  by (induction bs arbitrary: n) (simp_all add: stamped_Cons new_event_def)

lemma stamped_thread: "e \<in> set (stamped R tid n bs) \<Longrightarrow> ev_thread_id e = tid"
  by (auto simp: stamped_def)

lemma stamped_times: "map ev_time (stamped R tid n bs) = map (\<lambda>i. timespec_ns (fst (re_clk R i))) [n..<n + length bs]"
  by (rule nth_equalityI) (simp_all add: stamped_def new_event_def nth_enumerate_eq)

lemma trace_rows:
  assumes inj: "inj_on ident {n..<n + length (tr_us tracing n None as)}"
    and mono: "\<forall>i j. i \<le> j \<longrightarrow> j < n + length (tr_us tracing n None as) \<longrightarrow> timespec_ns (fst (re_clk R i)) \<le> timespec_ns (fst (re_clk R j))"
    and rows: "rows = call_query ident n (stamped R tid n (tr_us tracing n None as))"
  shows "open_rows rows \<noteq> None" "distinct (map cr_id rows)" "length rows = calls_us as" "\<forall>r \<in> set rows. cr_thread r = tid"
    and "rows = call_join ident n (stamped R tid n (tr_us tracing n None as))" "map row_key rows = map (ident_key ident) (keys n (tr_us tracing n None as))"
proof -
  let ?bs = "tr_us tracing n None as" let ?evs = "stamped R tid n ?bs" let ?ks = "keys n ?bs"
  have "sorted (map ev_time ?evs)" using mono by (auto simp: stamped_times sorted_iff_nth_mono)
  then have s: "sort_key cr_start (call_join ident n ?evs) = call_join ident n ?evs" by (intro sort_key_sorted call_join_start)
  have t: "cr_thread r = tid" if "r \<in> set (call_join ident n ?evs)" for r
    using call_join_thread [OF that] stamped_thread by auto
  then have "sorted (map cr_thread (call_join ident n ?evs))" by (simp add: sorted_iff_nth_mono)
  then have r: "rows = call_join ident n ?evs" by (simp add: rows call_query_def s sort_key_sorted)
  have k: "map row_key rows = map (ident_key ident) ?ks"
    unfolding r using call_join_keys [of ?evs n ident] tr_calls_return(2) [of tracing n None as] tr_no_plain(2) [of tracing n None as] by simp
  have A: "\<forall>k \<in> set ?ks. fst k \<in> {n..<n + length ?bs} \<and> set_option (snd (snd k)) \<subseteq> {n..<n + length ?bs}"
  proof
    fix k assume "k \<in> set ?ks"
    moreover obtain p ty c where "k = (p, ty, c)" by (cases k)
    ultimately show "fst k \<in> {n..<n + length ?bs} \<and> set_option (snd (snd k)) \<subseteq> {n..<n + length ?bs}"
      using keys_ptr [of p "(ty, c)" n ?bs] tr_ptrs(2) [of p ty c n tracing None as] by auto
  qed
  obtain st where "foldl open_key (Some []) ?ks = Some st"
    using tr_open(2) [of None n "[]" tracing as] by (auto simp: parent_open_def block_ok_def)
  then have "foldl open_key (Some []) (map row_key rows) \<noteq> None"
    unfolding k ident_key_def using open_key_ident [OF inj A, of "[]"] by simp
  then show "open_rows rows \<noteq> None" unfolding open_rows_keys [symmetric] by simp
  have "map fst (map row_key rows) = map ident (map fst ?ks)" unfolding k by (simp add: ident_key_def split_def)
  moreover have "set (map fst ?ks) \<subseteq> {n..<n + length ?bs}" using A by auto
  then have "inj_on ident (set (map fst ?ks))" using inj by (rule inj_on_subset [rotated])
  ultimately have "distinct (map fst (map row_key rows))" using keys_distinct [of n ?bs] by (simp add: distinct_map del: map_map)
  then show "distinct (map cr_id rows)" by (simp add: row_key_def comp_def)
  have "length (map row_key rows) = length ?ks" unfolding k by simp
  then show "length rows = calls_us as" by (simp add: length_tr_keys)
  show "\<forall>r \<in> set rows. cr_thread r = tid" using t r by simp
  show "rows = call_join ident n ?evs" "map row_key rows = map (ident_key ident) ?ks" by (rule r, rule k)
qed

text \<open>After any tree of ecalls, ocalls and asynchronous exits on a thread that was in no call, the analyzer's query over
  the logged events gives one row per ecall and ocall of the tree, with ids of their own and the ids of the calls they were made in,
  nested as the analyzer's loading requires. The clock does not run backwards and different events have different ids.\<close>

lemma logged_calls_loadable:
  assumes "urts_ok R t s" and "th_current_call (threads s ! t) = None" and "wf_us R (known_enclaves s) as"
  shows "\<exists>s'. run_us R as s = (Inr (), s') \<and>
    (\<forall>ident rows. inj_on ident {..<length (events s')} \<longrightarrow>
       (\<forall>i j. i \<le> j \<longrightarrow> j < length (events s') \<longrightarrow> timespec_ns (fst (re_clk R i)) \<le> timespec_ns (fst (re_clk R j))) \<longrightarrow>
       rows = call_query ident (length (events s)) (drop (length (events s)) (events s')) \<longrightarrow>
       open_rows rows \<noteq> None \<and> distinct (map cr_id rows) \<and> length rows = calls_us as \<and>
       (\<forall>r \<in> set rows. cr_thread r = th_sql_id (threads s ! t)))"
proof -
  have "in_call t s" using assms(2) by (simp add: in_call_def)
  then obtain s' where s': "run_us R as s = (Inr (), s')" "ran R t 0 s s' (tr_us (re_tracing R) (length (events s)) None as)"
    using run_tree_ran(2) [OF assms(1) _ assms(3)] assms(2) by auto
  then have e: "events s' = events s @ stamped R (th_sql_id (threads s ! t)) (length (events s)) (tr_us (re_tracing R) (length (events s)) None as)"
    by (simp add: ran_def)
  have l: "length (events s') = length (events s) + length (tr_us (re_tracing R) (length (events s)) None as)" by (simp add: e)
  have d: "drop (length (events s)) (events s') = stamped R (th_sql_id (threads s ! t)) (length (events s)) (tr_us (re_tracing R) (length (events s)) None as)"
    by (simp add: e)
  have "open_rows rows \<noteq> None \<and> distinct (map cr_id rows) \<and> length rows = calls_us as \<and> (\<forall>r \<in> set rows. cr_thread r = th_sql_id (threads s ! t))"
    if "inj_on ident {..<length (events s')}"
      "\<forall>i j. i \<le> j \<longrightarrow> j < length (events s') \<longrightarrow> timespec_ns (fst (re_clk R i)) \<le> timespec_ns (fst (re_clk R j))"
      "rows = call_query ident (length (events s)) (drop (length (events s)) (events s'))" for ident rows
  proof -
    have "inj_on ident {length (events s)..<length (events s) + length (tr_us (re_tracing R) (length (events s)) None as)}"
      using that(1) by (rule inj_on_subset) (auto simp: l)
    then show ?thesis using trace_rows [OF _ that(2,3) [unfolded l d]] by simp
  qed
  with s'(1) show ?thesis by blast
qed

lemma ex_clock_mono: "i \<le> j \<Longrightarrow> j < 9 \<Longrightarrow> timespec_ns (fst (re_clk ex_env i)) \<le> timespec_ns (fst (re_clk ex_env j))"
proof -
  have "unat (timespec_ns (fst (re_clk ex_env k))) = k + 4000000000" if "k < 9" for k
    using that by (simp add: ex_env_def unat_word_ariths unat_of_nat)
  then show "timespec_ns (fst (re_clk ex_env i)) \<le> timespec_ns (fst (re_clk ex_env j))" if "i \<le> j" "j < 9"
    using that by (simp add: word_le_nat_alt)
qed

lemma logged_calls_loadable_witness:
  "\<exists>s'. run_us ex_env ex_tree ex_urts = (Inr (), s') \<and> length (call_query of_nat 0 (events s')) = 3 \<and>
     open_rows (call_query of_nat 0 (events s')) \<noteq> None"
proof -
  have ok: "urts_ok ex_env 0 ex_urts" "th_current_call (threads ex_urts ! 0) = None" "events ex_urts = []"
    by (simp_all add: urts_ok_def ex_urts_def EventStore_def ex_env_def tables_ok_def new_enclave_def new_thread_def)
  have "known_enclaves ex_urts = {2}" by (auto simp: known_enclaves_def ex_urts_def)
  then have wf: "wf_us ex_env (known_enclaves ex_urts) ex_tree" by (simp add: ex_tree_def ex_env_def)
  obtain s' where s': "run_us ex_env ex_tree ex_urts = (Inr (), s')"
    "\<forall>ident rows. inj_on ident {..<length (events s')} \<longrightarrow>
       (\<forall>i j. i \<le> j \<longrightarrow> j < length (events s') \<longrightarrow> timespec_ns (fst (re_clk ex_env i)) \<le> timespec_ns (fst (re_clk ex_env j))) \<longrightarrow>
       rows = call_query ident 0 (events s') \<longrightarrow> open_rows rows \<noteq> None \<and> length rows = calls_us ex_tree"
    using logged_calls_loadable [OF ok(1,2) wf] ok(3) by auto
  have "in_call 0 ex_urts" using ok(2) by (simp add: in_call_def)
  then have "ran ex_env 0 0 ex_urts s' (tr_us True 0 None ex_tree)"
    using run_tree_ran(2) [OF ok(1) _ wf] s'(1) ok(2,3) by (auto simp: ex_env_def)
  then have "length (events s') = length (tr_us True 0 None ex_tree)" using ok(3) by (simp add: ran_def)
  then have l: "length (events s') = 9" by (simp add: ex_tree_def)
  have "inj_on (of_nat :: nat \<Rightarrow> u64) {..<length (events s')}"
    unfolding l by (rule inj_on_inverseI [of _ unat]) (simp add: unat_of_nat)
  moreover have "\<forall>i j. i \<le> j \<longrightarrow> j < length (events s') \<longrightarrow> timespec_ns (fst (re_clk ex_env i)) \<le> timespec_ns (fst (re_clk ex_env j))"
    using ex_clock_mono unfolding l by blast
  moreover have "calls_us ex_tree = 3" by (simp add: ex_tree_def)
  ultimately show ?thesis using s' by auto
qed

end
