(* ===== verification/RoundTrip.thy ===== *)
theory RoundTrip
  imports Pipeline SummaryOk Synchro
begin

text \<open>
  From the calls of a program to the rows the analyzer loads, through everything between: the handlers log the calls, the store is
  finalised, \<open>create_summary\<close> writes the tables, and the query of \<open>analyze_calls\<close> in \<^verbatim>\<open>src/analyzer/src/calls.cpp\<close> reads the \<open>events\<close>
  table. The query is stated on the rows of the table, with what \<open>call_data_callback\<close> makes of their columns.
\<close>

section \<open>The query on the table\<close>

text \<open>The columns the result is ordered by are integers that are never NULL.\<close>

definition order_int :: "sql_val option \<Rightarrow> int" where
  "order_int v = (case v of Some (SInt i) \<Rightarrow> i | Some (SReal i) \<Rightarrow> i | _ \<Rightarrow> 0)"

definition is_return :: "row \<Rightarrow> bool" where
  "is_return e \<longleftrightarrow> e P_type = Some (SInt 15) \<or> e P_type = Some (SInt 17)"

text \<open>A return event with the event its \<open>call_event\<close> names, if there is one: the id, the row of the call, the row of the return.\<close>

definition pair_of :: "row list \<Rightarrow> row \<Rightarrow> (sql_val option \<times> row \<times> row) list" where
  "pair_of rows e =
     (if is_return e then (case row_with_id rows (e P_call_event) of None \<Rightarrow> [] | Some s \<Rightarrow> [(e P_call_event, s, e)]) else [])"

definition call_pairs :: "row list \<Rightarrow> (sql_val option \<times> row \<times> row) list" where
  "call_pairs rows = concat (map (pair_of rows) rows)"

definition opt_column :: "sql_val option \<Rightarrow> fault + u64 option" where
  "opt_column v = (if v = None then Inr None else map_sum id Some (column v))"

definition read_call :: "sql_val option \<times> row \<times> row \<Rightarrow> fault + call_row" where
  "read_call d =
     (case d of (i, s, e) \<Rightarrow>
        fbind (column i) (\<lambda>iid. fbind (column (e P_type)) (\<lambda>ty. fbind (column (s P_involved_thread)) (\<lambda>tid.
          fbind (column (s P_call_id)) (\<lambda>cid. fbind (column (s P_eid)) (\<lambda>eid.
            fbind (column (minus_col (e P_time) (s P_time))) (\<lambda>exectime.
              fbind (opt_column (e P_aex_count)) (\<lambda>aex. fbind (opt_column (s P_call_event)) (\<lambda>parent.
                fbind (column (s P_time)) (\<lambda>starttime. fbind (column (e P_time)) (\<lambda>endtime.
                  Inr \<lparr>cr_id = iid, cr_type = ty, cr_thread = tid, cr_call_id = cid, cr_eid = eid, cr_exectime = exectime,
                    cr_aex_count = aex, cr_parent = parent, cr_start = starttime, cr_end = endtime\<rparr>)))))))))))"

fun map_fault :: "('a \<Rightarrow> fault + 'b) \<Rightarrow> 'a list \<Rightarrow> fault + 'b list" where
  "map_fault f [] = Inr []"
| "map_fault f (x # xs) = fbind (f x) (\<lambda>y. fbind (map_fault f xs) (\<lambda>ys. Inr (y # ys)))"

definition call_select :: "row list \<Rightarrow> fault + call_row list" where
  "call_select rows =
     map_fault read_call
       (sort_key (\<lambda>(i, s, e). order_int (s P_involved_thread))
         (sort_key (\<lambda>(i, s, e). order_int (s P_time)) (call_pairs rows)))"

section \<open>Columns of calls and returns\<close>

lemma bound_call:
  assumes "ev_body e = EnclaveB eid (EnclaveCall i a c k)"
  shows "sql_bind h e P_call_id = Some (SInt (sint i))" "sql_bind h e P_eid = Some (SInt (sint eid))"
    "sql_bind h e P_call_event = map_option (\<lambda>p. SInt (sint (get_sql_id h p))) c"
  by (cases c; simp add: sql_bind_def assms bind_simps Let_def)+

lemma bound_return:
  "ev_body e = EnclaveB eid (ECallReturn p ret n) \<Longrightarrow> sql_bind h e P_call_event = Some (SInt (sint (get_sql_id h p)))"
  "ev_body e = EnclaveB eid (OCallReturn p ret) \<Longrightarrow> sql_bind h e P_call_event = Some (SInt (sint (get_sql_id h p)))"
  "ev_body e = EnclaveB eid (ECallReturn p ret n) \<Longrightarrow> sql_bind h e P_aex_count = Some (SInt (sint n))"
  "ev_body e = EnclaveB eid (OCallReturn p ret) \<Longrightarrow> sql_bind h e P_aex_count = None"
  by (simp_all add: sql_bind_def bind_simps)

lemma is_return_bound: "is_return (sql_bind h e) \<longleftrightarrow> ret_of (ev_body e) \<noteq> []"
proof -
  have "type_id t = 15 \<longleftrightarrow> t = EnclaveECallReturnEvent" "type_id t = 17 \<longleftrightarrow> t = EnclaveOCallReturnEvent" for t by (cases t; simp)+
  then have "is_return (sql_bind h e) \<longleftrightarrow> get_type (ev_body e) \<in> {EnclaveECallReturnEvent, EnclaveOCallReturnEvent}"
    by (simp add: is_return_def bound_columns)
  also have "\<dots> \<longleftrightarrow> ret_of (ev_body e) \<noteq> []"
    by (cases "ev_body e" rule: ret_of.cases) (auto split: paging_kind.split call_kind.split
      elim: thread_sub_type.elims enclave_sub_type.elims paging_type.elims call_type.elims)
  finally show ?thesis .
qed

text \<open>What the callback reads from the rows of a call and of its return is the row of the join of the events.\<close>

lemma read_call_bound:
  assumes "ev_body s = EnclaveB eid (EnclaveCall i a c k)" and "ret_of (ev_body e) = [(q, ty)]"
  shows "\<exists>r. read_call (Some (SInt (sint (get_sql_id h q))), sql_bind h s, sql_bind h e) = Inr r \<and>
    join_row (get_sql_id h) (q, s) e = [r]"
proof -
  note cs = bound_call [OF assms(1), of h] bound_columns [of h]
  have n: "column (Some (SInt (sint w))) = Inr w" for w :: u64 by (simp add: column_def)
  have c: "opt_column (sql_bind h s P_call_event) = Inr (map_option (get_sql_id h) c)"
    by (cases c) (simp_all add: cs opt_column_def n)
  have i: "column (sql_bind h s P_call_id) = Inr (scast i)" by (simp add: cs column_def)
  have d: "column (minus_col (sql_bind h e P_time) (sql_bind h s P_time)) = Inr (ev_time e - ev_time s)"
    by (simp add: cs column_def minus_col_def)
  have t: "column (sql_bind h x P_time) = Inr (ev_time x)" "column (sql_bind h x P_involved_thread) = Inr (ev_thread_id x)" for x
    by (simp_all only: cs n)
  have y: "column (sql_bind h s P_eid) = Inr eid" by (simp only: cs n)
  note facts = n c i d t y
  consider x ret k where "ev_body e = EnclaveB x (ECallReturn q ret k)" | x ret where "ev_body e = EnclaveB x (OCallReturn q ret)"
    using assms(2) by (cases "ev_body e" rule: ret_of.cases) auto
  then show ?thesis
  proof cases
    case 1
    have a: "opt_column (sql_bind h e P_aex_count) = Inr (Some k)" by (simp add: bound_return(3) [OF 1] opt_column_def n)
    have b: "column (sql_bind h e P_type) = Inr 15" by (simp add: cs 1 column_def)
    show ?thesis by (simp only: read_call_def fbind_def prod.case sum.case facts a b join_row_def) (simp add: assms(1) 1)
  next
    case 2
    have a: "opt_column (sql_bind h e P_aex_count) = Inr None" by (simp add: bound_return(4) [OF 2] opt_column_def)
    have b: "column (sql_bind h e P_type) = Inr 17" by (simp add: cs 2 column_def)
    show ?thesis by (simp only: read_call_def fbind_def prod.case sum.case facts a b join_row_def) (simp add: assms(1) 2)
  qed
qed

section \<open>The table of a serialised heap\<close>

definition read_of :: "sql_val option \<times> row \<times> row \<Rightarrow> call_row" where
  "read_of d = projr (read_call d)"

lemma map_fault_all: "(\<And>x. x \<in> set xs \<Longrightarrow> f x = Inr (g x)) \<Longrightarrow> map_fault f xs = Inr (map g xs)"
  by (induction xs) (simp_all add: fbind_def)

lemma mset_concat_map: "mset (concat (map f xs)) = (\<Sum>i < length xs. mset (f (xs ! i)))"
  by (induction xs rule: rev_induct) (simp_all add: nth_append)

text \<open>The part of a heap from \<open>n\<close> on holds the calls of one thread: a return event refers to a call event of this part, all of its
  events have been written, and their times increase.\<close>

definition calls_from :: "nat \<Rightarrow> u64 \<Rightarrow> heap \<Rightarrow> bool" where
  "calls_from n tid h \<longleftrightarrow> n \<le> length h \<and> (\<forall>p < n. ret_of (ev_body (h ! p)) = []) \<and>
     (\<forall>p \<in> {n..<length h}. p \<in> ins h \<and> ev_thread_id (h ! p) = tid \<and> ev_time (h ! p) < 2 ^ 63 \<and>
        (\<forall>(q, ty) \<in> set (ret_of (ev_body (h ! p))). q \<in> {n..<length h} \<and>
           (\<exists>eid i a c k. ev_body (h ! q) = EnclaveB eid (EnclaveCall i a c k)))) \<and>
     (\<forall>p q. n \<le> p \<longrightarrow> p < q \<longrightarrow> q < length h \<longrightarrow> ev_time (h ! p) < ev_time (h ! q))"

lemma ret_of_cases: "ret_of b = [] \<or> (\<exists>q ty. ret_of b = [(q, ty)] \<and> q \<in> set (ev_refs b))"
  by (cases b rule: ret_of.cases) auto

lemma calls_from_ret:
  assumes "calls_from n tid h" "p \<in> {n..<length h}" "ret_of (ev_body (h ! p)) = [(q, ty)]"
  obtains eid i a c k where "q \<in> {n..<length h}" "ev_body (h ! q) = EnclaveB eid (EnclaveCall i a c k)"
proof -
  have "\<forall>(q, ty) \<in> set (ret_of (ev_body (h ! p))). q \<in> {n..<length h} \<and> (\<exists>eid i a c k. ev_body (h ! q) = EnclaveB eid (EnclaveCall i a c k))"
    using assms(1,2) unfolding calls_from_def by blast
  then show ?thesis using that unfolding assms(3) by auto
qed

lemma row_with_id_ins:
  assumes "ser_inv (h, rows)" "q \<in> ins h"
  shows "row_with_id rows (Some (SInt (sint (get_sql_id h q)))) = Some (sql_bind h (h ! q))"
  using ser_inv_id [OF assms] assms by (simp add: row_with_id_def ser_inv_def nat_add_distrib)

lemma pair_of_bound:
  assumes inv: "ser_inv (h, rows)" and p: "p \<in> ins h" and q: "ret_of (ev_body (h ! p)) = [(q, ty)]"
  shows "pair_of rows (sql_bind h (h ! p)) = [(Some (SInt (sint (get_sql_id h q))), sql_bind h (h ! q), sql_bind h (h ! p))]"
proof -
  have "q \<in> ins h" using inv p ret_of_cases [of "ev_body (h ! p)"] q by (auto simp: ser_inv_def)
  moreover have "sql_bind h (h ! p) P_call_event = Some (SInt (sint (get_sql_id h q)))"
    using q by (cases "ev_body (h ! p)" rule: ret_of.cases) (auto intro: bound_return)
  ultimately show ?thesis using row_with_id_ins [OF inv, of q] q by (simp add: pair_of_def is_return_bound)
qed

lemma pair_of_other: "ret_of (ev_body e) = [] \<Longrightarrow> pair_of rows (sql_bind h e) = []"
  by (simp add: pair_of_def is_return_bound)

text \<open>A pair of the join is one of a return of the part and its call, and the callback reads it.\<close>

lemma call_pairs_read:
  assumes inv: "ser_inv (h, rows)" and c: "calls_from n tid h" and d: "d \<in> set (call_pairs rows)"
  shows "\<exists>q \<in> {n..<length h}. \<exists>e. d = (Some (SInt (sint (get_sql_id h q))), sql_bind h (h ! q), e) \<and>
    read_call d = Inr (read_of d) \<and> cr_start (read_of d) = ev_time (h ! q)"
proof -
  obtain x where "x \<in> set rows" "d \<in> set (pair_of rows x)" using d by (auto simp: call_pairs_def)
  then obtain k where k: "k < length rows" "d \<in> set (pair_of rows (rows ! k))" by (metis in_set_conv_nth)
  obtain p where p: "p \<in> ins h" "rows ! k = sql_bind h (h ! p)" using ser_inv_row [OF inv k(1)] by metis
  then have "ret_of (ev_body (h ! p)) \<noteq> []" using k(2) pair_of_other by fastforce
  then obtain q ty where q: "ret_of (ev_body (h ! p)) = [(q, ty)]" using ret_of_cases by blast
  have "\<not> p < n" using c q by (auto simp: calls_from_def)
  then have "p \<in> {n..<length h}" using p(1) by (simp add: ins_def)
  then obtain eid i a pc kd where b: "q \<in> {n..<length h}" "ev_body (h ! q) = EnclaveB eid (EnclaveCall i a pc kd)"
    by (rule calls_from_ret [OF c _ q])
  have d: "d = (Some (SInt (sint (get_sql_id h q))), sql_bind h (h ! q), sql_bind h (h ! p))"
    using k(2) p(2) pair_of_bound [OF inv p(1) q] by simp
  obtain r where r: "read_call d = Inr r" "join_row (get_sql_id h) (q, h ! q) (h ! p) = [r]"
    using read_call_bound [OF b(2) q, of h] d by blast
  then have "cr_start r = ev_time (h ! q)" using join_row_call [of r "get_sql_id h" "(q, h ! q)" "h ! p"] by simp
  with r(1) d b(1) show ?thesis by (intro bexI [of _ q]) (auto simp: read_of_def)
qed

lemma join_row_ret:
  "ret_of (ev_body e) = [] \<Longrightarrow> join_row ident (p, s) e = []"
  "ret_of (ev_body e) = [(q, ty)] \<Longrightarrow> p \<noteq> q \<Longrightarrow> join_row ident (p, s) e = []"
  by (cases "ev_body e" rule: ret_of.cases; simp add: join_row_def split: ev_body.splits enclave_sub.splits)+

lemma call_join_sum:
  assumes "n \<le> length h"
  shows "mset (call_join ident n (drop n h)) =
    (\<Sum>e \<in> {n..<length h}. \<Sum>p \<in> {n..<length h}. mset (join_row ident (p, h ! p) (h ! e)))"
proof -
  let ?m = "length h - n"
  have sh: "(\<Sum>i < ?m. f (n + i)) = (\<Sum>p \<in> {n..<length h}. f p)" for f :: "nat \<Rightarrow> call_row multiset"
    using sum.atLeastLessThan_shift_0 [of f n "length h"] by (simp add: lessThan_atLeast0 comp_def)
  have "mset (call_join ident n (drop n h)) =
      (\<Sum>i < ?m. \<Sum>j < ?m. mset (join_row ident (n + i, h ! (n + i)) (h ! (n + j))))"
    by (simp add: call_join_def mset_concat_map nth_enumerate_eq)
  also have "\<dots> = (\<Sum>p \<in> {n..<length h}. \<Sum>e \<in> {n..<length h}. mset (join_row ident (p, h ! p) (h ! e)))"
    by (simp only: sh [symmetric])
  finally show ?thesis using sum.swap by (rule trans)
qed

lemma read_pair_join:
  assumes inv: "ser_inv (h, rows)" and c: "calls_from n tid h" and p: "p \<in> {n..<length h}"
  shows "mset (map read_of (pair_of rows (sql_bind h (h ! p)))) =
    (\<Sum>s \<in> {n..<length h}. mset (join_row (get_sql_id h) (s, h ! s) (h ! p)))"
  using ret_of_cases [of "ev_body (h ! p)"]
proof (elim disjE exE conjE)
  assume "ret_of (ev_body (h ! p)) = []"
  then show ?thesis by (simp add: pair_of_other join_row_ret)
next
  fix q ty assume q: "ret_of (ev_body (h ! p)) = [(q, ty)]"
  have pi: "p \<in> ins h" using c p by (simp add: calls_from_def)
  obtain eid i a pc kd where b: "q \<in> {n..<length h}" "ev_body (h ! q) = EnclaveB eid (EnclaveCall i a pc kd)"
    by (rule calls_from_ret [OF c p q])
  obtain r where r: "read_call (Some (SInt (sint (get_sql_id h q))), sql_bind h (h ! q), sql_bind h (h ! p)) = Inr r"
    "join_row (get_sql_id h) (q, h ! q) (h ! p) = [r]"
    using read_call_bound [OF b(2) q, of h] by blast
  have "(\<Sum>s \<in> {n..<length h}. mset (join_row (get_sql_id h) (s, h ! s) (h ! p))) =
      (\<Sum>s \<in> {q}. mset (join_row (get_sql_id h) (s, h ! s) (h ! p)))"
    using b(1) join_row_ret(2) [OF q] by (intro sum.mono_neutral_right) auto
  then show ?thesis using r pair_of_bound [OF inv pi q] by (simp add: read_of_def)
qed

lemma call_pairs_mset:
  assumes inv: "ser_inv (h, rows)" and c: "calls_from n tid h"
  shows "mset (map read_of (call_pairs rows)) = mset (call_join (get_sql_id h) n (drop n h))"
proof -
  let ?F = "\<lambda>r. mset (map read_of (pair_of rows r))"
  have bij: "bij_betw (row_of h) (ins h) {..<length rows}" and rw: "\<forall>p \<in> ins h. rows ! row_of h p = sql_bind h (h ! p)"
    using inv by (auto simp: ser_inv_def)
  have "mset (map read_of (call_pairs rows)) = (\<Sum>k < length rows. ?F (rows ! k))"
    using mset_concat_map [of "map read_of \<circ> pair_of rows" rows] by (simp add: call_pairs_def map_concat comp_def)
  also have "\<dots> = (\<Sum>p \<in> ins h. ?F (sql_bind h (h ! p)))"
    using sum.reindex_bij_betw [OF bij, of "\<lambda>k. ?F (rows ! k)"] rw by simp
  also have "\<dots> = (\<Sum>p \<in> {n..<length h}. ?F (sql_bind h (h ! p)))"
  proof (rule sum.mono_neutral_right)
    show "{n..<length h} \<subseteq> ins h" using c by (auto simp: calls_from_def)
    show "\<forall>p \<in> ins h - {n..<length h}. ?F (sql_bind h (h ! p)) = {#}"
      using c by (auto simp: calls_from_def ins_def pair_of_other)
  qed simp
  also have "\<dots> = mset (call_join (get_sql_id h) n (drop n h))"
    using c read_pair_join [OF inv c] by (simp add: call_join_sum calls_from_def)
  finally show ?thesis .
qed

section \<open>The order of the result\<close>

lemma sint_less: "x < (2 ^ 63 :: u64) \<Longrightarrow> sint x = uint x"
proof -
  assume "x < 2 ^ 63"
  then have "unat x < 2 ^ 63" by (simp add: word_less_nat_alt)
  then have "sint (of_nat (unat x) :: u64) = int (unat x)" by (rule sint_small_id)
  then show ?thesis by simp
qed

lemma const_sorted: "(\<And>x. x \<in> set xs \<Longrightarrow> f x = c) \<Longrightarrow> sorted (map f xs)" for f :: "'a \<Rightarrow> 'b :: linorder"
  by (induction xs) auto

lemma call_start_inj:
  assumes c: "calls_from n tid h" and d: "distinct (map cr_id (call_join ident n (drop n h)))"
  shows "inj_on cr_start (set (call_join ident n (drop n h)))"
proof (rule inj_onI)
  fix x y assume x: "x \<in> set (call_join ident n (drop n h))" and y: "y \<in> set (call_join ident n (drop n h))" and xy: "cr_start x = cr_start y"
  have call: "\<exists>p \<in> {n..<length h}. cr_start r = ev_time (h ! p) \<and> cr_id r = ident p" if "r \<in> set (call_join ident n (drop n h))" for r
  proof -
    have "n \<le> length h" using c by (simp add: calls_from_def)
    with that obtain p e where p: "n \<le> p" "p < length h" and r: "r \<in> set (join_row ident (p, h ! p) e)"
      by (auto simp: call_join_def in_set_enumerate_eq)
    with p join_row_call [OF r] show ?thesis by (intro bexI [of _ p]) auto
  qed
  obtain p where p: "p \<in> {n..<length h}" "cr_start x = ev_time (h ! p)" "cr_id x = ident p" using call [OF x] by blast
  obtain q where q: "q \<in> {n..<length h}" "cr_start y = ev_time (h ! q)" "cr_id y = ident q" using call [OF y] by blast
  have "p = q" using c p(1,2) q(1,2) xy unfolding calls_from_def by (metis atLeastLessThan_iff less_irrefl linorder_neqE_nat)
  then have "cr_id x = cr_id y" using p q by simp
  with d x y show "x = y" by (auto simp: distinct_map dest: inj_onD)
qed

lemma call_times_sorted:
  assumes c: "calls_from n tid h" shows "sorted (map ev_time (drop n h))"
  unfolding sorted_iff_nth_mono
proof (intro allI impI)
  fix i j assume ij: "i \<le> j" "j < length (map ev_time (drop n h))"
  show "map ev_time (drop n h) ! i \<le> map ev_time (drop n h) ! j"
  proof (cases "i = j")
    case False
    then have "ev_time (h ! (n + i)) < ev_time (h ! (n + j))" using c ij by (simp add: calls_from_def)
    then show ?thesis using ij c by (simp add: calls_from_def)
  qed simp
qed

text \<open>The query over the table gives the calls of the heap, each with its return, in the order of their start.\<close>

lemma call_select_eq:
  assumes inv: "ser_inv (h, rows)" and c: "calls_from n tid h"
    and d: "distinct (map cr_id (call_join (get_sql_id h) n (drop n h)))"
  shows "call_select rows = Inr (call_query (get_sql_id h) n (drop n h))"
proof -
  let ?J = "call_join (get_sql_id h) n (drop n h)" let ?P = "call_pairs rows"
  let ?S = "sort_key (\<lambda>(i, s, e). order_int (s P_time)) ?P"
  have rd: "\<exists>q \<in> {n..<length h}. \<exists>e. d = (Some (SInt (sint (get_sql_id h q))), sql_bind h (h ! q), e) \<and>
    read_call d = Inr (read_of d) \<and> cr_start (read_of d) = ev_time (h ! q)" if "d \<in> set ?P" for d
    using call_pairs_read [OF inv c that] .
  have tid: "ev_thread_id (h ! q) = tid" "ev_time (h ! q) < 2 ^ 63" if "q \<in> {n..<length h}" for q
    using c that by (simp_all add: calls_from_def)
  have key: "(\<lambda>(i, s, e). order_int (s P_involved_thread)) d = sint tid"
    "(\<lambda>(i, s, e). order_int (s P_time)) d = uint (cr_start (read_of d))" if dP: "d \<in> set ?P" for d
  proof -
    obtain q e where q: "q \<in> {n..<length h}" "d = (Some (SInt (sint (get_sql_id h q))), sql_bind h (h ! q), e)"
      "cr_start (read_of d) = ev_time (h ! q)" using rd [OF dP] by blast
    show "(\<lambda>(i, s, e). order_int (s P_involved_thread)) d = sint tid"
      using tid(1) [OF q(1)] by (simp add: q(2) order_int_def bound_columns)
    have "order_int (sql_bind h (h ! q) P_time) = uint (ev_time (h ! q))"
      using sint_less [OF tid(2) [OF q(1)]] by (simp add: order_int_def bound_columns)
    then show "(\<lambda>(i, s, e). order_int (s P_time)) d = uint (cr_start (read_of d))" unfolding q(3) by (simp add: q(2))
  qed
  have "sorted (map (\<lambda>(i, s, e). order_int (s P_involved_thread)) ?S)"
    by (rule const_sorted [where c = "sint tid"]) (simp only: set_sort key(1))
  then have s: "sort_key (\<lambda>(i, s, e). order_int (s P_involved_thread)) ?S = ?S" by (rule sort_key_sorted)
  have "map (\<lambda>(i, s, e). order_int (s P_time)) ?S = map (\<lambda>d. uint (cr_start (read_of d))) ?S"
    using key(2) by (intro map_cong refl) (simp only: set_sort)
  then have "sorted (map (\<lambda>d. uint (cr_start (read_of d))) ?S)"
    using sorted_sort_key [of "\<lambda>(i, s, e). order_int (s P_time)" ?P] by (simp only:)
  then have so: "sorted (map cr_start (map read_of ?S))" by (simp add: sorted_wrt_map word_le_def comp_def)
  have m: "mset (map read_of ?S) = mset ?J" using call_pairs_mset [OF inv c] by (simp add: mset_map)
  have inj: "inj_on cr_start (set ?J)" by (rule call_start_inj [OF c d])
  have "map read_of ?S = sort_key cr_start ?J"
    by (rule sort_key_inj_key_eq [OF m [symmetric] inj so, symmetric])
  moreover have "sort_key cr_thread (sort_key cr_start ?J) = sort_key cr_start ?J"
  proof (rule sort_key_sorted)
    have "cr_thread r = tid" if r: "r \<in> set ?J" for r
    proof -
      obtain e where "e \<in> set (drop n h)" "cr_thread r = ev_thread_id e" using call_join_thread [OF r] by blast
      then show ?thesis using c by (auto simp: in_set_conv_nth calls_from_def)
    qed
    then show "sorted (map cr_thread (sort_key cr_start ?J))"
      by (intro const_sorted [where c = tid]) simp
  qed
  moreover have "map_fault read_call ?S = Inr (map read_of ?S)" using rd by (intro map_fault_all) auto
  ultimately show ?thesis by (simp add: call_select_def s call_query_def)
qed

section \<open>What a run leaves alone\<close>

definition frame :: "store \<Rightarrow> u64 \<times> (u64 \<times> th_ptr) list \<times> th_ptr list \<times> th_ptr option" where
  "frame s = (thread_id s, thread_events s, finished_thread_events s, main_thread s)"

definition framed :: "u64 \<Rightarrow> u64 \<times> (u64 \<times> th_ptr) list \<times> th_ptr list \<times> th_ptr option \<Rightarrow> store \<Rightarrow> bool" where
  "framed self v s \<longleftrightarrow> frame s = v \<and> current_thread s self \<noteq> None"

lemma log_event_framed [keeps]: "c_keeps (framed self v) (log_event self clk (EnclaveB e b))"
proof (rule c_keepsI)
  fix s assume "framed self v s"
  then show "framed self v (snd (log_event self clk (EnclaveB e b) s))"
    by (auto simp: framed_def frame_def log_event_def make_event_def alloc_event_def Let_def c_bind_def c_then_def insert_event_def
        find_current_def upd_thread_def upd_event_def new_event_def)
qed

lemma store_framed [keeps]:
  "c_keeps (framed self v) em_read_lock" "c_keeps (framed self v) em_read_unlock" "c_keeps (framed self v) (enclave_at eid)"
  "c_keeps (framed self v) (upd_enclave x f)" "c_keeps (framed self v) (upd_thread t g)" "c_keeps (framed self v) (upd_event p k)"
  "c_keeps (framed self v) (get_thread self)"
  by (auto simp: c_keeps_def framed_def frame_def acquire_def release_def enclave_at_def upd_enclave_def upd_thread_def upd_event_def get_thread_def
      split: option.split)

lemma calls_framed [keeps]:
  "c_keeps (framed self v) (get_current_call t)" "c_keeps (framed self v) (set_current_call t c)" "c_keeps (framed self v) (pop_call t)"
  "c_keeps (framed self v) (ecall_aex_count t)" "c_keeps (framed self v) (orig_bridge eid i)"
  unfolding get_current_call_def set_current_call_def pop_call_def ecall_aex_count_def orig_bridge_def by (intro keeps)+

lemma handlers_framed:
  "(\<And>x. c_keeps (framed self v) (enter x)) \<Longrightarrow> c_keeps (framed self v) (sgx_ecall self clk mm enter eid i tbl arg)"
  "(\<And>x y. c_keeps (framed self v) (bridge x y)) \<Longrightarrow> c_keeps (framed self v) (ocall_bridge self clk bridge arg eid i)"
  "c_keeps (framed self v) (really_new_aep self clk tracing)"
  unfolding sgx_ecall_def ocall_bridge_def really_new_aep_def by (intro keeps; assumption?)+

lemma run_framed:
  shows "c_keeps (framed (re_self R) v) (run_u R a)" and "c_keeps (framed (re_self R) v) (run_us R as)"
    and "c_keeps (framed (re_self R) v) (run_e R eid b)" and "c_keeps (framed (re_self R) v) (run_es R eid bs)"
  by (induction R a and R as and R eid b and R eid bs rule: run_u_run_us_run_e_run_es.induct)
    (simp only: run_u.simps run_us.simps run_e.simps run_es.simps, intro keeps handlers_framed; assumption?)+

section \<open>The trace of a run\<close>

lemma tr_refs:
  shows "(i, x) \<in> set (enumerate n (tr_u tracing n c a)) \<Longrightarrow> q \<in> set (ev_refs x) \<Longrightarrow> q \<in> {n..<i} \<or> c = Some q"
    and "(i, x) \<in> set (enumerate n (tr_us tracing n c as)) \<Longrightarrow> q \<in> set (ev_refs x) \<Longrightarrow> q \<in> {n..<i} \<or> c = Some q"
    and "(i, x) \<in> set (enumerate n (tr_e tracing eid n d b)) \<Longrightarrow> q \<in> set (ev_refs x) \<Longrightarrow> q \<in> {n..<i} \<or> d = q"
    and "(i, x) \<in> set (enumerate n (tr_es tracing eid n d bs)) \<Longrightarrow> q \<in> set (ev_refs x) \<Longrightarrow> q \<in> {n..<i} \<or> d = q"
proof (induction tracing n c a and tracing n c as and tracing eid n d b and tracing eid n d bs
      rule: tr_u_tr_us_tr_e_tr_es.induct)
  case (1 tracing n c eid k arg ret acts)
  then show ?case by (auto simp: enumerate_append_eq in_set_enumerate_eq split: option.splits)
next
  case (3 tracing n c a as)
  then show ?case by (fastforce simp: enumerate_append_eq Let_def)
next
  case (4 tracing eid n d k arg ret acts)
  then show ?case by (auto simp: enumerate_append_eq in_set_enumerate_eq)
next
  case (7 tracing eid n d a as)
  then show ?case by (fastforce simp: enumerate_append_eq Let_def)
qed (auto split: if_splits)

lemma tr_no_page:
  shows "\<forall>x \<in> set (tr_u tracing n c a). \<not> is_page_event x" and "\<forall>x \<in> set (tr_us tracing n c as). \<not> is_page_event x"
    and "\<forall>x \<in> set (tr_e tracing eid n d b). \<not> is_page_event x" and "\<forall>x \<in> set (tr_es tracing eid n d bs). \<not> is_page_event x"
  by (induction tracing n c a and tracing n c as and tracing eid n d b and tracing eid n d bs
      rule: tr_u_tr_us_tr_e_tr_es.induct) (auto simp: Let_def is_page_event_def)

definition kind_type :: "call_kind \<Rightarrow> call_type_t" where
  "kind_type k = (case k of CallPlain \<Rightarrow> UNDEF | ECallKind n \<Rightarrow> ECALL | OCallKind \<Rightarrow> OCALL)"

lemma call_key_nth:
  "(p, ty, c) \<in> set (keys n bs) \<Longrightarrow>
   \<exists>eid i a k. p \<in> {n..<n + length bs} \<and> bs ! (p - n) = EnclaveB eid (EnclaveCall i a c k) \<and> kind_type k = ty"
proof (induction n bs rule: keys.induct)
  case (2 n b bs)
  from 2(2) have "(p, ty, c) \<in> set (call_key n b) \<or> (p, ty, c) \<in> set (keys (Suc n) bs)" by auto
  then show ?case
  proof
    assume "(p, ty, c) \<in> set (call_key n b)"
    then show ?thesis by (cases "(n, b)" rule: call_key.cases) (auto simp: kind_type_def)
  next
    assume "(p, ty, c) \<in> set (keys (Suc n) bs)"
    with 2(1) obtain eid i a k where "p \<in> {Suc n..<Suc n + length bs}" "bs ! (p - Suc n) = EnclaveB eid (EnclaveCall i a c k)" "kind_type k = ty"
      by blast
    then show ?thesis by (auto simp: nth_Cons')
  qed
qed simp

text \<open>A return event of a run closes a call event of the run.\<close>

lemma tr_ret_call:
  assumes "x \<in> set (tr_us tracing n c as)" "(q, ty) \<in> set (ret_of x)"
  shows "\<exists>eid i a d k. q \<in> {n..<n + length (tr_us tracing n c as)} \<and>
    tr_us tracing n c as ! (q - n) = EnclaveB eid (EnclaveCall i a d k) \<and> kind_type k = ty"
proof -
  have "(q, ty) \<in> set (rets (tr_us tracing n c as))" using assms by (auto simp: rets_def)
  then have "(q, ty) \<in># mset (rets (tr_us tracing n c as))" by simp
  then have "(q, ty) \<in># mset (map (\<lambda>(p, ty, q). (p, ty)) (keys n (tr_us tracing n c as)))" by (simp only: tr_calls_return(2))
  then obtain d where "(q, ty, d) \<in> set (keys n (tr_us tracing n c as))" by auto
  then show ?thesis using call_key_nth by blast
qed

section \<open>Finalising a store in which no thread is in a call\<close>

lemma finalize_threads_idle:
  "\<forall>t \<in> set ts. cur t s = None \<Longrightarrow>
   finalize_threads self now cpu ts s = Some (s\<lparr>finished_thread_events := finished_thread_events s @ ts\<rparr>)"
  by (induction ts arbitrary: s) simp_all

lemma finalize_idle:
  assumes "\<forall>t \<in> set (map snd (thread_events s)). cur t s = None"
  shows "finalize self now cpu s = Some (s\<lparr>finalized := True, end_time := timespec_ns now,
    finished_thread_events := finished_thread_events s @ map snd (thread_events s), thread_events := []\<rparr>)"
  using assms by (simp add: finalize_def finalize_threads_idle)

section \<open>A store before the run\<close>

text \<open>Collection is going on, no call has been logged yet, and thread \<open>t\<close> is running.\<close>

definition queues_ok :: "store \<Rightarrow> bool" where
  "queues_ok s \<longleftrightarrow> (\<forall>t < length (threads s). distinct (th_events (threads s ! t))) \<and>
     (\<forall>t < length (threads s). \<forall>u < length (threads s). t \<noteq> u \<longrightarrow> set (th_events (threads s ! t)) \<inter> set (th_events (threads s ! u)) = {})"

definition before_calls :: "th_ptr \<Rightarrow> store \<Rightarrow> bool" where
  "before_calls t s \<longleftrightarrow> store_inv s \<and> main_thread s \<noteq> None \<and> wf_heap (events s) \<and> typed_bodies (map ev_body (events s)) \<and>
     length (threads s) < 2 ^ 63 \<and> (\<forall>e \<in> set (events s). ev_sql_id e = UINT64_MAX \<and> ret_of (ev_body e) = []) \<and>
     no_null_enclave s \<and> distinct (finished_thread_events s @ map snd (thread_events s)) \<and> t \<in> snd ` set (thread_events s) \<and> queues_ok s \<and>
     (\<forall>u < length (threads s). cur u s = None \<and> text_lit (th_name (threads s ! u)) \<noteq> None)"

lemma distinct_queues:
  assumes "distinct ts" "\<forall>t \<in> set ts. distinct (f t)" "\<forall>t \<in> set ts. \<forall>u \<in> set ts. t \<noteq> u \<longrightarrow> set (f t) \<inter> set (f u) = {}"
  shows "distinct (concat (map f ts))"
  using assms by (induction ts) auto

lemma stamped_nth:
  "i < length bs \<Longrightarrow> stamped R tid n bs ! i = (new_event (re_self R) (fst (re_clk R (n + i))) (snd (re_clk R (n + i))) (bs ! i))\<lparr>ev_thread_id := tid\<rparr>"
  by (simp add: stamped_def nth_enumerate_eq)

text \<open>How the store looks after the run.\<close>

definition after_calls :: "run_env \<Rightarrow> th_ptr \<Rightarrow> bool \<Rightarrow> uact list \<Rightarrow> store \<Rightarrow> store \<Rightarrow> bool" where
  "after_calls R t tracing as s s' \<longleftrightarrow> frame s' = frame s \<and> current_thread s' = current_thread s \<and> enclave_map s' = enclave_map s \<and>
     events s' = events s @ stamped R (of_nat t) (length (events s)) (tr_us tracing (length (events s)) None as) \<and>
     (\<exists>le. threads s' = (threads s)[t := (threads s ! t)\<lparr>th_last_enclave := le,
        th_events := th_events (threads s ! t) @ [length (events s)..<length (events s')]\<rparr>])"

lemma before_callsD:
  assumes "before_calls t s"
  shows "store_inv s" "t < length (threads s)" "wf_heap (events s)" "typed_bodies (map ev_body (events s))" "queues_ok s"
    "\<And>u. u < length (threads s) \<Longrightarrow> cur u s = None" "th_sql_id (threads s ! t) = of_nat t"
    "\<And>u. u \<in> set (finished_thread_events s) \<union> snd ` set (thread_events s) \<Longrightarrow> u < length (threads s)"
    "\<And>u p. u < length (threads s) \<Longrightarrow> p \<in> set (th_events (threads s ! u)) \<Longrightarrow> p < length (events s)"
proof -
  show I: "store_inv s" and "wf_heap (events s)" and "typed_bodies (map ev_body (events s))" and "queues_ok s"
    using assms by (simp_all add: before_calls_def)
  show lt: "u < length (threads s)" if "u \<in> set (finished_thread_events s) \<union> snd ` set (thread_events s)" for u
    using I that by (auto simp: store_inv_def)
  show t: "t < length (threads s)" using lt assms by (simp add: before_calls_def)
  show "th_sql_id (threads s ! t) = of_nat t" using I t by (simp add: store_inv_def)
  show "cur u s = None" if "u < length (threads s)" for u using assms that by (simp add: before_calls_def)
  show "p < length (events s)" if "u < length (threads s)" "p \<in> set (th_events (threads s ! u))" for u p
    using I that by (simp add: store_inv_def)
qed

lemma ran_after:
  assumes b: "before_calls t s" and r: "ran R t 0 s s' (tr_us tracing (length (events s)) None as)" and f: "frame s' = frame s"
  shows "after_calls R t tracing as s s'"
  using r f before_callsD(7) [OF b] by (simp add: after_calls_def ran_def)

lemma after_store_inv:
  assumes b: "before_calls t s" and a: "after_calls R t tracing as s s'"
  shows "store_inv s'" "length (threads s') = length (threads s)"
proof -
  note I = before_callsD(1,2) [OF b]
  obtain le where th: "threads s' = (threads s)[t := (threads s ! t)\<lparr>th_last_enclave := le,
        th_events := th_events (threads s ! t) @ [length (events s)..<length (events s')]\<rparr>]" using a by (auto simp: after_calls_def)
  have fr: "thread_id s' = thread_id s" "thread_events s' = thread_events s" "current_thread s' = current_thread s"
    "finished_thread_events s' = finished_thread_events s" "main_thread s' = main_thread s"
    and e: "events s' = events s @ stamped R (of_nat t) (length (events s)) (tr_us tracing (length (events s)) None as)"
    using a by (simp_all add: after_calls_def frame_def)
  show "length (threads s') = length (threads s)" by (simp add: th)
  show "store_inv s'"
    using I by (auto simp: store_inv_def fr th e nth_list_update nth_append stamped_nth intro: trans_less_add1)
qed

lemma after_body:
  assumes "after_calls R t tracing as s s'" "length (events s) \<le> p" "p < length (events s')"
  shows "ev_body (events s' ! p) = tr_us tracing (length (events s)) None as ! (p - length (events s))"
    "(p, ev_body (events s' ! p)) \<in> set (enumerate (length (events s)) (tr_us tracing (length (events s)) None as))"
    "ev_body (events s' ! p) \<in> set (tr_us tracing (length (events s)) None as)"
proof -
  have e: "events s' = events s @ stamped R (of_nat t) (length (events s)) (tr_us tracing (length (events s)) None as)"
    using assms(1) by (simp add: after_calls_def)
  show b: "ev_body (events s' ! p) = tr_us tracing (length (events s)) None as ! (p - length (events s))"
    using assms(2,3) by (simp add: e nth_append stamped_nth new_event_def)
  then show "(p, ev_body (events s' ! p)) \<in> set (enumerate (length (events s)) (tr_us tracing (length (events s)) None as))"
    using assms(2,3) by (simp add: in_set_enumerate_eq e)
  show "ev_body (events s' ! p) \<in> set (tr_us tracing (length (events s)) None as)"
    unfolding b using assms(2,3) by (intro nth_mem) (simp add: e)
qed

lemma after_old:
  assumes "after_calls R t tracing as s s'" "p < length (events s)"
  shows "events s' ! p = events s ! p" "p < length (events s')"
  using assms by (simp_all add: after_calls_def nth_append)

lemma after_heap:
  assumes b: "before_calls t s" and a: "after_calls R t tracing as s s'"
  shows "wf_heap (events s')" "typed_bodies (map ev_body (events s'))"
proof -
  have new: "length (events s) \<le> q \<and> q < p" if "length (events s) \<le> p" "p < length (events s')" "q \<in> set (ev_refs (ev_body (events s' ! p)))" for p q
    using tr_refs(2) [OF after_body(2) [OF a that(1,2)] that(3)] by simp
  have old: "q < p \<and> \<not> is_page_event (ev_body (events s ! q))" if "p < length (events s)" "q \<in> set (ev_refs (ev_body (events s' ! p)))" for p q
  proof -
    have r: "q \<in> set (ev_refs (ev_body (events s ! p)))" using that(2) after_old(1) [OF a that(1)] by simp
    have "q < p" using before_callsD(3) [OF b, unfolded wf_heap_def] that(1) r by blast
    moreover have "\<not> is_page_event (ev_body (events s ! q))" using before_callsD(4) [OF b, unfolded typed_bodies_nth] that(1) r by blast
    ultimately show ?thesis by simp
  qed
  show "wf_heap (events s')"
    unfolding wf_heap_def
  proof (intro allI impI ballI)
    fix p q assume "p < length (events s')" "q \<in> set (ev_refs (ev_body (events s' ! p)))"
    then show "q < p" using new [of p q] old [of p q] by (cases "p < length (events s)") simp_all
  qed
  show "typed_bodies (map ev_body (events s'))"
    unfolding typed_bodies_nth
  proof (intro allI impI ballI)
    fix p q assume p: "p < length (events s')" and q: "q \<in> set (ev_refs (ev_body (events s' ! p)))"
    show "q < length (events s') \<and> \<not> is_page_event (ev_body (events s' ! q))"
    proof (cases "p < length (events s)")
      case True
      have o: "q < p" "\<not> is_page_event (ev_body (events s ! q))" using old [OF True q] by simp_all
      have "q < length (events s)" using o(1) True by simp
      then show ?thesis using o(2) after_old [OF a, of q] by simp
    next
      case False
      then have qn: "length (events s) \<le> q" "q < length (events s')" using new [OF _ p q] p by simp_all
      then have "ev_body (events s' ! q) \<in> set (tr_us tracing (length (events s)) None as)" by (rule after_body(3) [OF a])
      then show ?thesis using qn(2) bspec [OF tr_no_page(2)] by simp
    qed
  qed
qed

lemma after_queues:
  assumes b: "before_calls t s" and a: "after_calls R t tracing as s s'"
  shows "queues_ok s'" "{length (events s)..<length (events s')} \<subseteq> set (th_events (threads s' ! t))"
    "\<And>u. u < length (threads s) \<Longrightarrow> cur u s' = None \<and> th_name (threads s' ! u) = th_name (threads s ! u)"
proof -
  note B = before_callsD [OF b]
  obtain le where th: "threads s' = (threads s)[t := (threads s ! t)\<lparr>th_last_enclave := le,
        th_events := th_events (threads s ! t) @ [length (events s)..<length (events s')]\<rparr>]" using a by (auto simp: after_calls_def)
  let ?new = "{length (events s)..<length (events s')}"
  have q: "set (th_events (threads s' ! u)) = set (th_events (threads s ! u)) \<union> (if u = t then ?new else {})" if "u < length (threads s)" for u
    using that by (simp add: th nth_list_update)
  have o: "set (th_events (threads s ! u)) \<inter> ?new = {}" if "u < length (threads s)" for u using B(9) [OF that] by fastforce
  have d: "distinct (th_events (threads s' ! u))" if "u < length (threads s)" for u
    using B(5) o [OF that] that by (cases "u = t") (simp_all add: th queues_ok_def)
  have p: "set (th_events (threads s' ! u)) \<inter> set (th_events (threads s' ! v)) = {}"
    if "u < length (threads s)" "v < length (threads s)" "u \<noteq> v" for u v
  proof -
    have "set (th_events (threads s ! u)) \<inter> set (th_events (threads s ! v)) = {}" using B(5) that by (simp add: queues_ok_def)
    then show ?thesis unfolding q [OF that(1)] q [OF that(2)] using o [OF that(1)] o [OF that(2)] that(3) by auto
  qed
  show "queues_ok s'" using d p by (simp add: queues_ok_def after_store_inv(2) [OF b a])
  show "?new \<subseteq> set (th_events (threads s' ! t))" using q [OF B(2)] by simp
  show "cur u s' = None \<and> th_name (threads s' ! u) = th_name (threads s ! u)" if "u < length (threads s)" for u
    using B(6) [OF that] that by (cases "u = t") (simp_all add: th)
qed

text \<open>After the run and the finalisation the store can be serialised.\<close>

definition ended :: "u64 \<times> u64 \<Rightarrow> store \<Rightarrow> store" where
  "ended now s = s\<lparr>finalized := True, end_time := timespec_ns now,
     finished_thread_events := finished_thread_events s @ map snd (thread_events s), thread_events := []\<rparr>"

lemma run_ready:
  assumes b: "before_calls t s" and a: "after_calls R t tracing as s s'" and len: "length (events s') < 2 ^ 63"
  shows "ready (ended now s')" "finalize self now cpu s' = Some (ended now s')"
    "{length (events s)..<length (events s')} \<subseteq> set (fin_queue (ended now s'))"
proof -
  note B = before_callsD [OF b]
  have fr: "thread_events s' = thread_events s" "finished_thread_events s' = finished_thread_events s" "main_thread s' = main_thread s"
    "enclave_map s' = enclave_map s"
    and e: "events s' = events s @ stamped R (of_nat t) (length (events s)) (tr_us tracing (length (events s)) None as)"
    using a by (simp_all add: after_calls_def frame_def)
  let ?ts = "finished_thread_events (ended now s')"
  have ts: "?ts = finished_thread_events s @ map snd (thread_events s)" by (simp add: ended_def fr)
  have lt: "\<And>u. u \<in> set ?ts \<Longrightarrow> u < length (threads s)" using B(8) ts by auto
  note Q = after_queues [OF b a]
  show "finalize self now cpu s' = Some (ended now s')"
    using finalize_idle [of s' self now cpu] Q(3) lt ts by (simp add: ended_def fr)
  have "distinct ?ts" "t \<in> set ?ts" using b ts by (auto simp: before_calls_def)
  note I = after_store_inv [OF b a]
  have "set ?ts \<subseteq> {..<length (threads s')}" using lt I(2) by auto
  then have "store_inv (ended now s')" using I(1) by (simp add: store_inv_def) (simp add: ended_def)
  moreover have "distinct (fin_queue (ended now s'))"
    unfolding fin_queue_def using \<open>distinct ?ts\<close>
    by (rule distinct_queues) (use Q(1) lt I(2) in \<open>auto simp: queues_ok_def ended_def\<close>)
  moreover have "\<forall>x \<in> set (events s'). ev_sql_id x = UINT64_MAX"
    using b by (auto simp: before_calls_def e stamped_def new_event_def)
  moreover have "\<forall>u \<in> set ?ts. text_lit (th_name (threads (ended now s') ! u)) \<noteq> None"
    using b Q(3) lt by (simp add: before_calls_def ended_def)
  ultimately show "ready (ended now s')"
    using b len after_heap [OF b a] I(2) \<open>distinct ?ts\<close>
    by (simp add: ready_def before_calls_def no_null_enclave_def) (simp add: ended_def fr)
  show "{length (events s)..<length (events s')} \<subseteq> set (fin_queue (ended now s'))"
    using \<open>t \<in> set ?ts\<close> Q(2) by (auto simp: fin_queue_def ended_def)
qed

section \<open>The round trip\<close>

lemma norm_core:
  assumes "SummaryOk.norm x = SummaryOk.norm y"
  shows "ev_time x = ev_time y" "ev_thread_id x = ev_thread_id y" "ret_of (ev_body x) = ret_of (ev_body y)"
    "\<not> is_page_event (ev_body y) \<Longrightarrow> ev_body x = ev_body y"
proof -
  have p: "is_page_event (ev_body x) = is_page_event (ev_body y)" using norm_page [OF assms] .
  show "ev_time x = ev_time y" "ev_thread_id x = ev_thread_id y"
  proof -
    have "ev_time (SummaryOk.norm z) = ev_time z" "ev_thread_id (SummaryOk.norm z) = ev_thread_id z" for z
      by (simp_all add: SummaryOk.norm_def set_eid_def)
    from this [of x] this [of y] show "ev_time x = ev_time y" "ev_thread_id x = ev_thread_id y" unfolding assms by simp_all
  qed
  show b: "\<not> is_page_event (ev_body y) \<Longrightarrow> ev_body x = ev_body y"
    using arg_cong [OF assms, of ev_body] p by (simp add: SummaryOk.norm_def)
  have "ret_of c = []" if "is_page_event c" for c
    by (rule page_event_body [OF that]) simp
  then show "ret_of (ev_body x) = ret_of (ev_body y)" using b p by (cases "is_page_event (ev_body y)") simp_all
qed

definition core :: "event \<Rightarrow> ev_body \<times> u64 \<times> u64" where
  "core e = (ev_body e, ev_thread_id e, ev_time e)"

lemma call_join_core:
  assumes "map core xs = map core ys" shows "call_join ident n xs = call_join ident n ys"
proof -
  have l: "length xs = length ys" using assms by (metis length_map)
  have c: "core (xs ! i) = core (ys ! i)" if "i < length ys" for i using assms l that by (metis nth_map)
  have row: "join_row ident (p, x) e = join_row ident (p, x') e'" if "core x = core x'" "core e = core e'" for p x x' e e'
    using that by (auto simp: core_def join_row_def Let_def split: ev_body.split enclave_sub.split)
  have cols: "map (join_row ident (p, x)) xs = map (join_row ident (p, x')) ys" if "core x = core x'" for p x x'
    by (rule nth_equalityI) (use l row [OF that c] in simp_all)
  have "map (\<lambda>ps. concat (map (join_row ident ps) xs)) (enumerate n xs) = map (\<lambda>ps. concat (map (join_row ident ps) ys)) (enumerate n ys)"
    by (rule nth_equalityI) (use l cols [OF c] in \<open>simp_all add: nth_enumerate_eq\<close>)
  then show ?thesis by (simp add: call_join_def)
qed

definition clock_ok :: "run_env \<Rightarrow> nat \<Rightarrow> bool" where
  "clock_ok R n \<longleftrightarrow> (\<forall>i < n. timespec_ns (fst (re_clk R i)) < 2 ^ 63) \<and>
     (\<forall>i j. i < j \<longrightarrow> j < n \<longrightarrow> timespec_ns (fst (re_clk R i)) < timespec_ns (fst (re_clk R j)))"

text \<open>The heap of the summary is one the query can be read off.\<close>

lemma summary_calls_from:
  assumes b: "before_calls t s" and a: "after_calls R t tracing as s s'" and clk: "clock_ok R (length (events s'))"
    and h: "map SummaryOk.norm h = map SummaryOk.norm (events s')"
    and q: "\<forall>p \<in> {length (events s)..<length (events s')}. p \<in> ins h \<or> homeless st (events s' ! p)"
  shows "calls_from (length (events s)) (of_nat t) h" "map core (drop (length (events s)) h) = map core (drop (length (events s)) (events s'))"
proof -
  let ?n = "length (events s)" let ?bs = "tr_us tracing ?n None as"
  have e: "events s' = events s @ stamped R (of_nat t) ?n ?bs" using a by (simp add: after_calls_def)
  have l: "length h = length (events s')" using h by (metis length_map)
  have nm: "SummaryOk.norm (h ! p) = SummaryOk.norm (events s' ! p)" if "p < length (events s')" for p using h l that by (metis nth_map)
  have old: "ret_of (ev_body (h ! p)) = []" if "p < ?n" for p
  proof -
    have "ret_of (ev_body (events s ! p)) = []" using b that by (simp add: before_calls_def)
    then show ?thesis using norm_core(3) [OF nm [of p]] after_old [OF a that] by simp
  qed
  have np: "\<not> is_page_event (ev_body (events s' ! p))" if "?n \<le> p" "p < length (events s')" for p
    using bspec [OF tr_no_page(2) after_body(3) [OF a that]] .
  have new: "ev_body (h ! p) = ?bs ! (p - ?n)" "ev_thread_id (h ! p) = of_nat t" "ev_time (h ! p) = timespec_ns (fst (re_clk R p))" "p \<in> ins h"
    "ev_body (h ! p) = ev_body (events s' ! p)" if p: "?n \<le> p" "p < length (events s')" for p
  proof -
    note N = norm_core [OF nm [OF p(2)]]
    have x: "events s' ! p = (new_event (re_self R) (fst (re_clk R p)) (snd (re_clk R p)) (?bs ! (p - ?n)))\<lparr>ev_thread_id := of_nat t\<rparr>"
      using p by (simp add: e nth_append stamped_nth)
    show "ev_body (h ! p) = ev_body (events s' ! p)" by (rule N(4) [OF np [OF p]])
    then show "ev_body (h ! p) = ?bs ! (p - ?n)" by (simp add: x new_event_def)
    show "ev_thread_id (h ! p) = of_nat t" "ev_time (h ! p) = timespec_ns (fst (re_clk R p))" using N(1,2) by (simp_all add: x new_event_def)
    show "p \<in> ins h" using bspec [OF q, of p] p np [OF p] by (simp add: homeless_def)
  qed
  have ret: "q \<in> {?n..<length h} \<and> (\<exists>eid i a c k. ev_body (h ! q) = EnclaveB eid (EnclaveCall i a c k))"
    if p: "?n \<le> p" "p < length (events s')" and r: "(q, ty) \<in> set (ret_of (ev_body (h ! p)))" for p q ty
  proof -
    have "?bs ! (p - ?n) \<in> set ?bs" using p by (intro nth_mem) (simp add: e)
    from tr_ret_call [OF this r [unfolded new(1) [OF p]]] obtain eid i a d k where
      q: "q \<in> {?n..<?n + length ?bs}" "?bs ! (q - ?n) = EnclaveB eid (EnclaveCall i a d k)" by blast
    then have "?n \<le> q" "q < length (events s')" by (simp_all add: e)
    then show ?thesis using new(1) [of q] q(2) by (simp add: l)
  qed
  show "calls_from ?n (of_nat t) h"
    unfolding calls_from_def
  proof (intro conjI ballI allI impI)
    show "?n \<le> length h" by (simp add: l e)
    show "ret_of (ev_body (h ! p)) = []" if "p < ?n" for p using old [OF that] .
    show "ev_time (h ! p) < ev_time (h ! q)" if "?n \<le> p" "p < q" "q < length h" for p q
      using that new(3) [of p] new(3) [of q] clk by (simp add: clock_ok_def l)
    fix p assume "p \<in> {?n..<length h}"
    then have p: "?n \<le> p" "p < length (events s')" by (simp_all add: l)
    show "p \<in> ins h" "ev_thread_id (h ! p) = of_nat t" using new(2,4) [OF p] by simp_all
    show "ev_time (h ! p) < 2 ^ 63" unfolding new(3) [OF p] using clk p(2) unfolding clock_ok_def by blast
    show "case x of (q, ty) \<Rightarrow> q \<in> {?n..<length h} \<and> (\<exists>eid i a c k. ev_body (h ! q) = EnclaveB eid (EnclaveCall i a c k))"
      if "x \<in> set (ret_of (ev_body (h ! p)))" for x using ret [OF p, of "fst x" "snd x"] that by (cases x) simp
  qed
  show "map core (drop ?n h) = map core (drop ?n (events s'))"
    by (rule nth_equalityI) (use l norm_core(1,2) [OF nm] new(5) in \<open>simp_all add: core_def\<close>)
qed

lemma sql_id_inj: "ser_inv (h, rows) \<Longrightarrow> inj_on (get_sql_id h) (ins h)"
proof (rule inj_onI)
  fix p q assume "ser_inv (h, rows)" "p \<in> ins h" "q \<in> ins h" "get_sql_id h p = get_sql_id h q"
  moreover from this have "row_of h p = row_of h q" by (simp add: row_of_def)
  ultimately show "p = q" by (auto simp: ser_inv_def bij_betw_def dest: inj_onD)
qed

text \<open>The table of the finalised store, read back.\<close>

lemma summary_select:
  assumes b: "before_calls t s" and a: "after_calls R t tracing as s s'" and len: "length (events s') < 2 ^ 63"
    and clk: "clock_ok R (length (events s'))"
  shows "\<exists>r sm. create_summary False env dladdr (ended now s') (summ_init (ended now s') empty_db) = (r, sm) \<and>
    ser_inv (sm_heap sm, db_events (sm_db sm)) \<and> calls_from (length (events s)) (of_nat t) (sm_heap sm) \<and>
    of_nat t \<in> tr_id ` set (db_threads (sm_db sm)) \<and>
    inj_on (get_sql_id (sm_heap sm)) {length (events s)..<length (events s')} \<and>
    (distinct (map cr_id (call_query (get_sql_id (sm_heap sm)) (length (events s)) (drop (length (events s)) (events s')))) \<longrightarrow>
     call_select (db_events (sm_db sm)) = Inr (call_query (get_sql_id (sm_heap sm)) (length (events s)) (drop (length (events s)) (events s'))))"
proof -
  let ?n = "length (events s)"
  note R = run_ready [OF b a len]
  obtain r sm where sm: "create_summary False env dladdr (ended now s') (summ_init (ended now s') empty_db) = (r, sm)" "sm_ok sm"
    "map SummaryOk.norm (sm_heap sm) = map SummaryOk.norm (events s')"
    "\<forall>p \<in> set (fin_queue (ended now s')). p \<in> ins (sm_heap sm) \<or> homeless (ended now s') (events s' ! p)"
    "map tr_id (db_threads (sm_db sm)) = map (\<lambda>t. th_sql_id (threads s' ! t)) (finished_thread_events (ended now s'))"
    using create_summary_state [OF R(1), of env dladdr now] by (auto simp: ended_def)
  let ?h = "sm_heap sm"
  have "t \<in> set (finished_thread_events (ended now s'))" using b a by (auto simp: before_calls_def ended_def after_calls_def frame_def)
  moreover have "th_sql_id (threads s' ! t) = of_nat t"
    using after_store_inv [OF b a] before_callsD(2) [OF b] by (simp add: store_inv_def)
  ultimately have tid: "of_nat t \<in> tr_id ` set (db_threads (sm_db sm))"
    using arg_cong [OF sm(5), of set] by (simp only: set_map) (metis image_eqI)
  have inv: "ser_inv (?h, db_events (sm_db sm))" using sm(2) by (simp add: sm_ok_def)
  have "\<forall>p \<in> {?n..<length (events s')}. p \<in> ins ?h \<or> homeless (ended now s') (events s' ! p)" using sm(4) R(3) by blast
  note C = summary_calls_from [OF b a clk sm(3) this]
  have "length ?h = length (events s')" using sm(3) by (metis length_map)
  then have "{?n..<length (events s')} \<subseteq> ins ?h" using C(1) by (auto simp: calls_from_def)
  then have inj: "inj_on (get_sql_id ?h) {?n..<length (events s')}" by (rule inj_on_subset [OF sql_id_inj [OF inv]])
  have q: "call_query (get_sql_id ?h) ?n (drop ?n ?h) = call_query (get_sql_id ?h) ?n (drop ?n (events s'))"
    unfolding call_query_def by (simp only: call_join_core [OF C(2)])
  have "mset (map cr_id (call_query (get_sql_id ?h) ?n (drop ?n ?h))) = mset (map cr_id (call_join (get_sql_id ?h) ?n (drop ?n ?h)))"
    by (simp add: call_query_def)
  then have "distinct (map cr_id (call_join (get_sql_id ?h) ?n (drop ?n ?h)))"
    if "distinct (map cr_id (call_query (get_sql_id ?h) ?n (drop ?n ?h)))" using that mset_eq_imp_distinct_iff by blast
  then show ?thesis using call_select_eq [OF inv C(1)] sm(1) inj inv C(1) tid unfolding q by blast
qed

lemma round_trip_state:
  assumes "urts_ok R t s" and "before_calls t s" and "wf_us R (known_enclaves s) as"
    and "length (events s) + length (tr_us (re_tracing R) (length (events s)) None as) < 2 ^ 63"
    and "clock_ok R (length (events s) + length (tr_us (re_tracing R) (length (events s)) None as))"
  shows "\<exists>s' r sm rows. run_us R as s = (Inr (), s') \<and> after_calls R t (re_tracing R) as s s' \<and> finalize self now cpu s' = Some (ended now s') \<and>
    create_summary False env dladdr (ended now s') (summ_init (ended now s') empty_db) = (r, sm) \<and>
    ser_inv (sm_heap sm, db_events (sm_db sm)) \<and> calls_from (length (events s)) (of_nat t) (sm_heap sm) \<and>
    of_nat t \<in> tr_id ` set (db_threads (sm_db sm)) \<and> inj_on (get_sql_id (sm_heap sm)) {length (events s)..<length (events s')} \<and>
    call_select (db_events (sm_db sm)) = Inr rows \<and>
    rows = call_query (get_sql_id (sm_heap sm)) (length (events s)) (drop (length (events s)) (events s')) \<and>
    length rows = calls_us as \<and> distinct (map cr_id rows) \<and> open_rows rows \<noteq> None"
proof -
  let ?n = "length (events s)" let ?bs = "tr_us (re_tracing R) ?n None as"
  note B = before_callsD [OF assms(2)]
  have c: "in_call t s" "cur t s = None" using B(2,6) by (simp_all add: in_call_def)
  obtain s' where s': "run_us R as s = (Inr (), s')" "ran R t 0 s s' ?bs" using run_tree_ran(2) [OF assms(1) c(1) assms(3)] c(2) by auto
  have "framed (re_self R) (frame s) s" using assms(1) by (simp add: framed_def urts_ok_def)
  then have "framed (re_self R) (frame s) s'" using run_framed(2) [of R "frame s" as] s'(1) by (metis c_keeps_def snd_conv)
  then have a: "after_calls R t (re_tracing R) as s s'" using ran_after [OF assms(2) s'(2)] by (simp add: framed_def)
  then have e: "events s' = events s @ stamped R (of_nat t) ?n ?bs" by (simp add: after_calls_def)
  have l: "length (events s') = ?n + length ?bs" by (simp add: e)
  obtain r sm where sm: "create_summary False env dladdr (ended now s') (summ_init (ended now s') empty_db) = (r, sm)"
    "ser_inv (sm_heap sm, db_events (sm_db sm))" "calls_from ?n (of_nat t) (sm_heap sm)" "of_nat t \<in> tr_id ` set (db_threads (sm_db sm))"
    "inj_on (get_sql_id (sm_heap sm)) {?n..<length (events s')}"
    "distinct (map cr_id (call_query (get_sql_id (sm_heap sm)) ?n (drop ?n (events s')))) \<longrightarrow>
     call_select (db_events (sm_db sm)) = Inr (call_query (get_sql_id (sm_heap sm)) ?n (drop ?n (events s')))"
    using summary_select [OF assms(2) a assms(4,5) [folded l], of env dladdr now] by blast
  have "\<forall>i j. i \<le> j \<longrightarrow> j < ?n + length ?bs \<longrightarrow> timespec_ns (fst (re_clk R i)) \<le> timespec_ns (fst (re_clk R j))"
    using assms(5) by (auto simp: clock_ok_def le_less)
  from trace_rows [OF sm(5) [unfolded l] this refl]
  have "open_rows (call_query (get_sql_id (sm_heap sm)) ?n (drop ?n (events s'))) \<noteq> None"
    "distinct (map cr_id (call_query (get_sql_id (sm_heap sm)) ?n (drop ?n (events s'))))"
    "length (call_query (get_sql_id (sm_heap sm)) ?n (drop ?n (events s'))) = calls_us as" by (simp_all add: e)
  with s'(1) a run_ready(2) [OF assms(2) a assms(4) [folded l]] sm show ?thesis by blast
qed

lemma round_trip:
  assumes "urts_ok R t s" and "before_calls t s" and "wf_us R (known_enclaves s) as"
    and "length (events s) + length (tr_us (re_tracing R) (length (events s)) None as) < 2 ^ 63"
    and "clock_ok R (length (events s) + length (tr_us (re_tracing R) (length (events s)) None as))"
  shows "\<exists>s' s'' r sm rows. run_us R as s = (Inr (), s') \<and> finalize self now cpu s' = Some s'' \<and>
    create_summary False env dladdr s'' (summ_init s'' empty_db) = (r, sm) \<and> call_select (db_events (sm_db sm)) = Inr rows \<and>
    rows = call_query (get_sql_id (sm_heap sm)) (length (events s)) (drop (length (events s)) (events s')) \<and>
    length rows = calls_us as \<and> distinct (map cr_id rows) \<and> open_rows rows \<noteq> None"
  using round_trip_state [OF assms, of self now cpu env dladdr] by blast

text \<open>C4: the calls of a program survive the whole way from the handlers to the analyzer. On a store in which no call has been logged
  yet, any tree of ecalls, ocalls and asynchronous exits runs without a fault, the store can be finalised and is written, and the query
  of the analyzer over the \<open>events\<close> table, with the columns read as its callback reads them, then returns exactly one row per call:
  with its enclave, number, thread, times, count of exits and the call it was made in as they were logged, ordered by start and nested
  as the loading requires. The clock is assumed to advance between events and to stay below 64 bits signed.\<close>

theorem calls_round_trip:
  assumes "urts_ok R t s" and "before_calls t s" and "wf_us R (known_enclaves s) as"
    and "length (events s) + length (tr_us (re_tracing R) (length (events s)) None as) < 2 ^ 63"
    and "clock_ok R (length (events s) + length (tr_us (re_tracing R) (length (events s)) None as))"
  shows "\<exists>s' s'' r sm rows. run_us R as s = (Inr (), s') \<and> finalize self now cpu s' = Some s'' \<and>
    create_summary False env dladdr s'' (summ_init s'' empty_db) = (r, sm) \<and> call_select (db_events (sm_db sm)) = Inr rows \<and>
    rows = call_query (get_sql_id (sm_heap sm)) (length (events s)) (drop (length (events s)) (events s')) \<and>
    length rows = calls_us as \<and> distinct (map cr_id rows) \<and> open_rows rows \<noteq> None"
  by (rule round_trip [OF assms])

lemma ex_urts_before: "before_calls 0 ex_urts" "urts_ok ex_env 0 ex_urts" "wf_us ex_env (known_enclaves ex_urts) ex_tree"
proof -
  show "before_calls 0 ex_urts"
    by (simp add: before_calls_def store_inv_def wf_heap_def typed_bodies_def no_null_enclave_def queues_ok_def ex_urts_def EventStore_def
        new_thread_def)
  show "urts_ok ex_env 0 ex_urts"
    by (simp add: urts_ok_def ex_urts_def EventStore_def ex_env_def tables_ok_def new_enclave_def)
  have "known_enclaves ex_urts = {2}" by (auto simp: known_enclaves_def ex_urts_def)
  then show "wf_us ex_env (known_enclaves ex_urts) ex_tree" by (simp add: ex_tree_def ex_env_def)
qed

lemma ex_clock_ok: "clock_ok ex_env 9"
proof -
  have "unat (timespec_ns (fst (re_clk ex_env k))) = k + 4000000000" if "k < 9" for k
    using that by (simp add: ex_env_def unat_word_ariths unat_of_nat)
  then show ?thesis by (simp add: clock_ok_def word_less_nat_alt)
qed

theorem calls_round_trip_witness:
  "\<exists>s' s'' r sm rows. run_us ex_env ex_tree ex_urts = (Inr (), s') \<and> finalize 7 (9, 1) 0 s' = Some s'' \<and>
    create_summary False ex_elf (\<lambda>_. None) s'' (summ_init s'' empty_db) = (r, sm) \<and> call_select (db_events (sm_db sm)) = Inr rows \<and>
    length rows = 3 \<and> open_rows rows \<noteq> None"
proof -
  have e: "length (events ex_urts) = 0" "length (tr_us (re_tracing ex_env) 0 None ex_tree) = 9" "calls_us ex_tree = 3"
    by (simp_all add: ex_urts_def EventStore_def ex_env_def ex_tree_def)
  show ?thesis
    using calls_round_trip [OF ex_urts_before(2,1,3), unfolded e(1), of 7 "(9, 1)" 0 ex_elf "\<lambda>_. None"] e ex_clock_ok by auto
qed

end
