(* ===== verification/DbLoad.thy ===== *)
theory DbLoad
  imports RoundTrip Schema "HOL-Library.List_Lexorder" "HOL-Library.Char_ord"
begin

text \<open>
  How the analyzer loads a database: \<open>sql_exec\<close> of \<^verbatim>\<open>src/analyzer/src/util.cpp\<close>, which hands the rows of a result to a callback and ends the
  program when the statement fails, and the five queries of \<open>analyze_calls\<close> in \<^verbatim>\<open>src/analyzer/src/calls.cpp\<close> over the tables the logger
  writes.
\<close>

section \<open>Executing a statement\<close>

text \<open>A callback that does not return 0 makes \<open>sqlite3_exec\<close> stop with an error.\<close>

fun exec_rows :: "('r \<Rightarrow> 's \<Rightarrow> fault + int \<times> 's) \<Rightarrow> 'r list \<Rightarrow> 's \<Rightarrow> fault + 's" where
  "exec_rows cb [] s = Inr s"
| "exec_rows cb (r # rs) s = fbind (cb r s) (\<lambda>(rc, s'). if rc \<noteq> 0 then Inl (Exit (-1)) else exec_rows cb rs s')"

text \<open>\<open>None\<close> is a statement that SQLite does not execute.\<close>

definition sql_exec :: "'r list option \<Rightarrow> ('r \<Rightarrow> 's \<Rightarrow> fault + int \<times> 's) \<Rightarrow> 's \<Rightarrow> fault + 's" where
  "sql_exec result cb s = (case result of None \<Rightarrow> Inl (Exit (-1)) | Some rows \<Rightarrow> exec_rows cb rows s)"

text \<open>Executing a stream empties it; \<open>query\<close> is what SQLite makes of a statement.\<close>

definition sql_exec_stream ::
  "(string \<Rightarrow> 'r list option) \<Rightarrow> ('r \<Rightarrow> 's \<Rightarrow> fault + int \<times> 's) \<Rightarrow> string \<times> 's \<Rightarrow> fault + string \<times> 's" where
  "sql_exec_stream query cb x = fbind (sql_exec (query (fst x)) cb (snd x)) (\<lambda>s. Inr ([], s))"

text \<open>The callbacks all return 0.\<close>

definition returns0 :: "('r \<Rightarrow> 's \<Rightarrow> fault + 's) \<Rightarrow> 'r \<Rightarrow> 's \<Rightarrow> fault + int \<times> 's" where
  "returns0 f r s = map_sum id (\<lambda>s'. (0, s')) (f r s)"

section \<open>The queries\<close>

definition general_rows :: "database \<Rightarrow> (string \<times> sql_val) list" where
  "general_rows d = sort_key fst (db_general d)"

definition general_row_callback :: "string \<times> sql_val \<Rightarrow> analysis \<Rightarrow> fault + analysis" where
  "general_row_callback r a = fbind (column (Some (snd r))) (\<lambda>v. Inr (general_callback (fst r) v a))"

definition ecall_rows :: "database \<Rightarrow> ecall_row list" where
  "ecall_rows d = sort_key er_id (db_ecalls d)"

definition ecall_row_callback :: "ecall_row \<Rightarrow> analysis \<Rightarrow> fault + analysis" where
  "ecall_row_callback r a = ecalls_callback (of_nat (er_id r)) (er_eid r) (Some (er_symbol_name r)) a"

definition ocall_rows :: "database \<Rightarrow> ocall_row list" where
  "ocall_rows d = sort_key or_id (db_ocalls d)"

definition ocall_row_callback :: "ocall_row \<Rightarrow> analysis \<Rightarrow> fault + analysis" where
  "ocall_row_callback r a = ocalls_callback (of_nat (or_id r)) (or_eid r) (or_symbol_name r) a"

text \<open>The events of a thread that refer to an event of the table, and the threads that have such events.\<close>

definition linked_events :: "database \<Rightarrow> thread_row \<Rightarrow> row list" where
  "linked_events d t =
     filter (\<lambda>e. e P_involved_thread = Some (num_lit (tr_id t)) \<and> row_with_id (db_events d) (e P_call_event) \<noteq> None) (db_events d)"

definition thread_rows :: "database \<Rightarrow> (thread_row \<times> nat) list" where
  "thread_rows d =
     map (\<lambda>t. (t, length (linked_events d t))) (filter (\<lambda>t. linked_events d t \<noteq> []) (sort_key tr_id (db_threads d)))"

definition thread_row_callback :: "thread_row \<times> nat \<Rightarrow> analysis \<Rightarrow> fault + analysis" where
  "thread_row_callback r a =
     fbind (column (Some (tr_pthread_id (fst r)))) (\<lambda>p. Inr (thread_callback (tr_id (fst r)) p (of_nat (snd r)) a))"

definition ordered_pairs :: "database \<Rightarrow> (sql_val option \<times> row \<times> row) list" where
  "ordered_pairs d = sort_key (\<lambda>(i, s, e). order_int (s P_involved_thread)) (sort_key (\<lambda>(i, s, e). order_int (s P_time)) (call_pairs (db_events d)))"

definition call_row_callback :: "sql_val option \<times> row \<times> row \<Rightarrow> analysis \<Rightarrow> fault + analysis" where
  "call_row_callback x a = fbind (read_call x) (\<lambda>r. call_data_callback r a)"

text \<open>\<open>ok k\<close>: SQLite executes the \<open>k\<close>-th statement.\<close>

definition load_database :: "(nat \<Rightarrow> bool) \<Rightarrow> database \<Rightarrow> fault + analysis" where
  "load_database ok d =
     fbind (sql_exec (if ok 0 then Some (general_rows d) else None) (returns0 general_row_callback) new_analysis) (\<lambda>a.
         fbind (sql_exec (if ok 1 then Some (ecall_rows d) else None) (returns0 ecall_row_callback) a) (\<lambda>a.
         fbind (sql_exec (if ok 2 then Some (ocall_rows d) else None) (returns0 ocall_row_callback) a) (\<lambda>a.
         fbind (sql_exec (if ok 3 then Some (thread_rows d) else None) (returns0 thread_row_callback)
           (a\<lparr>encls := map (apsnd init_parents) (encls a)\<rparr>)) (\<lambda>a.
         sql_exec (if ok 4 then Some (ordered_pairs d) else None) (returns0 call_row_callback) a))))"

section \<open>Loading when the statements succeed\<close>

lemma exec_rows_fold: "exec_rows (returns0 f) rows s = fold_fault f rows s"
  by (induction rows arbitrary: s) (auto simp: returns0_def fbind_def split: sum.splits)

lemma sql_exec_fold: "sql_exec (Some rows) (returns0 f) s = fold_fault f rows s"
  by (simp add: sql_exec_def exec_rows_fold)

lemma sql_exec_error: "sql_exec None cb s = Inl (Exit (-1))"
  by (simp add: sql_exec_def)

lemma fold_fault_pure: "fold_fault (\<lambda>x s. Inr (f x s)) xs s = Inr (fold f xs s)"
  by (induction xs arbitrary: s) (simp_all add: fbind_def)

lemma fold_fault_map: "fold_fault f (map g xs) s = fold_fault (\<lambda>x. f (g x)) xs s"
  by (induction xs arbitrary: s) (simp_all add: fbind_def split: sum.split)

definition val_of :: "sql_val \<Rightarrow> u64" where
  "val_of v = (case v of SInt i \<Rightarrow> of_int i | SReal i \<Rightarrow> of_int i | SText t \<Rightarrow> 0)"

lemma column_val: "column (Some v) = Inr (val_of v)"
  by (simp add: column_def val_of_def split: sql_val.split)

lemma calls_fold:
  assumes "map_fault read_call ps = Inr rows"
  shows "fold_fault call_row_callback ps a = load_calls rows a"
  using assms
proof (induction ps arbitrary: rows a)
  case (Cons x ps)
  obtain r where r: "read_call x = Inr r" using Cons.prems by (cases "read_call x") (simp_all add: fbind_def)
  obtain rs where rs: "map_fault read_call ps = Inr rs" using Cons.prems r by (cases "map_fault read_call ps") (simp_all add: fbind_def)
  have "rows = r # rs" using Cons.prems r rs by (simp add: fbind_def)
  with r Cons.IH [OF rs] show ?case by (simp add: call_row_callback_def fbind_def split: sum.split)
qed simp

text \<open>The tables as the arguments of \<open>load_tables\<close>.\<close>

definition db_tables :: "database \<Rightarrow> fault + analysis" where
  "db_tables d = load_tables (map (\<lambda>r. (fst r, val_of (snd r))) (general_rows d))
     (map (\<lambda>r. (of_nat (er_id r), er_eid r, Some (er_symbol_name r))) (ecall_rows d))
     (map (\<lambda>r. (of_nat (or_id r), or_eid r, or_symbol_name r)) (ocall_rows d))
     (map (\<lambda>r. (tr_id (fst r), val_of (tr_pthread_id (fst r)), of_nat (snd r))) (thread_rows d))"

lemma load_database_eq:
  assumes "\<And>k. ok k" and "call_select (db_events d) = Inr rows"
  shows "load_database ok d = fbind (db_tables d) (load_calls rows)"
proof -
  have g: "fold_fault general_row_callback xs a = Inr (fold (\<lambda>(k, v). general_callback k v) (map (\<lambda>r. (fst r, val_of (snd r))) xs) a)" for xs a
    by (induction xs arbitrary: a) (simp_all add: general_row_callback_def column_val fbind_def)
  have t: "fold_fault thread_row_callback xs a =
      Inr (fold (\<lambda>(i, p, n). thread_callback i p n) (map (\<lambda>r. (tr_id (fst r), val_of (tr_pthread_id (fst r)), of_nat (snd r))) xs) a)" for xs a
    by (induction xs arbitrary: a) (simp_all add: thread_row_callback_def column_val fbind_def)
  have c: "fold_fault call_row_callback (ordered_pairs d) a = load_calls rows a" for a
    by (rule calls_fold) (use assms(2) in \<open>simp add: call_select_def ordered_pairs_def\<close>)
  show ?thesis
    by (simp add: load_database_def assms(1) sql_exec_fold g t c db_tables_def load_tables_def fold_fault_map fbind_def
        ecall_row_callback_def [abs_def] ocall_row_callback_def [abs_def] split: sum.split)
qed

section \<open>What the tables give\<close>

lemma ecalls_fold:
  assumes "\<forall>x \<in> set es. snd (snd x) \<noteq> None"
  shows "\<exists>a'. fold_fault (\<lambda>(i, eid, n). ecalls_callback i eid n) es a = Inr a' \<and>
    (\<forall>eid. length (ecalls (encl_of a' eid)) = length (ecalls (encl_of a eid)) + length (filter (\<lambda>x. fst (snd x) = eid) es) \<and>
       length (ocalls (encl_of a' eid)) = length (ocalls (encl_of a eid)))"
  using assms
proof (induction es arbitrary: a)
  case (Cons x es)
  obtain i e nm where x: "x = (i, e, Some nm)" using Cons.prems by (cases x) auto
  let ?a = "upd_encl e (\<lambda>y. y\<lparr>ecalls := ecalls y @ [new_call_data ECALL i nm], ecall_count := 0\<rparr>) a"
  from Cons.IH [of ?a] Cons.prems obtain a' where a': "fold_fault (\<lambda>(i, eid, n). ecalls_callback i eid n) es ?a = Inr a'"
    "\<forall>eid. length (ecalls (encl_of a' eid)) = length (ecalls (encl_of ?a eid)) + length (filter (\<lambda>x. fst (snd x) = eid) es) \<and>
       length (ocalls (encl_of a' eid)) = length (ocalls (encl_of ?a eid))" by auto
  have "ecalls_callback i e (Some nm) a = Inr ?a" by (simp add: ecalls_callback_def)
  with a' show ?case by (intro exI [of _ a']) (simp add: x fbind_def)
qed simp

lemma ocalls_fold:
  assumes "\<forall>x \<in> set os. snd (snd x) \<noteq> None"
  shows "\<exists>a'. fold_fault (\<lambda>(i, eid, n). ocalls_callback i eid n) os a = Inr a' \<and>
    (\<forall>eid. length (ocalls (encl_of a' eid)) = length (ocalls (encl_of a eid)) + length (filter (\<lambda>x. fst (snd x) = eid) os) \<and>
       length (ecalls (encl_of a' eid)) = length (ecalls (encl_of a eid)))"
  using assms
proof (induction os arbitrary: a)
  case (Cons x os)
  obtain i e nm where x: "x = (i, e, Some nm)" using Cons.prems by (cases x) auto
  let ?a = "upd_encl e (\<lambda>y. y\<lparr>ocalls := ocalls y @ [new_call_data OCALL i nm], ocall_count := 0\<rparr>) a"
  from Cons.IH [of ?a] Cons.prems obtain a' where a': "fold_fault (\<lambda>(i, eid, n). ocalls_callback i eid n) os ?a = Inr a'"
    "\<forall>eid. length (ocalls (encl_of a' eid)) = length (ocalls (encl_of ?a eid)) + length (filter (\<lambda>x. fst (snd x) = eid) os) \<and>
       length (ecalls (encl_of a' eid)) = length (ecalls (encl_of ?a eid))" by auto
  have "ocalls_callback i e (Some nm) a = Inr ?a" by (simp add: ocalls_callback_def)
  with a' show ?case by (intro exI [of _ a']) (simp add: x fbind_def)
qed simp

lemma threads_fold:
  assumes "distinct (map fst ts)" "(tid, p, n) \<in> set ts"
  shows "td_capacity (thread_of (fold (\<lambda>(i, p, n). thread_callback i p n) ts a) tid) = n"
proof -
  have other: "thread_of (fold (\<lambda>(i, p, n). thread_callback i p n) us b) tid = thread_of b tid" if "tid \<notin> fst ` set us" for us b
    using that by (induction us arbitrary: b) (auto simp: thread_callback_def)
  show ?thesis using assms
  proof (induction ts arbitrary: a)
    case (Cons u us)
    show ?case
    proof (cases "u = (tid, p, n)")
      case True
      then have "tid \<notin> fst ` set us" using Cons.prems(1) by auto
      with True show ?thesis by (simp add: other) (simp add: thread_callback_def)
    next
      case False
      then show ?thesis using Cons by (auto simp: case_prod_unfold)
    qed
  qed simp
qed

lemma encl_of_init:
  "length (ecalls (encl_of (a\<lparr>encls := map (apsnd init_parents) (encls a)\<rparr>) eid)) = length (ecalls (encl_of a eid))"
  "length (ocalls (encl_of (a\<lparr>encls := map (apsnd init_parents) (encls a)\<rparr>) eid)) = length (ocalls (encl_of a eid))"
  by (simp_all add: encl_of_def amap_get_def map_of_apsnd init_parents_def split: option.split)

lemma load_tables_sizes:
  assumes "\<forall>x \<in> set es. snd (snd x) \<noteq> None" "\<forall>x \<in> set os. snd (snd x) \<noteq> None" "distinct (map fst ts)"
  shows "\<exists>a. load_tables gs es os ts = Inr a \<and>
    (\<forall>eid. length (ecalls (encl_of a eid)) = length (filter (\<lambda>x. fst (snd x) = eid) es) \<and>
       length (ocalls (encl_of a eid)) = length (filter (\<lambda>x. fst (snd x) = eid) os)) \<and>
    (\<forall>(tid, p, n) \<in> set ts. td_capacity (thread_of a tid) = n)"
proof -
  let ?g = "fold (\<lambda>(k, v). general_callback k v) gs new_analysis"
  have "encls (fold (\<lambda>(k, v). general_callback k v) gs a) = encls a" for a
    by (induction gs arbitrary: a) (auto simp: general_callback_def)
  then have g: "encl_of ?g eid = new_enclave_data" for eid by (simp add: encl_of_def amap_get_def new_analysis_def)
  obtain a1 where a1: "fold_fault (\<lambda>(i, eid, n). ecalls_callback i eid n) es ?g = Inr a1"
    "\<forall>eid. length (ecalls (encl_of a1 eid)) = length (filter (\<lambda>x. fst (snd x) = eid) es) \<and> length (ocalls (encl_of a1 eid)) = 0"
    using ecalls_fold [OF assms(1), of ?g] by (auto simp: g new_enclave_data_def)
  obtain a2 where a2: "fold_fault (\<lambda>(i, eid, n). ocalls_callback i eid n) os a1 = Inr a2"
    "\<forall>eid. length (ocalls (encl_of a2 eid)) = length (filter (\<lambda>x. fst (snd x) = eid) os) \<and>
       length (ecalls (encl_of a2 eid)) = length (filter (\<lambda>x. fst (snd x) = eid) es)"
    using ocalls_fold [OF assms(2), of a1] a1(2) by auto
  let ?a3 = "a2\<lparr>encls := map (apsnd init_parents) (encls a2)\<rparr>"
  let ?a4 = "fold (\<lambda>(i, p, n). thread_callback i p n) ts ?a3"
  have th: "encls (fold (\<lambda>(i, p, n). thread_callback i p n) ts a) = encls a" for a
    by (induction ts arbitrary: a) (auto simp: thread_callback_def upd_athread_def)
  have e: "encl_of ?a4 eid = encl_of ?a3 eid" for eid unfolding encl_of_def th ..
  have "load_tables gs es os ts = Inr ?a4" using a1(1) a2(1) by (simp add: load_tables_def fbind_def)
  moreover have "\<forall>(tid, p, n) \<in> set ts. td_capacity (thread_of ?a4 tid) = n" using threads_fold [OF assms(3)] by blast
  ultimately show ?thesis using a2(2) by (intro exI [of _ ?a4]) (simp add: e encl_of_init)
qed

section \<open>The rows of a run\<close>

text \<open>A tree of calls to one enclave, with numbers below \<open>ne\<close> for ecalls and \<open>no\<close> for ocalls, and its calls in the order they begin.\<close>

definition num_ok :: "nat \<Rightarrow> u32 \<Rightarrow> bool" where
  "num_ok n i \<longleftrightarrow> unat i < n \<and> unat i < 2 ^ 31"

fun within_u :: "u64 \<Rightarrow> nat \<Rightarrow> nat \<Rightarrow> uact \<Rightarrow> bool" and within_us :: "u64 \<Rightarrow> nat \<Rightarrow> nat \<Rightarrow> uact list \<Rightarrow> bool"
  and within_e :: "u64 \<Rightarrow> nat \<Rightarrow> nat \<Rightarrow> eact \<Rightarrow> bool" and within_es :: "u64 \<Rightarrow> nat \<Rightarrow> nat \<Rightarrow> eact list \<Rightarrow> bool" where
  "within_u eid ne no (UEcall e i arg ret acts) \<longleftrightarrow> e = eid \<and> num_ok ne i \<and> within_es eid ne no acts"
| "within_us eid ne no [] \<longleftrightarrow> True"
| "within_us eid ne no (a # as) \<longleftrightarrow> within_u eid ne no a \<and> within_us eid ne no as"
| "within_e eid ne no (EOcall i arg ret acts) \<longleftrightarrow> num_ok no i \<and> within_us eid ne no acts"
| "within_e eid ne no EAex \<longleftrightarrow> True"
| "within_es eid ne no [] \<longleftrightarrow> True"
| "within_es eid ne no (a # as) \<longleftrightarrow> within_e eid ne no a \<and> within_es eid ne no as"

fun made_u :: "uact \<Rightarrow> (call_type_t \<times> u32) list" and made_us :: "uact list \<Rightarrow> (call_type_t \<times> u32) list"
  and made_e :: "eact \<Rightarrow> (call_type_t \<times> u32) list" and made_es :: "eact list \<Rightarrow> (call_type_t \<times> u32) list" where
  "made_u (UEcall e i arg ret acts) = (ECALL, i) # made_es acts"
| "made_us [] = []"
| "made_us (a # as) = made_u a @ made_us as"
| "made_e (EOcall i arg ret acts) = (OCALL, i) # made_us acts"
| "made_e EAex = []"
| "made_es [] = []"
| "made_es (a # as) = made_e a @ made_es as"

fun body_call :: "ev_body \<Rightarrow> (call_type_t \<times> u32) list" where
  "body_call (EnclaveB e (EnclaveCall i a c k)) = (if k = CallPlain then [] else [(kind_type k, i)])"
| "body_call _ = []"

lemma tr_made:
  shows "concat (map body_call (tr_u tracing n c a)) = made_u a" and "concat (map body_call (tr_us tracing n c as)) = made_us as"
    and "concat (map body_call (tr_e tracing eid n d b)) = made_e b" and "concat (map body_call (tr_es tracing eid n d bs)) = made_es bs"
  by (induction tracing n c a and tracing n c as and tracing eid n d b and tracing eid n d bs
      rule: tr_u_tr_us_tr_e_tr_es.induct) (simp_all add: Let_def kind_type_def)

definition body_within :: "u64 \<Rightarrow> nat \<Rightarrow> nat \<Rightarrow> ev_body \<Rightarrow> bool" where
  "body_within eid ne no b \<longleftrightarrow> (\<forall>e i a c k. b = EnclaveB e (EnclaveCall i a c k) \<longrightarrow> e = eid \<and>
     num_ok (if kind_type k = ECALL then ne else no) i)"

lemma tr_within:
  shows "within_u eid ne no a \<Longrightarrow> \<forall>x \<in> set (tr_u tracing n c a). body_within eid ne no x"
    and "within_us eid ne no as \<Longrightarrow> \<forall>x \<in> set (tr_us tracing n c as). body_within eid ne no x"
    and "g = eid \<Longrightarrow> within_e eid ne no b \<Longrightarrow> \<forall>x \<in> set (tr_e tracing g n d b). body_within eid ne no x"
    and "g = eid \<Longrightarrow> within_es eid ne no bs \<Longrightarrow> \<forall>x \<in> set (tr_es tracing g n d bs). body_within eid ne no x"
  by (induction tracing n c a and tracing n c as and tracing g n d b and tracing g n d bs rule: tr_u_tr_us_tr_e_tr_es.induct)
    (auto simp: Let_def body_within_def kind_type_def)

lemma bit_63_less: "\<not> bit (w :: u64) 63 \<Longrightarrow> w < 2 ^ 63"
proof -
  assume w: "\<not> bit w 63"
  have "\<not> bit (uint w) 63" using w bit_unsigned_iff [of w 63, where 'a = int] by simp
  then have "even (uint w div 2 ^ 63)" by (simp add: bit_iff_odd)
  moreover have "uint w < 2 ^ 64" using uint_lt2p [of w] by simp
  then have "uint w div 2 ^ 63 = (if 2 ^ 63 \<le> uint w then 1 else 0)" by (auto simp: int_div_pos_eq [where r = "uint w - 2 ^ 63"])
  ultimately have "uint w < 2 ^ 63" by (auto split: if_splits)
  then show ?thesis by (simp add: word_less_def)
qed

lemma keys_made:
  "map (\<lambda>(p, ty, c). (ty, case bs ! (p - n) of EnclaveB e (EnclaveCall i a d k) \<Rightarrow> i | _ \<Rightarrow> 0)) (keys n bs) = concat (map body_call bs)"
proof (induction n bs rule: keys.induct)
  case (2 n b bs)
  let ?f = "\<lambda>xs m (p, ty, c). (ty :: call_type_t, case (xs :: ev_body list) ! (p - m) of EnclaveB e (EnclaveCall i a d k) \<Rightarrow> i | _ \<Rightarrow> 0)"
  have "map (?f (b # bs) n) (keys (Suc n) bs) = map (?f bs (Suc n)) (keys (Suc n) bs)"
  proof (rule map_cong [OF refl])
    fix x assume x: "x \<in> set (keys (Suc n) bs)"
    obtain p y where "x = (p, y)" by (cases x)
    then have "Suc n \<le> p" using keys_ptr [of p y "Suc n" bs] x by simp
    with \<open>x = (p, y)\<close> show "?f (b # bs) n x = ?f bs (Suc n) x" by (auto simp: nth_Cons' split_beta)
  qed
  moreover have "map (?f (b # bs) n) (call_key n b) = body_call b"
    by (cases "(n, b)" rule: call_key.cases) (simp_all add: kind_type_def)
  ultimately show ?case using 2 by simp
qed simp

section \<open>Loading the database of a run\<close>

text \<open>The tables name every ocall and have rows for the calls of the enclave that were made.\<close>

definition tables_cover :: "database \<Rightarrow> u64 \<Rightarrow> nat \<Rightarrow> nat \<Rightarrow> bool" where
  "tables_cover d eid ne no \<longleftrightarrow> (\<forall>r \<in> set (db_ocalls d). or_symbol_name r \<noteq> None) \<and>
     ne \<le> length (filter (\<lambda>r. er_eid r = eid) (db_ecalls d)) \<and> no \<le> length (filter (\<lambda>r. or_eid r = eid) (db_ocalls d))"

lemma filter_sort_length: "length (filter P (sort_key f xs)) = length (filter P xs)"
  by (metis mset_filter mset_sort size_mset)

lemma db_tables_sizes:
  assumes "tables_cover d eid ne no" and D: "distinct (map tr_id (db_threads d))"
  shows "\<exists>a. db_tables d = Inr a \<and> ne \<le> length (ecalls (encl_of a eid)) \<and> no \<le> length (ocalls (encl_of a eid)) \<and>
    (\<forall>t \<in> set (db_threads d). linked_events d t \<noteq> [] \<longrightarrow> td_capacity (thread_of a (tr_id t)) = of_nat (length (linked_events d t)))"
proof -
  note T = assms(1) [unfolded tables_cover_def]
  let ?gs = "map (\<lambda>r. (fst r, val_of (snd r))) (general_rows d)"
  let ?es = "map (\<lambda>r. (of_nat (er_id r) :: u64, er_eid r, Some (er_symbol_name r))) (ecall_rows d)"
  let ?os = "map (\<lambda>r. (of_nat (or_id r) :: u64, or_eid r, or_symbol_name r)) (ocall_rows d)"
  let ?ts = "map (\<lambda>r. (tr_id (fst r), val_of (tr_pthread_id (fst r)), of_nat (snd r) :: u64)) (thread_rows d)"
  have "distinct (map tr_id (sort_key tr_id (db_threads d)))"
    using D mset_eq_imp_distinct_iff [of "map tr_id (sort_key tr_id (db_threads d))" "map tr_id (db_threads d)"] by simp
  then have "distinct (map fst ?ts)" by (simp add: thread_rows_def comp_def distinct_map_filter)
  from load_tables_sizes [OF _ _ this, of ?es ?os ?gs] T
  obtain a where a: "load_tables ?gs ?es ?os ?ts = Inr a"
    "length (ecalls (encl_of a eid)) = length (filter (\<lambda>x. fst (snd x) = eid) ?es)"
    "length (ocalls (encl_of a eid)) = length (filter (\<lambda>x. fst (snd x) = eid) ?os)"
    "\<forall>(tid, p, n) \<in> set ?ts. td_capacity (thread_of a tid) = n" by (auto simp: ocall_rows_def)
  have "td_capacity (thread_of a (tr_id t)) = of_nat (length (linked_events d t))" if "t \<in> set (db_threads d)" "linked_events d t \<noteq> []" for t
    using a(4) that by (force simp: thread_rows_def)
  moreover have "length (filter (\<lambda>x. fst (snd x) = eid) ?es) = length (filter (\<lambda>r. er_eid r = eid) (db_ecalls d))"
    by (simp add: filter_map comp_def ecall_rows_def filter_sort_length)
  moreover have "length (filter (\<lambda>x. fst (snd x) = eid) ?os) = length (filter (\<lambda>r. or_eid r = eid) (db_ocalls d))"
    by (simp add: filter_map comp_def ocall_rows_def filter_sort_length)
  ultimately show ?thesis using a T by (simp add: db_tables_def)
qed

text \<open>A thread's array has room for its calls.\<close>

lemma call_pairs_length:
  assumes inv: "ser_inv (h, db_events d)" and c: "calls_from n tid h" and f: "fits_int64 tid" and t: "tr_id t = tid"
  shows "length (call_pairs (db_events d)) \<le> length (linked_events d t)"
proof -
  let ?rows = "db_events d"
  have len: "length (pair_of ?rows e) = (if pair_of ?rows e \<noteq> [] then 1 else 0)" for e by (simp add: pair_of_def split: option.split)
  have "length (concat (map (pair_of ?rows) xs)) = length (filter (\<lambda>e. pair_of ?rows e \<noteq> []) xs)" for xs
    by (induction xs) (simp_all add: len)
  then have "length (call_pairs ?rows) = length (filter (\<lambda>e. pair_of ?rows e \<noteq> []) ?rows)" by (simp add: call_pairs_def)
  moreover have "e P_involved_thread = Some (num_lit (tr_id t)) \<and> row_with_id ?rows (e P_call_event) \<noteq> None"
    if e: "e \<in> set ?rows" "pair_of ?rows e \<noteq> []" for e
  proof -
    obtain k where "k < length ?rows" "e = ?rows ! k" using e(1) by (auto simp: in_set_conv_nth)
    then obtain p where p: "p \<in> ins h" "e = sql_bind h (h ! p)" using ser_inv_row [OF inv] by metis
    have "ret_of (ev_body (h ! p)) \<noteq> []" using e(2) p(2) pair_of_other by blast
    then have "\<not> p < n" using c by (auto simp: calls_from_def)
    then have "ev_thread_id (h ! p) = tid" using c p(1) by (auto simp: calls_from_def ins_def)
    moreover have "tid < 2 ^ 63 \<Longrightarrow> sint tid = uint tid" by (rule sint_less)
    moreover have "tid < 2 ^ 63" using f unfolding fits_int64_def by (rule bit_63_less)
    ultimately have "e P_involved_thread = Some (num_lit (tr_id t))" using f t by (simp add: p(2) bound_columns num_lit_def)
    moreover have "row_with_id ?rows (e P_call_event) \<noteq> None" using e(2) by (auto simp: pair_of_def split: if_splits option.splits)
    ultimately show ?thesis by blast
  qed
  then have "filter (\<lambda>e. pair_of ?rows e \<noteq> []) ?rows = filter (\<lambda>e. pair_of ?rows e \<noteq> []) (linked_events d t)"
    unfolding linked_events_def by (simp add: filter_filter) (rule filter_cong, auto)
  ultimately show ?thesis by (metis length_filter_le)
qed

text \<open>A row of the query has the enclave and the number of the event it stands for.\<close>

lemma join_row_body:
  assumes "r \<in> set (join_row ident ps e)"
  shows "\<exists>eid i a c k. ev_body (snd ps) = EnclaveB eid (EnclaveCall i a c k) \<and> cr_call_id r = scast i \<and> cr_eid r = eid \<and> cr_id r = ident (fst ps)"
proof (cases "\<exists>eid i a c k. ev_body (snd ps) = EnclaveB eid (EnclaveCall i a c k)")
  case True
  then obtain eid i a c k where s: "ev_body (snd ps) = EnclaveB eid (EnclaveCall i a c k)" by blast
  from assms show ?thesis by (cases "ev_body e" rule: ret_of.cases) (simp_all add: join_row_def s split: if_splits)
next
  case False
  then have "join_row ident (fst ps, snd ps) e = []" by (intro join_other) simp
  with assms show ?thesis by simp
qed

lemma key_row:
  assumes inj: "inj_on ident {n..<n + length bs}" and evs: "map ev_body evs = bs" and r: "r \<in> set (call_join ident n evs)"
    and k: "row_key r = ident_key ident (p, ty, c)" "(p, ty, c) \<in> set (keys n bs)"
  shows "\<exists>eid i a d k. bs ! (p - n) = EnclaveB eid (EnclaveCall i a d k) \<and> bs ! (p - n) \<in> set bs \<and> cr_call_id r = scast i \<and> cr_eid r = eid"
proof -
  obtain ps e where ps: "ps \<in> set (enumerate n evs)" "r \<in> set (join_row ident ps e)" using r by (auto simp: call_join_def)
  obtain q where q: "n \<le> q" "q < length evs + n" "r \<in> set (join_row ident (q, evs ! (q - n)) e)"
  proof
    show "n \<le> fst ps" "fst ps < length evs + n" using ps(1) by (simp_all add: in_set_enumerate_eq)
    have "ps = (fst ps, evs ! (fst ps - n))" using ps(1) by (simp add: in_set_enumerate_eq prod_eq_iff)
    with ps(2) show "r \<in> set (join_row ident (fst ps, evs ! (fst ps - n)) e)" by simp
  qed
  obtain eid i a d kd where b: "ev_body (evs ! (q - n)) = EnclaveB eid (EnclaveCall i a d kd)" "cr_call_id r = scast i" "cr_eid r = eid"
    "cr_id r = ident q" using join_row_body [OF q(3)] by auto
  have l: "length evs = length bs" using evs by (metis length_map)
  have "ident q = ident p" using b(4) k(1) by (simp add: row_key_def ident_key_def)
  moreover have p: "p \<in> {n..<n + length bs}" using keys_ptr [OF k(2)] by auto
  moreover have "q \<in> {n..<n + length bs}" using q(1,2) l by simp
  ultimately have "q = p" using inj_onD [OF inj] by blast
  have "p - n < length evs" using p l by auto
  then have "bs ! (p - n) = EnclaveB eid (EnclaveCall i a d kd)" "bs ! (p - n) \<in> set bs"
    using b(1) evs \<open>q = p\<close> l by (metis nth_map, metis nth_mem)
  with b(2,3) show ?thesis by blast
qed

lemma rows_made:
  assumes inj: "inj_on ident {n..<n + length (tr_us tracing n None as)}" and evs: "map ev_body evs = tr_us tracing n None as"
    and rows: "rows = call_join ident n evs" "map row_key rows = map (ident_key ident) (keys n (tr_us tracing n None as))"
  shows "map (\<lambda>r. (row_type r, cr_call_id r)) rows = map (apsnd scast) (made_us as)"
    and "within_us eid ne no as \<Longrightarrow> r \<in> set rows \<Longrightarrow> cr_eid r = eid"
proof -
  let ?bs = "tr_us tracing n None as" let ?ks = "keys n ?bs"
  have key: "\<exists>p ty c. ?ks ! j = (p, ty, c) \<and> row_type (rows ! j) = ty \<and>
      (\<exists>eid i a d k. ?bs ! (p - n) = EnclaveB eid (EnclaveCall i a d k) \<and> ?bs ! (p - n) \<in> set ?bs \<and> cr_call_id (rows ! j) = scast i \<and> cr_eid (rows ! j) = eid)"
    if j: "j < length rows" for j
  proof -
    obtain p ty c where k: "?ks ! j = (p, ty, c)" by (cases "?ks ! j")
    have l: "j < length ?ks" using j rows(2) by (metis length_map)
    then have r: "row_key (rows ! j) = ident_key ident (p, ty, c)" using rows(2) k j by (metis nth_map)
    have "(p, ty, c) \<in> set ?ks" using l k by (metis nth_mem)
    from key_row [OF inj evs _ r this] j r k show ?thesis by (auto simp: rows(1) row_key_def ident_key_def)
  qed
  have l: "length rows = length ?ks" using rows(2) by (metis length_map)
  let ?i = "\<lambda>(p, ty :: call_type_t, c :: ev_ptr option). (ty, case ?bs ! (p - n) of EnclaveB e (EnclaveCall i a d k) \<Rightarrow> i | _ \<Rightarrow> 0)"
  have "map (\<lambda>r. (row_type r, cr_call_id r)) rows = map (apsnd scast) (map ?i ?ks)"
    by (rule nth_equalityI) (use l key in \<open>fastforce+\<close>)
  then show "map (\<lambda>r. (row_type r, cr_call_id r)) rows = map (apsnd scast) (made_us as)" by (simp only: keys_made tr_made(2))
  show "cr_eid r = eid" if w: "within_us eid ne no as" "r \<in> set rows"
  proof -
    obtain j where "j < length rows" "r = rows ! j" using w(2) by (auto simp: in_set_conv_nth)
    with key [of j] tr_within(2) [OF w(1)] show ?thesis by (fastforce simp: body_within_def)
  qed
qed

lemma sint32_less: "n < 2 ^ 31 \<Longrightarrow> sint (of_nat n :: u32) = int n"
  by (simp add: signed_of_nat signed_take_bit_int_eq_self)

lemma scast_number: "unat i < 2 ^ 31 \<Longrightarrow> unat (scast (i :: u32) :: u64) = unat i"
proof -
  assume i: "unat i < 2 ^ 31"
  have "sint (of_nat (unat i) :: u32) = int (unat i)" using i by (rule sint32_less)
  then have s: "sint i = int (unat i)" by simp
  have "(scast i :: u64) = word_of_int (int (unat i))" unfolding s [symmetric] by (rule scast_eq)
  then have e: "(scast i :: u64) = of_nat (unat i)" by (simp only: of_int_of_nat_eq)
  have "unat (of_nat (unat i) :: u64) = unat i" using i by (intro unat_of_nat_u64) simp
  then show ?thesis by (simp only: e)
qed

definition made_ok :: "nat \<Rightarrow> nat \<Rightarrow> call_type_t \<times> u32 \<Rightarrow> bool" where
  "made_ok ne no x \<longleftrightarrow> fst x \<noteq> UNDEF \<and> num_ok (if fst x = ECALL then ne else no) (snd x)"

lemma made_within:
  shows "within_u eid ne no a \<Longrightarrow> list_all (made_ok ne no) (made_u a)"
    and "within_us eid ne no as \<Longrightarrow> list_all (made_ok ne no) (made_us as)"
    and "within_e eid ne no b \<Longrightarrow> list_all (made_ok ne no) (made_e b)"
    and "within_es eid ne no bs \<Longrightarrow> list_all (made_ok ne no) (made_es bs)"
  by (induction a and as and b and bs rule: made_u_made_us_made_e_made_es.induct) (simp_all add: made_ok_def)

lemma length_map_fault: "map_fault f xs = Inr ys \<Longrightarrow> length ys = length xs"
  by (induction xs arbitrary: ys) (auto simp: fbind_def split: sum.splits)

text \<open>The rows of the calls of one thread, loaded over tables that cover them.\<close>

lemma load_covered:
  assumes inv: "ser_inv (h, db_events d)" "length h < 2 ^ 63" and c: "calls_from n tid h"
    and t: "fits_int64 tid" "tid \<in> tr_id ` set (db_threads d)" "distinct (map tr_id (db_threads d))"
    and cover: "tables_cover d eid ne no"
    and sel: "call_select (db_events d) = Inr rows" and op: "open_rows rows \<noteq> None" "distinct (map cr_id rows)"
    and made: "\<forall>r \<in> set rows. cr_thread r = tid \<and> cr_eid r = eid \<and> row_type r \<noteq> UNDEF \<and> unat (cr_call_id r) < (if row_type r = ECALL then ne else no)"
  shows "\<exists>a. load_database (\<lambda>_. True) d = Inr a \<and>
    (\<forall>ty i. ty \<noteq> UNDEF \<longrightarrow> i < (if ty = ECALL then ne else no) \<longrightarrow>
       exectimes (call_of a eid ty i) = map cr_exectime (filter (of_call eid ty i) rows))"
proof -
  obtain a0 where a0: "db_tables d = Inr a0" "ne \<le> length (ecalls (encl_of a0 eid))" "no \<le> length (ocalls (encl_of a0 eid))"
    "\<forall>t \<in> set (db_threads d). linked_events d t \<noteq> [] \<longrightarrow> td_capacity (thread_of a0 (tr_id t)) = of_nat (length (linked_events d t))"
    using db_tables_sizes [OF cover t(3)] by blast
  have room: "i < length (calls_of ty (encl_of a0 eid))" if "ty \<noteq> UNDEF" "i < (if ty = ECALL then ne else no)" for ty i
    using that a0(2,3) by (cases ty) (auto simp: calls_of_def)
  obtain th where th: "th \<in> set (db_threads d)" "tr_id th = tid" using t(2) by auto
  have le: "length rows \<le> length (linked_events d th)"
    using call_pairs_length [OF inv(1) c t(1) th(2)] length_map_fault [OF sel [unfolded call_select_def]] by simp
  have "length (linked_events d th) \<le> length (db_events d)" by (simp add: linked_events_def)
  also have "\<dots> = card (ins h)" using ser_inv_card [OF inv(1)] by simp
  also have "\<dots> \<le> length h" using card_mono [of "{..<length h}" "ins h"] by (auto simp: ins_def)
  finally have u: "unat (of_nat (length (linked_events d th)) :: u64) = length (linked_events d th)"
    using inv(2) by (intro unat_of_nat_u64) simp
  have ot: "of_thread tid rows = rows" using made by (simp add: of_thread_def)
  have good: "good_rows a0 rows"
    unfolding good_rows_def
  proof (intro conjI ballI impI)
    fix r assume r: "r \<in> set rows"
    then have m: "cr_thread r = tid" "cr_eid r = eid" "row_type r \<noteq> UNDEF" "unat (cr_call_id r) < (if row_type r = ECALL then ne else no)"
      using made by blast+
    show "row_type r \<noteq> UNDEF" by (rule m)
    show "unat (cr_call_id r) < length (calls_of (row_type r) (encl_of a0 (cr_eid r)))" unfolding m(2) using m(3,4) by (rule room)
    show "open_rows (of_thread (cr_thread r) rows) \<noteq> None" by (simp only: m(1) ot op) simp
    have "rows \<noteq> []" using r by auto
    then have "linked_events d th \<noteq> []" using le by auto
    then have "td_capacity (thread_of a0 tid) = of_nat (length (linked_events d th))" using a0(4) th by auto
    then show "length (of_thread (cr_thread r) rows) \<le> unat (td_capacity (thread_of a0 (cr_thread r)))" using le by (simp add: m(1) ot u)
    show "cr_eid q = cr_eid r" if "q \<in> set rows" for q using made that m(2) by simp
  qed (rule op)
  have "load_inv [] a0 a0" using a0(1) unfolding db_tables_def by (rule load_tables_inv)
  from load_calls_inv [OF this good] obtain a where a: "load_calls rows a0 = Inr a" "load_inv rows a0 a" by blast
  have "load_database (\<lambda>_. True) d = Inr a" using load_database_eq [OF TrueI sel] a0(1) a(1) by (simp add: fbind_def)
  moreover have "exectimes (call_of a eid ty i) = map cr_exectime (filter (of_call eid ty i) rows)"
    if "ty \<noteq> UNDEF" "i < (if ty = ECALL then ne else no)" for ty i
    using load_inv_call [OF a(2) that(1) room [OF that]] by (simp add: cd_ok_def)
  ultimately show ?thesis by blast
qed

text \<open>The rows of a call, counted.\<close>

lemma rows_of_call:
  fixes cs :: "(call_type_t \<times> u32) list"
  assumes "map (\<lambda>r. (row_type r, cr_call_id r)) rows = map (apsnd scast) cs" and "\<forall>r \<in> set rows. cr_eid r = eid"
    and "\<forall>x \<in> set cs. unat (snd x) < 2 ^ 31"
  shows "length (filter (of_call eid ty i) rows) = count_list (map (apsnd unat) cs) (ty, i)"
  using assms
proof (induction rows arbitrary: cs)
  case (Cons r rows)
  obtain y n ds where cs: "cs = (y, n) # ds" using Cons.prems(1) by (cases cs) auto
  have "unat (scast n :: u64) = unat n" by (rule scast_number) (use Cons.prems(3) in \<open>simp add: cs\<close>)
  moreover have "row_type r = y" "cr_call_id r = scast n" using Cons.prems(1) by (simp_all add: cs)
  moreover have "length (filter (of_call eid ty i) rows) = count_list (map (apsnd unat) ds) (ty, i)"
    by (rule Cons.IH) (use Cons.prems in \<open>simp_all add: cs\<close>)
  moreover from calculation(1-3) have "of_call eid ty i r \<longleftrightarrow> (y, unat n) = (ty, i)"
    using Cons.prems(2) by (auto simp: of_call_def)
  ultimately show ?case by (simp add: cs)
qed simp

text \<open>C2: what the logger records of a program, the analyzer accounts for. For any tree of ecalls, ocalls and asynchronous exits in
  an enclave, the database that logging it, finalising the store and writing the summary leave can be loaded by the analyzer
  without a fault, if its tables name all calls, and then holds for each ecall and each ocall as many execution times as the
  program made calls with that number.\<close>

theorem summary_analysed:
  assumes "urts_ok R t s" and "before_calls t s" and "wf_us R (known_enclaves s) as" and "within_us eid ne no as"
    and "length (events s) + length (tr_us (re_tracing R) (length (events s)) None as) < 2 ^ 63"
    and "clock_ok R (length (events s) + length (tr_us (re_tracing R) (length (events s)) None as))"
  shows "\<exists>s' s'' r sm. run_us R as s = (Inr (), s') \<and> finalize self now cpu s' = Some s'' \<and>
    create_summary False env dladdr s'' (summ_init s'' empty_db) = (r, sm) \<and>
    (tables_cover (sm_db sm) eid ne no \<longrightarrow>
      (\<exists>a. load_database (\<lambda>_. True) (sm_db sm) = Inr a \<and>
        (\<forall>ty i. ty \<noteq> UNDEF \<longrightarrow> i < (if ty = ECALL then ne else no) \<longrightarrow>
           length (exectimes (call_of a eid ty i)) = count_list (map (apsnd unat) (made_us as)) (ty, i))))"
proof -
  let ?n = "length (events s)" let ?bs = "tr_us (re_tracing R) ?n None as"
  obtain s' r sm rows where S: "run_us R as s = (Inr (), s')" "after_calls R t (re_tracing R) as s s'"
    "finalize self now cpu s' = Some (ended now s')" "create_summary False env dladdr (ended now s') (summ_init (ended now s') empty_db) = (r, sm)"
    "ser_inv (sm_heap sm, db_events (sm_db sm))" "calls_from ?n (of_nat t) (sm_heap sm)" "of_nat t \<in> tr_id ` set (db_threads (sm_db sm))"
    "inj_on (get_sql_id (sm_heap sm)) {?n..<length (events s')}" "call_select (db_events (sm_db sm)) = Inr rows"
    "rows = call_query (get_sql_id (sm_heap sm)) ?n (drop ?n (events s'))" "distinct (map cr_id rows)" "open_rows rows \<noteq> None"
    using round_trip_state [OF assms(1-3,5,6), of self now cpu env dladdr] by blast
  have e: "events s' = events s @ stamped R (of_nat t) ?n ?bs" using S(2) by (simp add: after_calls_def)
  then have l: "length (events s') = ?n + length ?bs" by simp
  have mono: "\<forall>i j. i \<le> j \<longrightarrow> j < ?n + length ?bs \<longrightarrow> timespec_ns (fst (re_clk R i)) \<le> timespec_ns (fst (re_clk R j))"
    using assms(6) by (auto simp: clock_ok_def le_less)
  have q: "rows = call_query (get_sql_id (sm_heap sm)) ?n (stamped R (of_nat t) ?n ?bs)" using S(10) by (simp add: e)
  note inj = S(8) [unfolded l]
  note T = trace_rows [OF inj mono q]
  note M = rows_made [OF inj map_body_stamped T(5,6)]
  have made: "list_all (made_ok ne no) (made_us as)" using assms(4) by (rule made_within)
  have n31: "\<forall>x \<in> set (made_us as). unat (snd x) < 2 ^ 31" using made by (simp add: list_all_iff made_ok_def num_ok_def)
  have "cr_thread r = of_nat t \<and> cr_eid r = eid \<and> row_type r \<noteq> UNDEF \<and> unat (cr_call_id r) < (if row_type r = ECALL then ne else no)"
    if r: "r \<in> set rows" for r
  proof -
    have "(row_type r, cr_call_id r) \<in> set (map (apsnd scast) (made_us as))" using r unfolding M(1) [symmetric] by auto
    then obtain i where i: "(row_type r, i) \<in> set (made_us as)" "cr_call_id r = scast i" by auto
    then have "row_type r \<noteq> UNDEF" "num_ok (if row_type r = ECALL then ne else no) i" using made by (auto simp: list_all_iff made_ok_def)
    moreover have "unat (cr_call_id r) = unat i" unfolding i(2) by (rule scast_number) (use bspec [OF n31 i(1)] in simp)
    ultimately show ?thesis using T(4) M(2) [OF assms(4) r] r by (simp add: num_ok_def)
  qed
  then have R: "\<forall>r \<in> set rows. cr_thread r = of_nat t \<and> cr_eid r = eid \<and> row_type r \<noteq> UNDEF \<and> unat (cr_call_id r) < (if row_type r = ECALL then ne else no)"
    by blast
  have "t < 2 ^ 63" using assms(2) before_callsD(2) [OF assms(2)] by (simp add: before_calls_def)
  then have f: "fits_int64 (of_nat t)" by (rule fits_int64_small)
  have d: "distinct (map tr_id (db_threads (sm_db sm)))"
    using summary_db_ok [of False env dladdr "ended now s'"] S(4) by (simp add: db_ok_def)
  have h: "length (sm_heap sm) < 2 ^ 63" using S(5) by (simp add: ser_inv_def)
  have "\<forall>r \<in> set rows. cr_eid r = eid" using R by blast
  note count = rows_of_call [OF M(1) this n31]
  show ?thesis
    using S(1,3,4) load_covered [OF S(5) h S(6) f S(7) d _ S(9,12,11) R] count by (metis length_map)
qed

text \<open>A thread that has made an enclave from a file with two ecalls, and calls it.\<close>

definition ex_made :: store where
  "ex_made = ex_urts\<lparr>events := [(new_event 7 (3, 9) 1 (EnclaveB 2 (EnclaveCreation ''enclave.so'' 0 4096 65536)))\<lparr>ev_thread_id := 0\<rparr>],
     threads := [(new_thread 7 0)\<lparr>th_events := [0]\<rparr>]\<rparr>"

definition ex_calls :: "uact list" where
  "ex_calls = [UEcall 2 0 11 0 [EAex, EOcall 1 12 0 [UEcall 2 1 13 0 [EAex], UEcall 2 1 13 0 []], EAex]]"

definition ex_dladdr :: "u64 \<Rightarrow> (string \<times> u64) option" where
  "ex_dladdr a = (if a < 128 then Some (''enclave.so'', 64) else None)"

lemma ex_made_before: "before_calls 0 ex_made" "urts_ok ex_env 0 ex_made" "wf_us ex_env (known_enclaves ex_made) ex_calls"
proof -
  note defs = ex_made_def ex_urts_def EventStore_def new_thread_def new_event_def
  show "before_calls 0 ex_made"
    by (simp add: before_calls_def store_inv_def wf_heap_def typed_bodies_def no_null_enclave_def queues_ok_def defs)
  show "urts_ok ex_env 0 ex_made"
    by (simp add: urts_ok_def ex_env_def tables_ok_def new_enclave_def defs)
  have "known_enclaves ex_made = {2}" by (auto simp: known_enclaves_def defs)
  then show "wf_us ex_env (known_enclaves ex_made) ex_calls" by (simp add: ex_calls_def ex_env_def)
qed

lemma ex_made_covered:
  "tables_cover (sm_db (snd (create_summary False ex_elf ex_dladdr (the (finalize 7 (9, 1) 0 (snd (run_us ex_env ex_calls ex_made))))
     (summ_init (the (finalize 7 (9, 1) 0 (snd (run_us ex_env ex_calls ex_made)))) empty_db)))) 2 2 2"
  by code_simp

lemma ex_clock_12: "clock_ok ex_env 12"
proof -
  have "unat (timespec_ns (fst (re_clk ex_env k))) = k + 4000000000" if "k < 12" for k
    using that by (simp add: ex_env_def unat_word_ariths unat_of_nat)
  then show ?thesis by (simp add: clock_ok_def word_less_nat_alt)
qed

theorem summary_analysed_witness:
  "\<exists>s' s'' r sm a. run_us ex_env ex_calls ex_made = (Inr (), s') \<and> finalize 7 (9, 1) 0 s' = Some s'' \<and>
    create_summary False ex_elf ex_dladdr s'' (summ_init s'' empty_db) = (r, sm) \<and> load_database (\<lambda>_. True) (sm_db sm) = Inr a \<and>
    length (exectimes (call_of a 2 ECALL 1)) = 2 \<and> length (exectimes (call_of a 2 OCALL 1)) = 1"
proof -
  have e: "length (events ex_made) = 1" "length (tr_us (re_tracing ex_env) 1 None ex_calls) = 11"
    by (simp_all add: ex_made_def ex_urts_def EventStore_def ex_env_def ex_calls_def)
  have w: "within_us 2 2 2 ex_calls" by (simp add: ex_calls_def num_ok_def)
  have c: "count_list (map (apsnd unat) (made_us ex_calls)) (ECALL, 1) = 2" "count_list (map (apsnd unat) (made_us ex_calls)) (OCALL, 1) = 1"
    by (simp_all add: ex_calls_def)
  obtain s' s'' r sm where s: "run_us ex_env ex_calls ex_made = (Inr (), s')" "finalize 7 (9, 1) 0 s' = Some s''"
    "create_summary False ex_elf ex_dladdr s'' (summ_init s'' empty_db) = (r, sm)"
    "tables_cover (sm_db sm) 2 2 2 \<longrightarrow>
      (\<exists>a. load_database (\<lambda>_. True) (sm_db sm) = Inr a \<and>
        (\<forall>ty i. ty \<noteq> UNDEF \<longrightarrow> i < (if ty = ECALL then 2 else 2) \<longrightarrow>
           length (exectimes (call_of a 2 ty i)) = count_list (map (apsnd unat) (made_us ex_calls)) (ty, i)))"
    using summary_analysed [OF ex_made_before(2,1,3) w, unfolded e, of 7 "(9, 1)" 0 ex_elf ex_dladdr] ex_clock_12 by auto
  have "tables_cover (sm_db sm) 2 2 2" using ex_made_covered s(1-3) by simp
  with s(4) obtain a where a: "load_database (\<lambda>_. True) (sm_db sm) = Inr a"
    "\<And>ty i. ty \<noteq> UNDEF \<Longrightarrow> i < 2 \<Longrightarrow> length (exectimes (call_of a 2 ty i)) = count_list (map (apsnd unat) (made_us ex_calls)) (ty, i)"
    by auto
  have "length (exectimes (call_of a 2 ECALL 1)) = 2" "length (exectimes (call_of a 2 OCALL 1)) = 1"
    using a(2) [of ECALL 1] a(2) [of OCALL 1] unfolding c by simp_all
  with s(1-3) a(1) show ?thesis by blast
qed

section \<open>An ocall without a name\<close>

text \<open>The logger leaves the name of an ocall out when \<open>dladdr\<close> does not know its address. The analyzer makes a \<open>std::string\<close> of it.\<close>

lemma lookup_symbol_ocalls: "db_ocalls (sm_db (snd (lookup_symbol env f b a s))) = db_ocalls (sm_db s)"
  by (simp add: lookup_symbol_def c_bind_def sm_elf_def c_ret_def split: prod.split sum.split)

lemma c_text_state: "snd (c_text x s) = s"
  by (simp add: c_text_def c_fail_def c_ret_def split: option.split)

lemma map_ocalls_unresolved:
  "map_ocalls env dladdr eid i as s = (Inr (), s') \<Longrightarrow>
     set (db_ocalls (sm_db s)) \<subseteq> set (db_ocalls (sm_db s')) \<and>
     (a \<in> set as \<longrightarrow> dladdr a = None \<longrightarrow> (\<exists>r \<in> set (db_ocalls (sm_db s')). or_symbol_name r = None))"
proof (induction as arbitrary: i s)
  case Nil
  then show ?case by (simp add: c_ret_def)
next
  case (Cons b as)
  show ?case
  proof (cases "dladdr b")
    case None
    then show ?thesis using Cons.prems by (auto simp: sm_insert_ocall_def sm_upd_db_def c_upd_def split: if_splits)
  next
    case (Some fb)
    obtain f base where fb: "fb = (f, base)" by (cases fb)
    obtain info s1 where s1: "lookup_symbol env f base b s = (Inr info, s1)"
      using Cons.prems Some fb by (cases "lookup_symbol env f base b s") (auto simp: c_bind_def split: sum.splits)
    obtain il where il: "c_text info s1 = (Inr il, s1)"
      using Cons.prems Some fb s1 c_text_state [of info s1] by (cases "c_text info s1") (auto simp: c_bind_def split: sum.splits)
    obtain fl where fl: "c_text f s1 = (Inr fl, s1)"
      using Cons.prems Some fb s1 il c_text_state [of f s1] by (cases "c_text f s1") (auto simp: c_bind_def split: sum.splits)
    let ?row = "\<lparr>or_id = i, or_eid = eid, or_symbol_name = Some il, or_file_name = Some fl, or_address = Some (num_lit b),
      or_normalized = Some (num_lit (b - base))\<rparr>"
    let ?s2 = "s1\<lparr>sm_db := (sm_db s1)\<lparr>db_ocalls := db_ocalls (sm_db s1) @ [?row]\<rparr>\<rparr>"
    have s2: "map_ocalls env dladdr eid (Suc i) as ?s2 = (Inr (), s')"
      using Cons.prems Some fb s1 il fl
      by (auto simp: c_bind_def c_then_def sm_insert_ocall_def sm_upd_db_def c_upd_def split: if_splits)
    have "db_ocalls (sm_db s1) = db_ocalls (sm_db s)" using lookup_symbol_ocalls [of env f base b s] s1 by simp
    then show ?thesis using Cons.IH [OF s2] Some by auto
  qed
qed

lemma ocalls_unnamed:
  "\<exists>r \<in> set rs. or_symbol_name r = None \<Longrightarrow> fold_fault ocall_row_callback rs a = Inl StdException"
  by (induction rs arbitrary: a) (auto simp: ocall_row_callback_def ocalls_callback_def fbind_def split: option.split)

text \<open>C39: an ocall in the table of an enclave whose address \<open>dladdr\<close> does not know makes the recording unusable: the logger
  writes its row without a name, and the analyzer, given a database that has the rows, ends with an exception before it reads a call.\<close>

theorem unresolved_ocall_aborts:
  assumes "map_ocalls env dladdr eid i as s = (Inr (), s')" and "a \<in> set as" "dladdr a = None"
    and "set (db_ocalls (sm_db s')) \<subseteq> set (db_ocalls d)"
  shows "load_database (\<lambda>_. True) d = Inl StdException"
proof -
  have "\<exists>r \<in> set (ocall_rows d). or_symbol_name r = None"
    using map_ocalls_unresolved [OF assms(1), of a] assms(2-4) by (auto simp: ocall_rows_def)
  note bad = ocalls_unnamed [OF this]
  have g: "\<exists>b. fold_fault general_row_callback xs a = Inr b" for xs a
    by (induction xs arbitrary: a) (simp_all add: general_row_callback_def column_val fbind_def)
  have e: "\<exists>b. fold_fault ecall_row_callback xs a = Inr b" for xs a
    by (induction xs arbitrary: a) (simp_all add: ecall_row_callback_def ecalls_callback_def fbind_def)
  obtain a1 where a1: "fold_fault general_row_callback (general_rows d) new_analysis = Inr a1" using g by blast
  obtain a2 where a2: "fold_fault ecall_row_callback (ecall_rows d) a1 = Inr a2" using e by blast
  show ?thesis by (simp add: load_database_def sql_exec_fold a1 a2 bad fbind_def)
qed

theorem unresolved_ocall_aborts_witness:
  "\<exists>s'. map_ocalls ex_elf ex_dladdr 2 0 [81, 4096, 82] (summ_init ex_urts empty_db) = (Inr (), s') \<and>
     load_database (\<lambda>_. True) (sm_db s') = Inl StdException"
proof -
  have "fst (map_ocalls ex_elf ex_dladdr 2 0 [81, 4096, 82] (summ_init ex_urts empty_db)) = Inr ()" by code_simp
  then obtain s' where s': "map_ocalls ex_elf ex_dladdr 2 0 [81, 4096, 82] (summ_init ex_urts empty_db) = (Inr (), s')"
    by (metis prod.collapse)
  with unresolved_ocall_aborts [OF s', of 4096 "sm_db s'"] show ?thesis by (simp add: ex_dladdr_def)
qed

end
