(* ===== verification/Benchmark.thy ===== *)
theory Benchmark
  imports RoundTrip Perf
begin

text \<open>
  The example application, \<^verbatim>\<open>src/examples/Benchmark/src/app.cpp\<close>, and its enclave, \<^verbatim>\<open>enclave.cpp\<close>. The application is a computation on
  the record of what it does: the calls it makes, its readings of the clock and its output. What \<open>sgx_create_enclave\<close> returns and what the
  clock shows are arguments, as are the numbers that the generated interface gives to the calls.
\<close>

section \<open>Numbers as text\<close>

text \<open>\<open>printf\<close> with \<open>%lu\<close> and with \<open>%09lu\<close>, and \<open>strtoul\<close> with base 10.\<close>

fun lu :: "nat \<Rightarrow> string" where
  "lu n = (if n < 10 then [char_of (48 + n)] else lu (n div 10) @ [char_of (48 + n mod 10)])"

declare lu.simps [simp del]

definition lu09 :: "nat \<Rightarrow> string" where
  "lu09 n = replicate (9 - length (lu n)) (CHR ''0'') @ lu n"

definition sign_of :: "string \<Rightarrow> bool \<times> string" where
  "sign_of s = (if s \<noteq> [] \<and> hd s = CHR ''-'' then (True, tl s) else if s \<noteq> [] \<and> hd s = CHR ''+'' then (False, tl s) else (False, s))"

definition dec_num :: "string \<Rightarrow> nat" where
  "dec_num ds = foldl (\<lambda>n c. 10 * n + digit c) 0 ds"

definition strtoul10 :: "string \<Rightarrow> u64" where
  "strtoul10 s =
     (let (neg, t) = sign_of (dropWhile is_space s);
          n = dec_num (takeWhile is_digit t)
      in if 2 ^ 64 \<le> n then UINT64_MAX else if neg then - of_nat n else of_nat n)"

section \<open>The application\<close>

text \<open>The status codes by the names the source uses; any other code is \<open>Other_status\<close>.\<close>

datatype sgx_status =
    SGX_SUCCESS_STATUS | SGX_ERROR_UNEXPECTED | SGX_ERROR_INVALID_PARAMETER_STATUS | SGX_ERROR_OUT_OF_MEMORY | SGX_ERROR_ENCLAVE_LOST
  | SGX_ERROR_INVALID_ENCLAVE | SGX_ERROR_INVALID_ENCLAVE_ID | SGX_ERROR_INVALID_SIGNATURE | SGX_ERROR_OUT_OF_EPC | SGX_ERROR_NO_DEVICE
  | SGX_ERROR_MEMORY_MAP_CONFLICT | SGX_ERROR_INVALID_METADATA | SGX_ERROR_DEVICE_BUSY | SGX_ERROR_INVALID_VERSION
  | SGX_ERROR_INVALID_ATTRIBUTE | SGX_ERROR_ENCLAVE_FILE_ACCESS | Other_status u32

record sgx_errlist_t =
  el_err :: sgx_status
  el_msg :: string
  el_sug :: "string option"

definition sgx_errlist :: "sgx_errlist_t list" where
  "sgx_errlist =
     [\<lparr>el_err = SGX_ERROR_UNEXPECTED, el_msg = ''Unexpected error occurred.'', el_sug = None\<rparr>,
      \<lparr>el_err = SGX_ERROR_INVALID_PARAMETER_STATUS, el_msg = ''Invalid parameter.'', el_sug = None\<rparr>,
      \<lparr>el_err = SGX_ERROR_OUT_OF_MEMORY, el_msg = ''Out of memory.'', el_sug = None\<rparr>,
      \<lparr>el_err = SGX_ERROR_ENCLAVE_LOST, el_msg = ''Power transition occurred.'',
         el_sug = Some (''Please refer to the sample '' @ [CHR 0x22] @ ''PowerTransition'' @ [CHR 0x22] @ '' for details.'')\<rparr>,
      \<lparr>el_err = SGX_ERROR_INVALID_ENCLAVE, el_msg = ''Invalid enclave image.'', el_sug = None\<rparr>,
      \<lparr>el_err = SGX_ERROR_INVALID_ENCLAVE_ID, el_msg = ''Invalid enclave identification.'', el_sug = None\<rparr>,
      \<lparr>el_err = SGX_ERROR_INVALID_SIGNATURE, el_msg = ''Invalid enclave signature.'', el_sug = None\<rparr>,
      \<lparr>el_err = SGX_ERROR_OUT_OF_EPC, el_msg = ''Out of EPC memory.'', el_sug = None\<rparr>,
      \<lparr>el_err = SGX_ERROR_NO_DEVICE, el_msg = ''Invalid SGX device.'',
         el_sug = Some ''Please make sure SGX module is enabled in the BIOS, and install SGX driver afterwards.''\<rparr>,
      \<lparr>el_err = SGX_ERROR_MEMORY_MAP_CONFLICT, el_msg = ''Memory map conflicted.'', el_sug = None\<rparr>,
      \<lparr>el_err = SGX_ERROR_INVALID_METADATA, el_msg = ''Invalid enclave metadata.'', el_sug = None\<rparr>,
      \<lparr>el_err = SGX_ERROR_DEVICE_BUSY, el_msg = ''SGX device was busy.'', el_sug = None\<rparr>,
      \<lparr>el_err = SGX_ERROR_INVALID_VERSION, el_msg = ''Enclave version was invalid.'', el_sug = None\<rparr>,
      \<lparr>el_err = SGX_ERROR_INVALID_ATTRIBUTE, el_msg = ''Enclave was not authorized.'', el_sug = None\<rparr>,
      \<lparr>el_err = SGX_ERROR_ENCLAVE_FILE_ACCESS, el_msg = ''Can'' @ [CHR 0x27] @ ''t open enclave file.'', el_sug = None\<rparr>]"

datatype stream = Stdout | Stderr

datatype bench_call = Ecall_single | Ecall_with_ocall | Ecall_long

datatype bench_act = Create_enclave | Ecall bench_call u64 | Destroy_enclave u64 | Read_clock | Output stream string

record bench_env =
  be_create :: "sgx_status \<times> u64"
  be_clock :: "nat \<Rightarrow> int \<times> int"

record bench_state =
  bs_acts :: "bench_act list"
  bs_reads :: nat
  global_eid :: u64

definition act :: "bench_act \<Rightarrow> (bench_state, unit) comp" where
  "act a = c_upd (\<lambda>s. s\<lparr>bs_acts := bs_acts s @ [a]\<rparr>)"

abbreviation nl :: string where "nl \<equiv> [CHR 0x0A]"

definition printf :: "string \<Rightarrow> (bench_state, unit) comp" where
  "printf t = act (Output Stdout t)"

fun error_loop :: "sgx_errlist_t list \<Rightarrow> sgx_status \<Rightarrow> (bench_state, unit) comp" where
  "error_loop [] ret = printf (''Error: Unexpected error occurred.'' @ nl)"
| "error_loop (x # xs) ret =
     (if ret = el_err x
      then c_then (case el_sug x of None \<Rightarrow> c_ret () | Some t \<Rightarrow> printf (''Info: '' @ t @ nl)) (printf (''Error: '' @ el_msg x @ nl))
      else error_loop xs ret)"

definition print_error_message :: "sgx_status \<Rightarrow> (bench_state, unit) comp" where
  "print_error_message ret = error_loop sgx_errlist ret"

definition initialize_enclave :: "bench_env \<Rightarrow> (bench_state, int) comp" where
  "initialize_enclave E =
     c_then (act Create_enclave)
       (c_then (c_upd (\<lambda>s. s\<lparr>global_eid := snd (be_create E)\<rparr>))
         (if fst (be_create E) \<noteq> SGX_SUCCESS_STATUS then c_then (print_error_message (fst (be_create E))) (c_ret (-1)) else c_ret 0))"

text \<open>Seconds and nanoseconds.\<close>

fun timespec_diff :: "int \<times> int \<Rightarrow> int \<times> int \<Rightarrow> int \<times> int" where
  "timespec_diff (ssec, snsec) (esec, ensec) =
     (if ensec - snsec < 0 then (esec - ssec - 1, ensec - snsec + 1000000000) else (esec - ssec, ensec - snsec))"

definition clock_gettime :: "bench_env \<Rightarrow> (bench_state, int \<times> int) comp" where
  "clock_gettime E =
     c_bind (c_get bs_reads) (\<lambda>n. c_then (act Read_clock) (c_then (c_upd (\<lambda>s. s\<lparr>bs_reads := Suc n\<rparr>)) (c_ret (be_clock E n))))"

definition call_times :: "nat \<Rightarrow> bench_call \<Rightarrow> (bench_state, unit) comp" where
  "call_times n k = c_bind (c_get global_eid) (\<lambda>eid. c_each (\<lambda>_. act (Ecall k eid)) [0..<n])"

text \<open>\<open>ns / iterations\<close> with no iterations is a division by zero.\<close>

definition print_times :: "int \<times> int \<Rightarrow> u64 \<Rightarrow> (bench_state, unit) comp" where
  "print_times diff iterations =
     (let sec = of_int (fst diff) :: u64; nsec = of_int (snd diff) :: u64; ns = sec * 1000000000 + nsec
      in c_then (act (Output Stderr (lu (unat sec) @ ''.'' @ lu09 (unat nsec) @ '','')))
           (if iterations = 0 then c_fail DivZero else act (Output Stderr (lu (unat (ns div iterations)) @ nl))))"

definition WARMUP_ITERATIONS :: nat where "WARMUP_ITERATIONS = 1000"

definition measure_call :: "bench_env \<Rightarrow> bench_call \<Rightarrow> u64 \<Rightarrow> (bench_state, unit) comp" where
  "measure_call E k iterations =
     c_then (call_times WARMUP_ITERATIONS k)
       (c_bind (clock_gettime E) (\<lambda>start.
         c_then (call_times (unat iterations) k)
           (c_bind (clock_gettime E) (\<lambda>stop. print_times (timespec_diff start stop) iterations))))"

definition single_call :: "bench_env \<Rightarrow> u64 \<Rightarrow> (bench_state, unit) comp" where
  "single_call E iterations = measure_call E Ecall_single iterations"

definition call_with_ocall :: "bench_env \<Rightarrow> u64 \<Rightarrow> (bench_state, unit) comp" where
  "call_with_ocall E iterations = measure_call E Ecall_with_ocall iterations"

definition long_call :: "bench_env \<Rightarrow> u64 \<Rightarrow> (bench_state, unit) comp" where
  "long_call E iterations = measure_call E Ecall_long iterations"

definition usage_lines :: "string \<Rightarrow> string list" where
  "usage_lines prog =
     [''Usage: '' @ prog @ '' iterations mode'' @ nl,
      ''mode:'' @ [CHR 0x09] @ ''1'' @ [CHR 0x09] @ ''Single ECall'' @ nl @ [CHR 0x09] @ ''2'' @ [CHR 0x09] @ ''ECall with OCall'' @ nl @
        [CHR 0x09] @ ''3'' @ [CHR 0x09] @ ''Long ECall'' @ nl]"

definition destroy_enclave :: "(bench_state, unit) comp" where
  "destroy_enclave = c_bind (c_get global_eid) (\<lambda>eid. act (Destroy_enclave eid))"

definition bench_main :: "bench_env \<Rightarrow> string list \<Rightarrow> (bench_state, int) comp" where
  "bench_main E argv =
     c_bind (initialize_enclave E) (\<lambda>r.
       if r < 0 then c_then (printf (''Enclave creation failed :('' @ nl)) (c_ret (-1))
       else if length argv \<noteq> 3
       then c_then (c_each printf (usage_lines (if argv = [] then ''(null)'' else hd argv))) (c_then destroy_enclave (c_ret (-1)))
       else
         let iterations = strtoul10 (argv ! 1); mode = strtoul10 (argv ! 2)
         in c_then
              (if mode = 1 then single_call E iterations
               else if mode = 2 then call_with_ocall E iterations
               else if mode = 3 then long_call E iterations
               else printf (''Unknown mode!'' @ nl))
              (c_then destroy_enclave (c_ret 0)))"

definition bench_start :: bench_state where
  "bench_start = \<lparr>bs_acts = [], bs_reads = 0, global_eid = 0\<rparr>"

section \<open>The enclave\<close>

datatype enclave_op = Ocall_print_string string | Ocall_single | Pause

definition LOOPS :: nat where "LOOPS = 1000000"

definition ecall_void :: "enclave_op list" where
  "ecall_void = [Ocall_print_string (''yay'' @ nl)]"

definition ecall_single :: "enclave_op list" where
  "ecall_single = []"

definition ecall_with_ocall :: "enclave_op list" where
  "ecall_with_ocall = [Ocall_single]"

definition ecall_long :: "enclave_op list" where
  "ecall_long = replicate LOOPS Pause"

text \<open>The untrusted functions the enclave calls.\<close>

fun run_ocall :: "enclave_op \<Rightarrow> (bench_state, unit) comp" where
  "run_ocall (Ocall_print_string t) = printf t"
| "run_ocall Ocall_single = c_ret ()"
| "run_ocall Pause = c_ret ()"

section \<open>Text and numbers\<close>

lemma digit_char [simp]: "k < 10 \<Longrightarrow> digit (char_of (48 + k)) = k" "k < 10 \<Longrightarrow> is_digit (char_of (48 + k))"
  by (simp_all add: digit_def is_digit_def of_char_of)

lemma lu_digits: "list_all is_digit (lu n) \<and> lu n \<noteq> []"
proof (induction n rule: lu.induct)
  case (1 n)
  show ?case
    by (subst (1 2) lu.simps) (use 1 in simp)
qed

lemma dec_num_snoc: "dec_num (xs @ [c]) = 10 * dec_num xs + digit c"
  by (simp add: dec_num_def)

lemma dec_num_lu: "dec_num (lu n) = n"
proof (induction n rule: lu.induct)
  case (1 n)
  show ?case
  proof (cases "n < 10")
    case True
    then show ?thesis by (simp add: lu.simps dec_num_def)
  next
    case False
    then show ?thesis using 1 by (simp add: lu.simps [of n] dec_num_snoc)
  qed
qed

lemma strtoul10_lu:
  assumes "n < 2 ^ 64" shows "strtoul10 (lu n) = of_nat n"
proof -
  obtain c cs where l: "lu n = c # cs" using lu_digits [of n] by (cases "lu n") simp_all
  have d: "is_digit c" "list_all is_digit (lu n)" using lu_digits [of n] l by simp_all
  have "\<not> is_space c" "c \<noteq> CHR ''-''" "c \<noteq> CHR ''+''" using d(1) by (auto simp: is_digit_def is_space_def)
  then have "sign_of (dropWhile is_space (lu n)) = (False, lu n)" by (simp add: l sign_of_def)
  moreover have "takeWhile is_digit (lu n) = lu n" using d(2) by (simp add: list_all_iff)
  ultimately show ?thesis using assms by (simp add: strtoul10_def dec_num_lu Let_def del: takeWhile_eq_all_conv)
qed

section \<open>Measuring\<close>

definition ns_of :: "int \<times> int \<Rightarrow> int" where
  "ns_of t = fst t * 1000000000 + snd t"

definition valid_time :: "int \<times> int \<Rightarrow> bool" where
  "valid_time t \<longleftrightarrow> 0 \<le> snd t \<and> snd t < 1000000000"

lemma timespec_diff_ok:
  assumes "valid_time start" "valid_time stop" "ns_of start \<le> ns_of stop"
  shows "timespec_diff start stop = ((ns_of stop - ns_of start) div 1000000000, (ns_of stop - ns_of start) mod 1000000000)"
proof -
  obtain a b c d where t: "start = (a, b)" "stop = (c, d)" by (cases start, cases stop)
  let ?D = "ns_of stop - ns_of start"
  let ?r = "timespec_diff start stop"
  have "?D = snd ?r + 1000000000 * fst ?r" "0 \<le> snd ?r" "snd ?r < 1000000000"
    using assms by (auto simp: t ns_of_def valid_time_def)
  then have "?D div 1000000000 = fst ?r" "?D mod 1000000000 = snd ?r"
    by (simp_all add: div_pos_pos_trivial mod_pos_pos_trivial)
  then show ?thesis by (simp add: prod_eq_iff)
qed

lemma act_eq [simp]: "act a s = (Inr (), s\<lparr>bs_acts := bs_acts s @ [a]\<rparr>)"
  by (simp add: act_def)

lemma acts_eq: "c_each (\<lambda>_. act a) xs s = (Inr (), s\<lparr>bs_acts := bs_acts s @ replicate (length xs) a\<rparr>)"
  by (induction xs arbitrary: s) (simp_all add: c_then_def c_bind_def)

lemma call_times_eq:
  "call_times n k s = (Inr (), s\<lparr>bs_acts := bs_acts s @ replicate n (Ecall k (global_eid s))\<rparr>)"
  by (simp add: call_times_def c_bind_def acts_eq)

lemma clock_gettime_eq:
  "clock_gettime E s = (Inr (be_clock E (bs_reads s)), s\<lparr>bs_acts := bs_acts s @ [Read_clock], bs_reads := Suc (bs_reads s)\<rparr>)"
  by (simp add: clock_gettime_def c_bind_def c_then_def)

text \<open>What a measurement adds to the record, up to the output.\<close>

definition measured :: "bench_call \<Rightarrow> u64 \<Rightarrow> bench_state \<Rightarrow> bench_state" where
  "measured k iterations s = s\<lparr>bs_acts := bs_acts s @ replicate WARMUP_ITERATIONS (Ecall k (global_eid s)) @ [Read_clock] @
     replicate (unat iterations) (Ecall k (global_eid s)) @ [Read_clock], bs_reads := Suc (Suc (bs_reads s))\<rparr>"

lemma measure_call_eq:
  "measure_call E k iterations s =
     print_times (timespec_diff (be_clock E (bs_reads s)) (be_clock E (Suc (bs_reads s)))) iterations (measured k iterations s)"
  by (simp add: measure_call_def c_then_def c_bind_def call_times_eq clock_gettime_eq measured_def)

definition elapsed :: "bench_env \<Rightarrow> nat" where
  "elapsed E = nat (ns_of (be_clock E 1) - ns_of (be_clock E 0))"

definition times_ok :: "bench_env \<Rightarrow> bool" where
  "times_ok E \<longleftrightarrow> valid_time (be_clock E 0) \<and> valid_time (be_clock E 1) \<and> ns_of (be_clock E 0) \<le> ns_of (be_clock E 1) \<and>
     ns_of (be_clock E 1) - ns_of (be_clock E 0) < 2 ^ 64"

definition time_lines :: "nat \<Rightarrow> nat \<Rightarrow> bench_act list" where
  "time_lines d n = [Output Stderr (lu (d div 1000000000) @ ''.'' @ lu09 (d mod 1000000000) @ '',''), Output Stderr (lu (d div n) @ nl)]"

lemma print_times_eq:
  assumes "times_ok E" "0 < n" "n < 2 ^ 64"
  shows "print_times (timespec_diff (be_clock E 0) (be_clock E 1)) (of_nat n) s =
    (Inr (), s\<lparr>bs_acts := bs_acts s @ time_lines (elapsed E) n\<rparr>)"
proof -
  let ?d = "elapsed E"
  have D: "int ?d = ns_of (be_clock E 1) - ns_of (be_clock E 0)" using assms(1) by (simp add: times_ok_def elapsed_def)
  have "int ?d < 2 ^ 64" unfolding D using assms(1) by (simp add: times_ok_def)
  then have l: "?d < 2 ^ 64" by simp
  have t: "timespec_diff (be_clock E 0) (be_clock E 1) = (int (?d div 1000000000), int (?d mod 1000000000))"
    using timespec_diff_ok [of "be_clock E 0" "be_clock E 1"] assms(1) D by (simp add: times_ok_def zdiv_int zmod_int)
  have sm: "?d div 1000000000 < 2 ^ 64" "?d mod 1000000000 < 2 ^ 64" using l by (auto intro: le_less_trans [OF div_le_dividend])
  have u: "unat (of_nat x :: u64) = x" if "x < 2 ^ 64" for x using that by (simp add: unat_of_nat)
  have "(of_nat (?d div 1000000000) :: u64) * 1000000000 + of_nat (?d mod 1000000000) = of_nat (?d div 1000000000 * 1000000000 + ?d mod 1000000000)"
    by (simp only: of_nat_add of_nat_mult of_nat_numeral)
  also have "\<dots> = of_nat ?d" by (simp only: div_mult_mod_eq)
  finally have ns: "unat (((of_nat (?d div 1000000000) :: u64) * 1000000000 + of_nat (?d mod 1000000000)) div of_nat n) = ?d div n"
    by (simp add: unat_div u [OF l] u [OF assms(3)])
  have "(of_nat n :: u64) \<noteq> 0" using u [OF assms(3)] assms(2) by (metis unat_0 less_irrefl)
  then show ?thesis
    unfolding t print_times_def fst_conv snd_conv of_int_of_nat_eq Let_def
    by (simp add: c_then_def c_bind_def u [OF sm(1)] u [OF sm(2)] ns time_lines_def)
qed

section \<open>The program\<close>

definition call_of_mode :: "nat \<Rightarrow> bench_call" where
  "call_of_mode m = (if m = 1 then Ecall_single else if m = 2 then Ecall_with_ocall else Ecall_long)"

lemma bench_main_start:
  assumes "be_create E = (SGX_SUCCESS_STATUS, eid)"
  shows "initialize_enclave E bench_start = (Inr 0, \<lparr>bs_acts = [Create_enclave], bs_reads = 0, global_eid = eid\<rparr>)"
  using assms by (simp add: initialize_enclave_def c_then_def c_bind_def bench_start_def)

text \<open>The call that a mode measures.\<close>

lemma bench_main_mode:
  assumes "be_create E = (SGX_SUCCESS_STATUS, eid)" "n < 2 ^ 64" "m \<in> {1, 2, 3}"
  shows "bench_main E [prog, lu n, lu m] bench_start =
    c_then (measure_call E (call_of_mode m) (of_nat n)) (c_then destroy_enclave (c_ret 0))
      \<lparr>bs_acts = [Create_enclave], bs_reads = 0, global_eid = eid\<rparr>"
proof -
  have "strtoul10 (lu m) = of_nat m" by (rule strtoul10_lu) (use assms(3) in auto)
  with assms(3) strtoul10_lu [OF assms(2)] show ?thesis
    by (auto simp: bench_main_def c_bind_def [of "initialize_enclave E"] bench_main_start [OF assms(1)] single_call_def call_with_ocall_def
        long_call_def call_of_mode_def)
qed

text \<open>The actions of a measurement of \<open>n\<close> calls that took \<open>d\<close> nanoseconds.\<close>

definition bench_acts :: "bench_call \<Rightarrow> u64 \<Rightarrow> nat \<Rightarrow> nat \<Rightarrow> bench_act list" where
  "bench_acts k eid n d = [Create_enclave] @ replicate 1000 (Ecall k eid) @ [Read_clock] @ replicate n (Ecall k eid) @ [Read_clock] @
     time_lines d n @ [Destroy_enclave eid]"

lemma bench_main_acts:
  assumes "be_create E = (SGX_SUCCESS_STATUS, eid)" "0 < n" "n < 2 ^ 64" "m \<in> {1, 2, 3}" "times_ok E"
  shows "bench_main E [prog, lu n, lu m] bench_start =
    (Inr 0, \<lparr>bs_acts = bench_acts (call_of_mode m) eid n (elapsed E), bs_reads = 2, global_eid = eid\<rparr>)"
proof -
  have "unat (of_nat n :: u64) = n" using assms(3) by (simp add: unat_of_nat)
  then show ?thesis
    using print_times_eq [OF assms(5,2,3)]
    by (simp add: bench_main_mode [OF assms(1,3,4)] c_then_def c_bind_def measure_call_eq measured_def destroy_enclave_def bench_acts_def
        WARMUP_ITERATIONS_def)
qed

text \<open>The other ways the program ends: without iterations it divides by zero and leaves the enclave; it creates the enclave before it looks
  at its arguments.\<close>

lemma bench_no_iterations:
  assumes "be_create E = (SGX_SUCCESS_STATUS, eid)" "m \<in> {1, 2, 3}"
  shows "fst (bench_main E [prog, lu 0, lu m] bench_start) = Inl DivZero"
    "Destroy_enclave eid \<notin> set (bs_acts (snd (bench_main E [prog, lu 0, lu m] bench_start)))"
  by (auto simp: bench_main_mode [OF assms(1) _ assms(2)] c_then_def c_bind_def measure_call_eq measured_def print_times_def Let_def)

lemma bench_bad_arguments:
  assumes "be_create E = (SGX_SUCCESS_STATUS, eid)" "length argv \<noteq> 3"
  shows "fst (bench_main E argv bench_start) = Inr (-1)"
    "hd (bs_acts (snd (bench_main E argv bench_start))) = Create_enclave"
    "last (bs_acts (snd (bench_main E argv bench_start))) = Destroy_enclave eid"
  using assms(2) by (simp_all add: bench_main_def c_bind_def bench_main_start [OF assms(1)] c_then_def usage_lines_def printf_def
      destroy_enclave_def)

lemma bench_no_enclave:
  assumes "fst (be_create E) \<noteq> SGX_SUCCESS_STATUS"
  shows "fst (bench_main E argv bench_start) = Inr (-1)"
proof -
  have "\<exists>s'. error_loop xs r s = (Inr (), s')" for xs r s
    by (induction xs) (auto simp: printf_def c_then_def c_bind_def split: option.split)
  then obtain s' where "print_error_message (fst (be_create E)) (bench_start\<lparr>bs_acts := [Create_enclave], global_eid := snd (be_create E)\<rparr>) = (Inr (), s')"
    unfolding print_error_message_def by blast
  with assms have "initialize_enclave E bench_start = (Inr (-1), s')"
    by (simp add: initialize_enclave_def c_bind_def c_then_def) (simp add: bench_start_def)
  then show ?thesis by (simp add: bench_main_def c_bind_eq(1) c_then_def c_bind_def printf_def)
qed

section \<open>The benchmark under the logger\<close>

text \<open>
  The numbers and arguments that the generated interface passes on. An asynchronous exit may happen at any of the pauses: \<open>exits j i\<close> tells
  whether one does at the \<open>i\<close>-th operation of the \<open>j\<close>-th action.
\<close>

record bench_iface =
  bi_ecall :: "bench_call \<Rightarrow> u32"
  bi_ocall_single :: u32
  bi_ocall_print :: u32
  bi_ms :: u64

fun enclave_code :: "bench_call \<Rightarrow> enclave_op list" where
  "enclave_code Ecall_single = ecall_single"
| "enclave_code Ecall_with_ocall = ecall_with_ocall"
| "enclave_code Ecall_long = ecall_long"

fun op_acts :: "bench_iface \<Rightarrow> bool \<Rightarrow> enclave_op \<Rightarrow> eact list" where
  "op_acts I x Ocall_single = [EOcall (bi_ocall_single I) (bi_ms I) SGX_SUCCESS []]"
| "op_acts I x (Ocall_print_string t) = [EOcall (bi_ocall_print I) (bi_ms I) SGX_SUCCESS []]"
| "op_acts I x Pause = (if x then [EAex] else [])"

fun act_calls :: "bench_iface \<Rightarrow> (nat \<Rightarrow> bool) \<Rightarrow> bench_act \<Rightarrow> uact list" where
  "act_calls I exits (Ecall k eid) =
     [UEcall eid (bi_ecall I k) (bi_ms I) SGX_SUCCESS (concat (map (\<lambda>(i, x). op_acts I (exits i) x) (enumerate 0 (enclave_code k))))]"
| "act_calls I exits _ = []"

definition bench_calls :: "bench_iface \<Rightarrow> (nat \<Rightarrow> nat \<Rightarrow> bool) \<Rightarrow> bench_act list \<Rightarrow> uact list" where
  "bench_calls I exits as = concat (map (\<lambda>(j, a). act_calls I (exits j) a) (enumerate 0 as))"

definition calls_per :: "bench_call \<Rightarrow> nat" where
  "calls_per k = (if k = Ecall_with_ocall then 2 else 1)"

lemma calls_us_append [simp]: "calls_us (xs @ ys) = calls_us xs + calls_us ys"
  by (induction xs) simp_all

lemma calls_es_append [simp]: "calls_es (xs @ ys) = calls_es xs + calls_es ys"
  by (induction xs) simp_all

lemma pauses_no_calls:
  "calls_es (concat (map (\<lambda>(i, x). op_acts I (exits i) x) (enumerate m (replicate n Pause)))) = 0"
  by (induction n arbitrary: m) simp_all

lemma act_calls_count: "calls_us (act_calls I exits (Ecall k eid)) = calls_per k"
  by (cases k) (simp_all add: ecall_single_def ecall_with_ocall_def ecall_long_def calls_per_def pauses_no_calls)

definition is_ecall :: "bench_act \<Rightarrow> bool" where
  "is_ecall a \<longleftrightarrow> (case a of Ecall k eid \<Rightarrow> True | _ \<Rightarrow> False)"

lemma other_acts: "\<not> is_ecall a \<Longrightarrow> act_calls I exits a = []"
  by (cases a) (simp_all add: is_ecall_def)

lemma bench_calls_count:
  assumes "\<forall>a \<in> set as. is_ecall a \<longrightarrow> a = Ecall k eid"
  shows "calls_us (bench_calls I exits as) = calls_per k * length (filter is_ecall as)"
proof -
  have "calls_us (concat (map (\<lambda>(j, a). act_calls I (exits j) a) (enumerate m as))) = calls_per k * length (filter is_ecall as)" for m
    using assms
  proof (induction as arbitrary: m)
    case (Cons a as)
    then show ?case by (cases "is_ecall a") (auto simp: act_calls_count other_acts simp del: act_calls.simps)
  qed simp
  then show ?thesis by (simp add: bench_calls_def)
qed

lemma op_acts_wf:
  assumes "unat (bi_ocall_single I) < length (ot_table (re_tables R eid))" "\<forall>x \<in> set ops. \<forall>t. x \<noteq> Ocall_print_string t"
  shows "wf_es R K eid (concat (map (\<lambda>(i, x). op_acts I (exits i) x) (enumerate m ops)))"
proof -
  have ap: "wf_es R K eid (xs @ ys) \<longleftrightarrow> wf_es R K eid xs \<and> wf_es R K eid ys" for xs ys by (induction xs) simp_all
  show ?thesis using assms(2)
  proof (induction ops arbitrary: m)
    case (Cons x ops)
    then show ?case using assms(1) by (cases x) (auto simp: ap)
  qed simp
qed

lemma bench_calls_wf:
  assumes "unat (bi_ocall_single I) < length (ot_table (re_tables R eid))" "eid \<in> K" "\<forall>a \<in> set as. is_ecall a \<longrightarrow> a = Ecall k eid"
  shows "wf_us R K (bench_calls I exits as)"
proof -
  have ap: "wf_us R K (xs @ ys) \<longleftrightarrow> wf_us R K xs \<and> wf_us R K ys" for xs ys by (induction xs) simp_all
  have "\<forall>x \<in> set (enclave_code k). \<forall>t. x \<noteq> Ocall_print_string t"
    by (cases k) (auto simp: ecall_single_def ecall_with_ocall_def ecall_long_def)
  then have one: "wf_us R K (act_calls I ex (Ecall k eid))" for ex using op_acts_wf [OF assms(1)] assms(2) by simp
  have "wf_us R K (concat (map (\<lambda>(j, a). act_calls I (exits j) a) (enumerate m as)))" for m
    using assms(3)
  proof (induction as arbitrary: m)
    case (Cons a as)
    then show ?case using one by (cases "is_ecall a") (auto simp: other_acts ap simp del: act_calls.simps)
  qed simp
  then show ?thesis by (simp add: bench_calls_def)
qed

lemma bench_acts_calls:
  "\<forall>a \<in> set (bench_acts k eid n d). is_ecall a \<longrightarrow> a = Ecall k eid" "length (filter is_ecall (bench_acts k eid n d)) = 1000 + n"
  by (auto simp: bench_acts_def time_lines_def is_ecall_def)

text \<open>C17: the example program, run for \<open>n\<close> iterations of a mode under the logger, makes its warm-up and measured calls, reports the time between
  its two readings of the clock and that time per iteration, destroys the enclave and ends well; and what the analyzer then reads from
  the database the logger wrote has one row for each of the \<open>1000 + n\<close> ecalls, and in the mode with ocalls one more for the ocall each of
  them made, wherever asynchronous exits interrupted the enclave.\<close>

theorem benchmark_analysed:
  assumes "be_create E = (SGX_SUCCESS_STATUS, eid)" and "0 < n" and "n < 2 ^ 64" and "m \<in> {1, 2, 3}" and "times_ok E"
    and "urts_ok R t s" and "before_calls t s" and "eid \<in> known_enclaves s" and "unat (bi_ocall_single I) < length (ot_table (re_tables R eid))"
    and "tree = bench_calls I exits (bench_acts (call_of_mode m) eid n (elapsed E))"
    and "N = length (events s) + length (tr_us (re_tracing R) (length (events s)) None tree)" and "N < 2 ^ 63" and "clock_ok R N"
  shows "\<exists>b s' s'' r sm rows. bench_main E [prog, lu n, lu m] bench_start = (Inr 0, b) \<and>
    bs_acts b = bench_acts (call_of_mode m) eid n (elapsed E) \<and> run_us R (bench_calls I exits (bs_acts b)) s = (Inr (), s') \<and>
    finalize self now cpu s' = Some s'' \<and> create_summary False env dladdr s'' (summ_init s'' empty_db) = (r, sm) \<and>
    call_select (db_events (sm_db sm)) = Inr rows \<and> length rows = calls_per (call_of_mode m) * (1000 + n) \<and> open_rows rows \<noteq> None"
proof -
  let ?as = "bench_acts (call_of_mode m) eid n (elapsed E)"
  note A = bench_acts_calls [of "call_of_mode m" eid n "elapsed E"]
  have "wf_us R (known_enclaves s) tree" unfolding assms(10) by (rule bench_calls_wf [OF assms(9,8) A(1)])
  moreover have "calls_us tree = calls_per (call_of_mode m) * (1000 + n)" unfolding assms(10) bench_calls_count [OF A(1)] A(2) ..
  ultimately show ?thesis
    using round_trip [OF assms(6,7), of tree self now cpu env dladdr] assms(10-13) bench_main_acts [OF assms(1-5)] by auto
qed

definition ex_bench :: bench_env where
  "ex_bench = \<lparr>be_create = (SGX_SUCCESS_STATUS, 2), be_clock = (\<lambda>n. if n = 0 then (5, 999999990) else (6, 20))\<rparr>"

definition ex_iface :: bench_iface where
  "ex_iface = \<lparr>bi_ecall = (\<lambda>k. case k of Ecall_single \<Rightarrow> 0 | Ecall_with_ocall \<Rightarrow> 1 | Ecall_long \<Rightarrow> 2), bi_ocall_single = 0, bi_ocall_print = 1,
     bi_ms = 0\<rparr>"

lemma single_calls_trace: "length (tr_us tracing n c (replicate k (UEcall eid i a r []))) = 2 * k"
  by (induction k arbitrary: n) (simp_all add: Let_def)

lemma single_bench_calls:
  assumes "\<forall>a \<in> set as. is_ecall a \<longrightarrow> a = Ecall Ecall_single eid"
  shows "bench_calls I exits as = replicate (length (filter is_ecall as)) (UEcall eid (bi_ecall I Ecall_single) (bi_ms I) 0 [])"
proof -
  have "concat (map (\<lambda>(j, a). act_calls I (exits j) a) (enumerate m as)) =
      replicate (length (filter is_ecall as)) (UEcall eid (bi_ecall I Ecall_single) (bi_ms I) 0 [])" for m
    using assms
  proof (induction as arbitrary: m)
    case (Cons a as)
    then show ?case by (cases "is_ecall a") (auto simp: other_acts ecall_single_def)
  qed simp
  then show ?thesis by (simp add: bench_calls_def)
qed

lemma ex_clock_long: "clock_ok ex_env 4000"
proof -
  have "unat (timespec_ns (fst (re_clk ex_env k))) = k + 4000000000" if "k < 4000" for k
    using that by (simp add: ex_env_def unat_word_ariths unat_of_nat)
  then show ?thesis by (simp add: clock_ok_def word_less_nat_alt)
qed

theorem benchmark_analysed_witness:
  "\<exists>b s' s'' r sm rows. bench_main ex_bench [''bench'', lu 1, lu 1] bench_start = (Inr 0, b) \<and>
    bs_acts b = bench_acts Ecall_single 2 1 30 \<and> run_us ex_env (bench_calls ex_iface (\<lambda>_ _. False) (bs_acts b)) ex_urts = (Inr (), s') \<and>
    finalize 7 (9, 1) 0 s' = Some s'' \<and> create_summary False ex_elf (\<lambda>_. None) s'' (summ_init s'' empty_db) = (r, sm) \<and>
    call_select (db_events (sm_db sm)) = Inr rows \<and> length rows = 1001"
proof -
  let ?E = ex_bench
  let ?as = "bench_acts (call_of_mode 1) 2 1 (elapsed ?E)" let ?tree = "bench_calls ex_iface (\<lambda>_ _. False) ?as"
  let ?N = "length (events ex_urts) + length (tr_us (re_tracing ex_env) (length (events ex_urts)) None ?tree)"
  have k: "call_of_mode 1 = Ecall_single" "calls_per Ecall_single = 1" "elapsed ?E = 30"
    by (simp_all add: call_of_mode_def calls_per_def elapsed_def ex_bench_def ns_of_def)
  have N: "?N = 2002"
    unfolding k using single_bench_calls [OF bench_acts_calls(1) [of Ecall_single 2 1 30], of ex_iface "\<lambda>_ _. False"]
    by (simp add: bench_acts_calls(2) single_calls_trace ex_urts_def EventStore_def)
  have c: "clock_ok ex_env ?N" unfolding N using ex_clock_long by (simp add: clock_ok_def)
  have h: "be_create ?E = (SGX_SUCCESS_STATUS, 2)" "times_ok ?E"
    by (simp_all add: ex_bench_def times_ok_def valid_time_def ns_of_def)
  have t: "2 \<in> known_enclaves ex_urts" "unat (bi_ocall_single ex_iface) < length (ot_table (re_tables ex_env 2))"
    by (auto simp: known_enclaves_def ex_urts_def ex_iface_def ex_env_def)
  have lt: "?N < 2 ^ 63" unfolding N by simp
  show ?thesis
    using benchmark_analysed [OF h(1) _ _ _ h(2) ex_urts_before(2,1) t refl refl lt c, of "''bench''" 7 "(9, 1)" 0 ex_elf "\<lambda>_. None"]
    unfolding k by auto
qed

end
