(* ===== verification/Spec2Isabelle.thy ===== *)
theory Spec2Isabelle
  imports UrtsAep WorkingsetRun AnalyzerMain RwlockConc UrtsCode LibcOk Schema DbLoad Benchmark
begin

text \<open>
  \<^bold>\<open>Verification of sgx-perf.\<close>

  sgx-perf is a set of tools that measure how an application uses its SGX enclaves. The \<^emph>\<open>logger\<close> is preloaded into the application: it
  reads its switches (\<^verbatim>\<open>config.cpp\<close>), interposes the calls of the untrusted SGX runtime (\<^verbatim>\<open>urts_calls.cpp\<close>) and some of the C library (\<^verbatim>\<open>libc_calls.cpp\<close>), reads the trace of paging (\<^verbatim>\<open>perf.cpp\<close>), makes an event object
  (\<^verbatim>\<open>events.h\<close>) for every call, exit, page fault, signal and thread, and keeps the events in a store with one queue per thread
  (\<^verbatim>\<open>store.cpp\<close>), which is written to an SQLite file when the application ends. The \<^emph>\<open>analyzer\<close> (\<^verbatim>\<open>src/analyzer\<close>) reads the file, relates each
  call to its parent and to the calls before it, computes statistics, draws call graphs and prints hints. The \<^emph>\<open>working set analyzer\<close>
  (\<^verbatim>\<open>src/workingset\<close>) counts the pages of an enclave that are accessed. All three use a reader-writer lock and an ELF symbol lookup
  (\<^verbatim>\<open>src/common\<close>).

  \<^bold>\<open>The theories, and the files they model.\<close>

  \<^item> \<open>SgxPrelude\<close>: machine integers, the faults an operation can raise (\<open>fault\<close>), and computations \<open>(state, result) comp\<close> that carry a state
    and stop at the first fault, with \<open>c_bind\<close>, \<open>c_then\<close>, \<open>c_get\<close>, \<open>c_upd\<close>, \<open>c_each\<close>. All stateful components are written in these.
  \<^item> \<open>Rwlock\<close> (\<^verbatim>\<open>rwlock.cpp\<close>): the lock word, the eight operations as sequential computations on 8-bit tickets. \<open>RwlockTicket\<close> is the abstract lock, whose
    tickets never wrap; \<open>RwlockConc\<close> the transitions of up to 256 threads, one shared access per step, and the simulation of
    the abstract lock by them. The locale \<open>rw_exclusion\<close>, interpreted on both, carries mutual exclusion. \<open>LockField\<close> has the locale \<open>lock_field\<close> for a lock that is
    a member of a state; \<open>StoreInv\<close> interprets it on the three locks of the store and \<open>Workingset\<close> on that of the working set analyzer.
  \<^item> \<open>Events\<close> (\<^verbatim>\<open>events.h\<close>): the event classes as a datatype, the columns each class binds, and the recursive
    insertion of an event after the events it points to. \<open>EventsSer\<close>: what a heap of events looks like once inserted.
  \<^item> \<open>Store\<close>, \<open>StoreInv\<close>, \<open>StoreFin\<close> (\<^verbatim>\<open>store.h\<close>, \<^verbatim>\<open>store.cpp\<close>): the store as a record with the operations of \<open>EventStore\<close>, the invariant
    \<open>store_inv\<close>, insertion against the specification \<open>insert_spec\<close>, and finalisation. \<open>Summary\<close>, \<open>SummaryOk\<close>: the rows \<open>write_summary\<close> writes.
  \<^item> \<open>Elfparser\<close> (\<^verbatim>\<open>elfparser.cpp\<close>): lookup of a symbol by address, of the ecall table by name, over what libelf reports.
  \<^item> \<open>Urts\<close>, \<open>UrtsRun\<close>, \<open>UrtsSync\<close>, \<open>UrtsCode\<close> (\<^verbatim>\<open>urts_calls.cpp\<close>): creation and destruction of enclaves, ecalls, ocalls, asynchronous exits; runs of a
    whole tree of calls; the synchronisation ocalls; the machine code that is generated and patched, with an interpreter for the few instructions it has. \<open>UrtsAep\<close>: the assembly
    that is entered at an asynchronous exit; it resumes the enclave with the registers it had.
  \<^item> \<open>LibcCalls\<close> (\<^verbatim>\<open>libc_calls.cpp\<close>): threads. \<open>Logger\<close> (the signals of \<^verbatim>\<open>libc_calls.cpp\<close>, the logger's \<^verbatim>\<open>main.cpp\<close>): signals, loading and unloading. \<open>LibcOk\<close>: the facts on both.
  \<^item> \<open>Ini\<close> (\<^verbatim>\<open>ini.h\<close>): the INI object with its arrays and the blocks it allocates, and all operations on it. \<open>IniOk\<close> has the invariant \<open>ini_ok\<close> (each block has
    one owner) and each operation, \<open>IniRefine\<close> sequences of operations against the content, \<open>IniText\<close> writing and reading.
    \<open>Config\<close> (\<^verbatim>\<open>config.h\<close>, \<^verbatim>\<open>config.cpp\<close>): the switches of the logger, with the locale \<open>settings\<close> for what they rely on.
  \<^item> \<open>Perf\<close>, \<open>PerfOk\<close> (\<^verbatim>\<open>perf.h\<close>, \<^verbatim>\<open>perf.cpp\<close>): setting up the kernel's tracing, parsing the trace, reading the samples, the collector thread.
  \<^item> \<open>Calls\<close>, \<open>CallsRel\<close>, \<open>CallsLoad\<close>, \<open>CallsStats\<close>, \<open>CallsReport\<close> (\<^verbatim>\<open>calls.cpp\<close>, \<^verbatim>\<open>util.h\<close>, \<^verbatim>\<open>util.cpp\<close>): the callback that loads the calls, the relation of a
    call to the others, averages, deviations and histograms, the hints and the report. \<open>Doubles\<close>: the arithmetic of \<open>double\<close>, rounded to 53 bits.
  \<^item> \<open>Schema\<close>: the declarations of the tables in \<open>create_summary\<close>, and the cells of the rows it writes. \<open>Pipeline\<close>, \<open>RoundTrip\<close>, \<open>DbLoad\<close>: the
    composition of logger and analyzer: from a run of the handlers to the rows a query returns on the events, from the run through the written \<open>events\<close> table
    to the rows the analyzer reads, and from the whole database through \<open>sql_exec\<close> and the five queries of \<open>analyze_calls\<close> to the loaded calls.
  \<^item> \<open>Benchmark\<close> (\<^verbatim>\<open>src/examples/Benchmark\<close>): the benchmark with its ecalls and ocalls, as calls that the logger sees.
  \<^item> \<open>Graph\<close>, \<open>GraphOk\<close>, \<open>GraphLoad\<close> (\<^verbatim>\<open>graph.cpp\<close>); \<open>Security\<close>, \<open>EdlOk\<close>, \<open>SecurityOk\<close> (\<^verbatim>\<open>security.cpp\<close>, with its scanner of EDL files);
    \<open>Synchro\<close>, \<open>SynchroOk\<close> (\<^verbatim>\<open>synchro.cpp\<close>); \<open>AnalyzerMain\<close> (the analyzer's \<^verbatim>\<open>main.cpp\<close>).
  \<^item> \<open>Workingset\<close>, \<open>WorkingsetOk\<close>, \<open>WorkingsetRun\<close> (\<^verbatim>\<open>src/workingset/src/main.cpp\<close>): page permissions, the fault handler, the interposed signal calls.

  \<^bold>\<open>State and errors.\<close> An object on the heap that other objects point to is an index into a list of objects (events, threads, enclaves); a
  null pointer is \<open>None\<close>. Dereferencing null, an uncaught exception, an index out of range, a call of \<open>exit\<close> and a loop that does not end are values of
  \<open>fault\<close>. Machine integers are words; addresses are 64-bit words. The clock, the processor number, the address of a new
  object, the real functions behind the interposed ones, SQLite, libelf, the kernel (also how much of an \<open>mprotect\<close> it grants) and the file system are arguments of
  the definitions that use them.

  \<^bold>\<open>What is shown.\<close>

  \<^item> Lock: no writer beside another thread, and no deadlock (refinement of the abstract lock); after a number of cycles a trylock is as at the start.
  \<^item> Store: every operation keeps \<open>store_inv\<close>; an insertion does what \<open>insert_spec\<close> says on every branch; finalisation closes all open calls;
    after an exception in an insertion the lock stays held and the next insertion spins. The file has one row per event, a row after those it refers to, and all threads and event types.
  \<^item> Runtime calls: the events of any tree of ecalls, ocalls and exits are the tree in order, with matching returns; a wake-up is
    attributed to the wait it ends; the generated code calls the handler with its ids; threads are logged from creation to end.
  \<^item> Logger: loading leaves it configured from its file and ready to log, with the sampling and tracing the file asks for; a switch is what the first line with its name says, for
    any file; each line of the kernel's trace is
    logged as one event. INI objects: every sequence of operations refines its effect on the content and leaks nothing; what is written is
    read back.
  \<^item> Analyzer: the rows of any such tree satisfy what loading relies on, and loading computes, for each call, the parent and sibling counts that the
    tree determines; statistics, histograms and hints are those of the rows; the call graph shows exactly the calls an ecall depends on, and
    its search ends; the security hints give the narrowest interface; waits are counted once.
  \<^item> Both together: every row of the database has the declared types; each call of a program comes back as one row of the analyzer's query, with its data
    and nesting; the database can be loaded, and the loaded calls are as many as were made; the calls of the benchmark all come back.
  \<^item> Working set: under a kernel that never refuses \<open>mprotect\<close> the permission of each page and its flag agree in all states and every access goes on after the fault; what is
    left of this when it refuses, as it may beyond its limit of mappings, and the count, which is that of the accessed pages.
  \<^item> Where the code does not do what it means to, a theorem says what it does: a thread that outlives its creator, a sibling in another enclave, an ocall
    declared after a block comment, the reversed comparison of two interfaces, an address range whose end is counted, signals in the working set analyzer, a switch that
    is searched for in unwritten memory, a property whose freed text stays in use, lines of the trace that are logged twice, an ocall without a name.

  \<^bold>\<open>Fuel.\<close> Loops over data are structural recursions. A fuel bounds the others. \<open>pre_insert\<close> recurses along the pointers between events, and
  \<open>close_call\<close> along the chain of open calls: the number of events is enough, as pointers lead to earlier events. \<open>dot_ecall_graph\<close> has the fuels \<open>n\<close> and \<open>k\<close> for its worklist, whose theorem
  gives the bound at which it returns. \<open>allowed_loop\<close> has the length of the line, and \<open>sample_poll\<close> needs one round for each record (\<open>sample_poll_ends\<close>).
  \<open>ini_loop\<close> and \<open>tracer_loop\<close> have no fuel: each round moves on in the text, by the termination proofs. The handler of the working set analyzer counts its calls of itself; running out is
  \<open>Diverge\<close>, which is shown to happen only where the code recurses forever. The spinning of the lock is \<open>Diverge\<close> in the sequential model and a step that stays in place in \<open>RwlockConc\<close>.

  \<^bold>\<open>Not modelled.\<close> SQLite and its shell (\<^verbatim>\<open>sqlite3.c\<close>, \<^verbatim>\<open>shell.c\<close>) are vendored; what the sources use of them is an argument, and the queries over
  the tables are definitions on lists of rows. The gnuplot scripts are not part of the programs. Text on the console is modelled as values, where the report is the result, and left out elsewhere.
\<close>

end
